(* ===== verification/Prelude.thy ===== *)
theory Prelude
  imports Main "HOL-Library.Word" "HOL-Library.Monad_Syntax"
begin

text \<open>
  Shared vocabulary of the development: the collections of facts the component
  theories feed (\<open>go_simps\<close>, \<open>js_simps\<close>), the panics of the Go runtime and
  the sum-typed results that carry them, Go's truncating division, the bytes of the
  wire, and the list and map lemmas that several components use.
\<close>

unbundle bit_operations_syntax

named_theorems go_simps \<open>unfolding rules of the models of the Go server\<close>
named_theorems js_simps \<open>unfolding rules of the models of the browser code\<close>

section \<open>Results of Go code\<close>

text \<open>What the Go runtime raises where the server does not check first.\<close>

datatype go_panic = IndexOutOfRange | SliceBounds | DivideByZero | CloseOfClosed
  | SendOnClosed | NilDereference

type_synonym 'a go = "go_panic + 'a"

definition bind_go :: "'a go \<Rightarrow> ('a \<Rightarrow> 'b go) \<Rightarrow> 'b go" where
  "bind_go m f = (case m of Inl p \<Rightarrow> Inl p | Inr x \<Rightarrow> f x)"

lemma bind_go_simps [simp, go_simps]:
  "bind_go (Inl p) f = Inl p"
  "bind_go (Inr x) f = f x"
  by (simp_all add: bind_go_def)

lemma bind_go_Inr: "bind_go m f = Inr y \<longleftrightarrow> (\<exists>x. m = Inr x \<and> f x = Inr y)"
  by (cases m) auto

lemma bind_go_cong [fundef_cong]:
  "m = m' \<Longrightarrow> (\<And>x. m' = Inr x \<Longrightarrow> f x = f' x) \<Longrightarrow> bind_go m f = bind_go m' f'"
  by (cases m') auto

fun fold_go :: "('a \<Rightarrow> 's \<Rightarrow> 's go) \<Rightarrow> 'a list \<Rightarrow> 's \<Rightarrow> 's go" where
  "fold_go f [] s = Inr s"
| "fold_go f (x # xs) s = bind_go (f x s) (fold_go f xs)"

text \<open>An invariant that every iteration keeps, without a panic, holds after the loop.\<close>

lemma fold_go_inv:
  assumes "P s" and "\<And>x s. x \<in> set xs \<Longrightarrow> P s \<Longrightarrow> \<exists>s'. f x s = Inr s' \<and> P s'"
  shows "\<exists>s'. fold_go f xs s = Inr s' \<and> P s'"
  using assms
proof (induction xs arbitrary: s)
  case (Cons x xs)
  then obtain s' where "f x s = Inr s'" "P s'"
    by (meson list.set_intros(1))
  with Cons show ?case
    by simp
qed simp

text \<open>Go's integer division truncates towards zero and panics on a zero divisor.\<close>

definition go_div :: "int \<Rightarrow> int \<Rightarrow> int go" where
  "go_div a b = (if b = 0 then Inl DivideByZero else Inr (sgn a * sgn b * (\<bar>a\<bar> div \<bar>b\<bar>)))"

lemma go_div_pos: "0 \<le> a \<Longrightarrow> 0 < b \<Longrightarrow> go_div a b = Inr (a div b)"
  by (cases "a = 0") (simp_all add: go_div_def)

lemma div_times_bounds:
  fixes w s :: int
  assumes "0 < s"
  shows "(w div s) * s \<le> w" and "w < (w div s) * s + s"
proof -
  have "w = (w div s) * s + w mod s" by simp
  moreover have "0 \<le> w mod s" "w mod s < s" using assms by simp_all
  ultimately show "(w div s) * s \<le> w" and "w < (w div s) * s + s" by linarith+
qed

lemma int_div_eqI:
  fixes w s q :: int
  assumes "0 < s" "q * s \<le> w" "w < q * s + s"
  shows "w div s = q"
  using assms by (intro int_div_pos_eq [where r = "w - q * s"]) (auto simp: mult.commute)

section \<open>Bytes\<close>

type_synonym byte = "8 word"
type_synonym bytes = "byte list"

section \<open>Lists and maps\<close>

definition index_of :: "'a \<Rightarrow> 'a list \<Rightarrow> nat option" where
  "index_of x xs = (if x \<in> set xs then Some (length (takeWhile (\<lambda>y. y \<noteq> x) xs)) else None)"

lemma index_of_simps [simp]:
  "index_of x [] = None"
  "index_of x (y # ys) = (if y = x then Some 0 else map_option Suc (index_of x ys))"
  by (auto simp: index_of_def)

lemma index_of_None: "index_of x xs = None \<longleftrightarrow> x \<notin> set xs"
  by (simp add: index_of_def)

lemma index_of_SomeD: "index_of x xs = Some i \<Longrightarrow> i < length xs \<and> xs ! i = x"
  by (induction xs arbitrary: i) (auto split: if_splits)

definition remove_at :: "nat \<Rightarrow> 'a list \<Rightarrow> 'a list" where
  "remove_at i xs = take i xs @ drop (Suc i) xs"

lemma remove_at_simps [simp]:
  "remove_at 0 (x # xs) = xs"
  "remove_at (Suc i) (x # xs) = x # remove_at i xs"
  "remove_at i [] = []"
  by (simp_all add: remove_at_def)

lemma length_remove_at: "i < length xs \<Longrightarrow> length (remove_at i xs) = length xs - 1"
  by (simp add: remove_at_def)

lemma remove_at_index_of: "index_of x xs = Some i \<Longrightarrow> remove_at i xs = remove1 x xs"
  by (induction xs arbitrary: i) (auto split: if_splits)

lemma card_dom_upd:
  "finite (dom m) \<Longrightarrow> card (dom (m(k \<mapsto> v))) = (if k \<in> dom m then card (dom m) else Suc (card (dom m)))"
  by (auto simp: insert_absorb)

lemma card_dom_del:
  "finite (dom m) \<Longrightarrow> k \<in> dom m \<Longrightarrow> Suc (card (dom (m(k := None)))) = card (dom m)"
  using card_Suc_Diff1 [of "dom m" k] by simp

section \<open>Decimal numerals\<close>

text \<open>\<open>strconv.Itoa\<close>, and the digits of \<open>fmt.Sprintf("%d")\<close>.\<close>

definition digit_char :: "nat \<Rightarrow> char" where
  "digit_char d = char_of (48 + d)"

fun nat_digits :: "nat \<Rightarrow> string" where
  "nat_digits n = (if n < 10 then [digit_char n] else nat_digits (n div 10) @ [digit_char (n mod 10)])"

declare nat_digits.simps [simp del]

definition itoa :: "int \<Rightarrow> string" where
  "itoa i = (if i < 0 then ''-'' @ nat_digits (nat (- i)) else nat_digits (nat i))"

fun digits_value :: "string \<Rightarrow> nat" where
  "digits_value s = foldl (\<lambda>v c. 10 * v + (of_char c - 48)) 0 s"

lemma digit_char_value: "d < 10 \<Longrightarrow> of_char (digit_char d) - (48 :: nat) = d"
  by (simp add: digit_char_def)

lemma digits_value_nat_digits: "digits_value (nat_digits n) = n"
proof (induction n rule: nat_digits.induct)
  case (1 n)
  show ?case
  proof (cases "n < 10")
    case True
    then show ?thesis by (simp add: nat_digits.simps [of n] digit_char_value)
  next
    case False
    with "1" have "foldl (\<lambda>v c. 10 * v + (of_char c - 48)) 0 (nat_digits (n div 10)) = n div 10"
      by simp
    with False show ?thesis
      by (simp add: nat_digits.simps [of n] digit_char_value)
  qed
qed

lemma nat_digits_inj: "nat_digits m = nat_digits n \<longleftrightarrow> m = n"
  by (metis digits_value_nat_digits)

lemma digit_char_not_minus: "d < 10 \<Longrightarrow> digit_char d \<noteq> CHR ''-''"
proof
  assume "d < 10" "digit_char d = CHR ''-''"
  then have "of_char (digit_char d) = (of_char CHR ''-'' :: nat)" by simp
  with \<open>d < 10\<close> show False by (simp add: digit_char_def)
qed

lemma nat_digits_no_minus: "CHR ''-'' \<notin> set (nat_digits n)"
proof (induction n rule: nat_digits.induct)
  case (1 n)
  then show ?case
    by (cases "n < 10") (simp_all add: nat_digits.simps [of n] digit_char_not_minus [symmetric])
qed

lemma itoa_inj: "itoa i = itoa j \<longleftrightarrow> i = j"
  using nat_digits_no_minus
  by (auto simp: itoa_def nat_digits_inj) (metis list.set_intros(1))+

section \<open>Strings as bytes\<close>

definition byte_of_char :: "char \<Rightarrow> byte" where
  "byte_of_char c = word_of_nat (of_char c)"

section \<open>Write-once observations\<close>

text \<open>The contract of a store whose entries, once they have a value, keep it at every step: the
  promises of the console and the outcomes of its dialogs.\<close>

locale write_once =
  fixes holds_at :: "'s \<Rightarrow> 'k \<Rightarrow> 'v \<Rightarrow> bool" and step :: "'e \<Rightarrow> 's \<Rightarrow> 's"
  assumes value_unique: "holds_at s k v \<Longrightarrow> holds_at s k w \<Longrightarrow> v = w"
    and step_keeps: "holds_at s k v \<Longrightarrow> holds_at (step e s) k v"
begin

lemma run_keeps: "holds_at s k v \<Longrightarrow> holds_at (fold step es s) k v"
  by (induction es arbitrary: s) (auto intro: step_keeps)

lemma first_value_wins:
  assumes "holds_at (fold step es s) k v"
  shows "holds_at (fold step (es @ fs) s) k w \<longleftrightarrow> w = v"
proof -
  have "holds_at (fold step (es @ fs) s) k v" using run_keeps [OF assms, of fs] by simp
  then show ?thesis by (auto dest: value_unique)
qed

end

end
