(* ===== verification/Wire.thy ===== *)
theory Wire
  imports Prelude
begin

text \<open>
  The frames of the push protocol (\<^verbatim>\<open>server/hub.go\<close>, \<^verbatim>\<open>client/wsbk.go\<close>): four
  bytes of sequence number, one byte of version, type and origin, and, but for
  acknowledgements, four bytes of length and the body. The server builds frames in
  \<open>send_push_msg_to_peer\<close> and \<open>send_ack_msg_to_peer\<close> and reads them in
  \<open>checkPongMessage\<close>; the client does the converse.

  A Go slice is a backing array and a length: slicing is bounded by the capacity,
  indexing by the length. A message is therefore a pair of the bytes up to the
  capacity and the number of bytes received.
\<close>

section \<open>Big-endian integers\<close>

definition put_uint32 :: "32 word \<Rightarrow> bytes" where
  "put_uint32 w = [ucast (drop_bit 24 w), ucast (drop_bit 16 w), ucast (drop_bit 8 w), ucast w]"

definition get_uint32 :: "bytes \<Rightarrow> 32 word" where
  "get_uint32 bs =
     push_bit 24 (ucast (bs ! 0)) OR push_bit 16 (ucast (bs ! 1)) OR
     push_bit 8 (ucast (bs ! 2)) OR ucast (bs ! 3)"

lemma length_put_uint32 [simp]: "length (put_uint32 w) = 4"
  by (simp add: put_uint32_def)

lemma get_put_uint32 [simp]: "get_uint32 (put_uint32 w @ bs) = w"
proof -
  have "bit (get_uint32 (put_uint32 w @ bs)) n = bit w n" if "n < 32" for n
    using that
    by (cases "24 \<le> n"; cases "16 \<le> n"; cases "8 \<le> n")
       (auto simp: get_uint32_def put_uint32_def bit_simps not_le)
  then show ?thesis
    by (auto intro!: bit_word_eqI simp: bit_simps)
qed

lemma get_put_uint32_only [simp]: "get_uint32 (put_uint32 w) = w"
  using get_put_uint32 [of w "[]"] by simp

lemma get_uint32_take: "4 \<le> length bs \<Longrightarrow> get_uint32 (take 4 bs) = get_uint32 bs"
  by (simp add: get_uint32_def)

section \<open>Building frames\<close>

text \<open>The flag byte: version in the high nibble, type in bits 1 to 3, origin in bit 0.\<close>

definition push_flag :: "bool \<Rightarrow> byte" where
  "push_flag is_br_all =
     (if is_br_all then push_bit 4 1 OR push_bit 3 0 OR 1
      else push_bit 4 1 OR push_bit 1 1 OR 1)"

definition send_push_msg_to_peer :: "32 word \<Rightarrow> bytes \<Rightarrow> bool \<Rightarrow> bytes" where
  "send_push_msg_to_peer ack_seq payload is_br_all =
     put_uint32 ack_seq @ [push_flag is_br_all] @ put_uint32 (of_nat (length payload)) @ payload"

definition send_ack_msg_to_peer :: "32 word \<Rightarrow> bytes" where
  "send_ack_msg_to_peer ack_seq = put_uint32 ack_seq @ [push_bit 4 1 OR push_bit 1 3 OR 1]"

definition send_ack_msg_to_server :: "32 word \<Rightarrow> bytes" where
  "send_ack_msg_to_server ack_seq = put_uint32 ack_seq @ [push_bit 4 1 OR push_bit 1 3 OR 0]"

section \<open>Reading frames\<close>

text \<open>In Go \<open>b & 0xf >> 1\<close> is \<open>(b & 0xf) >> 1\<close>: both operators bind alike, to the left.\<close>

definition frame_ver :: "byte \<Rightarrow> byte" where
  "frame_ver b = drop_bit 4 b"

definition frame_type :: "byte \<Rightarrow> byte" where
  "frame_type b = drop_bit 1 (b AND 15)"

definition frame_origin :: "byte \<Rightarrow> byte" where
  "frame_origin b = b AND 1"

text \<open>The sends on channels one message causes.\<close>

datatype chan_send =
    RecvAckSeq int    \<comment> \<open>\<open>c.recv_ack_seq\<close>, to the connection's \<open>writeRTO\<close>\<close>
  | RecvAckCh int     \<comment> \<open>\<open>hrooms.recv_ack_ch\<close>, to \<open>msg_ack_stat\<close>\<close>
  | NotifyAckQ int    \<comment> \<open>\<open>hrooms.notify_ack_Q\<close>, to \<open>processNotifyMessage\<close>\<close>

definition check_ack :: "32 word \<Rightarrow> byte \<Rightarrow> chan_send list" where
  "check_ack ack_seq msg_type =
     (if msg_type = 3 then [RecvAckSeq (uint ack_seq), RecvAckCh (uint ack_seq)] else [])"

definition check_notify :: "bool \<Rightarrow> bytes \<Rightarrow> nat \<Rightarrow> 32 word \<Rightarrow> byte \<Rightarrow> chan_send list go" where
  "check_notify verbose arr len ack_seq msg_type =
     (if msg_type \<noteq> 2 then Inr []
      else if length arr < 9 then Inl SliceBounds
      else if verbose \<and> len < 9 then Inl SliceBounds
      else Inr [NotifyAckQ (uint ack_seq)])"

definition check_text_message :: "bool \<Rightarrow> bytes \<Rightarrow> nat \<Rightarrow> chan_send list go" where
  "check_text_message verbose arr len =
     (if length arr < 4 then Inl SliceBounds
      else let ack_seq = get_uint32 (take 4 arr) in
        if len \<le> 4 then Inl IndexOutOfRange
        else let msg_type = frame_type (arr ! 4) in
          bind_go (check_notify verbose arr len ack_seq msg_type)
            (\<lambda>notify. Inr (check_ack ack_seq msg_type @ notify)))"

text \<open>What \<open>ReadMessage\<close> hands over: a failed read ends the loop.\<close>

datatype inbound = ReadErr | TextMessage bytes nat | OtherMessage bytes nat

fun checkPongMessage :: "bool \<Rightarrow> inbound list \<Rightarrow> (chan_send list \<times> bool) go" where
  "checkPongMessage verbose [] = Inr ([], False)"
| "checkPongMessage verbose (ReadErr # ms) = Inr ([], True)"
| "checkPongMessage verbose (OtherMessage arr len # ms) = checkPongMessage verbose ms"
| "checkPongMessage verbose (TextMessage arr len # ms) =
     bind_go (check_text_message verbose arr len) (\<lambda>out.
     bind_go (checkPongMessage verbose ms) (\<lambda>(outs, closed). Inr (out @ outs, closed)))"

text \<open>The client's reaction to a text message with \<open>ack_rto\<close> on: the bytes it writes back.\<close>

definition client_on_text :: "bytes \<Rightarrow> nat \<Rightarrow> bytes list go" where
  "client_on_text arr len =
     (if length arr < 4 then Inl SliceBounds
      else if len \<le> 4 then Inl IndexOutOfRange
      else let msg_type = frame_type (arr ! 4) in
        if msg_type = 3 then Inr []
        else if length arr < 9 then Inl SliceBounds
        else if msg_type = 1 then
          (if len < 9 then Inl SliceBounds
           else Inr [send_ack_msg_to_server (get_uint32 (take 4 arr))])
        else Inr [])"

section \<open>Flag bytes\<close>

lemma push_flag_fields [simp]:
  "frame_ver (push_flag b) = 1"
  "frame_type (push_flag b) = (if b then 0 else 1)"
  "frame_origin (push_flag b) = 1"
  by (simp_all add: push_flag_def frame_ver_def frame_type_def frame_origin_def)

lemma ack_flag_fields [simp]:
  "frame_type 22 = 3"
  "frame_type 23 = 3"
  by (simp_all add: frame_type_def)

lemma nth_after_uint32 [simp]: "(put_uint32 w @ b # bs) ! 4 = b"
  by (simp add: nth_append)

lemma drop_uint32 [simp]: "drop 5 (put_uint32 w @ b # bs) = bs"
  by simp

lemmas frame_defs = send_push_msg_to_peer_def send_ack_msg_to_peer_def
  send_ack_msg_to_server_def

section \<open>The two ends of the wire\<close>

lemma client_acks_push:
  assumes "len = length (send_push_msg_to_peer s p False)"
  shows "client_on_text (send_push_msg_to_peer s p False @ spare) len =
    Inr [send_ack_msg_to_server s]"
  using assms by (simp add: client_on_text_def frame_defs)

lemma client_ignores_broadcast:
  assumes "len = length (send_push_msg_to_peer s p True)"
  shows "client_on_text (send_push_msg_to_peer s p True @ spare) len = Inr []"
  using assms by (simp add: client_on_text_def frame_defs)

lemma server_reads_ack:
  assumes "len = length (send_ack_msg_to_server s)"
  shows "check_text_message verbose (send_ack_msg_to_server s @ spare) len =
    Inr [RecvAckSeq (uint s), RecvAckCh (uint s)]"
  using assms
  by (simp add: check_text_message_def check_ack_def check_notify_def send_ack_msg_to_server_def)

lemma checkPongMessage_ack_first:
  assumes "len = length (send_ack_msg_to_server s)"
  shows "checkPongMessage verbose [TextMessage (send_ack_msg_to_server s @ spare) len, ReadErr] =
    Inr ([RecvAckSeq (uint s), RecvAckCh (uint s)], True)"
  using assms by (simp add: server_reads_ack)

lemma check_text_message_total:
  assumes "9 \<le> len" "len \<le> length arr"
  shows "\<exists>out. check_text_message verbose arr len = Inr out"
  using assms by (simp add: check_text_message_def check_notify_def Let_def)

section \<open>Properties\<close>

text \<open>C4: The acknowledgement loop closes. A message pushed to one peer with sequence
  number \<open>s\<close>, read by the client, makes the client write one acknowledgement frame;
  the server, reading it, hands exactly \<open>s\<close> to the connection's retransmission queue
  and to the statistics, whatever follows the frame in the receive buffers. A message
  to all peers makes the client write nothing.\<close>

theorem push_ack_round_trip:
  "(\<exists>ack. client_on_text (send_push_msg_to_peer s payload False @ spare)
        (length (send_push_msg_to_peer s payload False)) = Inr [ack] \<and>
      checkPongMessage verbose [TextMessage (ack @ spare') (length ack), ReadErr] =
        Inr ([RecvAckSeq (uint s), RecvAckCh (uint s)], True)) \<and>
   client_on_text (send_push_msg_to_peer s payload True @ spare)
      (length (send_push_msg_to_peer s payload True)) = Inr []"
  by (simp add: client_acks_push checkPongMessage_ack_first client_ignores_broadcast
      del: checkPongMessage.simps)

text \<open>What the server does with an inbound text message depends on its length first. A
  message of at most four bytes panics (the flag byte is read without a check), and the
  panic ends the read loop whatever was received before it; a message of nine bytes or
  more never panics, with verbose logging or without.\<close>

lemma short_message_panics:
  assumes "len \<le> length arr"
  shows "(len \<le> 4 \<longrightarrow> (\<exists>p. checkPongMessage verbose (TextMessage arr len # ms) = Inl p)) \<and>
    (9 \<le> len \<longrightarrow> (\<exists>out. checkPongMessage verbose [TextMessage arr len] = Inr (out, False)))"
proof (intro conjI impI)
  show "\<exists>p. checkPongMessage verbose (TextMessage arr len # ms) = Inl p" if "len \<le> 4"
    using that by (simp add: check_text_message_def Let_def)
  show "\<exists>out. checkPongMessage verbose [TextMessage arr len] = Inr (out, False)" if "9 \<le> len"
    using check_text_message_total [OF that assms, of verbose] by auto
qed

lemma short_message_panics_witness:
  "(\<exists>p. checkPongMessage False [TextMessage [104, 105, 0, 0, 0, 0, 0, 0, 0, 0] 2] = Inl p) \<and>
   (\<exists>out. checkPongMessage True [TextMessage (replicate 9 0) 9] = Inr (out, False))"
  using short_message_panics [of 2 "[104, 105, 0, 0, 0, 0, 0, 0, 0, 0]" False "[]"]
    short_message_panics [of 9 "replicate 9 0" True "[]"] by simp

end
