(* ===== verification/Rto.thy ===== *)
theory Rto
  imports Wire
begin

text \<open>
  The writer goroutine of a connection with acknowledgements on (\<open>writeRTO\<close> of
  \<^verbatim>\<open>server/hub.go\<close>): the queue of pushed messages that wait for an acknowledgement,
  the one-second ticker that counts them down, retransmits and drops them, and the
  acknowledgements that remove them. One step is one arm of the \<open>select\<close>.

  A Go map is iterated in an order the runtime picks, so a tick carries the order in
  which it visits the keys of \<open>write_msg_Q\<close>.
\<close>

section \<open>State\<close>

record write_msg_t =
  msg_body :: bytes
  retry_times :: int
  wait_ttl :: int

record push_msg_t =
  msg_id :: int
  push_body :: bytes
  is_br_all :: bool

datatype ws_write = WText bytes | WPing | WClose

record rto_conn =
  write_msg_Q :: "int \<rightharpoonup> write_msg_t"
  ws_out :: "ws_write list"       \<comment> \<open>what \<open>c.write\<close> was called with, oldest first\<close>
  send_msg_ch :: "int list"       \<comment> \<open>sends on \<open>hrooms.send_msg_ch\<close>, oldest first\<close>
  rto_running :: bool

record rto_cfg =
  max_retry_ttl :: int
  max_wait_ttl :: int

datatype rto_event =
    Send push_msg_t | SendClosed | PingTick bool | AckSeq int | RtoTick "int list"

definition rto_init :: rto_conn where
  "rto_init = \<lparr>write_msg_Q = Map.empty, ws_out = [], send_msg_ch = [], rto_running = True\<rparr>"

section \<open>The arms of the select\<close>

definition ws_text :: "int \<Rightarrow> bytes \<Rightarrow> bool \<Rightarrow> rto_conn \<Rightarrow> rto_conn" where
  "ws_text seq body br c =
     c\<lparr>ws_out := ws_out c @ [WText (send_push_msg_to_peer (word_of_int seq) body br)]\<rparr>"

definition rto_send :: "rto_cfg \<Rightarrow> push_msg_t \<Rightarrow> rto_conn \<Rightarrow> rto_conn" where
  "rto_send cfg m c =
     (if is_br_all m then ws_text (msg_id m) (push_body m) True c
      else
        let next_write_msg = \<lparr>msg_body = push_body m, retry_times = max_retry_ttl cfg,
                              wait_ttl = max_wait_ttl cfg\<rparr>;
            c1 = c\<lparr>write_msg_Q := (write_msg_Q c)(msg_id m \<mapsto> next_write_msg)\<rparr>;
            c2 = ws_text (msg_id m) (push_body m) False c1
        in c2\<lparr>send_msg_ch := send_msg_ch c2 @ [msg_id m]\<rparr>)"

definition rto_ack :: "int \<Rightarrow> rto_conn \<Rightarrow> rto_conn" where
  "rto_ack ack_seq c =
     (if write_msg_Q c ack_seq \<noteq> None
      then c\<lparr>write_msg_Q := (write_msg_Q c)(ack_seq := None)\<rparr> else c)"

text \<open>
  One iteration of the ticker's loop. The entry is a pointer: the retransmission reads
  and writes it even when it has just been removed from the map.
\<close>

definition rto_visit :: "rto_cfg \<Rightarrow> int \<Rightarrow> rto_conn \<Rightarrow> rto_conn go" where
  "rto_visit cfg ack_seq c =
     (case write_msg_Q c ack_seq of
        None \<Rightarrow> Inr c
      | Some m \<Rightarrow>
          let msg = m\<lparr>wait_ttl := wait_ttl m - 1\<rparr>;
              dropped = wait_ttl msg \<le> 0;
              Q = (write_msg_Q c)(ack_seq := (if dropped then None else Some msg))
          in bind_go (go_div (max_wait_ttl cfg) (max_retry_ttl cfg)) (\<lambda>gap.
             if wait_ttl msg < (retry_times msg - 1) * gap then
               let msg' = msg\<lparr>retry_times := retry_times msg - 1\<rparr>;
                   Q' = Q(ack_seq := (if dropped then None else Some msg'));
                   c1 = ws_text ack_seq (msg_body msg) False (c\<lparr>write_msg_Q := Q'\<rparr>)
               in Inr (c1\<lparr>send_msg_ch := send_msg_ch c1 @ [ack_seq]\<rparr>)
             else Inr (c\<lparr>write_msg_Q := Q\<rparr>)))"

definition rto_tick :: "rto_cfg \<Rightarrow> int list \<Rightarrow> rto_conn \<Rightarrow> rto_conn go" where
  "rto_tick cfg order c = fold_go (rto_visit cfg) order c"

definition rto_ping :: "bool \<Rightarrow> rto_conn \<Rightarrow> rto_conn" where
  "rto_ping ok c =
     (let c1 = c\<lparr>ws_out := ws_out c @ [WPing]\<rparr> in if ok then c1 else c1\<lparr>rto_running := False\<rparr>)"

definition rto_closed :: "rto_conn \<Rightarrow> rto_conn" where
  "rto_closed c = c\<lparr>ws_out := ws_out c @ [WClose], rto_running := False\<rparr>"

fun writeRTO_step :: "rto_cfg \<Rightarrow> rto_event \<Rightarrow> rto_conn \<Rightarrow> rto_conn go" where
  "writeRTO_step cfg (Send m) c = Inr (rto_send cfg m c)"
| "writeRTO_step cfg SendClosed c = Inr (rto_closed c)"
| "writeRTO_step cfg (PingTick ok) c = Inr (rto_ping ok c)"
| "writeRTO_step cfg (AckSeq s) c = Inr (rto_ack s c)"
| "writeRTO_step cfg (RtoTick order) c = rto_tick cfg order c"

fun writeRTO :: "rto_cfg \<Rightarrow> rto_event list \<Rightarrow> rto_conn \<Rightarrow> rto_conn go" where
  "writeRTO cfg [] c = Inr c"
| "writeRTO cfg (e # es) c =
     (if rto_running c then bind_go (writeRTO_step cfg e c) (writeRTO cfg es) else Inr c)"

section \<open>The state of one queue entry\<close>

text \<open>What a tick sees and changes of the message with sequence number \<open>k\<close>.\<close>

definition sends_of :: "int \<Rightarrow> rto_conn \<Rightarrow> nat" where
  "sends_of k c = count_list (send_msg_ch c) k"

lemma ws_text_frame [simp]:
  "write_msg_Q (ws_text k b r c) = write_msg_Q c"
  "send_msg_ch (ws_text k b r c) = send_msg_ch c"
  "rto_running (ws_text k b r c) = rto_running c"
  by (simp_all add: ws_text_def)

lemma rto_visit_other:
  assumes "rto_visit cfg j c = Inr c'" "j \<noteq> k"
  shows "write_msg_Q c' k = write_msg_Q c k \<and> sends_of k c' = sends_of k c"
  using assms
  by (auto simp: rto_visit_def sends_of_def bind_go_Inr Let_def split: option.splits if_splits)

lemma rto_visit_running:
  "rto_visit cfg j c = Inr c' \<Longrightarrow> rto_running c' = rto_running c"
  by (auto simp: rto_visit_def bind_go_Inr Let_def split: option.splits if_splits)

lemma rto_visit_returns:
  "max_retry_ttl cfg \<noteq> 0 \<Longrightarrow> \<exists>c'. rto_visit cfg j c = Inr c'"
  by (auto simp: rto_visit_def go_div_def Let_def split: option.splits)

text \<open>A tick that visits distinct keys acts on \<open>k\<close> exactly as its one visit of \<open>k\<close>.\<close>

lemma fold_visit_other:
  assumes "fold_go (rto_visit cfg) js c = Inr c'" "k \<notin> set js"
  shows "write_msg_Q c' k = write_msg_Q c k \<and> sends_of k c' = sends_of k c"
  using assms
  by (induction js arbitrary: c) (auto simp: bind_go_Inr dest: rto_visit_other [where k = k])

lemma fold_go_append:
  "fold_go f (xs @ ys) s = bind_go (fold_go f xs s) (fold_go f ys)"
  by (induction xs arbitrary: s) (auto simp: bind_go_def split: sum.splits)

lemma fold_visit_returns:
  "max_retry_ttl cfg \<noteq> 0 \<Longrightarrow>
    \<exists>c'. fold_go (rto_visit cfg) js c = Inr c' \<and> rto_running c' = rto_running c"
proof (induction js arbitrary: c)
  case (Cons j js)
  then obtain c1 where "rto_visit cfg j c = Inr c1"
    using rto_visit_returns by blast
  with Cons.IH [OF Cons.prems, of c1] rto_visit_running [of cfg j c c1] show ?case
    by auto
qed simp

section \<open>The countdown\<close>

text \<open>
  With \<open>R\<close> retries and a lifetime of \<open>W\<close> ticks, the gap between two retries is \<open>W div R\<close> ticks. An entry with
  \<open>w\<close> ticks left has \<open>rto_left\<close> retries left, and \<open>R\<close> minus that many were spent.
\<close>

definition rto_left :: "rto_cfg \<Rightarrow> int \<Rightarrow> int" where
  "rto_left cfg w =
     1 + min (max_retry_ttl cfg - 1) (w div (max_wait_ttl cfg div max_retry_ttl cfg))"

definition entry_ok :: "rto_cfg \<Rightarrow> int \<Rightarrow> int \<Rightarrow> rto_conn \<Rightarrow> bool" where
  "entry_ok cfg k w c \<longleftrightarrow>
     (\<exists>m. write_msg_Q c k = Some m \<and> wait_ttl m = w \<and> retry_times m = rto_left cfg w) \<and>
     int (sends_of k c) = 1 + max_retry_ttl cfg - rto_left cfg w"

definition entry_gone :: "rto_cfg \<Rightarrow> int \<Rightarrow> rto_conn \<Rightarrow> bool" where
  "entry_gone cfg k c \<longleftrightarrow> write_msg_Q c k = None \<and> int (sends_of k c) = max_retry_ttl cfg"

definition good_cfg :: "rto_cfg \<Rightarrow> bool" where
  "good_cfg cfg \<longleftrightarrow> 1 \<le> max_retry_ttl cfg \<and> max_retry_ttl cfg \<le> max_wait_ttl cfg"

lemma good_cfg_slice:
  assumes "good_cfg cfg"
  shows "go_div (max_wait_ttl cfg) (max_retry_ttl cfg) =
      Inr (max_wait_ttl cfg div max_retry_ttl cfg)"
    and "1 \<le> max_wait_ttl cfg div max_retry_ttl cfg"
proof -
  show "go_div (max_wait_ttl cfg) (max_retry_ttl cfg) =
      Inr (max_wait_ttl cfg div max_retry_ttl cfg)"
    using assms by (simp add: good_cfg_def go_div_pos)
  show "1 \<le> max_wait_ttl cfg div max_retry_ttl cfg"
    using assms by (simp add: good_cfg_def pos_imp_zdiv_pos_iff int_one_le_iff_zero_less)
qed

text \<open>One tick less loses a retry exactly when a gap is passed.\<close>

lemma div_pred_step:
  fixes w s :: int
  assumes "1 \<le> s" "1 \<le> w"
  shows "(w - 1) div s = (if w - 1 < (w div s) * s then w div s - 1 else w div s)"
proof -
  have b: "(w div s) * s \<le> w" "w < (w div s) * s + s"
    using assms by (simp_all add: div_times_bounds)
  show ?thesis
  proof (cases "w - 1 < (w div s) * s")
    case True
    have "(w - 1) div s = w div s - 1"
      using b assms True by (intro int_div_eqI) (auto simp: left_diff_distrib)
    with True show ?thesis by simp
  next
    case False
    have "(w - 1) div s = w div s"
      using b assms False by (intro int_div_eqI) auto
    with False show ?thesis by simp
  qed
qed

lemma rto_left_step:
  assumes "good_cfg cfg" "1 \<le> w" and gap: "gap = max_wait_ttl cfg div max_retry_ttl cfg"
  shows "rto_left cfg (w - 1) =
    (if w - 1 < (rto_left cfg w - 1) * gap then rto_left cfg w - 1 else rto_left cfg w)"
proof -
  have s: "1 \<le> gap"
    using good_cfg_slice(2) [OF assms(1)] by (simp only: gap)
  define R d where "R = max_retry_ttl cfg - 1" and "d = w div gap"
  have R: "0 \<le> R" using assms(1) by (simp add: R_def good_cfg_def)
  have d: "0 \<le> d" using assms(2) s by (simp add: d_def pos_imp_zdiv_nonneg_iff)
  have step: "(w - 1) div gap = (if w - 1 < d * gap then d - 1 else d)"
    unfolding d_def by (rule div_pred_step [OF s assms(2)])
  have left: "rto_left cfg w = 1 + min R d"
    by (simp add: rto_left_def R_def d_def gap)
  have left': "rto_left cfg (w - 1) = 1 + min R ((w - 1) div gap)"
    by (simp add: rto_left_def R_def gap)
  show ?thesis
  proof (cases "d \<le> R")
    case True
    then show ?thesis using step left left' by (simp add: min_def)
  next
    case False
    have "d * gap \<le> w"
      using s unfolding d_def by (simp add: div_times_bounds)
    moreover have "R * gap \<le> (d - 1) * gap"
      using False s by (intro mult_right_mono) auto
    ultimately have "\<not> w - 1 < R * gap"
      using s by (simp add: left_diff_distrib)
    then show ?thesis
      using False step left left' by (auto simp: min_def)
  qed
qed

lemma rto_left_0: "good_cfg cfg \<Longrightarrow> rto_left cfg 0 = 1"
  by (simp add: rto_left_def good_cfg_def)

lemma rto_left_full: "good_cfg cfg \<Longrightarrow> rto_left cfg (max_wait_ttl cfg) = max_retry_ttl cfg"
proof -
  assume g: "good_cfg cfg"
  let ?s = "max_wait_ttl cfg div max_retry_ttl cfg"
  have "max_retry_ttl cfg * ?s \<le> max_wait_ttl cfg"
    using g div_times_bounds(1) [of "max_retry_ttl cfg" "max_wait_ttl cfg"]
    by (simp add: good_cfg_def mult.commute)
  then have "(max_retry_ttl cfg * ?s) div ?s \<le> max_wait_ttl cfg div ?s"
    using good_cfg_slice(2) [OF g] by (intro zdiv_mono1) auto
  then have "max_retry_ttl cfg \<le> max_wait_ttl cfg div ?s"
    using good_cfg_slice(2) [OF g] by simp
  then show ?thesis by (simp add: rto_left_def)
qed

lemma rto_visit_entry:
  assumes "good_cfg cfg" "1 \<le> w" "entry_ok cfg k w c" "rto_visit cfg k c = Inr c'"
  shows "if w = 1 then entry_gone cfg k c' else entry_ok cfg k (w - 1) c'"
proof -
  from assms(3) obtain m where m: "write_msg_Q c k = Some m" "wait_ttl m = w"
      "retry_times m = rto_left cfg w"
    and n: "int (sends_of k c) = 1 + max_retry_ttl cfg - rto_left cfg w"
    by (auto simp: entry_ok_def)
  note step = rto_left_step [OF assms(1,2) refl]
  show ?thesis
  proof (cases "w = 1")
    case True
    then have "rto_left cfg w - (if 0 < (rto_left cfg w - 1) *
        (max_wait_ttl cfg div max_retry_ttl cfg) then 1 else 0) = 1"
      using step rto_left_0 [OF assms(1)] by (simp split: if_splits)
    with assms(4) m n True show ?thesis
      by (auto simp: rto_visit_def good_cfg_slice(1) [OF assms(1)] entry_gone_def sends_of_def
          Let_def split: if_splits)
  next
    case False
    with assms(2) have "\<not> w - 1 \<le> 0" by simp
    with assms(4) m n step False show ?thesis
      by (auto simp: rto_visit_def good_cfg_slice(1) [OF assms(1)] entry_ok_def sends_of_def
          Let_def split: if_splits)
  qed
qed

text \<open>A full tick visits every queued key once; the entry of \<open>k\<close> ages by one.\<close>

lemma rto_tick_entry:
  assumes "good_cfg cfg" "1 \<le> w" "entry_ok cfg k w c" "distinct order" "k \<in> set order"
    and "rto_running c"
  shows "\<exists>c'. rto_tick cfg order c = Inr c' \<and> rto_running c' \<and>
    (if w = 1 then entry_gone cfg k c' else entry_ok cfg k (w - 1) c')"
proof -
  have nz: "max_retry_ttl cfg \<noteq> 0"
    using assms(1) by (simp add: good_cfg_def)
  obtain xs ys where order: "order = xs @ k # ys" "k \<notin> set xs" "k \<notin> set ys"
    using assms(4,5) by (metis distinct.simps(2) distinct_append not_distinct_conv_prefix split_list_first)
  obtain c1 where c1: "fold_go (rto_visit cfg) xs c = Inr c1" "rto_running c1"
    using fold_visit_returns [OF nz] assms(6) by metis
  obtain c2 where c2: "rto_visit cfg k c1 = Inr c2"
    using rto_visit_returns [OF nz] by blast
  obtain c3 where c3: "fold_go (rto_visit cfg) ys c2 = Inr c3" "rto_running c3 = rto_running c2"
    using fold_visit_returns [OF nz] by blast
  have "entry_ok cfg k w c1"
    using assms(3) fold_visit_other [OF c1(1) order(2)] by (simp add: entry_ok_def)
  from rto_visit_entry [OF assms(1,2) this c2]
  have "if w = 1 then entry_gone cfg k c3 else entry_ok cfg k (w - 1) c3"
    using fold_visit_other [OF c3(1) order(3)]
    by (auto simp: entry_ok_def entry_gone_def split: if_splits)
  then show ?thesis
    using c1 c2 c3 rto_visit_running [OF c2]
    by (simp add: rto_tick_def order fold_go_append)
qed

fun full_ticks :: "rto_cfg \<Rightarrow> int \<Rightarrow> rto_event list \<Rightarrow> rto_conn \<Rightarrow> bool" where
  "full_ticks cfg k [] c = True"
| "full_ticks cfg k (RtoTick order # es) c =
     (distinct order \<and> (write_msg_Q c k \<noteq> None \<longrightarrow> k \<in> set order) \<and>
      (case rto_tick cfg order c of Inl _ \<Rightarrow> False | Inr c' \<Rightarrow> full_ticks cfg k es c'))"
| "full_ticks cfg k (_ # es) c = False"

lemma rto_countdown:
  assumes "good_cfg cfg" "entry_ok cfg k w c" "rto_running c" "0 < w"
    and "full_ticks cfg k es c" "int (length es) \<le> w"
  shows "\<exists>c'. writeRTO cfg es c = Inr c' \<and>
    (if int (length es) = w then entry_gone cfg k c'
     else entry_ok cfg k (w - int (length es)) c')"
  using assms(2-)
proof (induction es arbitrary: c w)
  case (Cons e es)
  from Cons.prems(4) obtain order where e: "e = RtoTick order"
    by (cases e) auto
  with Cons.prems(1,4) have o: "distinct order" "k \<in> set order"
    by (auto simp: entry_ok_def)
  from rto_tick_entry [OF assms(1) _ Cons.prems(1) o Cons.prems(2)] Cons.prems(3)
  obtain c1 where c1: "rto_tick cfg order c = Inr c1" "rto_running c1"
    "if w = 1 then entry_gone cfg k c1 else entry_ok cfg k (w - 1) c1"
    by auto
  show ?case
  proof (cases "w = 1")
    case True
    with Cons.prems(5) have "es = []" by simp
    with True c1 e Cons.prems(2) show ?thesis by simp
  next
    case False
    with c1 Cons.prems(3,4,5) e
    have "\<exists>c'. writeRTO cfg es c1 = Inr c' \<and>
        (if int (length es) = w - 1 then entry_gone cfg k c'
         else entry_ok cfg k (w - 1 - int (length es)) c')"
      by (intro Cons.IH) auto
    with c1 e Cons.prems(2) show ?thesis
      by (auto simp: algebra_simps)
  qed
qed simp

lemma rto_send_entry:
  assumes "good_cfg cfg" "\<not> is_br_all m" "sends_of (msg_id m) c = 0"
  shows "entry_ok cfg (msg_id m) (max_wait_ttl cfg) (rto_send cfg m c)"
  using assms rto_left_full [OF assms(1)]
  by (simp add: entry_ok_def rto_send_def sends_of_def Let_def)

section \<open>Acknowledged messages\<close>

definition not_resent :: "int \<Rightarrow> rto_event \<Rightarrow> bool" where
  "not_resent k e = (case e of Send m \<Rightarrow> msg_id m \<noteq> k | _ \<Rightarrow> True)"

lemma rto_visit_absent:
  assumes "write_msg_Q c k = None" "rto_visit cfg j c = Inr c'"
  shows "write_msg_Q c' k = None \<and> sends_of k c' = sends_of k c"
  using assms rto_visit_other [OF assms(2), of k]
  by (cases "j = k") (auto simp: rto_visit_def)

lemma rto_tick_absent:
  assumes "write_msg_Q c k = None" "rto_tick cfg order c = Inr c'"
  shows "write_msg_Q c' k = None \<and> sends_of k c' = sends_of k c"
  using assms unfolding rto_tick_def
  by (induction order arbitrary: c) (auto simp: bind_go_Inr dest: rto_visit_absent)

lemma writeRTO_step_absent:
  assumes "write_msg_Q c k = None" "not_resent k e" "writeRTO_step cfg e c = Inr c'"
  shows "write_msg_Q c' k = None \<and> sends_of k c' = sends_of k c"
proof (cases e)
  case (RtoTick order)
  with assms show ?thesis by (simp add: rto_tick_absent)
qed (use assms in \<open>auto simp: not_resent_def rto_send_def rto_closed_def rto_ping_def rto_ack_def
      sends_of_def Let_def ws_text_def split: if_splits\<close>)

lemma writeRTO_absent:
  assumes "write_msg_Q c k = None" "list_all (not_resent k) es" "writeRTO cfg es c = Inr c'"
  shows "write_msg_Q c' k = None \<and> sends_of k c' = sends_of k c"
  using assms
proof (induction es arbitrary: c)
  case (Cons e es)
  show ?case
  proof (cases "rto_running c")
    case True
    with Cons.prems(3) obtain c1 where c1: "writeRTO_step cfg e c = Inr c1"
        "writeRTO cfg es c1 = Inr c'"
      by (auto simp: bind_go_Inr)
    from writeRTO_step_absent [OF Cons.prems(1) _ c1(1)] Cons.prems(2)
    have "write_msg_Q c1 k = None \<and> sends_of k c1 = sends_of k c" by simp
    with Cons.IH [of c1] Cons.prems(2) c1(2) show ?thesis by simp
  next
    case False
    with Cons.prems show ?thesis by simp
  qed
qed simp

section \<open>Properties\<close>


definition demo_cfg :: rto_cfg where
  "demo_cfg = \<lparr>max_retry_ttl = 2, max_wait_ttl = 4\<rparr>"

definition demo_msg :: push_msg_t where
  "demo_msg = \<lparr>msg_id = 7, push_body = [104, 105], is_br_all = False\<rparr>"

lemmas rto_eval = demo_cfg_def demo_msg_def rto_init_def rto_send_def rto_tick_def rto_visit_def
  rto_ack_def ws_text_def go_div_def sends_of_def good_cfg_def not_resent_def




text \<open>With \<open>max_retry_ttl = 0\<close> in the configuration, which \<open>hub_rooms.run\<close> accepts
  unchecked, the first tick that visits a queued message divides by zero and panics.\<close>

lemma rto_zero_retry_panics:
  assumes "max_retry_ttl cfg = 0" "write_msg_Q c k \<noteq> None" "k \<in> set order"
  shows "writeRTO_step cfg (RtoTick order) c = Inl DivideByZero"
proof -
  have alt: "rto_visit cfg j c = Inl DivideByZero \<or> rto_visit cfg j c = Inr c" for j
    using assms(1) by (auto simp: rto_visit_def go_div_def Let_def split: option.splits)
  have hit: "rto_visit cfg k c = Inl DivideByZero"
    using assms(1,2) by (auto simp: rto_visit_def go_div_def Let_def)
  from assms(3) have "fold_go (rto_visit cfg) order c = Inl DivideByZero"
  proof (induction order)
    case (Cons j js)
    show ?case
    proof (cases "rto_visit cfg j c = Inl DivideByZero")
      case False
      with hit Cons.prems have "k \<in> set js" by auto
      with Cons.IH alt [of j] False show ?thesis by simp
    qed simp
  qed simp
  then show ?thesis by (simp add: rto_tick_def)
qed

lemma rto_zero_retry_panics_witness:
  "writeRTO_step \<lparr>max_retry_ttl = 0, max_wait_ttl = 64\<rparr> (RtoTick [7])
     (rto_send demo_cfg demo_msg rto_init) = Inl DivideByZero"
  by (rule rto_zero_retry_panics [where k = 7]) (simp_all add: rto_eval Let_def)

end
