(* ===== verification/Ring.thy ===== *)
theory Ring
  imports Prelude
begin

text \<open>
  The consistent-hash ring that assigns a peer to a room
  (\<^verbatim>\<open>vendor/github.com/consistent/consistent.go\<close>): the circle of replica hashes, its sorted
  index, and the binary search of \<open>Get\<close>. The circle is kept as an association list, the
  sorted slice of hashes beside it as the code does.
\<close>

section \<open>CRC-32 (IEEE), reflected\<close>

fun crc32_bits :: "nat \<Rightarrow> 32 word \<Rightarrow> 32 word" where
  "crc32_bits 0 c = c"
| "crc32_bits (Suc n) c =
     crc32_bits n (if bit c 0 then drop_bit 1 c XOR 0xEDB88320 else drop_bit 1 c)"

definition crc32_byte :: "byte \<Rightarrow> 32 word \<Rightarrow> 32 word" where
  "crc32_byte b c = crc32_bits 8 (c XOR ucast b)"

definition checksumIEEE :: "bytes \<Rightarrow> 32 word" where
  "checksumIEEE bs = NOT (fold crc32_byte bs (NOT 0))"

section \<open>The ring\<close>

record consistent =
  circle :: "(32 word \<times> string) list"
  members :: "string list"
  sortedHashes :: "32 word list"
  numberOfReplicas :: nat
  ring_count :: int

definition ring_new :: consistent where
  "ring_new = \<lparr>circle = [], members = [], sortedHashes = [], numberOfReplicas = 20, ring_count = 0\<rparr>"

definition eltKey :: "string \<Rightarrow> nat \<Rightarrow> string" where
  "eltKey elt idx = itoa (int idx) @ elt"

text \<open>Both branches of \<open>hashKey\<close> hash the bytes of the key; the scratch buffer only saves an allocation.\<close>

definition hashKey :: "string \<Rightarrow> 32 word" where
  "hashKey key = checksumIEEE (map byte_of_char key)"

definition circle_put :: "32 word \<Rightarrow> string \<Rightarrow> (32 word \<times> string) list \<Rightarrow> (32 word \<times> string) list" where
  "circle_put h elt xs = (h, elt) # filter (\<lambda>p. fst p \<noteq> h) xs"

definition updateSortedHashes :: "consistent \<Rightarrow> consistent" where
  "updateSortedHashes c = c\<lparr>sortedHashes := sort (map fst (circle c))\<rparr>"

definition ring_add :: "string \<Rightarrow> consistent \<Rightarrow> consistent" where
  "ring_add elt c =
     (let c1 = c\<lparr>circle := fold (\<lambda>i. circle_put (hashKey (eltKey elt i)) elt)
                             [0..<numberOfReplicas c] (circle c)\<rparr>;
          c2 = updateSortedHashes (c1\<lparr>members := List.insert elt (members c1)\<rparr>)
      in c2\<lparr>ring_count := ring_count c2 + 1\<rparr>)"

definition ring_remove :: "string \<Rightarrow> consistent \<Rightarrow> consistent" where
  "ring_remove elt c =
     (let c1 = c\<lparr>circle := fold (\<lambda>i. filter (\<lambda>p. fst p \<noteq> hashKey (eltKey elt i)))
                             [0..<numberOfReplicas c] (circle c)\<rparr>;
          c2 = updateSortedHashes (c1\<lparr>members := removeAll elt (members c1)\<rparr>)
      in c2\<lparr>ring_count := ring_count c2 - 1\<rparr>)"

text \<open>\<open>sort.Search\<close>: binary search for the first index where \<open>f\<close> holds.\<close>

function go_search :: "(nat \<Rightarrow> bool) \<Rightarrow> nat \<Rightarrow> nat \<Rightarrow> nat" where
  "go_search f i j =
     (if i < j then
        let h = (i + j) div 2 in if \<not> f h then go_search f (h + 1) j else go_search f i h
      else i)"
  by pat_completeness auto
termination
  by (relation "measure (\<lambda>(f, i, j). j - i)") auto

declare go_search.simps [simp del]

definition ring_search :: "32 word \<Rightarrow> consistent \<Rightarrow> nat" where
  "ring_search key c =
     (let i = go_search (\<lambda>x. key < sortedHashes c ! x) 0 (length (sortedHashes c))
      in if length (sortedHashes c) \<le> i then 0 else i)"

datatype ring_err = ErrEmptyCircle

definition ring_get :: "string \<Rightarrow> consistent \<Rightarrow> ring_err + string" where
  "ring_get name c =
     (if circle c = [] then Inl ErrEmptyCircle
      else Inr (case map_of (circle c) (sortedHashes c ! ring_search (hashKey name) c) of
                  None \<Rightarrow> [] | Some elt \<Rightarrow> elt))"

section \<open>Binary search\<close>

definition mono_from :: "(nat \<Rightarrow> bool) \<Rightarrow> nat \<Rightarrow> bool" where
  "mono_from f n \<longleftrightarrow> (\<forall>x y. x \<le> y \<longrightarrow> y < n \<longrightarrow> f x \<longrightarrow> f y)"

lemma go_search_same [simp]: "go_search f j j = j"
  by (simp add: go_search.simps [of f j j])

lemma go_search_correct:
  assumes "mono_from f n" "i \<le> j" "j \<le> n" "\<forall>x<i. \<not> f x" "\<forall>x. j \<le> x \<longrightarrow> x < n \<longrightarrow> f x"
  shows "let r = go_search f i j in i \<le> r \<and> r \<le> j \<and> (\<forall>x<r. \<not> f x) \<and> (\<forall>x. r \<le> x \<longrightarrow> x < n \<longrightarrow> f x)"
  using assms
proof (induction f i j rule: go_search.induct)
  case (1 f i j)
  show ?case
  proof (cases "i < j")
    case True
    define h where "h = (i + j) div 2"
    have h: "i \<le> h" "h < j" using True by (auto simp: h_def)
    show ?thesis
    proof (cases "f h")
      case fh: True
      have "\<forall>x. h \<le> x \<longrightarrow> x < n \<longrightarrow> f x"
        using "1.prems"(1) fh by (auto simp: mono_from_def)
      with "1.IH"(2) [OF True h_def] fh h "1.prems"
      have "let r = go_search f i h in i \<le> r \<and> r \<le> h \<and> (\<forall>x<r. \<not> f x) \<and> (\<forall>x. r \<le> x \<longrightarrow> x < n \<longrightarrow> f x)"
        by auto
      then show ?thesis
        using True fh h by (simp add: go_search.simps [of f i j] h_def [symmetric] Let_def)
    next
      case fh: False
      have "\<forall>x<h + 1. \<not> f x"
        using "1.prems"(1,3) fh h by (auto simp: mono_from_def less_Suc_eq_le)
      with "1.IH"(1) [OF True h_def fh] h "1.prems"
      have "let r = go_search f (h + 1) j in h + 1 \<le> r \<and> r \<le> j \<and> (\<forall>x<r. \<not> f x) \<and>
          (\<forall>x. r \<le> x \<longrightarrow> x < n \<longrightarrow> f x)"
        by auto
      then show ?thesis
        using True fh h by (simp add: go_search.simps [of f i j] h_def [symmetric] Let_def)
    qed
  next
    case False
    with "1.prems" show ?thesis by (simp add: Let_def)
  qed
qed

lemma go_search_first:
  assumes "mono_from f n"
  shows "go_search f 0 n \<le> n" "\<And>x. x < go_search f 0 n \<Longrightarrow> \<not> f x"
    "\<And>x. go_search f 0 n \<le> x \<Longrightarrow> x < n \<Longrightarrow> f x"
  using go_search_correct [OF assms, of 0 n] by (simp_all add: Let_def)

section \<open>Invariant of the ring\<close>

definition ring_ok :: "consistent \<Rightarrow> bool" where
  "ring_ok c \<longleftrightarrow> distinct (map fst (circle c)) \<and> sortedHashes c = sort (map fst (circle c)) \<and>
     snd ` set (circle c) \<subseteq> set (members c)"

lemma ring_ok_hashes:
  assumes "ring_ok c"
  shows "sorted (sortedHashes c)" "set (sortedHashes c) = fst ` set (circle c)"
    "sortedHashes c = [] \<longleftrightarrow> circle c = []"
  using assms by (simp_all add: ring_ok_def flip: set_empty)

lemma ring_ok_new: "ring_ok ring_new"
  by (simp add: ring_ok_def ring_new_def)

lemma circle_put_ok:
  assumes "distinct (map fst xs)" "snd ` set xs \<subseteq> M" "elt \<in> M"
  shows "distinct (map fst (circle_put h elt xs)) \<and> snd ` set (circle_put h elt xs) \<subseteq> M"
  using assms by (auto simp: circle_put_def distinct_map_filter)

lemma circle_puts_ok:
  assumes "distinct (map fst xs)" "snd ` set xs \<subseteq> M" "elt \<in> M"
  shows "let ys = fold (\<lambda>i. circle_put (h i) elt) is xs in
    distinct (map fst ys) \<and> snd ` set ys \<subseteq> M"
  using assms
proof (induction "is" arbitrary: xs)
  case (Cons i "is")
  from circle_put_ok [OF Cons.prems, of "h i"] Cons.IH [of "circle_put (h i) elt xs"] Cons.prems(3)
  show ?case by simp
qed simp

lemma ring_ok_add: "ring_ok c \<Longrightarrow> ring_ok (ring_add elt c)"
  using circle_puts_ok [of "circle c" "insert elt (set (members c))" elt
      "\<lambda>i. hashKey (eltKey elt i)" "[0..<numberOfReplicas c]"]
  by (auto simp: ring_ok_def ring_add_def updateSortedHashes_def Let_def)

lemma circle_add_nonempty: "0 < numberOfReplicas c \<Longrightarrow> circle (ring_add elt c) \<noteq> []"
proof -
  assume "0 < numberOfReplicas c"
  then obtain n where n: "numberOfReplicas c = Suc n" using gr0_conv_Suc by blast
  show ?thesis
    by (simp add: ring_add_def updateSortedHashes_def Let_def n circle_put_def)
qed

lemma members_add [simp]: "set (members (ring_add elt c)) = insert elt (set (members c))"
  by (simp add: ring_add_def updateSortedHashes_def Let_def)

lemma numberOfReplicas_add [simp]: "numberOfReplicas (ring_add elt c) = numberOfReplicas c"
  by (simp add: ring_add_def updateSortedHashes_def Let_def)

definition ring_of :: "string list \<Rightarrow> consistent" where
  "ring_of elts = fold ring_add elts ring_new"

lemma ring_fold_add:
  assumes "ring_ok c"
  shows "let c' = fold ring_add elts c in
    ring_ok c' \<and> numberOfReplicas c' = numberOfReplicas c \<and>
    set (members c') = set elts \<union> set (members c)"
  using assms
proof (induction elts arbitrary: c)
  case (Cons e es)
  from Cons.IH [OF ring_ok_add [OF Cons.prems, of e]] show ?case by (simp add: Let_def)
qed simp

lemma ring_of_ok:
  "ring_ok (ring_of elts)" "set (members (ring_of elts)) = set elts"
  using ring_fold_add [OF ring_ok_new, of elts]
  by (simp_all add: ring_of_def ring_new_def Let_def)

lemma ring_of_nonempty: "elts \<noteq> [] \<Longrightarrow> circle (ring_of elts) \<noteq> []"
proof -
  assume "elts \<noteq> []"
  then obtain es e where "elts = es @ [e]" by (metis rev_exhaust)
  moreover have "numberOfReplicas (fold ring_add es ring_new) = 20"
    using ring_fold_add [OF ring_ok_new, of es] by (simp add: Let_def ring_new_def)
  ultimately show ?thesis by (simp add: ring_of_def circle_add_nonempty)
qed

text \<open>The index the ring is searched at: the first hash above the key, else the first of all.\<close>

lemma ring_search_correct:
  assumes "sorted (sortedHashes c)" "sortedHashes c \<noteq> []" and i_def: "i = ring_search key c"
  shows "i < length (sortedHashes c) \<and>
    (if \<exists>h \<in> set (sortedHashes c). key < h
     then key < sortedHashes c ! i \<and> (\<forall>h \<in> set (sortedHashes c). key < h \<longrightarrow> sortedHashes c ! i \<le> h)
     else i = 0)"
proof -
  let ?xs = "sortedHashes c" and ?f = "\<lambda>x. key < sortedHashes c ! x"
  define r where "r = go_search ?f 0 (length ?xs)"
  have "mono_from ?f (length ?xs)"
    using assms(1) unfolding mono_from_def by (meson order_less_le_trans sorted_nth_mono)
  note first = go_search_first [OF this, folded r_def]
  then have r: "r \<le> length ?xs" "\<forall>x<r. \<not> ?f x" "\<forall>x. r \<le> x \<longrightarrow> x < length ?xs \<longrightarrow> ?f x"
    by blast+
  have i: "i = (if length ?xs \<le> r then 0 else r)"
    by (simp add: i_def ring_search_def r_def Let_def)
  show ?thesis
  proof (cases "r < length ?xs")
    case True
    then have k: "key < ?xs ! i" "i = r" using r(3) i by auto
    have "?xs ! i \<le> h" if h: "h \<in> set ?xs" "key < h" for h
    proof -
      obtain x where x: "x < length ?xs" "h = ?xs ! x" using h(1) by (auto simp: in_set_conv_nth)
      with h(2) r(2) have "r \<le> x" by (meson not_le)
      with assms(1) x k show ?thesis by (simp add: sorted_nth_mono)
    qed
    with k True show ?thesis using nth_mem [of i ?xs] by auto
  next
    case False
    then have "\<not> (\<exists>h \<in> set ?xs. key < h)" using r(2) by (auto simp: in_set_conv_nth)
    with False i assms(2) show ?thesis by auto
  qed
qed

lemma ring_get_entry:
  assumes "ring_ok c" "circle c \<noteq> []"
  shows "\<exists>elt. (sortedHashes c ! ring_search (hashKey name) c, elt) \<in> set (circle c) \<and>
    ring_get name c = Inr elt"
proof -
  have s: "sorted (sortedHashes c)" "sortedHashes c \<noteq> []" "set (sortedHashes c) = fst ` set (circle c)"
    using assms by (simp_all add: ring_ok_hashes)
  from ring_search_correct [OF s(1,2) refl, of "hashKey name"]
  have "sortedHashes c ! ring_search (hashKey name) c \<in> set (sortedHashes c)"
    by simp
  with s(3) obtain elt where e: "(sortedHashes c ! ring_search (hashKey name) c, elt) \<in> set (circle c)"
    by auto
  with assms have "map_of (circle c) (sortedHashes c ! ring_search (hashKey name) c) = Some elt"
    by (simp add: ring_ok_def)
  with e assms(2) show ?thesis by (auto simp: ring_get_def)
qed

section \<open>Properties\<close>

text \<open>C14: \<open>Get\<close> walks the circle clockwise: on a ring built by \<open>Add\<close> from a non-empty
  list of elements it returns one of them, the one placed at the least hash above the
  key's hash, and, when the key's hash is the greatest, the one at the least hash of the
  circle. On the empty ring it returns the error.\<close>

theorem ring_get_clockwise:
  assumes "elts \<noteq> []"
  shows "\<exists>elt h. ring_get name (ring_of elts) = Inr elt \<and> elt \<in> set elts \<and>
      (h, elt) \<in> set (circle (ring_of elts)) \<and>
      (let hs = fst ` set (circle (ring_of elts)); above = {g \<in> hs. hashKey name < g}
       in h = (if above = {} then Min hs else Min above))"
proof -
  let ?c = "ring_of elts"
  let ?hs = "fst ` set (circle ?c)" and ?key = "hashKey name"
  let ?i = "ring_search ?key ?c"
  have ok: "ring_ok ?c" "circle ?c \<noteq> []" using ring_of_ok ring_of_nonempty [OF assms] by simp_all
  then have s: "sorted (sortedHashes ?c)" "sortedHashes ?c \<noteq> []" "set (sortedHashes ?c) = ?hs"
    by (simp_all add: ring_ok_hashes)
  obtain elt where e: "(sortedHashes ?c ! ?i, elt) \<in> set (circle ?c)" "ring_get name ?c = Inr elt"
    using ring_get_entry [OF ok] by blast
  have "elt \<in> set elts" using e(1) ok(1) ring_of_ok(2) [of elts] by (force simp: ring_ok_def)
  note srch = ring_search_correct [OF s(1,2) refl, of ?key, unfolded s(3)]
  have "sortedHashes ?c ! ?i = (if {g \<in> ?hs. ?key < g} = {} then Min ?hs else Min {g \<in> ?hs. ?key < g})"
  proof (cases "\<exists>h \<in> ?hs. ?key < h")
    case True
    then have "Min {g \<in> ?hs. ?key < g} = sortedHashes ?c ! ?i"
      using srch e(1) by (intro Min_eqI) (auto simp: image_iff intro: bexI [rotated])
    with True show ?thesis by auto
  next
    case False
    with srch have i: "?i = 0" by simp
    have "Min ?hs = sortedHashes ?c ! 0"
      using s(1,2) i e(1) by (intro Min_eqI)
        (auto simp: s(3) [symmetric] in_set_conv_nth image_iff intro: sorted_nth_mono bexI [rotated])
    with False i show ?thesis by auto
  qed
  with e \<open>elt \<in> set elts\<close> show ?thesis by (auto simp: Let_def)
qed

theorem ring_get_clockwise_witness:
  "\<exists>elt. ring_get ''peer'' (ring_of [''room_0'']) = Inr elt \<and> elt \<in> set [''room_0'']"
  using ring_get_clockwise [of "[''room_0'']" "''peer''"] by blast

end
