(* ===== verification/Hub.thy ===== *)
theory Hub
  imports Rto Ring
begin

text \<open>
  A hub (one room) and its connections (\<open>hub.run\<close> of \<^verbatim>\<open>server/hub.go\<close>). Connections
  are pointers shared by the hub, their own goroutines and the broadcasters, so they live
  in a store; the hub maps a peer id to a pointer. One step is one arm of the \<open>select\<close>
  of \<open>run\<close>. Closing a closed channel and sending on one panic. The throttle ticker only
  delays a delivery and is left out.
\<close>

section \<open>State\<close>

type_synonym cid = nat

record connection =
  conn_peer :: string
  send_q :: "push_msg_t list"
  send_closed :: bool

record hub =
  connections :: "string \<rightharpoonup> cid"
  peercnt :: int
  broadcast_ch :: "push_msg_t list"

type_synonym store = "cid \<Rightarrow> connection"

definition newhub :: hub where
  "newhub = \<lparr>connections = Map.empty, peercnt = 0, broadcast_ch = []\<rparr>"

definition send_cap :: nat where
  "send_cap = 4096"

section \<open>Channels\<close>

definition close_send :: "cid \<Rightarrow> store \<Rightarrow> store go" where
  "close_send c st =
     (if send_closed (st c) then Inl CloseOfClosed else Inr (st(c := (st c)\<lparr>send_closed := True\<rparr>)))"

definition put_send :: "cid \<Rightarrow> push_msg_t \<Rightarrow> store \<Rightarrow> store" where
  "put_send c m st = st(c := (st c)\<lparr>send_q := send_q (st c) @ [m]\<rparr>)"

section \<open>The arms of the select\<close>

definition hub_register :: "cid \<Rightarrow> store \<Rightarrow> hub \<Rightarrow> hub" where
  "hub_register c st h =
     h\<lparr>connections := (connections h)(conn_peer (st c) \<mapsto> c), peercnt := peercnt h + 1\<rparr>"

definition hub_unregister :: "cid \<Rightarrow> store \<Rightarrow> hub \<Rightarrow> (store \<times> hub) go" where
  "hub_unregister c st h =
     (if connections h (conn_peer (st c)) \<noteq> None then
        let h1 = h\<lparr>connections := (connections h)(conn_peer (st c) := None)\<rparr> in
        bind_go (close_send c st) (\<lambda>st'. Inr (st', h1\<lparr>peercnt := peercnt h1 - 1\<rparr>))
      else Inr (st, h))"

text \<open>One connection of a broadcast: a non-blocking send, and a full queue drops the peer.\<close>

definition hub_deliver :: "push_msg_t \<Rightarrow> string \<Rightarrow> store \<times> hub \<Rightarrow> (store \<times> hub) go" where
  "hub_deliver m k = (\<lambda>(st, h).
     case connections h k of
       None \<Rightarrow> Inr (st, h)
     | Some c \<Rightarrow>
         if send_closed (st c) then Inl SendOnClosed
         else if length (send_q (st c)) < send_cap then Inr (put_send c m st, h)
         else bind_go (close_send c st) (\<lambda>st'.
           Inr (st', h\<lparr>connections := (connections h)(conn_peer (st c) := None),
                       peercnt := peercnt h - 1\<rparr>)))"

definition hub_broadcast :: "string list \<Rightarrow> store \<Rightarrow> hub \<Rightarrow> (store \<times> hub) go" where
  "hub_broadcast order st h =
     (case broadcast_ch h of
        [] \<Rightarrow> Inr (st, h)
      | m # ms \<Rightarrow> fold_go (hub_deliver m) order (st, h\<lparr>broadcast_ch := ms\<rparr>))"

datatype hub_event = Register cid | Unregister cid | Broadcast "string list"

fun hub_step :: "hub_event \<Rightarrow> store \<times> hub \<Rightarrow> (store \<times> hub) go" where
  "hub_step (Register c) (st, h) = Inr (st, hub_register c st h)"
| "hub_step (Unregister c) (st, h) = hub_unregister c st h"
| "hub_step (Broadcast order) (st, h) = hub_broadcast order st h"

section \<open>Invariant\<close>

text \<open>
  Every entry sits under its own peer id and is open, and the counter counts the entries.
\<close>

definition hub_ok :: "store \<times> hub \<Rightarrow> bool" where
  "hub_ok = (\<lambda>(st, h). finite (dom (connections h)) \<and> peercnt h = int (card (dom (connections h))) \<and>
     (\<forall>k c. connections h k = Some c \<longrightarrow> conn_peer (st c) = k \<and> \<not> send_closed (st c)))"

text \<open>
  What the invariant asks of the environment: a connection that registers is open and
  its peer id is free; a connection that unregisters is the one registered under its id,
  or no one is.
\<close>

definition single_session :: "hub_event \<Rightarrow> store \<times> hub \<Rightarrow> bool" where
  "single_session e = (\<lambda>(st, h).
     case e of
       Register c \<Rightarrow> connections h (conn_peer (st c)) = None \<and> \<not> send_closed (st c)
     | Unregister c \<Rightarrow> connections h (conn_peer (st c)) \<in> {None, Some c}
     | Broadcast order \<Rightarrow> True)"

lemma hub_ok_new: "hub_ok (st, newhub)"
  by (simp add: hub_ok_def newhub_def)

lemma hub_ok_open: "hub_ok (st, h) \<Longrightarrow> connections h k = Some c \<Longrightarrow> \<not> send_closed (st c) \<and> conn_peer (st c) = k"
  by (auto simp: hub_ok_def)

lemma hub_ok_inj:
  "hub_ok (st, h) \<Longrightarrow> connections h k = Some c \<Longrightarrow> connections h k' = Some c \<Longrightarrow> k = k'"
  by (auto simp: hub_ok_def)

lemma card_dom_del_int:
  "finite (dom m) \<Longrightarrow> k \<in> dom m \<Longrightarrow> int (card (dom (m(k := None)))) = int (card (dom m)) - 1"
  using card_dom_del [of m k] by linarith

lemma hub_ok_drop:
  assumes "hub_ok (st, h)" "connections h k = Some c"
  shows "hub_ok (st(c := (st c)\<lparr>send_closed := True\<rparr>),
    h\<lparr>connections := (connections h)(k := None), peercnt := peercnt h - 1\<rparr>)"
proof -
  have "finite (dom (connections h))" "k \<in> dom (connections h)"
    using assms by (auto simp: hub_ok_def)
  then have "finite (dom ((connections h)(k := None)))" by simp
  with card_dom_del_int [OF \<open>finite (dom (connections h))\<close> \<open>k \<in> dom (connections h)\<close>] show ?thesis
    using assms by (auto simp: hub_ok_def simp del: dom_fun_upd)
qed

lemma hub_deliver_ok:
  assumes "hub_ok s"
  shows "\<exists>s'. hub_deliver m k s = Inr s' \<and> hub_ok s'"
proof -
  obtain st h where s: "s = (st, h)" by force
  show ?thesis
  proof (cases "connections h k")
    case None
    with assms s show ?thesis by (simp add: hub_deliver_def)
  next
    case (Some c)
    with assms s have open_c: "\<not> send_closed (st c)" "conn_peer (st c) = k"
      by (simp_all add: hub_ok_open)
    show ?thesis
    proof (cases "length (send_q (st c)) < send_cap")
      case True
      with Some open_c s assms show ?thesis
        by (auto simp: hub_deliver_def put_send_def hub_ok_def)
    next
      case False
      with Some open_c s hub_ok_drop [of st h k c] assms show ?thesis
        by (simp add: hub_deliver_def close_send_def)
    qed
  qed
qed

lemma fold_deliver_ok:
  assumes "hub_ok s"
  shows "\<exists>s'. fold_go (hub_deliver m) js s = Inr s' \<and> hub_ok s'"
  using assms hub_deliver_ok by (rule fold_go_inv)

lemma hub_step_ok:
  assumes "hub_ok s" "single_session e s"
  shows "\<exists>s'. hub_step e s = Inr s' \<and> hub_ok s'"
proof -
  obtain st h where s: "s = (st, h)" by force
  show ?thesis
  proof (cases e)
    case (Register c)
    with assms s show ?thesis
      by (auto simp: hub_ok_def hub_register_def single_session_def card_insert_if domIff)
  next
    case (Unregister c)
    show ?thesis
    proof (cases "connections h (conn_peer (st c))")
      case None
      with Unregister assms s show ?thesis by (simp add: hub_unregister_def)
    next
      case (Some c')
      with Unregister assms s have reg: "connections h (conn_peer (st c)) = Some c"
        by (simp add: single_session_def)
      have "\<not> send_closed (st c)" using hub_ok_open [OF _ reg] assms(1) s by simp
      with reg Unregister s hub_ok_drop [OF _ reg] assms(1)
      show ?thesis by (simp add: hub_unregister_def close_send_def Let_def)
    qed
  next
    case (Broadcast order)
    show ?thesis
    proof (cases "broadcast_ch h")
      case (Cons m ms)
      have "hub_ok (st, h\<lparr>broadcast_ch := ms\<rparr>)" using assms s by (simp add: hub_ok_def)
      from fold_deliver_ok [OF this] show ?thesis
        using Broadcast s Cons by (simp add: hub_broadcast_def)
    qed (use Broadcast s assms in \<open>auto simp: hub_broadcast_def\<close>)
  qed
qed

text \<open>Runs of the hub: each event in turn, every one allowed in the state it meets.\<close>

fun hub_run :: "hub_event list \<Rightarrow> store \<times> hub \<Rightarrow> (store \<times> hub) go" where
  "hub_run [] s = Inr s"
| "hub_run (e # es) s = bind_go (hub_step e s) (hub_run es)"

fun single_sessions :: "hub_event list \<Rightarrow> store \<times> hub \<Rightarrow> bool" where
  "single_sessions [] s = True"
| "single_sessions (e # es) s =
     (single_session e s \<and> (case hub_step e s of Inl _ \<Rightarrow> True | Inr s' \<Rightarrow> single_sessions es s'))"

lemma hub_run_ok:
  assumes "hub_ok s" "single_sessions es s"
  shows "\<exists>s'. hub_run es s = Inr s' \<and> hub_ok s'"
  using assms
proof (induction es arbitrary: s)
  case (Cons e es)
  with hub_step_ok [of s e] obtain s' where "hub_step e s = Inr s'" "hub_ok s'" by auto
  with Cons show ?case by simp
qed simp

section \<open>Delivery\<close>

lemma hub_deliver_conns:
  assumes "hub_deliver m j s = Inr s'" "hub_ok s" "j \<noteq> k" "connections (snd s) k = Some c"
  shows "connections (snd s') k = Some c \<and> fst s' c = fst s c"
proof -
  obtain st h where s: "s = (st, h)" by force
  show ?thesis
  proof (cases "connections h j")
    case None
    with assms s show ?thesis by (auto simp: hub_deliver_def)
  next
    case (Some d)
    with assms s hub_ok_inj [of st h k c j] have "d \<noteq> c" by auto
    with Some assms s hub_ok_open [of st h j d] show ?thesis
      by (auto simp: hub_deliver_def put_send_def close_send_def split: if_splits)
  qed
qed

lemma fold_deliver_conns:
  assumes "fold_go (hub_deliver m) js s = Inr s'" "hub_ok s" "k \<notin> set js" "connections (snd s) k = Some c"
  shows "connections (snd s') k = Some c \<and> fst s' c = fst s c"
  using assms
proof (induction js arbitrary: s)
  case (Cons j js)
  obtain s1 where s1: "hub_deliver m j s = Inr s1" "fold_go (hub_deliver m) js s1 = Inr s'"
    using Cons.prems(1) by (auto simp: bind_go_Inr)
  have "hub_ok s1" using hub_deliver_ok [OF Cons.prems(2), of m j] s1(1) by auto
  with Cons.IH [OF s1(2)] hub_deliver_conns [OF s1(1) Cons.prems(2), of k c] Cons.prems
  show ?case by auto
qed simp

lemma fold_deliver_ch:
  "fold_go (hub_deliver m) js s = Inr s' \<Longrightarrow> broadcast_ch (snd s') = broadcast_ch (snd s)"
proof (induction js arbitrary: s)
  case (Cons j js)
  then obtain s1 where "hub_deliver m j s = Inr s1" "fold_go (hub_deliver m) js s1 = Inr s'"
    by (auto simp: bind_go_Inr)
  moreover from this(1) have "broadcast_ch (snd s1) = broadcast_ch (snd s)"
    by (cases s) (auto simp: hub_deliver_def close_send_def split: option.splits if_splits)
  ultimately show ?case using Cons.IH by simp
qed simp

section \<open>Properties\<close>


definition demo_store :: store where
  "demo_store c = \<lparr>conn_peer = (if c < 2 then ''a'' else ''b''), send_q = [], send_closed = False\<rparr>"

lemmas hub_eval = demo_store_def newhub_def hub_register_def hub_unregister_def hub_broadcast_def
  hub_deliver_def close_send_def put_send_def single_session_def


text \<open>A broadcast reaches every registered peer whose queue has room, whatever the
  iteration order and whatever happens to the other peers: the message is appended to
  its queue once and the peer stays registered.\<close>

lemma hub_broadcast_delivers:
  assumes "hub_ok (st, h)" "broadcast_ch h = m # ms" "distinct order" "k \<in> set order"
    and "connections h k = Some c" "length (send_q (st c)) < send_cap"
  shows "\<exists>st' h'. hub_step (Broadcast order) (st, h) = Inr (st', h') \<and> broadcast_ch h' = ms \<and>
    send_q (st' c) = send_q (st c) @ [m] \<and> connections h' k = Some c"
proof -
  let ?s = "(st, h\<lparr>broadcast_ch := ms\<rparr>)"
  have ok: "hub_ok ?s" using assms(1) by (simp add: hub_ok_def)
  obtain xs ys where order: "order = xs @ k # ys" "k \<notin> set xs" "k \<notin> set ys"
    using assms(3,4) by (metis distinct.simps(2) distinct_append not_distinct_conv_prefix split_list_first)
  obtain s1 where s1: "fold_go (hub_deliver m) xs ?s = Inr s1" "hub_ok s1"
    using fold_deliver_ok [OF ok] by blast
  have k1: "connections (snd s1) k = Some c" "fst s1 c = st c"
    using fold_deliver_conns [OF s1(1) ok order(2)] assms(5) by simp_all
  obtain s2 where s2: "hub_deliver m k s1 = Inr s2" "hub_ok s2"
    using hub_deliver_ok [OF s1(2)] by blast
  have "\<not> send_closed (fst s1 c)" using hub_ok_open [of "fst s1" "snd s1" k c] s1(2) k1(1) by simp
  then have "s2 = (put_send c m (fst s1), snd s1)"
    using s2(1) k1 assms(6) by (simp add: hub_deliver_def case_prod_beta)
  then have k2: "connections (snd s2) k = Some c" "send_q (fst s2 c) = send_q (st c) @ [m]"
    using k1 by (simp_all add: put_send_def)
  obtain s3 where s3: "fold_go (hub_deliver m) ys s2 = Inr s3"
    using fold_deliver_ok [OF s2(2)] by blast
  have all: "fold_go (hub_deliver m) order ?s = Inr s3"
    using s1(1) s2(1) s3 by (simp add: order(1) fold_go_append)
  with fold_deliver_ch [OF all] fold_deliver_conns [OF s3 s2(2) order(3) k2(1)] k2(2) assms(2) show ?thesis
    by (cases s3) (simp add: hub_broadcast_def)
qed

lemma hub_broadcast_delivers_witness:
  "\<exists>st' h'. hub_step (Broadcast [''b'', ''a'']) (demo_store,
      (hub_register 2 demo_store (hub_register 0 demo_store newhub))\<lparr>broadcast_ch := [demo_msg]\<rparr>) =
      Inr (st', h') \<and> send_q (st' 0) = [demo_msg]"
proof -
  let ?h = "(hub_register 2 demo_store (hub_register 0 demo_store newhub))\<lparr>broadcast_ch := [demo_msg]\<rparr>"
  have "hub_ok (demo_store, ?h)"
    by (auto simp: hub_ok_def hub_eval split: if_splits)
  from hub_broadcast_delivers [OF this, of demo_msg "[]" "[''b'', ''a'']" "''a''" 0]
  show ?thesis by (auto simp: hub_eval send_cap_def)
qed

text \<open>Two sessions of one peer break the hub. When a peer connects a second time, its
  first session's end removes the second session from the room: the second connection
  stays open but unreachable, and the counter stays one too high. And when the first
  session was dropped because its queue was full, its end closes a closed channel and
  the server panics.\<close>

lemma hub_duplicate_session:
  assumes "conn_peer (st d) = conn_peer (st c)" "c \<noteq> d" "\<not> send_closed (st c)" "\<not> send_closed (st d)"
  shows "(\<exists>st' h'. hub_run [Register c, Register d, Unregister c] (st, newhub) = Inr (st', h') \<and>
      connections h' (conn_peer (st d)) = None \<and> peercnt h' = 1 \<and> \<not> send_closed (st' d)) \<and>
    (send_cap \<le> length (send_q (st c)) \<longrightarrow>
      hub_run [Register c, Broadcast [conn_peer (st c)], Register d, Unregister c]
        (st, newhub\<lparr>broadcast_ch := [m]\<rparr>) = Inl CloseOfClosed)"
  using assms by (simp add: hub_eval Let_def)

lemma hub_duplicate_session_witness:
  "(\<exists>st' h'. hub_run [Register 0, Register 1, Unregister 0] (demo_store, newhub) = Inr (st', h') \<and>
      connections h' ''a'' = None \<and> peercnt h' = 1 \<and> \<not> send_closed (st' 1)) \<and>
   (\<exists>st. hub_run [Register 0, Broadcast [''a''], Register 1, Unregister 0]
        (st, newhub\<lparr>broadcast_ch := [demo_msg]\<rparr>) = Inl CloseOfClosed)"
proof
  show "\<exists>st' h'. hub_run [Register 0, Register 1, Unregister 0] (demo_store, newhub) = Inr (st', h') \<and>
      connections h' ''a'' = None \<and> peercnt h' = 1 \<and> \<not> send_closed (st' 1)"
    using hub_duplicate_session [of demo_store 1 0] by (simp add: demo_store_def)
  let ?st = "demo_store(0 := (demo_store 0)\<lparr>send_q := replicate send_cap demo_msg\<rparr>)"
  have "hub_run [Register 0, Broadcast [''a''], Register 1, Unregister 0]
        (?st, newhub\<lparr>broadcast_ch := [demo_msg]\<rparr>) = Inl CloseOfClosed"
    using hub_duplicate_session [of ?st 1 0 demo_msg] by (simp add: demo_store_def)
  then show "\<exists>st. hub_run [Register 0, Broadcast [''a''], Register 1, Unregister 0]
        (st, newhub\<lparr>broadcast_ch := [demo_msg]\<rparr>) = Inl CloseOfClosed" by blast
qed

end
