(* ===== verification/Rooms.thy ===== *)
theory Rooms
  imports Hub
begin

text \<open>
  The registry of rooms (\<open>hub_rooms\<close> of \<^verbatim>\<open>server/hub.go\<close>) with the goroutines around it: the
  web socket handler that connects a peer, the readers whose end disconnects it, the room
  loops, the broadcasters and the counter of acknowledgements. A step is what one goroutine
  does between two operations on channels that it shares with others. A step that would
  block is \<open>None\<close>, a panic \<open>Inl\<close>.

  The broadcasters exclude each other by \<open>broadcast_mu\<close>, so one of them at most is between
  its first and its last step (\<open>task\<close>). Sends to the unbuffered channels \<open>register\<close> and
  \<open>unregister\<close> are one step with the arm of the room that receives them. Left out: logging,
  the notification of the application server, and the waiting of 100 ms before a broadcast.
\<close>

section \<open>State\<close>

record hub_room_stat_t =
  total_msg_cnt :: int
  total_msg_size :: int
  total_consume_time :: int
  total_peer_cnt :: int

record msg_stat_t =
  send_msg_cnt :: int
  recv_ack_cnt :: int

record hub_rooms =
  cstHash :: consistent
  rooms :: "string \<rightharpoonup> hub"
  rooms_ids :: "string list"
  stats :: hub_room_stat_t
  broadcast_mu :: bool             \<comment> \<open>the token is in the channel\<close>
  broadcast_Q :: "bytes list"
  msg_stats :: "int \<rightharpoonup> msg_stat_t"

text \<open>Where the broadcaster that holds the token stands: the rooms or peers that remain, or
  the send to a connection it has looked up.\<close>

datatype br_task = Idle
  | ToRooms push_msg_t "string list"
  | ToPeers push_msg_t "string list" "cid option"
  | PeerSend push_msg_t cid "string list" "cid option"

text \<open>\<open>readers\<close> are the connections whose reading goroutine (\<open>checkPongMessage\<close>) runs.\<close>

record server =
  conns :: store
  hr :: hub_rooms
  readers :: "cid list"
  task :: br_task
  max_conn_limit :: int

definition RESERVED_ROOM_NUM :: int where
  "RESERVED_ROOM_NUM = 10"

definition MAX_ROOM_NUM :: int where
  "MAX_ROOM_NUM = 100"

definition room_limit :: "int \<Rightarrow> int" where
  "room_limit n =
     (let n1 = (if n > MAX_ROOM_NUM then MAX_ROOM_NUM else n)
      in if n1 < RESERVED_ROOM_NUM then RESERVED_ROOM_NUM else n1)"

definition room_name :: "int \<Rightarrow> string" where
  "room_name i = ''room_'' @ itoa i"

definition hub_rooms_run :: "int \<Rightarrow> hub_rooms" where
  "hub_rooms_run configured =
     (let ids = map (\<lambda>i. room_name (int i)) [0..<nat (room_limit configured)]
      in \<lparr>cstHash = ring_of ids, rooms = map_of (map (\<lambda>v. (v, newhub)) ids), rooms_ids = ids,
          stats = \<lparr>total_msg_cnt = 0, total_msg_size = 0, total_consume_time = 0, total_peer_cnt = 0\<rparr>,
          broadcast_mu = True, broadcast_Q = [], msg_stats = Map.empty\<rparr>)"

definition server_start :: "int \<Rightarrow> int \<Rightarrow> store \<Rightarrow> server" where
  "server_start configured limit st =
     \<lparr>conns = st, hr = hub_rooms_run configured, readers = [], task = Idle, max_conn_limit = limit\<rparr>"

section \<open>Looking up\<close>

definition get_room_id :: "string \<Rightarrow> hub_rooms \<Rightarrow> string" where
  "get_room_id peer_id r = (case ring_get peer_id (cstHash r) of Inl _ \<Rightarrow> [] | Inr room \<Rightarrow> room)"

definition get_connection_by_peer_id :: "string \<Rightarrow> hub_rooms \<Rightarrow> cid option go" where
  "get_connection_by_peer_id peer_id r =
     (case rooms r (get_room_id peer_id r) of
        None \<Rightarrow> Inl NilDereference
      | Some h \<Rightarrow> Inr (connections h peer_id))"

definition peer_is_online :: "string \<Rightarrow> hub_rooms \<Rightarrow> bool go" where
  "peer_is_online peer_id r =
     bind_go (get_connection_by_peer_id peer_id r) (\<lambda>c. Inr (c \<noteq> None))"

definition trim_comma :: "string \<Rightarrow> string" where
  "trim_comma s = (if s \<noteq> [] \<and> last s = CHR '','' then butlast s else s)"

definition online_step :: "hub_rooms \<Rightarrow> string \<Rightarrow> string \<Rightarrow> string go" where
  "online_step r peer_id buf =
     bind_go (get_connection_by_peer_id peer_id r) (\<lambda>c.
       Inr (if c \<noteq> None then buf @ peer_id @ '','' else buf))"

definition peers_is_online :: "string list \<Rightarrow> hub_rooms \<Rightarrow> string go" where
  "peers_is_online peer_ids r =
     bind_go (fold_go (online_step r) peer_ids []) (\<lambda>buf.
       Inr (if length buf > 32 then trim_comma buf else []))"

section \<open>Connecting and disconnecting\<close>

definition add_peers :: "int \<Rightarrow> hub_rooms \<Rightarrow> hub_rooms" where
  "add_peers n r = r\<lparr>stats := (stats r)\<lparr>total_peer_cnt := total_peer_cnt (stats r) + n\<rparr>\<rparr>"

definition rooms_register :: "cid \<Rightarrow> store \<Rightarrow> hub_rooms \<Rightarrow> hub_rooms go" where
  "rooms_register c st r =
     (let room_id = get_room_id (conn_peer (st c)) r
      in case rooms r room_id of
           None \<Rightarrow> Inl NilDereference
         | Some h \<Rightarrow> Inr (add_peers 1 (r\<lparr>rooms := (rooms r)(room_id \<mapsto> hub_register c st h)\<rparr>)))"

definition rooms_unregister :: "cid \<Rightarrow> store \<Rightarrow> hub_rooms \<Rightarrow> (store \<times> hub_rooms) go" where
  "rooms_unregister c st r =
     (let room_id = get_room_id (conn_peer (st c)) r
      in case rooms r room_id of
           None \<Rightarrow> Inl NilDereference
         | Some h \<Rightarrow> bind_go (hub_unregister c st h) (\<lambda>(st', h').
             Inr (st', add_peers (- 1) (r\<lparr>rooms := (rooms r)(room_id \<mapsto> h')\<rparr>))))"

text \<open>A connection over the limit is closed, not registered, and has no reader.\<close>

definition websocketHandler :: "cid \<Rightarrow> server \<Rightarrow> server go" where
  "websocketHandler c s =
     (if total_peer_cnt (stats (hr s)) > max_conn_limit s then Inr s
      else bind_go (rooms_register c (conns s) (hr s)) (\<lambda>r. Inr (s\<lparr>hr := r, readers := c # readers s\<rparr>)))"

definition reader_end :: "cid \<Rightarrow> server \<Rightarrow> server go" where
  "reader_end c s =
     bind_go (rooms_unregister c (conns s) (hr s)) (\<lambda>(st, r).
       Inr (s\<lparr>conns := st, hr := r, readers := remove1 c (readers s)\<rparr>))"

section \<open>Broadcasting\<close>

definition broadcast_cap :: nat where
  "broadcast_cap = 4096"

definition broadcast_Q_cap :: nat where
  "broadcast_Q_cap = 40960"

text \<open>Taking the token: the message gets the next number and a record in \<open>msg_stats\<close>.\<close>

definition begin_push :: "bool \<Rightarrow> bytes \<Rightarrow> hub_rooms \<Rightarrow> push_msg_t \<times> hub_rooms" where
  "begin_push br_all body r =
     (let r1 = r\<lparr>broadcast_mu := False,
                 stats := (stats r)\<lparr>total_msg_cnt := total_msg_cnt (stats r) + 1\<rparr>\<rparr>;
          m = \<lparr>msg_id = total_msg_cnt (stats r1), push_body = body, is_br_all = br_all\<rparr>
      in (m, r1\<lparr>msg_stats := (msg_stats r1)(msg_id m \<mapsto> \<lparr>send_msg_cnt = 0, recv_ack_cnt = 0\<rparr>)\<rparr>))"

text \<open>Returning it, \<open>diff\<close> milliseconds later.\<close>

definition end_push :: "push_msg_t \<Rightarrow> int \<Rightarrow> hub_rooms \<Rightarrow> hub_rooms" where
  "end_push m diff r =
     r\<lparr>broadcast_mu := True,
       stats := (stats r)\<lparr>total_msg_size := total_msg_size (stats r) + int (length (push_body m)),
                          total_consume_time := total_consume_time (stats r) + diff\<rparr>\<rparr>"

definition start_rooms :: "string list \<Rightarrow> bytes \<Rightarrow> server \<Rightarrow> server option" where
  "start_rooms room_ids body s =
     (if broadcast_mu (hr s) then
        let (m, r) = begin_push True body (hr s) in Some (s\<lparr>hr := r, task := ToRooms m room_ids\<rparr>)
      else None)"

definition start_all :: "string list \<Rightarrow> server \<Rightarrow> server option" where
  "start_all order s =
     (case broadcast_Q (hr s) of
        [] \<Rightarrow> None
      | body # q \<Rightarrow>
          if distinct order \<and> set order = set (rooms_ids (hr s))
          then start_rooms order body (s\<lparr>hr := (hr s)\<lparr>broadcast_Q := q\<rparr>\<rparr>) else None)"

definition start_peers :: "string list \<Rightarrow> bytes \<Rightarrow> cid option \<Rightarrow> server \<Rightarrow> server option" where
  "start_peers peer_ids body sc s =
     (if broadcast_mu (hr s) then
        let (m, r) = begin_push False body (hr s) in Some (s\<lparr>hr := r, task := ToPeers m peer_ids sc\<rparr>)
      else None)"

text \<open>One send of the broadcaster. In a directed push the connection is looked up in one step
  and sent to in a later one.\<close>

definition room_send :: "push_msg_t \<Rightarrow> string \<Rightarrow> hub_rooms \<Rightarrow> hub_rooms option" where
  "room_send m room_id r =
     (case rooms r room_id of
        None \<Rightarrow> Some r
      | Some h \<Rightarrow>
          if length (broadcast_ch h) < broadcast_cap
          then Some (r\<lparr>rooms := (rooms r)(room_id \<mapsto> h\<lparr>broadcast_ch := broadcast_ch h @ [m]\<rparr>)\<rparr>)
          else None)"

definition peer_lookup :: "push_msg_t \<Rightarrow> string \<Rightarrow> string list \<Rightarrow> cid option \<Rightarrow> hub_rooms \<Rightarrow> br_task go" where
  "peer_lookup m p ps sc r =
     (case sc of
        Some c \<Rightarrow> Inr (PeerSend m c ps sc)
      | None \<Rightarrow> bind_go (get_connection_by_peer_id p r) (\<lambda>c.
          Inr (case c of None \<Rightarrow> ToPeers m ps sc | Some c \<Rightarrow> PeerSend m c ps sc)))"

definition conn_send :: "push_msg_t \<Rightarrow> cid \<Rightarrow> store \<Rightarrow> store go option" where
  "conn_send m c st =
     (if send_closed (st c) then Some (Inl SendOnClosed)
      else if length (send_q (st c)) < send_cap then Some (Inr (put_send c m st))
      else None)"

definition task_step :: "server \<Rightarrow> server go option" where
  "task_step s =
     (case task s of
        ToRooms m (room_id # ids) \<Rightarrow>
          map_option (\<lambda>r. Inr (s\<lparr>hr := r, task := ToRooms m ids\<rparr>)) (room_send m room_id (hr s))
      | ToPeers m (p # ps) sc \<Rightarrow>
          Some (bind_go (peer_lookup m p ps sc (hr s)) (\<lambda>t. Inr (s\<lparr>task := t\<rparr>)))
      | PeerSend m c ps sc \<Rightarrow>
          map_option (\<lambda>v. bind_go v (\<lambda>st. Inr (s\<lparr>conns := st, task := ToPeers m ps sc\<rparr>)))
            (conn_send m c (conns s))
      | _ \<Rightarrow> None)"

definition task_end :: "int \<Rightarrow> server \<Rightarrow> server option" where
  "task_end diff s =
     (case task s of
        ToRooms m [] \<Rightarrow> Some (s\<lparr>hr := end_push m diff (hr s), task := Idle\<rparr>)
      | ToPeers m [] sc \<Rightarrow> Some (s\<lparr>hr := end_push m diff (hr s), task := Idle\<rparr>)
      | _ \<Rightarrow> None)"

section \<open>The other goroutines\<close>

definition room_broadcast :: "string \<Rightarrow> string list \<Rightarrow> server \<Rightarrow> server go option" where
  "room_broadcast room_id order s =
     (case rooms (hr s) room_id of
        None \<Rightarrow> None
      | Some h \<Rightarrow>
          if broadcast_ch h = [] then None
          else Some (bind_go (hub_step (Broadcast order) (conns s, h)) (\<lambda>(st, h').
            Inr (s\<lparr>conns := st, hr := (hr s)\<lparr>rooms := (rooms (hr s))(room_id \<mapsto> h')\<rparr>\<rparr>))))"

text \<open>The writer of a connection takes a message from its queue.\<close>

definition writer_take :: "cid \<Rightarrow> server \<Rightarrow> server option" where
  "writer_take c s =
     (case send_q (conns s c) of
        [] \<Rightarrow> None
      | m # q \<Rightarrow> Some (s\<lparr>conns := (conns s)(c := (conns s c)\<lparr>send_q := q\<rparr>)\<rparr>))"

definition stat_sent :: "int \<Rightarrow> hub_rooms \<Rightarrow> hub_rooms" where
  "stat_sent seq r =
     (case msg_stats r seq of
        None \<Rightarrow> r
      | Some v \<Rightarrow> r\<lparr>msg_stats := (msg_stats r)(seq \<mapsto> v\<lparr>send_msg_cnt := send_msg_cnt v + 1\<rparr>)\<rparr>)"

definition stat_acked :: "int \<Rightarrow> hub_rooms \<Rightarrow> hub_rooms" where
  "stat_acked seq r =
     (case msg_stats r seq of
        None \<Rightarrow> r
      | Some v \<Rightarrow> r\<lparr>msg_stats := (msg_stats r)(seq \<mapsto> v\<lparr>recv_ack_cnt := recv_ack_cnt v + 1\<rparr>)\<rparr>)"

definition enqueue :: "bytes \<Rightarrow> server \<Rightarrow> server option" where
  "enqueue body s =
     (if length (broadcast_Q (hr s)) < broadcast_Q_cap
      then Some (s\<lparr>hr := (hr s)\<lparr>broadcast_Q := broadcast_Q (hr s) @ [body]\<rparr>\<rparr>) else None)"

section \<open>Steps and reachable states\<close>

datatype server_event =
    Connect cid | Disconnect cid | Push bytes
  | StartAll "string list" | StartRooms "string list" bytes | StartPeers "string list" bytes "cid option"
  | TaskStep | TaskEnd int | RoomBroadcast string "string list" | WriterTake cid
  | StatSent int | StatAcked int

fun server_step :: "server_event \<Rightarrow> server \<Rightarrow> server go option" where
  "server_step (Connect c) s = Some (websocketHandler c s)"
| "server_step (Disconnect c) s = (if c \<in> set (readers s) then Some (reader_end c s) else None)"
| "server_step (Push body) s = map_option Inr (enqueue body s)"
| "server_step (StartAll order) s = map_option Inr (start_all order s)"
| "server_step (StartRooms ids body) s = map_option Inr (start_rooms ids body s)"
| "server_step (StartPeers ps body sc) s = map_option Inr (start_peers ps body sc s)"
| "server_step TaskStep s = task_step s"
| "server_step (TaskEnd diff) s = map_option Inr (task_end diff s)"
| "server_step (RoomBroadcast room_id order) s = room_broadcast room_id order s"
| "server_step (WriterTake c) s = map_option Inr (writer_take c s)"
| "server_step (StatSent seq) s = Some (Inr (s\<lparr>hr := stat_sent seq (hr s)\<rparr>))"
| "server_step (StatAcked seq) s = Some (Inr (s\<lparr>hr := stat_acked seq (hr s)\<rparr>))"

text \<open>A connection is a new object with an open queue. The environment gives no peer id to two
  connections at a time.\<close>

definition new_session :: "server_event \<Rightarrow> server \<Rightarrow> bool" where
  "new_session e s =
     (case e of
        Connect c \<Rightarrow> \<not> send_closed (conns s c) \<and>
          list_all (\<lambda>d. conn_peer (conns s d) \<noteq> conn_peer (conns s c)) (readers s)
      | _ \<Rightarrow> True)"

inductive reachable :: "server \<Rightarrow> server \<Rightarrow> bool" for s0 where
  start: "reachable s0 s0"
| step: "reachable s0 s \<Longrightarrow> new_session e s \<Longrightarrow> server_step e s = Some (Inr s') \<Longrightarrow> reachable s0 s'"

end
