(* ===== verification/Rooms_Inv.thy ===== *)
theory Rooms_Inv
  imports Rooms
begin

text \<open>
  The invariants of the registry, each with the lemma that every step keeps it:
  \<open>filed_ok\<close> (connections stay in the room of their peer id), \<open>count_ok\<close> (the counter of
  peers) and \<open>order_ok\<close> (the messages of the channels are in order).
\<close>

section \<open>What an arm of a room leaves alone\<close>

definition hub_frame :: "store \<times> hub \<Rightarrow> store \<times> hub \<Rightarrow> bool" where
  "hub_frame = (\<lambda>(st, h) (st', h').
     connections h' \<subseteq>\<^sub>m connections h \<and> (\<forall>d. conn_peer (st' d) = conn_peer (st d)) \<and>
     (\<forall>d. d \<notin> ran (connections h) \<longrightarrow> st' d = st d))"

lemma hub_frame_refl: "hub_frame s s"
  by (simp add: hub_frame_def case_prod_beta)

lemma hub_frame_trans: "hub_frame s1 s2 \<Longrightarrow> hub_frame s2 s3 \<Longrightarrow> hub_frame s1 s3"
  by (auto simp: hub_frame_def ran_def map_le_def dom_def case_prod_beta) metis+

lemma hub_deliver_frame: "hub_deliver m k s = Inr s' \<Longrightarrow> hub_frame s s'"
  by (auto simp: hub_deliver_def hub_frame_def close_send_def put_send_def map_le_def ran_def
      split: option.splits if_splits prod.splits)

lemma fold_deliver_frame: "fold_go (hub_deliver m) ks s = Inr s' \<Longrightarrow> hub_frame s s'"
proof (induction ks arbitrary: s)
  case (Cons k ks)
  then obtain s1 where "hub_deliver m k s = Inr s1" "fold_go (hub_deliver m) ks s1 = Inr s'"
    by (auto simp: bind_go_Inr)
  with Cons.IH show ?case by (blast intro: hub_frame_trans hub_deliver_frame)
qed (simp add: hub_frame_refl)

lemma hub_broadcast_frame:
  assumes "hub_broadcast order st h = Inr s'"
  shows "hub_frame (st, h) s'"
proof (cases "broadcast_ch h")
  case (Cons m ms)
  with assms fold_deliver_frame [of m order "(st, h\<lparr>broadcast_ch := ms\<rparr>)" s'] show ?thesis
    by (simp add: hub_broadcast_def hub_frame_def)
qed (use assms hub_frame_refl in \<open>simp add: hub_broadcast_def\<close>)

lemma hub_unregister_frame:
  assumes "hub_unregister c st h = Inr s'" "connections h (conn_peer (st c)) \<in> {None, Some c}"
  shows "hub_frame (st, h) s' \<and> connections (snd s') (conn_peer (st c)) = None"
  using assms by (auto simp: hub_unregister_def hub_frame_def close_send_def bind_go_Inr Let_def map_le_def ran_def
      split: if_splits)

lemma hub_ok_frame:
  assumes "hub_ok (st, h)" "hub_frame (st, h0) (st', h')" "ran (connections h) \<inter> ran (connections h0) = {}"
  shows "hub_ok (st', h)"
proof -
  have "st' c = st c" if "connections h k = Some c" for k c
  proof -
    have "c \<notin> ran (connections h0)" using assms(3) that by (auto simp: ran_def)
    with assms(2) show ?thesis by (simp add: hub_frame_def)
  qed
  with assms(1) show ?thesis by (auto simp: hub_ok_def)
qed

section \<open>Every peer id has its room\<close>

lemma room_limit_bounds: "10 \<le> room_limit n \<and> room_limit n \<le> 100"
  by (simp add: room_limit_def RESERVED_ROOM_NUM_def MAX_ROOM_NUM_def)

lemma run_ids: "rooms_ids (hub_rooms_run n) = map (\<lambda>i. room_name (int i)) [0..<nat (room_limit n)]"
  by (simp add: hub_rooms_run_def Let_def)

lemma run_rooms: "rooms (hub_rooms_run n) r = (if r \<in> set (rooms_ids (hub_rooms_run n)) then Some newhub else None)"
  by (auto simp: hub_rooms_run_def Let_def map_of_map_restrict restrict_map_def comp_def)

lemma get_room_id_run: "get_room_id p (hub_rooms_run n) \<in> set (rooms_ids (hub_rooms_run n))"
proof -
  let ?ids = "rooms_ids (hub_rooms_run n)"
  have hash: "cstHash (hub_rooms_run n) = ring_of ?ids" by (simp add: hub_rooms_run_def Let_def)
  have "?ids \<noteq> []" using room_limit_bounds [of n] by (simp add: run_ids)
  from ring_get_entry [OF ring_of_ok(1) ring_of_nonempty [OF this], of p] obtain h elt where
    e: "(h, elt) \<in> set (circle (ring_of ?ids))" "ring_get p (ring_of ?ids) = Inr elt" by blast
  then have "elt \<in> set ?ids" using ring_of_ok [of ?ids] by (force simp: ring_ok_def)
  with e hash show ?thesis by (simp add: get_room_id_def)
qed

lemma get_room_id_cong: "cstHash r' = cstHash r \<Longrightarrow> get_room_id p r' = get_room_id p r"
  by (simp add: get_room_id_def)

section \<open>Invariants\<close>

text \<open>Every connection of a room is filed under its peer id in the room of that id, its reader
  runs, and no two readers have one peer id.\<close>

definition filed_ok :: "server \<Rightarrow> bool" where
  "filed_ok s \<longleftrightarrow>
     (\<forall>p. rooms (hr s) (get_room_id p (hr s)) \<noteq> None) \<and>
     (\<forall>r h. rooms (hr s) r = Some h \<longrightarrow> hub_ok (conns s, h)) \<and>
     (\<forall>r h k c. rooms (hr s) r = Some h \<longrightarrow> connections h k = Some c \<longrightarrow>
        get_room_id k (hr s) = r \<and> c \<in> set (readers s)) \<and>
     distinct (map (\<lambda>c. conn_peer (conns s c)) (readers s))"

lemma filed_okI:
  assumes "\<And>p. rooms (hr s) (get_room_id p (hr s)) \<noteq> None"
    and "\<And>r h. rooms (hr s) r = Some h \<Longrightarrow> hub_ok (conns s, h)"
    and "\<And>r h k c. rooms (hr s) r = Some h \<Longrightarrow> connections h k = Some c \<Longrightarrow>
        get_room_id k (hr s) = r \<and> c \<in> set (readers s)"
    and "distinct (map (\<lambda>c. conn_peer (conns s c)) (readers s))"
  shows "filed_ok s"
  using assms unfolding filed_ok_def by blast

lemma filed_okD:
  assumes "filed_ok s"
  shows "rooms (hr s) (get_room_id p (hr s)) \<noteq> None"
    and "rooms (hr s) r = Some h \<Longrightarrow> hub_ok (conns s, h)"
    and "rooms (hr s) r = Some h \<Longrightarrow> connections h k = Some c \<Longrightarrow> get_room_id k (hr s) = r"
    and "rooms (hr s) r = Some h \<Longrightarrow> connections h k = Some c \<Longrightarrow> c \<in> set (readers s)"
    and "distinct (map (\<lambda>c. conn_peer (conns s c)) (readers s))"
  using assms unfolding filed_ok_def by blast+

lemma filed_ok_start: "filed_ok (server_start n limit st)"
proof (rule filed_okI)
  fix r h assume "rooms (hr (server_start n limit st)) r = Some h"
  then have h: "h = newhub" by (simp add: server_start_def run_rooms split: if_splits)
  then show "hub_ok (conns (server_start n limit st), h)" by (simp add: hub_ok_new)
  fix k c assume "connections h k = Some c"
  with h show "get_room_id k (hr (server_start n limit st)) = r \<and> c \<in> set (readers (server_start n limit st))"
    by (simp add: newhub_def)
next
  show "rooms (hr (server_start n limit st)) (get_room_id p (hr (server_start n limit st))) \<noteq> None" for p
    using get_room_id_run [of p n] by (simp add: server_start_def run_rooms)
qed (simp add: server_start_def)

text \<open>One room and the store change, and the readers of the connections that stay run on.\<close>

lemma filed_ok_room:
  assumes "filed_ok s" "rooms (hr s) r = Some h" "hub_ok (st', h')" "hub_frame (conns s, h) (st', h')"
    and "cstHash r' = cstHash (hr s)" "rooms r' = (rooms (hr s))(r \<mapsto> h')"
    and "readers s' = rs" "hr s' = r'" "conns s' = st'"
    and "distinct (map (\<lambda>c. conn_peer (conns s c)) rs)"
    and "\<And>d. d \<in> set (readers s) \<Longrightarrow> d \<in> set rs \<or> (conn_peer (conns s d) = k \<and> get_room_id k (hr s) = r \<and> connections h' k = None)"
  shows "filed_ok s'"
proof (rule filed_okI)
  note f = filed_okD [OF assms(1)]
  have room: "get_room_id p (hr s') = get_room_id p (hr s)" for p
    using assms(5,8) by (simp add: get_room_id_def)
  have peer: "conn_peer (st' d) = conn_peer (conns s d)" for d
    using assms(4) by (simp add: hub_frame_def)
  show "rooms (hr s') (get_room_id p (hr s')) \<noteq> None" for p
    using f(1) [of p] assms(6,8) room by simp
  show "distinct (map (\<lambda>c. conn_peer (conns s' c)) (readers s'))"
    using assms(7,9,10) by (simp add: peer cong: map_cong)
  fix q g assume g: "rooms (hr s') q = Some g"
  have old: "rooms (hr s) q = Some g" if "q \<noteq> r" using g that assms(6,8) by simp
  show hub: "hub_ok (conns s', g)"
  proof (cases "q = r")
    case False
    have "ran (connections g) \<inter> ran (connections h) = {}"
    proof (rule ccontr)
      assume "ran (connections g) \<inter> ran (connections h) \<noteq> {}"
      then obtain c i j where "connections g i = Some c" "connections h j = Some c" by (auto simp: ran_def)
      with old [OF False] False assms(2) f(2) [OF old [OF False]] f(2) [OF assms(2)]
        f(3) [OF old [OF False], of i c] f(3) [OF assms(2), of j c]
      show False using hub_ok_open by metis
    qed
    from hub_ok_frame [OF f(2) [OF old [OF False]] assms(4) this] assms(9) show ?thesis by simp
  qed (use g assms in simp)
  fix i c assume i: "connections g i = Some c"
  show "get_room_id i (hr s') = q \<and> c \<in> set (readers s')"
  proof (cases "q = r")
    case True
    then have "g = h'" using g assms(6,8) by simp
    with i assms(4) have c: "connections h i = Some c"
      by (auto simp: hub_frame_def map_le_def dom_def)
    then have "conn_peer (conns s c) = i" using hub_ok_open [OF f(2) [OF assms(2)]] by blast
    with assms(11) [OF f(4) [OF assms(2) c]] i \<open>g = h'\<close> have "c \<in> set rs" by auto
    with f(3) [OF assms(2) c] True room assms(7) show ?thesis by simp
  next
    case False
    note o = old [OF False]
    have "conn_peer (conns s c) = i" using hub_ok_open [OF f(2) [OF o]] i by blast
    with assms(11) [OF f(4) [OF o i]] f(3) [OF o i] False have "c \<in> set rs" by auto
    with f(3) [OF o i] room assms(7) show ?thesis by simp
  qed
qed

text \<open>Steps that touch neither connections nor the hash keep it.\<close>

lemma filed_ok_same:
  assumes "filed_ok s" "cstHash (hr s') = cstHash (hr s)" "readers s' = readers s" "conns s' = conns s"
    and "\<And>r h'. rooms (hr s') r = Some h' \<Longrightarrow>
      \<exists>h. rooms (hr s) r = Some h \<and> connections h' = connections h \<and> peercnt h' = peercnt h"
    and "\<And>r. rooms (hr s) r \<noteq> None \<Longrightarrow> rooms (hr s') r \<noteq> None"
  shows "filed_ok s'"
proof (rule filed_okI)
  note f = filed_okD [OF assms(1)] and room = get_room_id_cong [OF assms(2)]
  show "rooms (hr s') (get_room_id p (hr s')) \<noteq> None" for p
    using f(1) assms(6) room by simp
  show "distinct (map (\<lambda>c. conn_peer (conns s' c)) (readers s'))" using f(5) assms(3,4) by simp
  fix r h' assume "rooms (hr s') r = Some h'"
  then obtain h where h: "rooms (hr s) r = Some h" "connections h' = connections h" "peercnt h' = peercnt h"
    using assms(5) by blast
  with f(2) [OF h(1)] assms(4) show "hub_ok (conns s', h')" by (simp add: hub_ok_def)
  fix k c assume "connections h' k = Some c"
  with f(3,4) [OF h(1), of k c] h room assms(3) show "get_room_id k (hr s') = r \<and> c \<in> set (readers s')" by simp
qed


section \<open>The steps keep the filing\<close>

lemma filed_ok_register:
  assumes "filed_ok s" "new_session (Connect c) s"
  shows "\<exists>s'. websocketHandler c s = Inr s' \<and> filed_ok s'"
proof (cases "total_peer_cnt (stats (hr s)) > max_conn_limit s")
  case False
  note f = filed_okD [OF assms(1)]
  define r where "r = get_room_id (conn_peer (conns s c)) (hr s)"
  obtain h where h: "rooms (hr s) r = Some h" using f(1) r_def by blast
  define s' where "s' = s\<lparr>hr := add_peers 1 ((hr s)\<lparr>rooms := (rooms (hr s))(r \<mapsto> hub_register c (conns s) h)\<rparr>),
    readers := c # readers s\<rparr>"
  have new: "\<not> send_closed (conns s c)" "\<And>d. d \<in> set (readers s) \<Longrightarrow> conn_peer (conns s d) \<noteq> conn_peer (conns s c)"
    using assms(2) by (simp_all add: new_session_def list_all_iff)
  have room: "get_room_id p (hr s') = get_room_id p (hr s)" for p
    by (simp add: s'_def get_room_id_def add_peers_def)
  have rooms': "rooms (hr s') = (rooms (hr s))(r \<mapsto> hub_register c (conns s) h)"
      "conns s' = conns s" "readers s' = c # readers s"
    by (simp_all add: s'_def add_peers_def)
  have free: "connections h (conn_peer (conns s c)) = None"
  proof (rule ccontr)
    assume "connections h (conn_peer (conns s c)) \<noteq> None"
    then obtain d where "connections h (conn_peer (conns s c)) = Some d" by blast
    with f(2) [OF h] f(4) [OF h this] new(2) [of d] hub_ok_open [of "conns s" h _ d] show False by blast
  qed
  have "filed_ok s'"
  proof (rule filed_okI)
    show "rooms (hr s') (get_room_id p (hr s')) \<noteq> None" for p using f(1) room rooms'(1) by simp
    show "distinct (map (\<lambda>c. conn_peer (conns s' c)) (readers s'))" using f(5) new(2) rooms' by force
    fix q g assume g: "rooms (hr s') q = Some g"
    have reg: "hub_ok (conns s, hub_register c (conns s) h)"
      using hub_step_ok [of "(conns s, h)" "Register c"] f(2) [OF h] new(1) free by (simp add: single_session_def)
    show "hub_ok (conns s', g)"
      using reg f(2) [of q g] g rooms' by (auto split: if_splits)
    fix k d assume k: "connections g k = Some d"
    show "get_room_id k (hr s') = q \<and> d \<in> set (readers s')"
    proof (cases "q = r")
      case True
      then have "connections g = (connections h)(conn_peer (conns s c) \<mapsto> c)"
        using g rooms'(1) by (auto simp: hub_register_def)
      with k f(3,4) [OF h, of k d] True room rooms' show ?thesis by (auto simp: r_def split: if_splits)
    next
      case False
      with g k f(3,4) [of q g k d] room rooms' show ?thesis by simp
    qed
  qed
  moreover have "websocketHandler c s = Inr s'"
    using False h by (simp add: websocketHandler_def rooms_register_def s'_def flip: r_def)
  ultimately show ?thesis by blast
qed (use assms in \<open>simp add: websocketHandler_def\<close>)

lemma distinct_peers_remove1:
  assumes "distinct (map f xs)" "c \<in> set xs"
  shows "distinct (map f (remove1 c xs))" "\<And>d. d \<in> set xs \<Longrightarrow> d \<in> set (remove1 c xs) \<or> f d = f c"
proof -
  have "distinct xs" using assms(1) by (simp add: distinct_map)
  then show "\<And>d. d \<in> set xs \<Longrightarrow> d \<in> set (remove1 c xs) \<or> f d = f c" by auto
  show "distinct (map f (remove1 c xs))"
    using assms(1) by (simp add: distinct_map inj_on_def notin_set_remove1)
qed

lemma filed_ok_unregister:
  assumes "filed_ok s" "c \<in> set (readers s)"
  shows "\<exists>s'. reader_end c s = Inr s' \<and> filed_ok s'"
proof -
  note f = filed_okD [OF assms(1)]
  let ?k = "conn_peer (conns s c)"
  define r where "r = get_room_id ?k (hr s)"
  obtain h where h: "rooms (hr s) r = Some h" using f(1) r_def by blast
  have own: "connections h ?k \<in> {None, Some c}"
  proof (cases "connections h ?k")
    case (Some d)
    then have "conn_peer (conns s d) = ?k" "d \<in> set (readers s)"
      using hub_ok_open [OF f(2) [OF h]] f(4) [OF h] by blast+
    with f(5) assms(2) have "d = c" by (auto simp: distinct_map inj_on_def)
    with Some show ?thesis by simp
  qed simp
  with hub_step_ok [of "(conns s, h)" "Unregister c"] f(2) [OF h] obtain st' h' where
    u: "hub_unregister c (conns s) h = Inr (st', h')" "hub_ok (st', h')" by (auto simp: single_session_def)
  from hub_unregister_frame [OF u(1) own] have fr: "hub_frame (conns s, h) (st', h')" "connections h' ?k = None"
    by simp_all
  define s' where "s' = s\<lparr>conns := st', hr := add_peers (- 1) ((hr s)\<lparr>rooms := (rooms (hr s))(r \<mapsto> h')\<rparr>),
    readers := remove1 c (readers s)\<rparr>"
  have "reader_end c s = Inr s'"
    using h u(1) by (simp add: reader_end_def rooms_unregister_def s'_def flip: r_def)
  moreover have "filed_ok s'"
  proof (rule filed_ok_room [OF assms(1) h u(2) fr(1)])
    note d = distinct_peers_remove1 [OF f(5) assms(2)]
    show "distinct (map (\<lambda>c. conn_peer (conns s c)) (remove1 c (readers s)))" by (rule d(1))
    show "d \<in> set (remove1 c (readers s)) \<or> conn_peer (conns s d) = ?k \<and> get_room_id ?k (hr s) = r \<and> connections h' ?k = None"
      if "d \<in> set (readers s)" for d
      using d(2) [OF that] fr(2) by (simp add: r_def)
  qed (simp_all add: s'_def add_peers_def)
  ultimately show ?thesis by blast
qed

lemma filed_ok_room_broadcast:
  assumes "filed_ok s" "room_broadcast r order s = Some v"
  shows "\<exists>s'. v = Inr s' \<and> filed_ok s'"
proof -
  obtain h where h: "rooms (hr s) r = Some h"
      "v = bind_go (hub_step (Broadcast order) (conns s, h)) (\<lambda>(st, h').
            Inr (s\<lparr>conns := st, hr := (hr s)\<lparr>rooms := (rooms (hr s))(r \<mapsto> h')\<rparr>\<rparr>))"
    using assms(2) by (auto simp: room_broadcast_def split: option.splits if_splits)
  note f = filed_okD [OF assms(1)]
  obtain st' h' where b: "hub_step (Broadcast order) (conns s, h) = Inr (st', h')" "hub_ok (st', h')"
    using hub_step_ok [OF f(2) [OF h(1)], of "Broadcast order"] by (auto simp: single_session_def)
  have "hub_frame (conns s, h) (st', h')" using hub_broadcast_frame b(1) by simp
  from filed_ok_room [OF assms(1) h(1) b(2) this, of _ "s\<lparr>conns := st', hr := (hr s)\<lparr>rooms := (rooms (hr s))(r \<mapsto> h')\<rparr>\<rparr>"]
  have "filed_ok (s\<lparr>conns := st', hr := (hr s)\<lparr>rooms := (rooms (hr s))(r \<mapsto> h')\<rparr>\<rparr>)"
    using f(5) by simp
  with h(2) b(1) show ?thesis by simp
qed

text \<open>Changes of the queues of open connections keep it too.\<close>

lemma filed_ok_queue:
  assumes "filed_ok s"
  shows "filed_ok (s\<lparr>conns := (conns s)(c := (conns s c)\<lparr>send_q := q\<rparr>), task := t\<rparr>)"
proof (rule filed_okI)
  note f = filed_okD [OF assms]
  let ?s = "s\<lparr>conns := (conns s)(c := (conns s c)\<lparr>send_q := q\<rparr>), task := t\<rparr>"
  show "rooms (hr ?s) (get_room_id p (hr ?s)) \<noteq> None" for p using f(1) by simp
  have "conn_peer (conns ?s d) = conn_peer (conns s d)" for d by simp
  then show "distinct (map (\<lambda>c. conn_peer (conns ?s c)) (readers ?s))" using f(5) by (simp cong: map_cong)
  fix r h assume h: "rooms (hr ?s) r = Some h"
  then show "hub_ok (conns ?s, h)" using f(2) [of r h] by (auto simp: hub_ok_def)
  fix k d assume "connections h k = Some d"
  with h f(3,4) [of r h k d] show "get_room_id k (hr ?s) = r \<and> d \<in> set (readers ?s)" by simp
qed

lemma filed_ok_hr:
  assumes "filed_ok s" "cstHash r = cstHash (hr s)" "rooms r = rooms (hr s)"
  shows "filed_ok (s\<lparr>hr := r, task := t\<rparr>)"
  using assms by (intro filed_ok_same [OF assms(1)]) auto

lemma filed_ok_hr_only:
  assumes "filed_ok s" "cstHash r = cstHash (hr s)" "rooms r = rooms (hr s)"
  shows "filed_ok (s\<lparr>hr := r\<rparr>)"
  using filed_ok_hr [OF assms, of "task s"] by simp

lemma begin_push_same:
  "begin_push br body r = (m, r') \<Longrightarrow> cstHash r' = cstHash r \<and> rooms r' = rooms r \<and> rooms_ids r' = rooms_ids r"
  by (auto simp: begin_push_def Let_def)

lemma filed_ok_start_rooms:
  assumes "filed_ok s" "start_rooms ids body s = Some s'"
  shows "filed_ok s'"
proof -
  obtain m r where b: "begin_push True body (hr s) = (m, r)" by force
  with assms(2) have "s' = s\<lparr>hr := r, task := ToRooms m ids\<rparr>"
    by (simp add: start_rooms_def split: if_splits)
  with begin_push_same [OF b] filed_ok_hr [OF assms(1)] show ?thesis by simp
qed

lemma filed_ok_start_peers:
  assumes "filed_ok s" "start_peers ps body sc s = Some s'"
  shows "filed_ok s'"
proof -
  obtain m r where b: "begin_push False body (hr s) = (m, r)" by force
  with assms(2) have "s' = s\<lparr>hr := r, task := ToPeers m ps sc\<rparr>"
    by (simp add: start_peers_def split: if_splits)
  with begin_push_same [OF b] filed_ok_hr [OF assms(1)] show ?thesis by simp
qed

lemma filed_ok_task_step:
  assumes "filed_ok s" "task_step s = Some (Inr s')"
  shows "filed_ok s'"
proof (cases "task s")
  case (ToRooms m ids)
  with assms(2) obtain i js r where i: "ids = i # js" "room_send m i (hr s) = Some r"
      "s' = s\<lparr>hr := r, task := ToRooms m js\<rparr>"
    by (auto simp: task_step_def split: list.splits)
  then show ?thesis
    by (intro filed_ok_same [OF assms(1)]) (auto simp: room_send_def split: option.splits if_splits)
next
  case (ToPeers m ps sc)
  with assms(2) obtain t where "s' = s\<lparr>task := t\<rparr>"
    by (auto simp: task_step_def bind_go_Inr split: list.splits)
  with filed_ok_hr [OF assms(1), of "hr s" t] show ?thesis by simp
next
  case (PeerSend m c ps sc)
  with assms(2) have "s' = s\<lparr>conns := put_send c m (conns s), task := ToPeers m ps sc\<rparr>"
    by (auto simp: task_step_def conn_send_def split: if_splits)
  with filed_ok_queue [OF assms(1)] show ?thesis by (simp add: put_send_def)
qed (use assms in \<open>simp add: task_step_def\<close>)

lemma filed_ok_step:
  assumes "filed_ok s" "new_session e s" "server_step e s = Some (Inr s')"
  shows "filed_ok s'"
proof (cases e)
  case (Connect c)
  with assms filed_ok_register [of s c] show ?thesis by auto
next
  case (Disconnect c)
  with assms filed_ok_unregister [of s c] show ?thesis by (auto split: if_splits)
next
  case (Push body)
  with assms show ?thesis
    by (auto simp: enqueue_def intro!: filed_ok_hr_only split: if_splits)
next
  case (StartAll order)
  with assms(3) obtain body q where "start_rooms order body (s\<lparr>hr := (hr s)\<lparr>broadcast_Q := q\<rparr>\<rparr>) = Some s'"
    by (auto simp: start_all_def split: list.splits if_splits)
  moreover have "filed_ok (s\<lparr>hr := (hr s)\<lparr>broadcast_Q := q\<rparr>\<rparr>)"
    using filed_ok_hr_only [OF assms(1)] by simp
  ultimately show ?thesis by (blast intro: filed_ok_start_rooms)
next
  case (StartRooms ids body)
  with assms filed_ok_start_rooms show ?thesis by auto
next
  case (StartPeers ps body sc)
  with assms filed_ok_start_peers show ?thesis by auto
next
  case (TaskEnd diff)
  with assms show ?thesis
    by (auto simp: task_end_def end_push_def intro!: filed_ok_hr split: br_task.splits list.splits)
next
  case (WriterTake c)
  with assms filed_ok_queue [OF assms(1), where c = c and t = "task s"] show ?thesis
    by (auto simp: writer_take_def split: list.splits)
next
  case (RoomBroadcast r order)
  with assms filed_ok_room_broadcast [of s r order] show ?thesis by fastforce
next
  case TaskStep
  with assms filed_ok_task_step show ?thesis by simp
next
  case (StatSent i)
  with assms show ?thesis by (auto simp: stat_sent_def intro!: filed_ok_hr_only split: option.splits)
next
  case (StatAcked i)
  with assms show ?thesis by (auto simp: stat_acked_def intro!: filed_ok_hr_only split: option.splits)
qed

lemma get_connection_total:
  assumes "filed_ok s"
  shows "\<exists>c. get_connection_by_peer_id p (hr s) = Inr c"
  using filed_okD(1) [OF assms, of p] by (auto simp: get_connection_by_peer_id_def)

lemma step_panic:
  assumes "filed_ok s" "new_session e s" "server_step e s = Some (Inl p)"
  shows "p = SendOnClosed \<and> e = TaskStep \<and> (\<exists>m c ps sc. task s = PeerSend m c ps sc \<and> send_closed (conns s c))"
proof (cases e)
  case (Connect c)
  with assms filed_ok_register [of s c] show ?thesis by auto
next
  case (Disconnect c)
  with assms filed_ok_unregister [of s c] show ?thesis by (auto split: if_splits)
next
  case (RoomBroadcast r order)
  with assms filed_ok_room_broadcast [of s r order] show ?thesis by fastforce
next
  case TaskStep
  show ?thesis
  proof (cases "task s")
    case (ToPeers m ps sc)
    with TaskStep assms(3) obtain q qs where "peer_lookup m q qs sc (hr s) = Inl p"
      by (auto simp: task_step_def bind_go_def split: list.splits sum.splits)
    with get_connection_total [OF assms(1), of q] show ?thesis by (auto simp: peer_lookup_def split: option.splits)
  qed (use TaskStep assms in \<open>auto simp: task_step_def conn_send_def split: list.splits if_splits\<close>)
qed (use assms in \<open>auto\<close>)

lemma filed_ok_reachable:
  assumes "reachable (server_start n limit st) s"
  shows "filed_ok s"
  using assms by induction (auto intro: filed_ok_start filed_ok_step)


section \<open>Counters and order\<close>

definition count_ok :: "int \<Rightarrow> server \<Rightarrow> bool" where
  "count_ok limit s \<longleftrightarrow> max_conn_limit s = limit \<and>
     total_peer_cnt (stats (hr s)) = int (length (readers s)) \<and>
     int (length (readers s)) \<le> max 0 (limit + 1)"

text \<open>The messages in a channel, and the one being sent, carry the numbers given so far, in order.\<close>

definition upto_ok :: "int \<Rightarrow> push_msg_t list \<Rightarrow> bool" where
  "upto_ok n ms \<longleftrightarrow> sorted (map msg_id ms) \<and> (\<forall>m \<in> set ms. msg_id m \<le> n)"

fun task_msg :: "br_task \<Rightarrow> push_msg_t option" where
  "task_msg Idle = None"
| "task_msg (ToRooms m _) = Some m"
| "task_msg (ToPeers m _ _) = Some m"
| "task_msg (PeerSend m _ _ _) = Some m"

definition order_ok :: "server \<Rightarrow> bool" where
  "order_ok s \<longleftrightarrow>
     (let n = total_msg_cnt (stats (hr s)) in
      0 \<le> n \<and> dom (msg_stats (hr s)) = {1..n} \<and>
      (\<forall>r h. rooms (hr s) r = Some h \<longrightarrow> upto_ok n (broadcast_ch h)) \<and>
      (broadcast_mu (hr s) \<longleftrightarrow> task_msg (task s) = None) \<and>
      (\<forall>m. task_msg (task s) = Some m \<longrightarrow> msg_id m = n))"

lemma upto_ok_mono: "upto_ok n ms \<Longrightarrow> n \<le> n' \<Longrightarrow> upto_ok n' ms"
  by (force simp: upto_ok_def)

lemma upto_ok_snoc: "upto_ok n ms \<Longrightarrow> msg_id m = n \<Longrightarrow> upto_ok n (ms @ [m])"
  by (auto simp: upto_ok_def sorted_append)

lemma upto_ok_tl: "upto_ok n (m # ms) \<Longrightarrow> upto_ok n ms"
  by (simp add: upto_ok_def)

lemma count_ok_step:
  assumes "count_ok limit s" "filed_ok s" "new_session e s" "server_step e s = Some (Inr s')"
  shows "count_ok limit s'"
proof (cases e)
  case (Connect c)
  with assms(1,4) show ?thesis
    by (auto simp: count_ok_def websocketHandler_def rooms_register_def add_peers_def bind_go_Inr Let_def
        split: if_splits option.splits)
next
  case (Disconnect c)
  with assms(4) have c: "c \<in> set (readers s)" "reader_end c s = Inr s'" by (auto split: if_splits)
  then have "stats (hr s') = (stats (hr s))\<lparr>total_peer_cnt := total_peer_cnt (stats (hr s)) - 1\<rparr>"
      "max_conn_limit s' = max_conn_limit s" "readers s' = remove1 c (readers s)"
    by (auto simp: reader_end_def rooms_unregister_def add_peers_def bind_go_Inr Let_def split: option.splits)
  moreover obtain n where "length (readers s) = Suc n" using c(1) by (cases "readers s") auto
  ultimately show ?thesis using assms(1) c(1) by (simp add: count_ok_def length_remove1)
next
  case TaskStep
  with assms(1,4) show ?thesis
    by (auto simp: count_ok_def task_step_def room_send_def peer_lookup_def conn_send_def bind_go_Inr
        split: br_task.splits list.splits option.splits if_splits)
next
  case (RoomBroadcast r order)
  with assms(1,4) show ?thesis
    by (auto simp: count_ok_def room_broadcast_def bind_go_Inr split: option.splits if_splits)
qed (use assms in \<open>auto simp: count_ok_def enqueue_def start_all_def start_rooms_def start_peers_def begin_push_def
    task_end_def end_push_def writer_take_def stat_sent_def stat_acked_def Let_def
    split: br_task.splits list.splits option.splits if_splits\<close>)

lemma order_ok_room:
  assumes "order_ok s" "rooms (hr s) r = Some h" "upto_ok (total_msg_cnt (stats (hr s))) (broadcast_ch h')"
    and "stats (hr s') = (stats (hr s))\<lparr>total_peer_cnt := k\<rparr>" "msg_stats (hr s') = msg_stats (hr s)"
    and "broadcast_mu (hr s') = broadcast_mu (hr s)" "task_msg (task s') = task_msg (task s)"
    and "rooms (hr s') = (rooms (hr s))(r \<mapsto> h')"
  shows "order_ok s'"
  using assms by (simp add: order_ok_def Let_def)

lemma order_ok_same:
  assumes "order_ok s" "rooms (hr s') = rooms (hr s)" "total_msg_cnt (stats (hr s')) = total_msg_cnt (stats (hr s))"
    and "dom (msg_stats (hr s')) = dom (msg_stats (hr s))" "broadcast_mu (hr s') = broadcast_mu (hr s)"
    and "task_msg (task s') = task_msg (task s)"
  shows "order_ok s'"
  using assms by (simp add: order_ok_def)

lemma order_ok_begin:
  assumes "order_ok s" "begin_push br body (hr s) = (m, r)" "task_msg t = Some m"
  shows "order_ok (s\<lparr>hr := r, task := t\<rparr>)"
proof -
  let ?n = "total_msg_cnt (stats (hr s))"
  have r: "total_msg_cnt (stats r) = ?n + 1" "msg_id m = ?n + 1" "rooms r = rooms (hr s)" "\<not> broadcast_mu r"
      "dom (msg_stats r) = insert (?n + 1) (dom (msg_stats (hr s)))"
    using assms(2) by (auto simp: begin_push_def Let_def)
  have "0 \<le> ?n" "dom (msg_stats (hr s)) = {1..?n}"
      "\<And>q h. rooms (hr s) q = Some h \<Longrightarrow> upto_ok (?n + 1) (broadcast_ch h)"
    using assms(1) upto_ok_mono [of ?n _ "?n + 1"] by (simp_all add: order_ok_def Let_def)
  moreover have "insert (?n + 1) {1..?n} = {1..?n + 1}" using \<open>0 \<le> ?n\<close> by auto
  ultimately show ?thesis
    using assms(3) r by (simp add: order_ok_def Let_def)
qed

lemma order_ok_start_rooms:
  assumes "order_ok s" "start_rooms ids body s = Some s'"
  shows "order_ok s'"
proof -
  obtain m r where b: "begin_push True body (hr s) = (m, r)" by force
  with assms(2) have "s' = s\<lparr>hr := r, task := ToRooms m ids\<rparr>"
    by (simp add: start_rooms_def split: if_splits)
  with order_ok_begin [OF assms(1) b] show ?thesis by simp
qed

lemma order_ok_task_step:
  assumes "order_ok s" "task_step s = Some (Inr s')"
  shows "order_ok s'"
proof (cases "task s")
  case (ToRooms m ids)
  with assms(2) obtain i js r where i: "ids = i # js" "room_send m i (hr s) = Some r"
      "s' = s\<lparr>hr := r, task := ToRooms m js\<rparr>"
    by (auto simp: task_step_def split: list.splits)
  have m: "msg_id m = total_msg_cnt (stats (hr s))" using assms(1) ToRooms by (simp add: order_ok_def Let_def)
  show ?thesis
  proof (cases "rooms (hr s) i")
    case None
    with i show ?thesis by (intro order_ok_same [OF assms(1)]) (auto simp: room_send_def ToRooms)
  next
    case (Some h)
    then have "upto_ok (total_msg_cnt (stats (hr s))) (broadcast_ch h)"
      using assms(1) by (simp add: order_ok_def Let_def)
    with upto_ok_snoc [OF this m] Some i ToRooms show ?thesis
      by (intro order_ok_room [OF assms(1) Some, of "h\<lparr>broadcast_ch := broadcast_ch h @ [m]\<rparr>" _
            "total_peer_cnt (stats (hr s))"]) (auto simp: room_send_def split: if_splits)
  qed
next
  case (ToPeers m ps sc)
  with assms(2) show ?thesis
    by (intro order_ok_same [OF assms(1)])
      (auto simp: task_step_def peer_lookup_def bind_go_Inr split: list.splits option.splits)
next
  case (PeerSend m c ps sc)
  with assms(2) show ?thesis
    by (intro order_ok_same [OF assms(1)]) (auto simp: task_step_def bind_go_Inr)
qed (use assms in \<open>simp add: task_step_def\<close>)

lemma hub_register_ch: "broadcast_ch (hub_register c st h) = broadcast_ch h"
  by (simp add: hub_register_def)

lemma hub_unregister_ch: "hub_unregister c st h = Inr (st', h') \<Longrightarrow> broadcast_ch h' = broadcast_ch h"
  by (auto simp: hub_unregister_def bind_go_Inr Let_def split: if_splits)

lemma hub_broadcast_ch:
  "hub_broadcast order st h = Inr (st', h') \<Longrightarrow> broadcast_ch h' = tl (broadcast_ch h)"
  by (auto simp: hub_broadcast_def split: list.splits dest: fold_deliver_ch)

lemma order_ok_D: "order_ok s \<Longrightarrow> rooms (hr s) r = Some h \<Longrightarrow> upto_ok (total_msg_cnt (stats (hr s))) (broadcast_ch h)"
  by (simp add: order_ok_def Let_def)

lemma stat_sames:
  "rooms (stat_sent i r) = rooms r" "stats (stat_sent i r) = stats r" "broadcast_mu (stat_sent i r) = broadcast_mu r"
  "dom (msg_stats (stat_sent i r)) = dom (msg_stats r)"
  "rooms (stat_acked i r) = rooms r" "stats (stat_acked i r) = stats r" "broadcast_mu (stat_acked i r) = broadcast_mu r"
  "dom (msg_stats (stat_acked i r)) = dom (msg_stats r)"
  by (auto simp: stat_sent_def stat_acked_def split: option.splits if_splits)

lemma order_ok_step:
  assumes "order_ok s" "server_step e s = Some (Inr s')"
  shows "order_ok s'"
proof (cases e)
  case (Connect c)
  show ?thesis
  proof (cases "total_peer_cnt (stats (hr s)) > max_conn_limit s")
    case False
    with assms(2) Connect obtain r h where h: "rooms (hr s) r = Some h"
        "s' = s\<lparr>hr := add_peers 1 ((hr s)\<lparr>rooms := (rooms (hr s))(r \<mapsto> hub_register c (conns s) h)\<rparr>), readers := c # readers s\<rparr>"
      by (auto simp: websocketHandler_def rooms_register_def bind_go_Inr Let_def split: option.splits)
    with order_ok_D [OF assms(1) h(1)] show ?thesis
      by (intro order_ok_room [OF assms(1) h(1), of "hub_register c (conns s) h"]) (auto simp: add_peers_def hub_register_ch)
  qed (use assms Connect in \<open>simp add: websocketHandler_def\<close>)
next
  case (Disconnect c)
  with assms(2) obtain r h st' h' where h: "rooms (hr s) r = Some h" "hub_unregister c (conns s) h = Inr (st', h')"
      "s' = s\<lparr>conns := st', hr := add_peers (- 1) ((hr s)\<lparr>rooms := (rooms (hr s))(r \<mapsto> h')\<rparr>), readers := remove1 c (readers s)\<rparr>"
    by (auto simp: reader_end_def rooms_unregister_def bind_go_Inr Let_def split: option.splits if_splits)
  with order_ok_D [OF assms(1) h(1)] hub_unregister_ch [OF h(2)] show ?thesis
    by (intro order_ok_room [OF assms(1) h(1), of h']) (auto simp: add_peers_def)
next
  case (StartAll order)
  with assms(2) obtain body q where "start_rooms order body (s\<lparr>hr := (hr s)\<lparr>broadcast_Q := q\<rparr>\<rparr>) = Some s'"
    by (auto simp: start_all_def split: list.splits if_splits)
  moreover have "order_ok (s\<lparr>hr := (hr s)\<lparr>broadcast_Q := q\<rparr>\<rparr>)"
    by (rule order_ok_same [OF assms(1)]) simp_all
  ultimately show ?thesis by (blast intro: order_ok_start_rooms)
next
  case (StartRooms ids body)
  with assms order_ok_start_rooms show ?thesis by auto
next
  case (StartPeers ps body sc)
  obtain m r where b: "begin_push False body (hr s) = (m, r)" by force
  with assms(2) StartPeers have "s' = s\<lparr>hr := r, task := ToPeers m ps sc\<rparr>"
    by (simp add: start_peers_def split: if_splits)
  with order_ok_begin [OF assms(1) b] show ?thesis by simp
next
  case TaskStep
  with assms order_ok_task_step show ?thesis by simp
next
  case (TaskEnd diff)
  with assms(2) obtain m where "s' = s\<lparr>hr := end_push m diff (hr s), task := Idle\<rparr>"
    by (auto simp: task_end_def split: br_task.splits list.splits)
  with assms(1) show ?thesis by (simp add: order_ok_def end_push_def Let_def)
next
  case (RoomBroadcast r order)
  with assms(2) obtain h st' h' where h: "rooms (hr s) r = Some h" "broadcast_ch h \<noteq> []"
      "hub_broadcast order (conns s) h = Inr (st', h')"
      "s' = s\<lparr>conns := st', hr := (hr s)\<lparr>rooms := (rooms (hr s))(r \<mapsto> h')\<rparr>\<rparr>"
    by (auto simp: room_broadcast_def bind_go_Inr split: option.splits if_splits)
  have "upto_ok (total_msg_cnt (stats (hr s))) (broadcast_ch h')"
    using order_ok_D [OF assms(1) h(1)] h(2) hub_broadcast_ch [OF h(3)] by (cases "broadcast_ch h") (auto intro: upto_ok_tl)
  with h show ?thesis
    by (intro order_ok_room [OF assms(1) h(1), of h' _ "total_peer_cnt (stats (hr s))"]) auto
next
  case (Push body)
  with assms(2) show ?thesis
    by (intro order_ok_same [OF assms(1)]) (auto simp: enqueue_def split: if_splits)
next
  case (WriterTake c)
  with assms(2) show ?thesis
    by (intro order_ok_same [OF assms(1)]) (auto simp: writer_take_def split: list.splits)
next
  case (StatSent i)
  with assms(2) have "s' = s\<lparr>hr := stat_sent i (hr s)\<rparr>" by simp
  then show ?thesis by (intro order_ok_same [OF assms(1)]) (simp_all add: stat_sames)
next
  case (StatAcked i)
  with assms(2) have "s' = s\<lparr>hr := stat_acked i (hr s)\<rparr>" by simp
  then show ?thesis by (intro order_ok_same [OF assms(1)]) (simp_all add: stat_sames)
qed

lemma order_ok_start: "order_ok (server_start n limit st)"
proof -
  have "upto_ok 0 (broadcast_ch newhub)" by (simp add: upto_ok_def newhub_def)
  then show ?thesis
    by (auto simp: order_ok_def server_start_def run_rooms Let_def hub_rooms_run_def map_of_map_restrict
      restrict_map_def comp_def split: if_splits)
qed

lemma count_ok_start: "count_ok limit (server_start n limit st)"
  by (simp add: count_ok_def server_start_def hub_rooms_run_def Let_def)

lemma reachable_ok:
  assumes "reachable (server_start n limit st) s"
  shows "filed_ok s \<and> count_ok limit s \<and> order_ok s"
  using assms
  by induction (blast intro: filed_ok_start filed_ok_step count_ok_start count_ok_step order_ok_start order_ok_step)+

section \<open>The rooms are those of the start\<close>

definition same_rooms :: "hub_rooms \<Rightarrow> hub_rooms \<Rightarrow> bool" where
  "same_rooms r r' \<longleftrightarrow> dom (rooms r') = dom (rooms r) \<and> rooms_ids r' = rooms_ids r"

lemma same_rooms_refl [simp]: "same_rooms r r"
  by (simp add: same_rooms_def)

lemma same_rooms_upd: "rooms r q = Some h \<Longrightarrow> rooms r' = (rooms r)(q \<mapsto> h') \<Longrightarrow> rooms_ids r' = rooms_ids r \<Longrightarrow> same_rooms r r'"
  by (auto simp: same_rooms_def)

lemma same_rooms_eq: "rooms r' = rooms r \<Longrightarrow> rooms_ids r' = rooms_ids r \<Longrightarrow> same_rooms r r'"
  by (simp add: same_rooms_def)

lemma begin_push_rooms: "begin_push br body r = (m, r') \<Longrightarrow> same_rooms r r'"
  by (auto simp: begin_push_def Let_def intro: same_rooms_eq)

lemma start_rooms_same: "start_rooms ids body s = Some s' \<Longrightarrow> same_rooms (hr s) (hr s')"
  by (auto simp: start_rooms_def split: if_splits prod.splits dest: begin_push_rooms)

lemma server_step_same:
  assumes "server_step e s = Some (Inr s')"
  shows "same_rooms (hr s) (hr s')"
proof (cases e)
  case (Connect c)
  with assms show ?thesis
    by (auto simp: websocketHandler_def rooms_register_def add_peers_def bind_go_Inr Let_def
        split: if_splits option.splits intro: same_rooms_upd)
next
  case (Disconnect c)
  with assms show ?thesis
    by (auto simp: reader_end_def rooms_unregister_def add_peers_def bind_go_Inr Let_def
        split: if_splits option.splits intro: same_rooms_upd)
next
  case (StartAll order)
  with assms obtain body q where "start_rooms order body (s\<lparr>hr := (hr s)\<lparr>broadcast_Q := q\<rparr>\<rparr>) = Some s'"
    by (auto simp: start_all_def split: list.splits if_splits)
  from start_rooms_same [OF this] show ?thesis by (simp add: same_rooms_def)
next
  case (StartRooms ids body)
  with assms start_rooms_same show ?thesis by auto
next
  case (StartPeers ps body sc)
  with assms show ?thesis
    by (auto simp: start_peers_def split: if_splits prod.splits dest: begin_push_rooms)
next
  case TaskStep
  with assms show ?thesis
    by (auto simp: task_step_def room_send_def bind_go_Inr split: br_task.splits list.splits option.splits if_splits
        intro: same_rooms_upd)
next
  case (RoomBroadcast r order)
  with assms show ?thesis
    by (auto simp: room_broadcast_def bind_go_Inr split: option.splits if_splits intro: same_rooms_upd)
qed (use assms in \<open>auto simp: enqueue_def task_end_def end_push_def writer_take_def stat_sent_def stat_acked_def
    split: br_task.splits list.splits option.splits if_splits intro!: same_rooms_eq\<close>)

lemma reachable_rooms:
  assumes "reachable (server_start n limit st) s"
  shows "rooms_ids (hr s) = rooms_ids (hub_rooms_run n) \<and> dom (rooms (hr s)) = set (rooms_ids (hub_rooms_run n))"
  using assms
proof induction
  case start
  have "dom (rooms (hub_rooms_run n)) = set (rooms_ids (hub_rooms_run n))"
    by (auto simp: run_rooms dom_def)
  then show ?case by (simp add: server_start_def)
next
  case (step s e s')
  with server_step_same [of e s s'] show ?case by (simp add: same_rooms_def)
qed

end
