(* ===== verification/Rooms_Props.thy ===== *)
theory Rooms_Props
  imports Rooms_Inv
begin

text \<open>
  Runs of the server, a broadcast to rooms from its start to its end, the question which
  peers are online, and the properties of the registry.
\<close>

section \<open>Runs\<close>

fun server_run :: "server_event list \<Rightarrow> server \<Rightarrow> server go option" where
  "server_run [] s = Some (Inr s)"
| "server_run (e # es) s =
     (case server_step e s of
        None \<Rightarrow> None
      | Some (Inl p) \<Rightarrow> Some (Inl p)
      | Some (Inr s') \<Rightarrow> server_run es s')"

lemma server_run_append:
  "server_run es s = Some (Inr s') \<Longrightarrow> server_run (es @ fs) s = server_run fs s'"
  by (induction es arbitrary: s) (auto split: option.splits sum.splits)

fun new_sessions :: "server_event list \<Rightarrow> server \<Rightarrow> bool" where
  "new_sessions [] s = True"
| "new_sessions (e # es) s =
     (new_session e s \<and> (case server_step e s of Some (Inr s') \<Rightarrow> new_sessions es s' | _ \<Rightarrow> True))"

lemma server_run_reachable:
  assumes "server_run es s = Some (Inr s')" "new_sessions es s" "reachable s0 s"
  shows "reachable s0 s'"
  using assms
proof (induction es arbitrary: s)
  case (Cons e es)
  then obtain s1 where "server_step e s = Some (Inr s1)" "server_run es s1 = Some (Inr s')"
    by (auto split: option.splits sum.splits)
  with Cons show ?case by (auto intro: reachable.step)
qed simp

section \<open>A broadcast to rooms\<close>

definition with_msgs :: "push_msg_t \<Rightarrow> (string \<Rightarrow> nat) \<Rightarrow> (string \<rightharpoonup> hub) \<Rightarrow> string \<rightharpoonup> hub" where
  "with_msgs m n rs r = map_option (\<lambda>h. h\<lparr>broadcast_ch := broadcast_ch h @ replicate (n r) m\<rparr>) (rs r)"

lemma with_msgs_none [simp]: "with_msgs m (\<lambda>_. 0) rs = rs"
  by (simp add: with_msgs_def fun_eq_iff option.map_ident)

lemma room_send_ok:
  assumes "\<And>h. rooms r i = Some h \<Longrightarrow> length (broadcast_ch h) < broadcast_cap"
  shows "room_send m i r = Some (r\<lparr>rooms := with_msgs m (\<lambda>j. if j = i then 1 else 0) (rooms r)\<rparr>)"
proof (cases "rooms r i")
  case None
  then have "with_msgs m (\<lambda>j. if j = i then 1 else 0) (rooms r) = rooms r"
    by (auto simp: with_msgs_def fun_eq_iff option.map_ident)
  with None show ?thesis by (simp add: room_send_def)
next
  case (Some h)
  then have "with_msgs m (\<lambda>j. if j = i then 1 else 0) (rooms r) =
      (rooms r)(i \<mapsto> h\<lparr>broadcast_ch := broadcast_ch h @ [m]\<rparr>)"
    by (auto simp: with_msgs_def fun_eq_iff option.map_ident)
  with Some assms show ?thesis by (simp add: room_send_def)
qed

lemma with_msgs_with_msgs: "with_msgs m f (with_msgs m g rs) = with_msgs m (\<lambda>r. g r + f r) rs"
  by (simp add: with_msgs_def fun_eq_iff option.map_comp comp_def replicate_add)

lemma rooms_sends:
  assumes "task s = ToRooms m ids"
    and "\<And>r h. rooms (hr s) r = Some h \<Longrightarrow> length (broadcast_ch h) + count_list ids r \<le> broadcast_cap"
  shows "server_run (replicate (length ids) TaskStep) s =
    Some (Inr (s\<lparr>hr := (hr s)\<lparr>rooms := with_msgs m (count_list ids) (rooms (hr s))\<rparr>, task := ToRooms m []\<rparr>))"
  using assms
proof (induction ids arbitrary: s)
  case Nil
  have "count_list [] = (\<lambda>_ :: string. 0)" by (simp add: fun_eq_iff)
  with Nil show ?case by simp
next
  case (Cons i ids)
  let ?r = "(hr s)\<lparr>rooms := with_msgs m (\<lambda>j. if j = i then 1 else 0) (rooms (hr s))\<rparr>"
  let ?s = "s\<lparr>hr := ?r, task := ToRooms m ids\<rparr>"
  have "length (broadcast_ch h) < broadcast_cap" if "rooms (hr s) i = Some h" for h
    using Cons.prems(2) [OF that] by simp
  from room_send_ok [of "hr s", OF this] Cons.prems(1) have step: "server_step TaskStep s = Some (Inr ?s)"
    by (simp add: task_step_def)
  have cap: "length (broadcast_ch h') + count_list ids r \<le> broadcast_cap" if "rooms (hr ?s) r = Some h'" for r h'
  proof -
    from that obtain h where "rooms (hr s) r = Some h"
        "h' = h\<lparr>broadcast_ch := broadcast_ch h @ replicate (if r = i then 1 else 0) m\<rparr>"
      by (auto simp: with_msgs_def)
    with Cons.prems(2) [of r h] show ?thesis by (auto split: if_splits)
  qed
  have "(\<lambda>r. (if r = i then 1 else 0) + count_list ids r) = count_list (i # ids)" by (auto simp: fun_eq_iff)
  with Cons.IH [of ?s, OF _ cap] step show ?case by (simp add: with_msgs_with_msgs del: count_list.simps)
qed

section \<open>Asking for several peers\<close>

definition online_ids :: "string list \<Rightarrow> hub_rooms \<Rightarrow> string list" where
  "online_ids ps r = filter (\<lambda>p. peer_is_online p r = Inr True) ps"

text \<open>The specification of the answer: the ids with commas between them.\<close>

fun join_comma :: "string list \<Rightarrow> string" where
  "join_comma [] = []"
| "join_comma [p] = p"
| "join_comma (p # q # ps) = p @ '','' @ join_comma (q # ps)"

definition comma_ended :: "string list \<Rightarrow> string" where
  "comma_ended ps = concat (map (\<lambda>p. p @ '','') ps)"

lemma comma_ended_join: "ps \<noteq> [] \<Longrightarrow> comma_ended ps = join_comma ps @ '',''"
  by (induction ps rule: join_comma.induct) (simp_all add: comma_ended_def)

lemma length_comma_ended: "length (comma_ended ps) = (\<Sum>p\<leftarrow>ps. length p + 1)"
  by (induction ps) (simp_all add: comma_ended_def)

lemma online_steps:
  assumes "filed_ok s"
  shows "fold_go (online_step (hr s)) ps buf = Inr (buf @ comma_ended (online_ids ps (hr s)))"
proof (induction ps arbitrary: buf)
  case (Cons p ps)
  obtain c where "get_connection_by_peer_id p (hr s) = Inr c" using get_connection_total [OF assms] by blast
  with Cons show ?case by (simp add: online_step_def online_ids_def peer_is_online_def comma_ended_def)
qed (simp add: online_ids_def comma_ended_def)

section \<open>A small run\<close>

lemma demo_push:
  "\<exists>s m r h. reachable (server_start 10 100 demo_store) s \<and> task s = PeerSend m 0 [] None \<and>
     rooms (hr s) r = Some h \<and> connections h ''a'' = Some 0 \<and> total_msg_cnt (stats (hr s)) = 1"
proof -
  let ?s0 = "server_start 10 100 demo_store"
  let ?es = "[Connect 0, StartPeers [''a''] [1] None, TaskStep]"
  define r where "r = get_room_id ''a'' (hr ?s0)"
  have "rooms (hr ?s0) r = Some newhub"
    using get_room_id_run [of "''a''" 10] by (simp add: r_def server_start_def run_rooms)
  moreover have "get_room_id ''a'' r' = r" if "cstHash r' = cstHash (hr ?s0)" for r'
    using that by (simp add: r_def get_room_id_def)
  ultimately obtain s m h where "server_run ?es ?s0 = Some (Inr s)" "new_sessions ?es ?s0"
      "task s = PeerSend m 0 [] None" "rooms (hr s) r = Some h" "connections h ''a'' = Some 0"
      "total_msg_cnt (stats (hr s)) = 1"
    by (simp add: server_start_def hub_rooms_run_def websocketHandler_def rooms_register_def add_peers_def
        start_peers_def begin_push_def task_step_def peer_lookup_def get_connection_by_peer_id_def
        hub_register_def demo_store_def new_session_def Let_def flip: r_def)
  with server_run_reachable [OF _ _ reachable.start] show ?thesis by blast
qed

section \<open>Properties\<close>

text \<open>Whatever number of rooms the configuration asks for, the registry has between 10 and
  100 of them with distinct names, and every peer id belongs to one that exists.\<close>

lemma every_peer_has_a_room:
  "10 \<le> length (rooms_ids (hub_rooms_run n)) \<and> length (rooms_ids (hub_rooms_run n)) \<le> 100 \<and>
   (10 \<le> n \<and> n \<le> 100 \<longrightarrow> int (length (rooms_ids (hub_rooms_run n))) = n) \<and>
   distinct (rooms_ids (hub_rooms_run n)) \<and>
   rooms (hub_rooms_run n) (get_room_id peer_id (hub_rooms_run n)) = Some newhub"
proof -
  have "inj_on (\<lambda>i. room_name (int i)) {0..<nat (room_limit n)}"
    by (auto simp: inj_on_def room_name_def itoa_inj)
  then have "distinct (rooms_ids (hub_rooms_run n))" by (simp add: run_ids distinct_map)
  moreover have "10 \<le> n \<and> n \<le> 100 \<longrightarrow> room_limit n = n"
    by (simp add: room_limit_def RESERVED_ROOM_NUM_def MAX_ROOM_NUM_def)
  ultimately show ?thesis
    using room_limit_bounds [of n] get_room_id_run [of peer_id n] by (auto simp: run_ids run_rooms)
qed

lemma every_peer_has_a_room_witness:
  "int (length (rooms_ids (hub_rooms_run 64))) = 64 \<and>
   rooms (hub_rooms_run 64) (get_room_id ''peer'' (hub_rooms_run 64)) = Some newhub"
  using every_peer_has_a_room [of 64 "''peer''"] by simp



text \<open>C11: The channels of the rooms hold messages in the order of their numbers, whatever the
  interleaving of broadcasters, rooms and peers: the numbers are those given so far, and each
  of them has its counters of sends and acknowledgements.\<close>

theorem broadcasts_in_order:
  assumes "reachable (server_start n limit st) s" "rooms (hr s) r = Some h"
  shows "sorted (map msg_id (broadcast_ch h)) \<and>
    (\<forall>m \<in> set (broadcast_ch h). msg_id m \<le> total_msg_cnt (stats (hr s))) \<and>
    dom (msg_stats (hr s)) = {1..total_msg_cnt (stats (hr s))}"
  using reachable_ok [OF assms(1)] assms(2) by (simp add: order_ok_def upto_ok_def Let_def)

text \<open>C6: With one session per peer id, no step of the server panics but one: the send of a
  directed push to a connection that has been closed since the broadcaster looked it up.\<close>

theorem only_directed_pushes_panic:
  assumes "reachable (server_start n limit st) s" "new_session e s"
  shows "server_step e s = Some (Inl p) \<longleftrightarrow> p = SendOnClosed \<and> e = TaskStep \<and>
    (\<exists>m c ps sc. task s = PeerSend m c ps sc \<and> send_closed (conns s c))"
  using reachable_ok [OF assms(1)] step_panic [OF _ assms(2)]
  by (auto simp: task_step_def conn_send_def)

text \<open>C17: And that one is within reach of every peer: when a registered peer's connection ends
  while a push waits to send to it, the send panics and the process ends.\<close>

theorem directed_push_to_leaving_peer_panics:
  assumes "reachable (server_start n limit st) s" "task s = PeerSend m c ps sc"
    and "rooms (hr s) r = Some h" "connections h k = Some c"
  shows "\<exists>s'. server_step (Disconnect c) s = Some (Inr s') \<and> server_step TaskStep s' = Some (Inl SendOnClosed)"
proof -
  have ok: "filed_ok s" using reachable_ok [OF assms(1)] by blast
  note f = filed_okD [OF ok]
  have c: "c \<in> set (readers s)" "conn_peer (conns s c) = k" "\<not> send_closed (conns s c)" "get_room_id k (hr s) = r"
    using f(3,4) [OF assms(3,4)] hub_ok_open [OF f(2) [OF assms(3)] assms(4)] by simp_all
  with assms(2,3,4) show ?thesis
    by (auto simp: reader_end_def rooms_unregister_def hub_unregister_def close_send_def task_step_def
        conn_send_def add_peers_def Let_def)
qed

theorem directed_push_to_leaving_peer_panics_witness:
  "\<exists>s s'. reachable (server_start 10 100 demo_store) s \<and> server_step (Disconnect 0) s = Some (Inr s') \<and>
     server_step TaskStep s' = Some (Inl SendOnClosed)"
proof -
  obtain s m r h where s: "reachable (server_start 10 100 demo_store) s" "task s = PeerSend m 0 [] None"
      "rooms (hr s) r = Some h" "connections h ''a'' = Some 0"
    using demo_push by blast
  from directed_push_to_leaving_peer_panics [OF s] s(1) show ?thesis by blast
qed

theorem only_directed_pushes_panic_witness:
  "\<exists>s. reachable (server_start 10 100 demo_store) s \<and>
     (\<forall>p. server_step (RoomBroadcast ''room_0'' [''a'']) s \<noteq> Some (Inl p))"
proof -
  obtain s where s: "reachable (server_start 10 100 demo_store) s" using demo_push by blast
  have "new_session (RoomBroadcast ''room_0'' [''a'']) s" by (simp add: new_session_def)
  from only_directed_pushes_panic [OF s this] s show ?thesis by blast
qed

theorem broadcasts_in_order_witness:
  "\<exists>s h. reachable (server_start 10 100 demo_store) s \<and> (\<exists>r. rooms (hr s) r = Some h) \<and>
     sorted (map msg_id (broadcast_ch h)) \<and> 1 \<in> dom (msg_stats (hr s))"
proof -
  obtain s m r h where s: "reachable (server_start 10 100 demo_store) s" "task s = PeerSend m 0 [] None"
      "rooms (hr s) r = Some h" "total_msg_cnt (stats (hr s)) = 1"
    using demo_push by blast
  from broadcasts_in_order [OF s(1,3)] s(4) have "sorted (map msg_id (broadcast_ch h))" "1 \<in> dom (msg_stats (hr s))"
    by simp_all
  with s(1,3) show ?thesis by blast
qed

text \<open>C12: A broadcast to a list of rooms whose channels have space runs to its end. Each room that
  exists gets the message once for every time it is listed, the names of no room are passed
  over, and the statistics count one message, its bytes and its time.\<close>

theorem broadcast_rooms_delivers:
  assumes "broadcast_mu (hr s)"
    and "\<And>r h. rooms (hr s) r = Some h \<Longrightarrow> length (broadcast_ch h) + count_list ids r \<le> broadcast_cap"
  shows "\<exists>s'. server_run (StartRooms ids body # replicate (length ids) TaskStep @ [TaskEnd diff]) s = Some (Inr s') \<and>
    rooms (hr s') = with_msgs \<lparr>msg_id = total_msg_cnt (stats (hr s)) + 1, push_body = body, is_br_all = True\<rparr>
      (count_list ids) (rooms (hr s)) \<and>
    stats (hr s') = (stats (hr s))\<lparr>total_msg_cnt := total_msg_cnt (stats (hr s)) + 1,
      total_msg_size := total_msg_size (stats (hr s)) + int (length body),
      total_consume_time := total_consume_time (stats (hr s)) + diff\<rparr> \<and>
    broadcast_mu (hr s')"
proof -
  obtain m r where b: "begin_push True body (hr s) = (m, r)" by force
  then have r: "m = \<lparr>msg_id = total_msg_cnt (stats (hr s)) + 1, push_body = body, is_br_all = True\<rparr>"
      "rooms r = rooms (hr s)" "stats r = (stats (hr s))\<lparr>total_msg_cnt := total_msg_cnt (stats (hr s)) + 1\<rparr>"
    by (auto simp: begin_push_def Let_def)
  let ?s = "s\<lparr>hr := r, task := ToRooms m ids\<rparr>"
  have "server_step (StartRooms ids body) s = Some (Inr ?s)" using assms(1) b by (simp add: start_rooms_def)
  moreover from rooms_sends [of ?s m ids] assms(2) r(2)
  have "server_run (replicate (length ids) TaskStep) ?s =
      Some (Inr (?s\<lparr>hr := r\<lparr>rooms := with_msgs m (count_list ids) (rooms r)\<rparr>, task := ToRooms m []\<rparr>))"
    by simp
  ultimately show ?thesis
    using r by (simp add: server_run_append task_end_def end_push_def)
qed

theorem broadcast_rooms_delivers_witness:
  "\<exists>s'. server_run [StartRooms [''room_3'', ''lobby''] [104, 105], TaskStep, TaskStep, TaskEnd 2]
       (server_start 10 100 demo_store) = Some (Inr s') \<and> total_msg_size (stats (hr s')) = 2"
proof -
  let ?s = "server_start 10 100 demo_store" and ?ids = "[''room_3'', ''lobby'']"
  have "broadcast_mu (hr ?s)" "total_msg_size (stats (hr ?s)) = 0"
    by (simp_all add: server_start_def hub_rooms_run_def Let_def)
  moreover have "length (broadcast_ch h) + count_list ?ids r \<le> broadcast_cap" if "rooms (hr ?s) r = Some h" for r h
  proof -
    have "h = newhub" using that by (simp add: server_start_def run_rooms split: if_splits)
    then show ?thesis by (simp add: newhub_def broadcast_cap_def)
  qed
  ultimately show ?thesis using broadcast_rooms_delivers [of ?s ?ids "[104, 105]" 2] by (auto simp: numeral_2_eq_2)
qed

text \<open>Asked which of some peers are online, the server answers with their ids, separated by
  commas, in the order of the question, but only if these take more than 32 bytes with a
  comma after each; a shorter answer is left out altogether.\<close>

lemma peers_is_online_answer:
  assumes "reachable (server_start n limit st) s"
  shows "peers_is_online ps (hr s) =
    Inr (let on = online_ids ps (hr s) in if 32 < (\<Sum>p\<leftarrow>on. length p + 1) then join_comma on else [])"
proof -
  let ?on = "online_ids ps (hr s)"
  have "filed_ok s" using reachable_ok [OF assms] by blast
  moreover have "trim_comma (comma_ended ?on) = join_comma ?on" if "32 < length (comma_ended ?on)"
    using that comma_ended_join [of ?on] by (cases "?on = []") (simp_all add: comma_ended_def trim_comma_def)
  ultimately show ?thesis
    by (simp add: peers_is_online_def online_steps Let_def length_comma_ended)
qed

lemma peers_is_online_answer_witness:
  "\<exists>s. reachable (server_start 10 100 demo_store) s \<and> peer_is_online ''a'' (hr s) = Inr True \<and>
     peers_is_online [''a''] (hr s) = Inr []"
proof -
  obtain s r h where s: "reachable (server_start 10 100 demo_store) s" "rooms (hr s) r = Some h"
      "connections h ''a'' = Some 0"
    using demo_push by blast
  have ok: "filed_ok s" using reachable_ok [OF s(1)] by blast
  have "peer_is_online ''a'' (hr s) = Inr True"
    using filed_okD(3) [OF ok s(2,3)] s(2,3) by (simp add: peer_is_online_def get_connection_by_peer_id_def)
  with peers_is_online_answer [OF s(1), of "[''a'']"] s(1) show ?thesis by (auto simp: online_ids_def)
qed

end
