(* ===== verification/Js.thy ===== *)
theory Js
  imports Prelude
begin

text \<open>
  The values and the string operations of JavaScript that the browser code uses.
  Strings are sequences of UTF-8 bytes, objects are association lists in insertion
  order, functions carry an identity and their source text, numbers are integers (the
  code modelled here computes with integers only; where a result leaves the exact
  range of doubles a theorem says so). Inherited members are looked up in lists of the
  names every object, array, string or function inherits.
\<close>

section \<open>Values\<close>

datatype jsval =
    JUndef | JNull | JBool bool | JNum int | JStr string
  | JArr "jsval list" | JObj "(string \<times> jsval) list" | JFun nat string

type_synonym jsobj = "(string \<times> jsval) list"

definition truthy :: "jsval \<Rightarrow> bool" where
  "truthy v = (case v of JUndef \<Rightarrow> False | JNull \<Rightarrow> False | JBool b \<Rightarrow> b | JNum n \<Rightarrow> n \<noteq> 0
     | JStr s \<Rightarrow> s \<noteq> [] | _ \<Rightarrow> True)"

definition isDefined :: "jsval \<Rightarrow> bool" where
  "isDefined v = (v \<noteq> JUndef)"

definition isFunction :: "jsval \<Rightarrow> bool" where
  "isFunction v = (case v of JFun _ _ \<Rightarrow> True | _ \<Rightarrow> False)"

definition isArray :: "jsval \<Rightarrow> bool" where
  "isArray v = (case v of JArr _ \<Rightarrow> True | _ \<Rightarrow> False)"

text \<open>\<open>typeof v === "object"\<close>: null too.\<close>

definition typeof_object :: "jsval \<Rightarrow> bool" where
  "typeof_object v = (case v of JNull \<Rightarrow> True | JArr _ \<Rightarrow> True | JObj _ \<Rightarrow> True | _ \<Rightarrow> False)"

lemmas js_tests = truthy_def isDefined_def isFunction_def isArray_def typeof_object_def

section \<open>Objects\<close>

definition obj_get :: "jsobj \<Rightarrow> string \<Rightarrow> jsval option" where
  "obj_get ob k = map_of ob k"

fun obj_put :: "string \<Rightarrow> jsval \<Rightarrow> jsobj \<Rightarrow> jsobj" where
  "obj_put k v [] = [(k, v)]"
| "obj_put k v ((k', v') # ob) = (if k' = k then (k, v) # ob else (k', v') # obj_put k v ob)"

definition obj_del :: "string \<Rightarrow> jsobj \<Rightarrow> jsobj" where
  "obj_del k ob = filter (\<lambda>p. fst p \<noteq> k) ob"

definition obj_has :: "jsobj \<Rightarrow> string \<Rightarrow> bool" where
  "obj_has ob k = (k \<in> fst ` set ob)"

text \<open>\<open>angular.extend\<close>: later sources overwrite earlier ones, key by key.\<close>

definition extend1 :: "jsobj \<Rightarrow> jsobj \<Rightarrow> jsobj" where
  "extend1 dst src = fold (\<lambda>(k, v). obj_put k v) src dst"

definition obj_fields :: "jsval \<Rightarrow> jsobj" where
  "obj_fields v = (case v of JObj ob \<Rightarrow> ob | _ \<Rightarrow> [])"

lemma obj_fields_JObj [simp]: "obj_fields (JObj ob) = ob"
  by (simp add: obj_fields_def)

lemma map_of_obj_put [simp]: "map_of (obj_put k v ob) = (map_of ob)(k \<mapsto> v)"
  by (induction ob) auto

lemma map_fst_obj_put:
  "map fst (obj_put k v ob) = (if k \<in> fst ` set ob then map fst ob else map fst ob @ [k])"
  by (induction ob) (auto, force)

lemma fst_obj_put: "fst ` set (obj_put k v ob) = insert k (fst ` set ob)"
  using arg_cong [OF map_fst_obj_put, of set k v ob] by (auto split: if_splits)

lemma distinct_obj_put: "distinct (map fst ob) \<Longrightarrow> distinct (map fst (obj_put k v ob))"
  by (simp add: map_fst_obj_put)

lemma obj_get_put [simp]: "obj_get (obj_put k v ob) j = (if j = k then Some v else obj_get ob j)"
  by (simp add: obj_get_def)

lemma map_of_filter_neq: "map_of (filter (\<lambda>p. fst p \<noteq> k) ob) j = (if j = k then None else map_of ob j)"
  by (induction ob) auto

lemma obj_get_del [simp]: "obj_get (obj_del k ob) j = (if j = k then None else obj_get ob j)"
  by (simp add: obj_get_def obj_del_def map_of_filter_neq)

lemma obj_has_iff: "obj_has ob k \<longleftrightarrow> obj_get ob k \<noteq> None"
  by (auto simp: obj_has_def obj_get_def map_of_eq_None_iff)

lemma extend1_Nil [simp]: "extend1 dst [] = dst"
  by (simp add: extend1_def)

lemma extend1_Cons [simp]: "extend1 dst ((k, v) # src) = extend1 (obj_put k v dst) src"
  by (simp add: extend1_def)

lemma obj_get_extend1:
  "distinct (map fst src) \<Longrightarrow>
    obj_get (extend1 dst src) k = (case obj_get src k of Some v \<Rightarrow> Some v | None \<Rightarrow> obj_get dst k)"
proof (induction src arbitrary: dst)
  case (Cons p src)
  obtain j v where p: "p = (j, v)" by force
  with Cons.prems have "j \<notin> fst ` set src" by auto
  then have "obj_get src j = None" by (simp add: obj_get_def map_of_eq_None_iff)
  with Cons p show ?case by (auto simp: obj_get_def split: option.splits)
qed (simp add: obj_get_def)

section \<open>Inherited members\<close>

definition object_proto :: "string list" where
  "object_proto = [''constructor'', ''hasOwnProperty'', ''isPrototypeOf'', ''propertyIsEnumerable'',
     ''toLocaleString'', ''toString'', ''valueOf'', ''__proto__'', ''__defineGetter__'',
     ''__defineSetter__'', ''__lookupGetter__'', ''__lookupSetter__'']"

text \<open>The members of a string value: its length and methods; other names are inherited from objects.\<close>

definition string_proto :: "string list" where
  "string_proto = [''charAt'', ''charCodeAt'', ''concat'', ''indexOf'', ''lastIndexOf'', ''match'',
     ''replace'', ''search'', ''slice'', ''split'', ''substr'', ''substring'', ''toLowerCase'',
     ''toUpperCase'', ''trim'', ''localeCompare'']"

definition array_proto :: "string list" where
  "array_proto = [''concat'', ''join'', ''pop'', ''push'', ''reverse'', ''shift'', ''slice'', ''sort'',
     ''splice'', ''unshift'', ''indexOf'', ''lastIndexOf'', ''every'', ''some'', ''forEach'', ''map'',
     ''filter'', ''reduce'', ''reduceRight'']"

definition inherited :: "string list \<Rightarrow> string \<Rightarrow> jsval" where
  "inherited ns k = (if k \<in> set ns then JFun 0 k else JUndef)"

definition js_prop :: "jsval \<Rightarrow> string \<Rightarrow> jsval" where
  "js_prop v k = (case v of
     JObj ob \<Rightarrow> (case obj_get ob k of Some w \<Rightarrow> w | None \<Rightarrow> inherited object_proto k)
   | JStr s \<Rightarrow> if k = ''length'' then JNum (int (length s)) else inherited (string_proto @ object_proto) k
   | JArr xs \<Rightarrow> if k = ''length'' then JNum (int (length xs)) else inherited (array_proto @ object_proto) k
   | JUndef \<Rightarrow> JUndef | JNull \<Rightarrow> JUndef
   | _ \<Rightarrow> inherited object_proto k)"

section \<open>Strings\<close>

definition is_digit :: "char \<Rightarrow> bool" where
  "is_digit c = (let n = of_char c :: nat in 48 \<le> n \<and> n \<le> 57)"

definition is_alpha :: "char \<Rightarrow> bool" where
  "is_alpha c = (let n = of_char c :: nat in (65 \<le> n \<and> n \<le> 90) \<or> (97 \<le> n \<and> n \<le> 122))"

text \<open>The regular expression class \<open>\w\<close>.\<close>

definition is_word :: "char \<Rightarrow> bool" where
  "is_word c = (is_alpha c \<or> is_digit c \<or> c = CHR ''_'')"

fun js_split :: "(char \<Rightarrow> bool) \<Rightarrow> string \<Rightarrow> string list" where
  "js_split p [] = [[]]"
| "js_split p (c # s) =
     (if p c then [] # js_split p s
      else case js_split p s of [] \<Rightarrow> [[c]] | w # ws \<Rightarrow> (c # w) # ws)"

lemma js_split_nonempty: "js_split p s \<noteq> []"
  by (induction s) (auto split: list.splits)

lemma js_split_pieces: "w \<in> set (js_split p s) \<Longrightarrow> c \<in> set w \<Longrightarrow> \<not> p c \<and> c \<in> set s"
proof (induction s arbitrary: w)
  case (Cons d s)
  show ?case
  proof (cases "js_split p s")
    case (Cons u us)
    with Cons.IH [of u] Cons.IH [of w] Cons.prems show ?thesis
      by (auto split: if_splits)
  qed (simp add: js_split_nonempty)
qed simp

text \<open>ASCII case folding, as the flag \<open>i\<close> of a regular expression compares.\<close>

definition to_lower :: "char \<Rightarrow> char" where
  "to_lower c = (let n = of_char c :: nat in if 65 \<le> n \<and> n \<le> 90 then char_of (n + 32) else c)"

definition starts_ci :: "string \<Rightarrow> string \<Rightarrow> bool" where
  "starts_ci p s = (length p \<le> length s \<and> map to_lower (take (length p) s) = map to_lower p)"

text \<open>
  \<open>s.replace(/p/gi, r)\<close> for a literal \<open>p\<close>: leftmost, non-overlapping matches. The empty
  pattern does not occur.
\<close>

fun replace_ci :: "string \<Rightarrow> string \<Rightarrow> string \<Rightarrow> string" where
  "replace_ci p r [] = []"
| "replace_ci p r (c # s) =
     (if p \<noteq> [] \<and> starts_ci p (c # s) then r @ replace_ci p r (drop (length p - 1) s)
      else c # replace_ci p r s)"

definition starts_with :: "string \<Rightarrow> string \<Rightarrow> bool" where
  "starts_with p s = (take (length p) s = p)"

fun js_string :: "jsval \<Rightarrow> string" and js_join :: "jsval list \<Rightarrow> string" where
  "js_string JUndef = ''undefined''"
| "js_string JNull = ''null''"
| "js_string (JBool b) = (if b then ''true'' else ''false'')"
| "js_string (JNum n) = itoa n"
| "js_string (JStr s) = s"
| "js_string (JArr xs) = js_join xs"
| "js_string (JObj ob) = ''[object Object]''"
| "js_string (JFun n src) = src"
| "js_join [] = []"
| "js_join [x] = (case x of JUndef \<Rightarrow> [] | JNull \<Rightarrow> [] | _ \<Rightarrow> js_string x)"
| "js_join (x # y # ys) = (case x of JUndef \<Rightarrow> [] | JNull \<Rightarrow> [] | _ \<Rightarrow> js_string x) @ '','' @ js_join (y # ys)"

end
