(* ===== verification/Text.thy ===== *)
theory Text
  imports Prelude
begin

text \<open>
  Trimming. Strings are UTF-8 bytes, so white space is a list of encodings; what counts as
  white space differs between Go and JavaScript.
\<close>

definition printable :: "char \<Rightarrow> bool" where
  "printable c = (32 < (of_char c :: nat) \<and> (of_char c :: nat) < 128)"

text \<open>The length of the white space that the text begins with; \<open>dir\<close> is \<open>rev\<close> when the text is
  read backwards.\<close>

definition space_at :: "string list \<Rightarrow> (string \<Rightarrow> string) \<Rightarrow> string \<Rightarrow> nat" where
  "space_at ws dir s =
     (case find (\<lambda>w. take (length w) s = dir w) ws of Some w \<Rightarrow> length w | None \<Rightarrow> 0)"

function trim_left :: "string list \<Rightarrow> (string \<Rightarrow> string) \<Rightarrow> string \<Rightarrow> string" where
  "trim_left ws dir s =
     (let n = space_at ws dir s in if n = 0 \<or> s = [] then s else trim_left ws dir (drop n s))"
  by pat_completeness auto
termination
  by (relation "measure (\<lambda>(ws, dir, s). length s)") auto

declare trim_left.simps [simp del]

definition trim_with :: "string list \<Rightarrow> string \<Rightarrow> string" where
  "trim_with ws s = rev (trim_left ws rev (rev (trim_left ws id s)))"

text \<open>Encodings of white space neither begin nor end with a printable character.\<close>

definition space_list :: "string list \<Rightarrow> bool" where
  "space_list ws = list_all (\<lambda>w. w \<noteq> [] \<and> \<not> printable (hd w) \<and> \<not> printable (last w)) ws"

lemma space_at_printable:
  assumes "space_list ws" "s \<noteq> []" "printable (hd s)"
  shows "space_at ws id s = 0" "space_at ws rev s = 0"
proof -
  have "take (length w) s \<noteq> w \<and> take (length w) s \<noteq> rev w" if "w \<in> set ws" for w
  proof -
    have "w \<noteq> []" "\<not> printable (hd w)" "\<not> printable (last w)"
      using assms(1) that by (simp_all add: space_list_def list_all_iff)
    with assms show ?thesis by (cases s) (auto simp: take_Cons' hd_rev dest: arg_cong [of _ _ hd])
  qed
  then have "find (\<lambda>w. take (length w) s = w) ws = None" "find (\<lambda>w. take (length w) s = rev w) ws = None"
    by (simp_all add: find_None_iff)
  then show "space_at ws id s = 0" "space_at ws rev s = 0" by (simp_all add: space_at_def)
qed

lemma trim_printable:
  assumes "space_list ws" "s \<noteq> []" "printable (hd s)" "printable (last s)"
  shows "trim_with ws s = s"
proof -
  have "trim_left ws id s = s"
    using space_at_printable(1) [OF assms(1-3)] by (subst trim_left.simps) simp
  moreover have "trim_left ws rev (rev s) = rev s"
    using space_at_printable(2) [of ws "rev s"] assms by (subst trim_left.simps) (simp add: hd_rev)
  ultimately show ?thesis by (simp add: trim_with_def)
qed

lemma trim_empty: "trim_with ws [] = []"
  by (simp add: trim_with_def trim_left.simps)

text \<open>The white space that \<open>String.prototype.trim\<close> removes.\<close>

definition js_space :: "string list" where
  "js_space =
     [[CHR 0x09], [CHR 0x0A], [CHR 0x0B], [CHR 0x0C], [CHR 0x0D], [CHR 0x20], [CHR 0xC2, CHR 0xA0],
      [CHR 0xE1, CHR 0x9A, CHR 0x80], [CHR 0xE2, CHR 0x80, CHR 0x80], [CHR 0xE2, CHR 0x80, CHR 0x81],
      [CHR 0xE2, CHR 0x80, CHR 0x82], [CHR 0xE2, CHR 0x80, CHR 0x83], [CHR 0xE2, CHR 0x80, CHR 0x84],
      [CHR 0xE2, CHR 0x80, CHR 0x85], [CHR 0xE2, CHR 0x80, CHR 0x86], [CHR 0xE2, CHR 0x80, CHR 0x87],
      [CHR 0xE2, CHR 0x80, CHR 0x88], [CHR 0xE2, CHR 0x80, CHR 0x89], [CHR 0xE2, CHR 0x80, CHR 0x8A],
      [CHR 0xE2, CHR 0x80, CHR 0xA8], [CHR 0xE2, CHR 0x80, CHR 0xA9], [CHR 0xE2, CHR 0x80, CHR 0xAF],
      [CHR 0xE2, CHR 0x81, CHR 0x9F], [CHR 0xE3, CHR 0x80, CHR 0x80], [CHR 0xEF, CHR 0xBB, CHR 0xBF]]"

definition js_trim :: "string \<Rightarrow> string" where
  "js_trim s = trim_with js_space s"

lemma js_space_list: "space_list js_space"
  by (simp add: space_list_def js_space_def printable_def)

lemma js_trim_printable: "s \<noteq> [] \<Longrightarrow> printable (hd s) \<Longrightarrow> printable (last s) \<Longrightarrow> js_trim s = s"
  by (simp add: js_trim_def trim_printable js_space_list)

end
