(* ===== verification/Api.thy ===== *)
theory Api
  imports Rooms_Props Js Text
begin

text \<open>
  The HTTP handlers of \<^verbatim>\<open>server/apis.go\<close> and the \<open>/push\<close> handler of \<^verbatim>\<open>server/skytime.go\<close>. A handler
  takes whether the IP filter lets the caller in, the body it read (None when reading
  failed) and, where it decodes one, the body as JSON (None when it is not JSON); it yields
  the reply and the operations its goroutine will do on the registry. JSON values are those
  of \<open>Js\<close>; a number with a fraction is not one of them. What the handlers report of
  connections and of the runtime is data of the environment.
\<close>

section \<open>Strings of Go\<close>

text \<open>\<open>strings.Split(s, ",")\<close>.\<close>

definition go_split :: "string \<Rightarrow> string list" where
  "go_split s = js_split (\<lambda>c. c = CHR '','') s"

text \<open>The white space of Unicode in UTF-8, which \<open>strings.TrimSpace\<close> removes at both ends.\<close>

definition white_space :: "string list" where
  "white_space =
     [[CHR 0x09], [CHR 0x0A], [CHR 0x0B], [CHR 0x0C], [CHR 0x0D], [CHR 0x20], [CHR 0xC2, CHR 0x85],
      [CHR 0xC2, CHR 0xA0], [CHR 0xE1, CHR 0x9A, CHR 0x80], [CHR 0xE2, CHR 0x80, CHR 0xA8],
      [CHR 0xE2, CHR 0x80, CHR 0xA9], [CHR 0xE2, CHR 0x80, CHR 0xAF], [CHR 0xE2, CHR 0x81, CHR 0x9F],
      [CHR 0xE3, CHR 0x80, CHR 0x80], [CHR 0xE2, CHR 0x80, CHR 0x80], [CHR 0xE2, CHR 0x80, CHR 0x81],
      [CHR 0xE2, CHR 0x80, CHR 0x82], [CHR 0xE2, CHR 0x80, CHR 0x83], [CHR 0xE2, CHR 0x80, CHR 0x84],
      [CHR 0xE2, CHR 0x80, CHR 0x85], [CHR 0xE2, CHR 0x80, CHR 0x86], [CHR 0xE2, CHR 0x80, CHR 0x87],
      [CHR 0xE2, CHR 0x80, CHR 0x88], [CHR 0xE2, CHR 0x80, CHR 0x89], [CHR 0xE2, CHR 0x80, CHR 0x8A]]"

definition trim_space :: "string \<Rightarrow> string" where
  "trim_space s = trim_with white_space s"

definition bytes_of :: "string \<Rightarrow> bytes" where
  "bytes_of s = map byte_of_char s"

section \<open>Decoding JSON into structs\<close>

text \<open>The names of fields match without regard to case; the long s and the Kelvin sign count as
  letters.\<close>

function fold_key :: "string \<Rightarrow> string" where
  "fold_key [] = []"
| "fold_key (c # s) =
     (if c = CHR 0xC5 \<and> take 1 s = [CHR 0xBF] then CHR ''s'' # fold_key (drop 1 s)
      else if c = CHR 0xE2 \<and> take 2 s = [CHR 0x84, CHR 0xAA]
           then CHR ''k'' # fold_key (drop 2 s)
      else to_lower c # fold_key s)"
  by pat_completeness auto
termination
  by (relation "measure length") auto

declare fold_key.simps(2) [simp del]

text \<open>A value of the wrong type leaves the field as it is and makes the decoding fail, but the
  other fields are decoded; null leaves the field without an error.\<close>

definition put_int :: "jsval \<Rightarrow> 64 word \<Rightarrow> 64 word \<times> bool" where
  "put_int v old =
     (case v of
        JNum n \<Rightarrow> if - (2 ^ 63) \<le> n \<and> n < 2 ^ 63 then (word_of_int n, True) else (old, False)
      | JNull \<Rightarrow> (old, True)
      | _ \<Rightarrow> (old, False))"

definition put_string :: "jsval \<Rightarrow> string \<Rightarrow> string \<times> bool" where
  "put_string v old = (case v of JStr s \<Rightarrow> (s, True) | JNull \<Rightarrow> (old, True) | _ \<Rightarrow> (old, False))"

definition unmarshal :: "(string \<times> jsval \<Rightarrow> 'a \<times> bool \<Rightarrow> 'a \<times> bool) \<Rightarrow> jsval option \<Rightarrow> 'a \<Rightarrow> 'a \<times> bool" where
  "unmarshal field j dat =
     (case j of
        None \<Rightarrow> (dat, False)
      | Some (JObj ob) \<Rightarrow> fold field ob (dat, True)
      | Some JNull \<Rightarrow> (dat, True)
      | Some _ \<Rightarrow> (dat, False))"

record range_br_msg =
  rg_from :: "64 word"
  rg_to :: "64 word"
  rg_msg :: string

record set_br_msg =
  set_from :: string
  set_msg :: string

record peers_br_msg =
  br_peers :: string
  br_msg :: string

definition range_field :: "string \<times> jsval \<Rightarrow> range_br_msg \<times> bool \<Rightarrow> range_br_msg \<times> bool" where
  "range_field = (\<lambda>(key, v) (d, ok).
     if fold_key key = ''from'' then let (n, good) = put_int v (rg_from d) in (d\<lparr>rg_from := n\<rparr>, ok \<and> good)
     else if fold_key key = ''to'' then let (n, good) = put_int v (rg_to d) in (d\<lparr>rg_to := n\<rparr>, ok \<and> good)
     else if fold_key key = ''msg'' then let (s, good) = put_string v (rg_msg d) in (d\<lparr>rg_msg := s\<rparr>, ok \<and> good)
     else (d, ok))"

definition set_field :: "string \<times> jsval \<Rightarrow> set_br_msg \<times> bool \<Rightarrow> set_br_msg \<times> bool" where
  "set_field = (\<lambda>(key, v) (d, ok).
     if fold_key key = ''from'' then let (s, good) = put_string v (set_from d) in (d\<lparr>set_from := s\<rparr>, ok \<and> good)
     else if fold_key key = ''msg'' then let (s, good) = put_string v (set_msg d) in (d\<lparr>set_msg := s\<rparr>, ok \<and> good)
     else (d, ok))"

definition peers_field :: "string \<times> jsval \<Rightarrow> peers_br_msg \<times> bool \<Rightarrow> peers_br_msg \<times> bool" where
  "peers_field = (\<lambda>(key, v) (d, ok).
     if fold_key key = ''peers'' then let (s, good) = put_string v (br_peers d) in (d\<lparr>br_peers := s\<rparr>, ok \<and> good)
     else if fold_key key = ''br_msg'' then let (s, good) = put_string v (br_msg d) in (d\<lparr>br_msg := s\<rparr>, ok \<and> good)
     else (d, ok))"

definition online_peers_field :: "string \<times> jsval \<Rightarrow> string \<times> bool \<Rightarrow> string \<times> bool" where
  "online_peers_field = (\<lambda>(key, v) (d, ok).
     if fold_key key = ''peers'' then let (s, good) = put_string v d in (s, ok \<and> good) else (d, ok))"

section \<open>The handlers that broadcast\<close>

datatype api_reply = NoReply | RetFail400 | RetSucc | Flush | HttpError909

type_synonym api_result = "api_reply \<times> server_event list"

text \<open>The path \<open>/push\<close>; \<open>body\<close> is what was read, also when reading it ended in an error.\<close>

definition httpHandler_push :: "bool \<Rightarrow> string \<Rightarrow> api_result" where
  "httpHandler_push allowed body =
     (if \<not> allowed then (HttpError909, []) else (Flush, [Push (bytes_of body)]))"

definition apiBroadcastAll :: "bool \<Rightarrow> string option \<Rightarrow> api_result" where
  "apiBroadcastAll allowed body =
     (if \<not> allowed then (NoReply, [])
      else case body of None \<Rightarrow> (RetFail400, []) | Some b \<Rightarrow> (RetSucc, [Push (bytes_of b)]))"

text \<open>The loop \<open>for i := st; i <= et; i++\<close> on 64-bit integers; it does not end when \<open>et\<close> is the
  greatest of them.\<close>

partial_function (option) range_loop :: "64 word \<Rightarrow> 64 word \<Rightarrow> string list \<Rightarrow> string list option" where
  "range_loop i et ids =
     (if sint i \<le> sint et then range_loop (i + 1) et (ids @ [room_name (sint i)]) else Some ids)"

definition apiBroadcastRange :: "(string \<Rightarrow> jsval option) \<Rightarrow> bool \<Rightarrow> string option \<Rightarrow> api_result option" where
  "apiBroadcastRange json allowed body =
     (if \<not> allowed then Some (NoReply, [])
      else case body of
        None \<Rightarrow> Some (RetFail400, [])
      | Some b \<Rightarrow>
          let (dat, ok) = unmarshal range_field (json b) \<lparr>rg_from = 0, rg_to = 0, rg_msg = []\<rparr> in
          Option.bind (if ok then range_loop (rg_from dat) (rg_to dat) [] else Some [])
            (\<lambda>ids. Some (RetSucc, [StartRooms ids (bytes_of (rg_msg dat))])))"

definition apiBroadcastSet :: "(string \<Rightarrow> jsval option) \<Rightarrow> bool \<Rightarrow> string option \<Rightarrow> api_result" where
  "apiBroadcastSet json allowed body =
     (if \<not> allowed then (NoReply, [])
      else case body of
        None \<Rightarrow> (RetFail400, [])
      | Some b \<Rightarrow>
          let (dat, ok) = unmarshal set_field (json b) \<lparr>set_from = [], set_msg = []\<rparr>;
              ids = (if ok then map (\<lambda>v. trim_space (''room_'' @ v)) (go_split (set_from dat)) else [])
          in (RetSucc, [StartRooms ids (bytes_of (set_msg dat))]))"

definition apiBroadcastPeers :: "(string \<Rightarrow> jsval option) \<Rightarrow> bool \<Rightarrow> string option \<Rightarrow> api_result" where
  "apiBroadcastPeers json allowed body =
     (if \<not> allowed then (NoReply, [])
      else case body of
        None \<Rightarrow> (RetFail400, [])
      | Some b \<Rightarrow>
          let (dat, ok) = unmarshal peers_field (json b) \<lparr>br_peers = [], br_msg = []\<rparr>;
              ids = (if ok then map trim_space (go_split (br_peers dat)) else [])
          in (RetSucc, [StartPeers ids (bytes_of (br_msg dat)) None]))"

section \<open>The handlers that report\<close>

record runtime_info =
  rt_cpu_cores :: int
  rt_go_routines :: int
  rt_go_version :: string
  rt_process_id :: int

definition apiOverview :: "runtime_info \<Rightarrow> hub_rooms \<Rightarrow> jsobj go" where
  "apiOverview rt r =
     (let st = stats r in
      bind_go (if total_msg_cnt st > 0 then go_div (total_consume_time st) (total_msg_cnt st) else Inr 0) (\<lambda>avg.
      bind_go (if total_msg_cnt st > 0 \<and> total_consume_time st > 1000
               then bind_go (go_div (total_consume_time st) 1000) (go_div (total_msg_cnt st)) else Inr 0) (\<lambda>ops.
      Inr [(''product'', JStr ''SkyTime''), (''hub_room_cnt'', JNum (int (length (rooms_ids r)))),
           (''online_peer_cnt'', JNum (total_peer_cnt st)), (''total_br_msg_cnt'', JNum (total_msg_cnt st)),
           (''total_br_msg_size'', JNum (total_msg_size st)), (''br_msg_avg_time'', JNum avg), (''ops'', JNum ops),
           (''cpu_cores'', JNum (rt_cpu_cores rt)), (''go_routines'', JNum (rt_go_routines rt)),
           (''go_version'', JStr (rt_go_version rt)), (''process_id'', JNum (rt_process_id rt))])))"

text \<open>A nil slice is marshalled as null. \<open>order\<close> is the order of the map and \<open>addr\<close> the remote
  addresses. A room that does not exist is a nil pointer.\<close>

definition marshal_slice :: "jsval list \<Rightarrow> jsval" where
  "marshal_slice xs = (if xs = [] then JNull else JArr xs)"

definition room_of_path :: "string \<Rightarrow> string" where
  "room_of_path path = rev (takeWhile (\<lambda>c. c \<noteq> CHR ''/'') (rev path))"

definition peer_info :: "(cid \<Rightarrow> string) \<Rightarrow> store \<Rightarrow> cid \<Rightarrow> jsval" where
  "peer_info addr st c = JObj [(''peer_id'', JStr (conn_peer (st c))), (''peer_addr'', JStr (addr c)),
     (''peer_status'', JStr ''online'')]"

definition apiRoomview :: "(cid \<Rightarrow> string) \<Rightarrow> string list \<Rightarrow> bool \<Rightarrow> string \<Rightarrow> server \<Rightarrow> jsval option go" where
  "apiRoomview addr order allowed path s =
     (if \<not> allowed then Inr None
      else case rooms (hr s) (room_of_path path) of
        None \<Rightarrow> Inl NilDereference
      | Some h \<Rightarrow> Inr (Some (marshal_slice
          (map (peer_info addr (conns s)) (List.map_filter (connections h) order)))))"

definition room_info :: "hub_rooms \<Rightarrow> string \<Rightarrow> jsval" where
  "room_info r v = JObj [(''room_id'', JStr v),
     (''peer_num'', JNum (case rooms r v of None \<Rightarrow> 0 | Some h \<Rightarrow> int (card (dom (connections h)))))]"

definition apiGetServerGroup :: "bool \<Rightarrow> hub_rooms \<Rightarrow> jsval option" where
  "apiGetServerGroup allowed r =
     (if \<not> allowed then None else Some (marshal_slice (map (room_info r) (rooms_ids r))))"

definition apiPeersIsOnline :: "(string \<Rightarrow> jsval option) \<Rightarrow> bool \<Rightarrow> string option \<Rightarrow> hub_rooms \<Rightarrow> (api_reply + jsval) go" where
  "apiPeersIsOnline json allowed body r =
     (if \<not> allowed then Inr (Inl NoReply)
      else case body of
        None \<Rightarrow> Inr (Inl RetFail400)
      | Some b \<Rightarrow>
          let (dat, ok) = unmarshal online_peers_field (json b) [];
              ids = (if ok then map trim_space (go_split dat) else [])
          in bind_go (peers_is_online ids r) (\<lambda>on. Inr (Inr (JObj [(''is_online'', JStr on)]))))"

section \<open>The telnet port\<close>

text \<open>The read buffer is one array; every message that waits for its broadcast is a slice of it,
  whose bytes are copied only when the broadcaster takes it.\<close>

record telnet =
  t_buf :: bytes
  t_slices :: "nat list"           \<comment> \<open>lengths of the slices sent, or about to be sent, to \<open>broadcast_Q\<close>\<close>

definition telnet_new :: telnet where
  "telnet_new = \<lparr>t_buf = replicate 4096 0, t_slices = []\<rparr>"

definition telnet_read :: "bytes \<Rightarrow> telnet \<Rightarrow> telnet" where
  "telnet_read data t =
     (let n = min (length data) (length (t_buf t))
      in t\<lparr>t_buf := take n data @ drop n (t_buf t), t_slices := t_slices t @ [n]\<rparr>)"

fun telnet_take :: "telnet \<Rightarrow> (bytes \<times> telnet) option" where
  "telnet_take t =
     (case t_slices t of [] \<Rightarrow> None | n # ns \<Rightarrow> Some (take n (t_buf t), t\<lparr>t_slices := ns\<rparr>))"

end
