(* ===== verification/Api_Props.thy ===== *)
theory Api_Props
  imports Api
begin

text \<open>
  What the HTTP handlers ask of the registry: the rooms of a range, the names in a list with
  spaces, and the bytes that the telnet port broadcasts.
\<close>

section \<open>The loop over a range\<close>

lemma sint_64: "- (2 ^ 63) \<le> sint (w :: 64 word)" "sint (w :: 64 word) < 2 ^ 63"
  using sint_ge [of w] sint_lt [of w] by simp_all

lemma sint_of_int_64: "- (2 ^ 63) \<le> n \<Longrightarrow> n < 2 ^ 63 \<Longrightarrow> sint (word_of_int n :: 64 word) = n"
  using signed_take_bit_int_eq_self [of 63 n] sint_sbintrunc' [where ?'a = 64, of n] by simp

lemma sint_Suc_64:
  assumes "sint (w :: 64 word) < 2 ^ 63 - 1"
  shows "sint (w + 1) = sint w + 1"
proof -
  have "- (2 ^ 63) \<le> sint w + 1" "sint w + 1 < 2 ^ 63" using sint_64 [of w] assms by linarith+
  from sint_of_int_64 [OF this] show ?thesis by simp
qed

lemma range_loop_ends:
  assumes "sint et < 2 ^ 63 - 1"
  shows "range_loop i et ids = Some (ids @ map room_name [sint i..sint et])"
  using assms
proof (induction "nat (sint et - sint i + 1)" arbitrary: i ids)
  case 0
  then have "\<not> sint i \<le> sint et" by linarith
  then show ?case by (simp add: range_loop.simps [of i])
next
  case (Suc n)
  then have le: "sint i \<le> sint et" by linarith
  then have nxt: "sint (i + 1) = sint i + 1" using sint_Suc_64 [of i] Suc.prems by linarith
  with Suc.hyps have "n = nat (sint et - sint (i + 1) + 1)" by linarith
  from Suc.hyps(1) [OF this Suc.prems] le nxt show ?case
    by (simp add: range_loop.simps [of i] upto_rec1 [of "sint i"])
qed

lemma range_loop_endless:
  assumes "range_loop i et ids = Some r"
  shows "sint et \<noteq> 2 ^ 63 - 1"
proof (rule range_loop.raw_induct [OF _ assms, where P = "\<lambda>i et ids r. sint et \<noteq> 2 ^ 63 - 1"])
  fix loop :: "64 word \<Rightarrow> 64 word \<Rightarrow> string list \<Rightarrow> string list option" and i et :: "64 word" and ids r
  assume IH: "\<And>i et ids r. loop i et ids = Some r \<Longrightarrow> sint et \<noteq> 2 ^ 63 - 1"
    and body: "(if sint i \<le> sint et then loop (i + 1) et (ids @ [room_name (sint i)]) else Some ids) = Some r"
  show "sint et \<noteq> 2 ^ 63 - 1"
  proof (cases "sint i \<le> sint et")
    case True
    with body IH show ?thesis by simp
  next
    case False
    with sint_64(2) [of i] show ?thesis by linarith
  qed
qed

lemma range_loop_result:
  "range_loop i et ids = (if sint et = 2 ^ 63 - 1 then None else Some (ids @ map room_name [sint i..sint et]))"
proof (cases "sint et = 2 ^ 63 - 1")
  case True
  with range_loop_endless [of i et ids] show ?thesis by (cases "range_loop i et ids") auto
next
  case False
  with sint_64(2) [of et] have "sint et < 2 ^ 63 - 1" by linarith
  with False range_loop_ends show ?thesis by simp
qed

lemma fold_keys:
  "fold_key ''from'' = ''from''" "fold_key ''to'' = ''to''" "fold_key ''msg'' = ''msg''" "fold_key ''peers'' = ''peers''"
  "fold_key ''br_msg'' = ''br_msg''"
  by (simp_all add: fold_key.simps(2) to_lower_def)

lemma range_decoded:
  "unmarshal range_field (Some (JObj [(''from'', f), (''to'', t), (''msg'', JStr m)])) \<lparr>rg_from = 0, rg_to = 0, rg_msg = []\<rparr> =
    (\<lparr>rg_from = fst (put_int f 0), rg_to = fst (put_int t 0), rg_msg = m\<rparr>, snd (put_int f 0) \<and> snd (put_int t 0))"
  by (simp add: unmarshal_def range_field_def fold_keys put_string_def case_prod_beta)

lemma room_names_distinct: "distinct (map room_name [a..b])"
  by (simp add: distinct_map inj_on_def room_name_def itoa_inj)

section \<open>Trimming\<close>

lemma white_space_list: "space_list white_space"
  by (simp add: space_list_def white_space_def printable_def)

lemma trim_space_printable: "s \<noteq> [] \<Longrightarrow> printable (hd s) \<Longrightarrow> printable (last s) \<Longrightarrow> trim_space s = s"
  by (simp add: trim_space_def trim_printable white_space_list)

lemma go_split_one: "CHR '','' \<notin> set a \<Longrightarrow> go_split a = [a]"
  by (induction a) (auto simp: go_split_def)

lemma go_split_comma: "CHR '','' \<notin> set a \<Longrightarrow> go_split (a @ CHR '','' # s) = a # go_split s"
  by (induction a) (auto simp: go_split_def)

lemma nat_digits_no_space: "CHR '' '' \<notin> set (nat_digits n)"
proof (induction n rule: nat_digits.induct)
  case (1 n)
  have "digit_char d \<noteq> CHR '' ''" if "d < 10" for d
  proof
    assume "digit_char d = CHR '' ''"
    then have "of_char (digit_char d) = (of_char CHR '' '' :: nat)" by simp
    with that show False by (simp add: digit_char_def)
  qed
  from this [of n] this [of "n mod 10"] "1" show ?case
    by (cases "n < 10") (auto simp: nat_digits.simps [of n])
qed

lemma no_room_with_space:
  assumes "reachable (server_start n limit st) s"
  shows "rooms (hr s) (''room_ '' @ c) = None"
proof -
  have "room_name i \<noteq> ''room_ '' @ c" for i
    using nat_digits_no_space by (auto simp: room_name_def itoa_def) (metis list.set_intros(1))+
  then have "''room_ '' @ c \<notin> set (rooms_ids (hub_rooms_run n))" by (auto simp: run_ids dest: sym)
  with reachable_rooms [OF assms] show ?thesis by (metis domIff)
qed

lemma set_decoded:
  "unmarshal set_field (Some (JObj [(''from'', JStr f), (''msg'', JStr m)])) \<lparr>set_from = [], set_msg = []\<rparr> =
    (\<lparr>set_from = f, set_msg = m\<rparr>, True)"
  by (simp add: unmarshal_def set_field_def fold_keys put_string_def)

lemma peers_decoded:
  "unmarshal peers_field (Some (JObj [(''peers'', JStr f), (''br_msg'', JStr m)])) \<lparr>br_peers = [], br_msg = []\<rparr> =
    (\<lparr>br_peers = f, br_msg = m\<rparr>, True)"
  by (simp add: unmarshal_def peers_field_def fold_keys put_string_def)

section \<open>The shared buffer of the telnet port\<close>

text \<open>Two messages of one length that are read before the first is taken are broadcast as the
  second twice.\<close>

lemma telnet_overwrites:
  assumes "length m1 \<le> length (t_buf t)" "length m2 = length m1" "t_slices t = []"
  shows "\<exists>t1 t2. telnet_take (telnet_read m2 (telnet_read m1 t)) = Some (m2, t1) \<and> telnet_take t1 = Some (m2, t2)"
  using assms by (simp add: telnet_read_def Let_def min_absorb1)

section \<open>Properties\<close>

text \<open>A request for a range of rooms names exactly the rooms with the numbers of the range, each
  once; the handler does not return for the ranges that end at the greatest 64-bit integer.
  A bound that is not an integer makes it name no room, but it still reports success.\<close>

lemma range_request:
  assumes "json b = Some (JObj [(''from'', JNum f), (''to'', t), (''msg'', JStr m)])"
    and "- (2 ^ 63) \<le> f" "f < 2 ^ 63"
  shows "(\<forall>n. t = JNum n \<longrightarrow> - (2 ^ 63) \<le> n \<longrightarrow> n < 2 ^ 63 - 1 \<longrightarrow>
      apiBroadcastRange json True (Some b) = Some (RetSucc, [StartRooms (map room_name [f..n]) (bytes_of m)]) \<and>
      distinct (map room_name [f..n])) \<and>
    (t = JNum (2 ^ 63 - 1) \<longrightarrow> apiBroadcastRange json True (Some b) = None) \<and>
    (\<forall>s. t = JStr s \<longrightarrow> apiBroadcastRange json True (Some b) = Some (RetSucc, [StartRooms [] (bytes_of m)]))"
  using assms room_names_distinct
  by (auto simp: apiBroadcastRange_def range_decoded put_int_def range_loop_result sint_of_int_64 Let_def)

lemma range_request_witness:
  "apiBroadcastRange (\<lambda>_. Some (JObj [(''from'', JNum 2), (''to'', JNum 3), (''msg'', JStr ''hi'')])) True (Some ''body'') =
    Some (RetSucc, [StartRooms [''room_2'', ''room_3''] (bytes_of ''hi'')])"
proof -
  have "map room_name [2..3] = [''room_2'', ''room_3'']"
    by code_simp
  with range_request [of "\<lambda>_. Some (JObj [(''from'', JNum 2), (''to'', JNum 3), (''msg'', JStr ''hi'')])" "''body''" 2 "JNum 3" "''hi''"]
  show ?thesis by simp
qed

text \<open>A space after a comma loses a room: the request for the rooms \<open>a\<close> and \<open>c\<close>, written with a
  space between them, reaches the first and, without an error, passes over the second,
  since the space stays inside its name. In the list of peers the space is removed.\<close>

lemma set_request_with_space:
  assumes "list_all (\<lambda>x. printable x \<and> x \<noteq> CHR '','') (a @ c)" "a \<noteq> []" "c \<noteq> []"
    and "json b = Some (JObj [(''from'', JStr (a @ '', '' @ c)), (''msg'', JStr m)])"
    and "json b' = Some (JObj [(''peers'', JStr (a @ '', '' @ c)), (''br_msg'', JStr m)])"
    and "reachable (server_start n limit st) s"
  shows "apiBroadcastSet json True (Some b) = (RetSucc, [StartRooms [''room_'' @ a, ''room_ '' @ c] (bytes_of m)]) \<and>
    rooms (hr s) (''room_ '' @ c) = None \<and>
    apiBroadcastPeers json True (Some b') = (RetSucc, [StartPeers [a, c] (bytes_of m) None])"
proof -
  have p: "printable x" "x \<noteq> CHR '',''" if "x \<in> set a \<union> set c" for x
    using assms(1) that by (auto simp: list_all_iff)
  have nc: "CHR '','' \<notin> set a" "CHR '','' \<notin> set c" using p(2) by auto
  have "go_split (a @ CHR '','' # CHR '' '' # c) = [a, CHR '' '' # c]"
    using nc by (simp add: go_split_comma go_split_one)
  then have split: "go_split (a @ '', '' @ c) = [a, CHR '' '' # c]" by simp
  have ends: "printable (hd a)" "printable (last a)" "printable (hd c)" "printable (last c)"
    using p(1) assms(2,3) hd_in_set last_in_set by blast+
  have r: "printable CHR ''r''" by (simp add: printable_def)
  have set: "trim_space (''room_'' @ a) = ''room_'' @ a" "trim_space (''room_ '' @ c) = ''room_ '' @ c"
    using ends r assms(2,3) by (auto intro!: trim_space_printable)
  have "trim_left white_space id (CHR '' '' # c) = trim_left white_space id c"
  proof -
    have "space_at white_space id (CHR '' '' # c) = 1" by (simp add: space_at_def white_space_def)
    then show ?thesis by (subst trim_left.simps) simp
  qed
  then have "trim_space (CHR '' '' # c) = trim_space c" by (simp add: trim_space_def trim_with_def)
  then have peers: "trim_space (CHR '' '' # c) = c" "trim_space a = a"
    using trim_space_printable ends assms(2,3) by simp_all
  show ?thesis
    using no_room_with_space [OF assms(6), of c] assms(4,5) set peers
    by (simp add: apiBroadcastSet_def apiBroadcastPeers_def set_decoded peers_decoded split [simplified])
qed

definition demo_json :: "string \<Rightarrow> jsval option" where
  "demo_json b = Some (JObj (if b = ''set'' then [(''from'', JStr ''1, 2''), (''msg'', JStr ''hi'')]
     else [(''peers'', JStr ''1, 2''), (''br_msg'', JStr ''hi'')]))"

lemma set_request_with_space_witness:
  "\<exists>s. reachable (server_start 10 100 demo_store) s \<and> rooms (hr s) ''room_ 2'' = None \<and>
    apiBroadcastSet demo_json True (Some ''set'') = (RetSucc, [StartRooms [''room_1'', ''room_ 2''] (bytes_of ''hi'')])"
proof -
  have p: "list_all (\<lambda>x. printable x \<and> x \<noteq> CHR '','') (''1'' @ ''2'')" by (simp add: printable_def)
  have j: "demo_json ''set'' = Some (JObj [(''from'', JStr (''1'' @ '', '' @ ''2'')), (''msg'', JStr ''hi'')])"
      "demo_json ''peers'' = Some (JObj [(''peers'', JStr (''1'' @ '', '' @ ''2'')), (''br_msg'', JStr ''hi'')])"
    by (simp_all add: demo_json_def)
  from set_request_with_space [OF p _ _ j reachable.start [of "server_start 10 100 demo_store"]]
  have "rooms (hr (server_start 10 100 demo_store)) ''room_ 2'' = None \<and>
      apiBroadcastSet demo_json True (Some ''set'') = (RetSucc, [StartRooms [''room_1'', ''room_ 2''] (bytes_of ''hi'')])"
    by simp
  then show ?thesis using reachable.start by blast
qed

end
