(* ===== verification/Ipfilter.thy ===== *)
theory Ipfilter
  imports Api
begin

text \<open>
  The IP filter of \<^verbatim>\<open>server/ipfilter.go\<close> and its use in \<^verbatim>\<open>server/skytime.go\<close>. What the filter uses
  of Go's package \<open>net\<close> (\<open>ParseIP\<close>, \<open>ParseCIDR\<close>, \<open>Equal\<close>, \<open>Contains\<close>) is written out on byte lists. Loading
  from a file or an address and printing a filter into the log are left out.
\<close>

section \<open>Addresses of package net\<close>

type_synonym ip = bytes

definition v4InV6Prefix :: bytes where
  "v4InV6Prefix = replicate 10 0 @ [0xFF, 0xFF]"

definition to4 :: "ip \<Rightarrow> ip option" where
  "to4 a = (if length a = 4 then Some a
     else if length a = 16 \<and> take 12 a = v4InV6Prefix then Some (drop 12 a) else None)"

definition ip_equal :: "ip \<Rightarrow> ip \<Rightarrow> bool" where
  "ip_equal a x =
     (if length a = length x then a = x
      else if length a = 4 \<and> length x = 16 then take 12 x = v4InV6Prefix \<and> a = drop 12 x
      else if length a = 16 \<and> length x = 4 then take 12 a = v4InV6Prefix \<and> drop 12 a = x
      else False)"

text \<open>Numbers up to the constant \<open>big\<close>, with the rest of the text.\<close>

fun digit_value :: "char \<Rightarrow> nat option" where
  "digit_value c = (if is_digit c then Some (of_char c - 48) else None)"

definition hex_value :: "char \<Rightarrow> nat option" where
  "hex_value c = (let n = of_char c :: nat in
     if is_digit c then Some (n - 48)
     else if 97 \<le> n \<and> n \<le> 102 then Some (n - 87)
     else if 65 \<le> n \<and> n \<le> 70 then Some (n - 55) else None)"

fun scan_num :: "nat \<Rightarrow> (char \<Rightarrow> nat option) \<Rightarrow> nat \<Rightarrow> string \<Rightarrow> (nat \<times> string) option" where
  "scan_num base value n [] = Some (n, [])"
| "scan_num base value n (c # s) =
     (case value c of
        None \<Rightarrow> Some (n, c # s)
      | Some d \<Rightarrow> if n * base + d \<ge> 0xFFFFFF then None else scan_num base value (n * base + d) s)"

definition dtoi :: "string \<Rightarrow> (nat \<times> string) option" where
  "dtoi s = (if s = [] \<or> digit_value (hd s) = None then None else scan_num 10 digit_value 0 s)"

definition xtoi :: "string \<Rightarrow> (nat \<times> string) option" where
  "xtoi s = (if s = [] \<or> hex_value (hd s) = None then None else scan_num 16 hex_value 0 s)"

text \<open>The octets of an IPv4 address that remain; all but the first follow a dot.\<close>

fun v4_octets :: "nat \<Rightarrow> bool \<Rightarrow> string \<Rightarrow> bytes option" where
  "v4_octets 0 first s = (if s = [] then Some [] else None)"
| "v4_octets (Suc k) first s =
     (if s = [] then None
      else if \<not> first \<and> hd s \<noteq> CHR ''.'' then None
      else case dtoi (if first then s else tl s) of
        None \<Rightarrow> None
      | Some (n, rest) \<Rightarrow>
          if n > 0xFF then None else map_option (\<lambda>bs. word_of_nat n # bs) (v4_octets k False rest))"

definition parseIPv4 :: "string \<Rightarrow> ip option" where
  "parseIPv4 s = map_option (\<lambda>bs. v4InV6Prefix @ bs) (v4_octets 4 True s)"

text \<open>The end of an IPv6 address: the ellipsis is filled with zeros.\<close>

definition v6_end :: "bytes \<Rightarrow> nat option \<Rightarrow> string \<Rightarrow> ip option" where
  "v6_end acc ellipsis s =
     (if s \<noteq> [] then None
      else if length acc < 16 then
        (case ellipsis of None \<Rightarrow> None
         | Some e \<Rightarrow> Some (take e acc @ replicate (16 - length acc) 0 @ drop e acc))
      else if ellipsis \<noteq> None then None else Some acc)"

fun v6_groups :: "nat \<Rightarrow> bytes \<Rightarrow> nat option \<Rightarrow> string \<Rightarrow> ip option" where
  "v6_groups 0 acc ellipsis s = v6_end acc ellipsis s"
| "v6_groups (Suc k) acc ellipsis s =
     (case xtoi s of
        None \<Rightarrow> None
      | Some (n, rest) \<Rightarrow>
          if n > 0xFFFF then None
          else if rest \<noteq> [] \<and> hd rest = CHR ''.'' then
            if ellipsis = None \<and> length acc \<noteq> 12 then None
            else if length acc + 4 > 16 then None
            else (case parseIPv4 s of
                None \<Rightarrow> None
              | Some a \<Rightarrow> v6_end (acc @ drop 12 a) ellipsis [])
          else
            let acc1 = acc @ [word_of_nat (n div 256), word_of_nat n] in
            if rest = [] then v6_end acc1 ellipsis []
            else if hd rest \<noteq> CHR '':'' \<or> tl rest = [] then None
            else if hd (tl rest) = CHR '':'' then
              if ellipsis \<noteq> None then None
              else if tl (tl rest) = [] then v6_end acc1 (Some (length acc1)) []
              else v6_groups k acc1 (Some (length acc1)) (tl (tl rest))
            else v6_groups k acc1 ellipsis (tl rest))"

definition parseIPv6 :: "string \<Rightarrow> ip option" where
  "parseIPv6 s =
     (if take 2 s = ''::'' then
        if drop 2 s = [] then Some (replicate 16 0) else v6_groups 8 [] (Some 0) (drop 2 s)
      else v6_groups 8 [] None s)"

definition parseIP :: "string \<Rightarrow> ip option" where
  "parseIP s =
     (case find (\<lambda>c. c = CHR ''.'' \<or> c = CHR '':'') s of
        None \<Rightarrow> None
      | Some c \<Rightarrow> if c = CHR ''.'' then parseIPv4 s else parseIPv6 s)"

section \<open>Networks of package net\<close>

fun cidr_mask :: "nat \<Rightarrow> nat \<Rightarrow> bytes" where
  "cidr_mask ones 0 = []"
| "cidr_mask ones (Suc l) =
     (if ones \<ge> 8 then 0xFF # cidr_mask (ones - 8) l else NOT (drop_bit ones 0xFF) # cidr_mask 0 l)"

definition ip_mask :: "ip \<Rightarrow> bytes \<Rightarrow> ip option" where
  "ip_mask a m0 =
     (let m = (if length m0 = 16 \<and> length a = 4 \<and> take 12 m0 = replicate 12 0xFF then drop 12 m0 else m0);
          b = (if length m = 4 \<and> length a = 16 \<and> take 12 a = v4InV6Prefix then drop 12 a else a)
      in if length b \<noteq> length m then None else Some (map2 (AND) b m))"

text \<open>A network: its address and its mask; nil is the empty address.\<close>

type_synonym ipnet = "ip \<times> bytes"

definition parseCIDR :: "string \<Rightarrow> ipnet option" where
  "parseCIDR s =
     (let addr = takeWhile (\<lambda>c. c \<noteq> CHR ''/'') s; rest = dropWhile (\<lambda>c. c \<noteq> CHR ''/'') s in
      if rest = [] then None
      else
        let (iplen, a) = (case parseIPv4 addr of Some a \<Rightarrow> (4, Some a) | None \<Rightarrow> (16, parseIPv6 addr)) in
        case (a, dtoi (tl rest)) of
          (Some a, Some (n, [])) \<Rightarrow>
            if n > 8 * iplen then None
            else let m = cidr_mask n iplen in Some (case ip_mask a m of None \<Rightarrow> [] | Some b \<Rightarrow> b, m)
        | _ \<Rightarrow> None)"

definition network_number_and_mask :: "ipnet \<Rightarrow> (ip \<times> bytes) option" where
  "network_number_and_mask n =
     (let a = (case to4 (fst n) of Some b \<Rightarrow> Some b | None \<Rightarrow> if length (fst n) = 16 then Some (fst n) else None);
          m = snd n
      in case a of
        None \<Rightarrow> None
      | Some b \<Rightarrow>
          if length m = 4 then (if length b \<noteq> 4 then None else Some (b, m))
          else if length m = 16 then Some (b, if length b = 4 then drop 12 m else m)
          else None)"

definition net_contains :: "ipnet \<Rightarrow> ip \<Rightarrow> bool" where
  "net_contains n a =
     (let x = (case to4 a of Some b \<Rightarrow> b | None \<Rightarrow> a) in
      case network_number_and_mask n of
        None \<Rightarrow> x = []
      | Some (nn, m) \<Rightarrow> length x = length nn \<and> list_all (\<lambda>(p, q, r). p AND q = r AND q) (zip nn (zip m x)))"

section \<open>The filter\<close>

record ipfilter =
  ipnets :: "ipnet list"
  ips :: "ip list"

definition filter_new :: ipfilter where
  "filter_new = \<lparr>ipnets = [], ips = []\<rparr>"

definition FilterIP :: "ip \<Rightarrow> ipfilter \<Rightarrow> bool" where
  "FilterIP a f = (list_ex (\<lambda>n. net_contains n a) (ipnets f) \<or> list_ex (\<lambda>i. ip_equal i a) (ips f))"

definition FilterIPString :: "string \<Rightarrow> ipfilter \<Rightarrow> bool" where
  "FilterIPString s f = (case parseIP s of None \<Rightarrow> False | Some a \<Rightarrow> FilterIP a f)"

definition AddIPNetString :: "string \<Rightarrow> ipfilter \<Rightarrow> ipfilter option" where
  "AddIPNetString s f = map_option (\<lambda>n. f\<lparr>ipnets := ipnets f @ [n]\<rparr>) (parseCIDR s)"

definition AddIPString :: "string \<Rightarrow> ipfilter \<Rightarrow> ipfilter option" where
  "AddIPString s f = map_option (\<lambda>a. f\<lparr>ips := ips f @ [a]\<rparr>) (parseIP s)"

text \<open>\<open>bytes.Fields\<close>: the words between white space. \<open>w\<close> is the word read so far, backwards.\<close>

function fields_from :: "string \<Rightarrow> string \<Rightarrow> string list" where
  "fields_from w [] = (if w = [] then [] else [rev w])"
| "fields_from w (c # s) =
     (let n = space_at white_space id (c # s) in
      if n = 0 then fields_from (c # w) s
      else (if w = [] then [] else [rev w]) @ fields_from [] (drop (n - 1) s))"
  by pat_completeness auto
termination
  by (relation "measure (\<lambda>(w, s). length s)") auto

text \<open>Loading stops at the first word that is neither an address nor a network (False); what was
  read before it stays in the filter.\<close>

fun load_items :: "string list \<Rightarrow> ipfilter \<Rightarrow> ipfilter \<times> bool" where
  "load_items [] f = (f, True)"
| "load_items (w # ws) f =
     (case (if CHR ''/'' \<in> set w then AddIPNetString w f else AddIPString w f) of
        None \<Rightarrow> (f, False)
      | Some f' \<Rightarrow> load_items ws f')"

definition filter_load :: "string \<Rightarrow> ipfilter \<Rightarrow> ipfilter \<times> bool" where
  "filter_load data f = load_items (fields_from [] data) f"

text \<open>\<open>check_client_ipf\<close> and \<open>check_console_ipf\<close>. A remote address without a colon makes the slice
  expression panic.\<close>

definition check_ipf :: "string \<Rightarrow> ipfilter \<Rightarrow> string \<Rightarrow> bool go" where
  "check_ipf limit f remoteAddr =
     (if limit = ''0.0.0.0'' then Inr True
      else if CHR '':'' \<notin> set remoteAddr then Inl SliceBounds
      else Inr (FilterIPString (rev (tl (dropWhile (\<lambda>c. c \<noteq> CHR '':'') (rev remoteAddr)))) f))"

end
