(* ===== verification/Ipfilter_Props.thy ===== *)
theory Ipfilter_Props
  imports Ipfilter Api_Props
begin

text \<open>
  The IP filter lets in what its limit lists: numerals and dotted addresses are read back,
  a mask keeps the first bits of an address, and loading a limit collects its entries.
\<close>

section \<open>Numerals are read back\<close>

lemma digit_char_is_digit: "d < 10 \<Longrightarrow> is_digit (digit_char d)"
  by (simp add: is_digit_def digit_char_def)

lemma nat_digits_digits: "list_all is_digit (nat_digits n)"
proof (induction n rule: nat_digits.induct)
  case (1 n)
  then show ?case
    by (cases "n < 10") (simp_all add: nat_digits.simps [of n] digit_char_is_digit)
qed

lemma nat_digits_nonempty [simp]: "nat_digits n \<noteq> []"
  by (subst nat_digits.simps) simp

lemma foldl_digits_ge: "(n :: nat) \<le> foldl (\<lambda>v c. 10 * v + (of_char c - 48)) n s"
proof (induction s arbitrary: n)
  case (Cons c s)
  have "n \<le> 10 * n + (of_char c - 48)" by simp
  with Cons [of "10 * n + (of_char c - 48)"] show ?case by simp
qed simp

lemma scan_digits:
  assumes "list_all is_digit ds" "foldl (\<lambda>v c. 10 * v + (of_char c - 48)) n ds < 0xFFFFFF"
    and "rest = [] \<or> \<not> is_digit (hd rest)"
  shows "scan_num 10 digit_value n (ds @ rest) = Some (foldl (\<lambda>v c. 10 * v + (of_char c - 48)) n ds, rest)"
  using assms
proof (induction ds arbitrary: n)
  case Nil
  then show ?case by (cases rest) auto
next
  case (Cons c ds)
  let ?n = "10 * n + (of_char c - 48)"
  have "?n < 0xFFFFFF" using Cons.prems(2) foldl_digits_ge [of ?n ds] by simp
  with Cons show ?case by (simp add: mult.commute [of n])
qed

lemma dtoi_digits:
  assumes "n < 0xFFFFFF" "rest = [] \<or> \<not> is_digit (hd rest)"
  shows "dtoi (nat_digits n @ rest) = Some (n, rest)"
proof -
  have v: "foldl (\<lambda>v c. 10 * v + (of_char c - 48)) 0 (nat_digits n) = n"
    using digits_value_nat_digits [of n] by simp
  have "is_digit (hd (nat_digits n))" using nat_digits_digits [of n] by (cases "nat_digits n") auto
  with scan_digits [OF nat_digits_digits, of 0 n rest] v assms show ?thesis
    by (simp add: dtoi_def hd_append)
qed

lemma while_until:
  "c \<notin> set u \<Longrightarrow> takeWhile (\<lambda>x. x \<noteq> c) (u @ c # v) = u"
  "c \<notin> set u \<Longrightarrow> dropWhile (\<lambda>x. x \<noteq> c) (u @ c # v) = c # v"
  by (induction u) auto

section \<open>Dotted addresses are read back\<close>

fun dotted_from :: "bool \<Rightarrow> bytes \<Rightarrow> string" where
  "dotted_from first [] = []"
| "dotted_from first (b # bs) = (if first then [] else ''.'') @ nat_digits (unat b) @ dotted_from False bs"

definition dotted :: "bytes \<Rightarrow> string" where
  "dotted a = dotted_from True a"

lemma not_digit_seps: "\<not> is_digit CHR ''.''" "\<not> is_digit CHR ''/''" "\<not> is_digit CHR '':''"
  by (simp_all add: is_digit_def)

lemma unat_byte: "unat (b :: byte) \<le> 0xFF"
proof -
  have "unat b < 2 ^ LENGTH(8)" by (rule unsigned_less)
  then show ?thesis by simp
qed

lemma v4_octets_dotted: "v4_octets (length bs) first (dotted_from first bs) = Some bs"
proof (induction bs arbitrary: first)
  case (Cons b bs)
  let ?rest = "dotted_from False bs"
  have "?rest = [] \<or> \<not> is_digit (hd ?rest)" by (cases bs) (simp_all add: not_digit_seps)
  with unat_byte [of b] have "dtoi (nat_digits (unat b) @ ?rest) = Some (unat b, ?rest)"
    by (intro dtoi_digits) auto
  with Cons.IH [of False] unat_byte [of b] show ?case by (auto simp: not_less)
qed simp

lemma parseIPv4_dotted: "length a = 4 \<Longrightarrow> parseIPv4 (dotted a) = Some (v4InV6Prefix @ a)"
  using v4_octets_dotted [of a True] by (simp add: parseIPv4_def dotted_def)

lemma dotted_chars: "c \<in> set (dotted_from first a) \<Longrightarrow> is_digit c \<or> c = CHR ''.''"
  using nat_digits_digits by (induction a arbitrary: first) (auto simp: list_all_iff split: if_splits)

lemma dotted_no_colon: "CHR '':'' \<notin> set (dotted a)" "CHR ''/'' \<notin> set (dotted a)"
  using dotted_chars not_digit_seps by (auto simp: dotted_def)

lemma parseIP_dotted:
  assumes "length a = 4"
  shows "parseIP (dotted a) = Some (v4InV6Prefix @ a)"
proof -
  obtain b c d e where a: "a = [b, c, d, e]"
    using assms by (auto simp: numeral_eq_Suc length_Suc_conv)
  have "CHR ''.'' \<in> set (dotted a)" by (simp add: a dotted_def)
  then obtain x where x: "find (\<lambda>c. c = CHR ''.'' \<or> c = CHR '':'') (dotted a) = Some x"
    by (metis (mono_tags, lifting) find_None_iff option.exhaust)
  then obtain i where "i < length (dotted a)" "x = dotted a ! i" "x = CHR ''.'' \<or> x = CHR '':''"
    by (auto simp: find_Some_iff)
  then have "x \<in> set (dotted a)" "x = CHR ''.'' \<or> x = CHR '':''" by (simp_all add: nth_mem)
  with dotted_no_colon(1) [of a] have "x = CHR ''.''" by auto
  with x parseIPv4_dotted [OF assms] show ?thesis by (simp add: parseIP_def)
qed

lemma parseCIDR_dotted:
  assumes "length a = 4" "n \<le> 32"
  shows "parseCIDR (dotted a @ CHR ''/'' # nat_digits n) = Some (map2 (AND) a (cidr_mask n 4), cidr_mask n 4)"
proof -
  have "takeWhile (\<lambda>c. c \<noteq> CHR ''/'') (dotted a @ CHR ''/'' # nat_digits n) = dotted a"
      "dropWhile (\<lambda>c. c \<noteq> CHR ''/'') (dotted a @ CHR ''/'' # nat_digits n) = CHR ''/'' # nat_digits n"
    using while_until [OF dotted_no_colon(2)] by blast+
  moreover have "length (cidr_mask n 4) = 4" by (simp add: numeral_eq_Suc)
  moreover have "dtoi (nat_digits n) = Some (n, [])" using dtoi_digits [of n "[]"] assms(2) by simp
  ultimately show ?thesis
    using parseIPv4_dotted [OF assms(1)] assms
    by (simp add: parseCIDR_def ip_mask_def v4InV6Prefix_def Let_def)
qed

section \<open>A mask selects the first bits\<close>

text \<open>The bits of an address, the most significant of its first byte first.\<close>

definition addr_bit :: "bytes \<Rightarrow> nat \<Rightarrow> bool" where
  "addr_bit a k = bit (a ! (k div 8)) (7 - k mod 8)"

lemma bit_mask_byte: "k < 8 \<Longrightarrow> j < 8 \<Longrightarrow> bit (NOT (drop_bit k 0xFF) :: byte) j \<longleftrightarrow> 8 - k \<le> j"
proof -
  have m: "(0xFF :: byte) = mask 8" by (simp add: mask_eq_exp_minus_1)
  assume "k < 8" "j < 8"
  then show ?thesis unfolding m by (auto simp: bit_simps)
qed

lemma byte_all_iff: "(p :: byte) = q \<longleftrightarrow> (\<forall>j<8. bit p j = bit q j)"
  by (auto simp: bit_eq_iff bit_simps)

lemma masked_byte:
  "(p :: byte) AND NOT (drop_bit k 0xFF) = q AND NOT (drop_bit k 0xFF) \<longleftrightarrow> (\<forall>j<k. bit p (7 - j) = bit q (7 - j))"
  if "k < 8"
proof -
  have "p AND NOT (drop_bit k 0xFF) = q AND NOT (drop_bit k 0xFF) \<longleftrightarrow> (\<forall>j<8. 8 - k \<le> j \<longrightarrow> bit p j = bit q j)"
    using bit_mask_byte [OF that] by (auto simp: byte_all_iff bit_and_iff)
  also have "\<dots> \<longleftrightarrow> (\<forall>j<k. bit p (7 - j) = bit q (7 - j))"
  proof
    assume *: "\<forall>j<8. 8 - k \<le> j \<longrightarrow> bit p j = bit q j"
    have "bit p (7 - j) = bit q (7 - j)" if "j < k" for j
      using * [rule_format, of "7 - j"] that \<open>k < 8\<close> by simp
    then show "\<forall>j<k. bit p (7 - j) = bit q (7 - j)" by blast
  next
    assume *: "\<forall>j<k. bit p (7 - j) = bit q (7 - j)"
    have "bit p j = bit q j" if "j < 8" "8 - k \<le> j" for j
      using * [rule_format, of "7 - j"] that by simp
    then show "\<forall>j<8. 8 - k \<le> j \<longrightarrow> bit p j = bit q j" by blast
  qed
  finally show ?thesis .
qed

lemma addr_bit_Cons: "addr_bit (p # a) k = (if k < 8 then bit p (7 - k) else addr_bit a (k - 8))"
  by (auto simp: addr_bit_def nth_Cons' le_div_geq le_mod_geq)

lemma masked_bits:
  assumes "length a = l" "length x = l" "n \<le> 8 * l"
  shows "map2 (AND) a (cidr_mask n l) = map2 (AND) x (cidr_mask n l) \<longleftrightarrow> (\<forall>k<n. addr_bit a k = addr_bit x k)"
  using assms
proof (induction l arbitrary: a x n)
  case (Suc l)
  obtain p a' where a: "a = p # a'" "length a' = l" using Suc.prems(1) by (cases a) auto
  obtain q x' where x: "x = q # x'" "length x' = l" using Suc.prems(2) by (cases x) auto
  show ?case
  proof (cases "8 \<le> n")
    case True
    have full: "(p AND 0xFF = q AND 0xFF) \<longleftrightarrow> (\<forall>k<8. bit p (7 - k) = bit q (7 - k))"
    proof -
      have ones: "(0xFF :: byte) = -1" by simp
      have "(p AND 0xFF = q AND 0xFF) \<longleftrightarrow> p = q" unfolding ones by simp
      also have "\<dots> \<longleftrightarrow> (\<forall>k<8. bit p (7 - k) = bit q (7 - k))"
      proof
        assume *: "\<forall>k<8. bit p (7 - k) = bit q (7 - k)"
        have "bit p j = bit q j" if "j < 8" for j using * [rule_format, of "7 - j"] that by simp
        then show "p = q" by (simp add: byte_all_iff)
      qed simp
      finally show ?thesis .
    qed
    have split: "(\<forall>k<n. P k) \<longleftrightarrow> (\<forall>k<8. P k) \<and> (\<forall>k<n - 8. P (k + 8))" for P :: "nat \<Rightarrow> bool"
    proof safe
      fix k assume *: "\<forall>k<8. P k" "\<forall>k<n - 8. P (k + 8)" "k < n"
      then show "P k" by (cases "k < 8") (simp, metis add.commute diff_less_mono le_add_diff_inverse not_less)
    qed (use True in auto)
    from Suc.IH [of a' x' "n - 8"] a x Suc.prems(3) True full show ?thesis
      by (subst split) (simp add: addr_bit_Cons)
  next
    case False
    have "cidr_mask 0 l' = replicate l' 0" for l' by (induction l') auto
    then have zero: "map2 (AND) u (cidr_mask 0 l) = replicate (length u) 0" if "length u = l" for u :: bytes
      using that by (intro nth_equalityI) auto
    from False masked_byte [of n p q] zero a x show ?thesis
      by (auto simp: addr_bit_Cons)
  qed
qed simp

lemma cidr_mask_length [simp]: "length (cidr_mask n l) = l"
  by (induction l arbitrary: n) auto

section \<open>Loading and filtering\<close>

datatype allowed = Host bytes | Net bytes nat

fun allow_text :: "allowed \<Rightarrow> string" where
  "allow_text (Host a) = dotted a"
| "allow_text (Net a n) = dotted a @ CHR ''/'' # nat_digits n"

fun allow_ok :: "allowed \<Rightarrow> bool" where
  "allow_ok (Host a) = (length a = 4)"
| "allow_ok (Net a n) = (length a = 4 \<and> n \<le> 32)"

text \<open>The specification: a host allows itself, a network the addresses that agree with it on its
  first bits.\<close>

fun allows :: "bytes \<Rightarrow> allowed \<Rightarrow> bool" where
  "allows x (Host a) = (a = x)"
| "allows x (Net a n) = (\<forall>k<n. addr_bit a k = addr_bit x k)"

lemma to4_mapped: "length x = 4 \<Longrightarrow> to4 (v4InV6Prefix @ x) = Some x"
  by (simp add: to4_def v4InV6Prefix_def)

lemma masked_twice:
  "length a = length m \<Longrightarrow> length x = length m \<Longrightarrow>
    list_all (\<lambda>(p, q, r). p AND q = r AND q) (zip (map2 (AND) a m) (zip m x)) \<longleftrightarrow>
    map2 (AND) a m = map2 (AND) x (m :: bytes)"
proof (induction m arbitrary: a x)
  case (Cons q m)
  then obtain p a' r x' where "a = p # a'" "x = r # x'" by (metis length_Suc_conv)
  with Cons show ?case by (simp add: and.assoc)
qed simp

lemma net_contains_iff:
  assumes "length a = 4" "length x = 4" "n \<le> 32"
  shows "net_contains (map2 (AND) a (cidr_mask n 4), cidr_mask n 4) (v4InV6Prefix @ x) \<longleftrightarrow> allows x (Net a n)"
proof -
  have "to4 (map2 (AND) a (cidr_mask n 4)) = Some (map2 (AND) a (cidr_mask n 4))"
    using assms(1) by (simp add: to4_def)
  with masked_twice [of a "cidr_mask n 4" x] masked_bits [of a 4 x n] to4_mapped [OF assms(2)] assms show ?thesis
    by (simp add: net_contains_def network_number_and_mask_def Let_def)
qed

lemma dotted_has_no_slash: "CHR ''/'' \<in> set (allow_text a) \<longleftrightarrow> (\<exists>b n. a = Net b n)"
  using dotted_no_colon(2) by (cases a) auto

lemma FilterIP_empty: "\<not> FilterIP x filter_new"
  by (simp add: FilterIP_def filter_new_def)

lemma load_items_allows:
  assumes "list_all allow_ok as" "length x = 4"
  shows "\<exists>f'. load_items (map allow_text as) f = (f', True) \<and>
    (FilterIP (v4InV6Prefix @ x) f' \<longleftrightarrow> FilterIP (v4InV6Prefix @ x) f \<or> list_ex (allows x) as)"
  using assms
proof (induction as arbitrary: f)
  case (Cons a as)
  have "\<exists>f1. (if CHR ''/'' \<in> set (allow_text a) then AddIPNetString (allow_text a) f else AddIPString (allow_text a) f) = Some f1 \<and>
      (FilterIP (v4InV6Prefix @ x) f1 \<longleftrightarrow> FilterIP (v4InV6Prefix @ x) f \<or> allows x a)"
  proof (cases a)
    case (Host b)
    with Cons.prems parseIP_dotted [of b] dotted_no_colon(2) [of b] show ?thesis
      by (auto simp: AddIPString_def FilterIP_def ip_equal_def)
  next
    case (Net b n)
    with Cons.prems parseCIDR_dotted [of b n] net_contains_iff [of b x n] show ?thesis
      by (auto simp: AddIPNetString_def FilterIP_def simp del: allows.simps)
  qed
  then obtain f1 where f1: "(if CHR ''/'' \<in> set (allow_text a) then AddIPNetString (allow_text a) f else AddIPString (allow_text a) f) = Some f1"
      "FilterIP (v4InV6Prefix @ x) f1 \<longleftrightarrow> FilterIP (v4InV6Prefix @ x) f \<or> allows x a" by blast
  from Cons.IH [of f1] Cons.prems f1 show ?case by auto
qed simp

section \<open>The words of the limit\<close>

fun spaced :: "string list \<Rightarrow> string" where
  "spaced [] = []"
| "spaced [w] = w"
| "spaced (w # v # ws) = w @ CHR '' '' # spaced (v # ws)"

lemma fields_word: "list_all printable u \<Longrightarrow> fields_from w (u @ s) = fields_from (rev u @ w) s"
proof (induction u arbitrary: w)
  case (Cons c u)
  then have "space_at white_space id (c # u @ s) = 0" using space_at_printable(1) [OF white_space_list, of "c # u @ s"] by simp
  with Cons show ?case by simp
qed simp

lemma space_at_space: "space_at white_space id (CHR '' '' # s) = 1"
  by (simp add: space_at_def white_space_def)

lemma fields_spaced:
  assumes "list_all (\<lambda>w. w \<noteq> [] \<and> list_all printable w) ws"
  shows "fields_from [] (spaced ws) = ws"
  using assms
proof (induction ws rule: spaced.induct)
  case (2 w)
  with fields_word [of w "[]" "[]"] show ?case by simp
next
  case (3 w v ws)
  with fields_word [of w "[]" "CHR '' '' # spaced (v # ws)"] show ?case by (simp add: space_at_space)
qed simp

lemma printable_chars: "is_digit c \<Longrightarrow> printable c" "printable CHR ''.''" "printable CHR ''/''"
  by (simp_all add: is_digit_def printable_def Let_def)

lemma allow_text_word: "allow_ok a \<Longrightarrow> allow_text a \<noteq> [] \<and> list_all printable (allow_text a)"
proof -
  have d: "printable c" if "c \<in> set (dotted b)" for c b
    using dotted_chars [of c True b] that printable_chars by (auto simp: dotted_def)
  have n: "printable c" if "c \<in> set (nat_digits n)" for c n
    using nat_digits_digits [of n] that printable_chars(1) by (auto simp: list_all_iff)
  have e: "dotted b \<noteq> []" if "length b = 4" for b
    using that by (cases b) (auto simp: dotted_def)
  assume "allow_ok a"
  then show ?thesis using d n e printable_chars(3) by (cases a) (auto simp: list_all_iff)
qed

lemma v4_no_bracket: "parseIPv4 (CHR ''['' # s) = None"
  by (simp add: parseIPv4_def numeral_eq_Suc dtoi_def is_digit_def)

lemma v6_no_bracket: "parseIPv6 (CHR ''['' # s) = None"
  by (simp add: parseIPv6_def numeral_eq_Suc xtoi_def hex_value_def is_digit_def Let_def)

section \<open>Properties\<close>

text \<open>C24: The filter lets in exactly the addresses that its limit lists. For every limit of IPv4
  addresses and networks, separated by spaces, loading succeeds, and a remote address with
  a port is let in if and only if it is listed or agrees with a listed network on the
  network's first bits, or the limit is 0.0.0.0. An address in brackets, as every IPv6
  remote address is written, is refused.\<close>

theorem ip_filter_lets_in:
  assumes "list_all allow_ok as" "length x = 4" "CHR '':'' \<notin> set port"
  shows "\<exists>f. filter_load (spaced (map allow_text as)) filter_new = (f, True) \<and>
    check_ipf (spaced (map allow_text as)) f (dotted x @ CHR '':'' # port) =
      Inr (spaced (map allow_text as) = ''0.0.0.0'' \<or> list_ex (allows x) as) \<and>
    check_ipf (spaced (map allow_text as)) f (CHR ''['' # v6 @ CHR '':'' # port) =
      Inr (spaced (map allow_text as) = ''0.0.0.0'')"
proof -
  have host: "rev (tl (dropWhile (\<lambda>c. c \<noteq> CHR '':'') (rev (u @ CHR '':'' # port)))) = u" for u
    using while_until(2) [of "CHR '':''" "rev port" "rev u"] assms(3) by simp
  have words: "fields_from [] (spaced (map allow_text as)) = map allow_text as"
    using assms(1) allow_text_word by (intro fields_spaced) (auto simp: list_all_iff)
  obtain f where f: "load_items (map allow_text as) filter_new = (f, True)"
      "FilterIP (v4InV6Prefix @ x) f \<longleftrightarrow> list_ex (allows x) as"
    using load_items_allows [OF assms(1,2), of filter_new] FilterIP_empty by auto
  have "FilterIPString (dotted x) f \<longleftrightarrow> list_ex (allows x) as"
    using f(2) parseIP_dotted [OF assms(2)] by (simp add: FilterIPString_def)
  moreover have "\<not> FilterIPString (CHR ''['' # v6) f"
    using v4_no_bracket v6_no_bracket by (simp add: FilterIPString_def parseIP_def split: option.splits)
  ultimately show ?thesis
    using f(1) words host [of "dotted x"] host [of "CHR ''['' # v6"]
    by (auto simp: filter_load_def check_ipf_def)
qed

theorem ip_filter_lets_in_witness:
  "\<exists>f. filter_load ''127.0.0.1 10.18.240.0/24'' filter_new = (f, True) \<and>
    check_ipf ''127.0.0.1 10.18.240.0/24'' f ''10.18.240.7:5000'' = Inr True \<and>
    check_ipf ''127.0.0.1 10.18.240.0/24'' f ''[::1]:5000'' = Inr False"
proof -
  let ?as = "[Host [127, 0, 0, 1], Net [10, 18, 240, 0] 24]"
  have t: "spaced (map allow_text ?as) = ''127.0.0.1 10.18.240.0/24''" "dotted [10, 18, 240, 7] = ''10.18.240.7''"
    by code_simp+
  have "list_ex (allows [10, 18, 240, 7]) ?as" by (auto simp: addr_bit_def nth_Cons' div_less_iff_less_mult)
  with ip_filter_lets_in [of ?as "[10, 18, 240, 7]" "''5000''" "''::1]''", unfolded t] show ?thesis by simp
qed

end
