(* ===== verification/Ng_Form.thy ===== *)
theory Ng_Form
  imports Js Text
begin

text \<open>
  Forms of \<^verbatim>\<open>angular.js\<close>: the controller of a form (\<open>FormController\<close>), the controller of a field
  (\<open>NgModelController\<close>) with its validity, its parsers and its formatters, and the text, number
  and hidden inputs that the console's dialogs use. The fields of one form write to the
  keys of one object of the scope (\<open>task\<close>). Classes stand for the effects on the elements.

  Values that are compared are strings, numbers, null and undefined; NaN is \<open>None\<close>. What
  \<open>parseFloat\<close> makes of a text with a dot is a parameter (a lone dot, which is NaN, is outside the
  model). Attributes such as \<open>min\<close> and \<open>ng-pattern\<close>
  and listeners of changes do not occur in the console and are left out.
\<close>

section \<open>Strings\<close>

definition is_upper :: "char \<Rightarrow> bool" where
  "is_upper c = (let n = of_char c :: nat in 65 \<le> n \<and> n \<le> 90)"

definition snake_case :: "string \<Rightarrow> string \<Rightarrow> string" where
  "snake_case name separator =
     concat (map (\<lambda>(pos, c). if is_upper c then (if pos = 0 then [] else separator) @ [to_lower c] else [c])
       (zip [0..<length name] name))"

text \<open>\<open>NUMBER_REGEXP\<close>, and \<open>parseFloat\<close> on the texts that match it.\<close>

definition unsigned_part :: "string \<Rightarrow> string" where
  "unsigned_part t = (if t \<noteq> [] \<and> (hd t = CHR ''-'' \<or> hd t = CHR ''+'') then tl t else t)"

definition number_regexp :: "string \<Rightarrow> bool" where
  "number_regexp s =
     (let u = unsigned_part (js_trim s); r = dropWhile is_digit u in
      (takeWhile is_digit u \<noteq> [] \<and> r = []) \<or> (r \<noteq> [] \<and> hd r = CHR ''.'' \<and> list_all is_digit (tl r)))"

definition parse_float :: "(string \<Rightarrow> jsval) \<Rightarrow> string \<Rightarrow> jsval" where
  "parse_float frac s =
     (let t = js_trim s; u = unsigned_part t in
      if u \<noteq> [] \<and> list_all is_digit u
      then JNum (if hd t = CHR ''-'' then - int (digits_value u) else int (digits_value u))
      else frac s)"

section \<open>State\<close>

record control =
  c_view :: "jsval option"
  c_model :: "jsval option"
  c_pristine :: bool
  c_dirty :: bool
  c_valid :: bool
  c_invalid :: bool
  c_error :: "string \<rightharpoonup> bool"
  c_invalidCount :: int
  c_css :: "string set"

text \<open>A token whose queue is undefined or false is not in the domain of \<open>f_errors\<close>.\<close>

record form =
  f_pristine :: bool
  f_dirty :: bool
  f_valid :: bool
  f_invalid :: bool
  f_errors :: "string \<rightharpoonup> nat list"
  f_invalidCount :: int
  f_controls :: "nat list"
  f_css :: "string set"

datatype input_kind = TextInput | NumberInput | HiddenInput

record field =
  fd_kind :: input_kind
  fd_key :: string

record dform =
  ctl :: "nat \<Rightarrow> control"
  frm :: form
  task_obj :: jsobj
  shown :: "nat \<Rightarrow> string"       \<comment> \<open>what the element displays\<close>

text \<open>The fields by number, whether elements have a validity state, and \<open>parseFloat\<close>.\<close>

record form_env =
  env_fields :: "nat \<Rightarrow> field"
  native :: bool
  frac :: "string \<Rightarrow> jsval"

section \<open>Validity\<close>

definition toggle_css :: "bool \<Rightarrow> string \<Rightarrow> string set \<Rightarrow> string set" where
  "toggle_css v key css =
     insert ((if v then ''ng-valid'' else ''ng-invalid'') @ key)
       (css - {(if v then ''ng-invalid'' else ''ng-valid'') @ key})"

definition key_suffix :: "string \<Rightarrow> string" where
  "key_suffix key = (if key = [] then [] else CHR ''-'' # snake_case key ''-'')"

definition new_control :: control where
  "new_control = \<lparr>c_view = None, c_model = None, c_pristine = True, c_dirty = False, c_valid = True,
     c_invalid = False, c_error = Map.empty, c_invalidCount = 0, c_css = {''ng-pristine'', ''ng-valid''}\<rparr>"

definition new_form :: form where
  "new_form = \<lparr>f_pristine = True, f_dirty = False, f_valid = True, f_invalid = False, f_errors = Map.empty,
     f_invalidCount = 0, f_controls = [], f_css = {''ng-pristine'', ''ng-valid''}\<rparr>"

text \<open>None when the control is in that state already, and its form is not told.\<close>

definition control_setValidity :: "string \<Rightarrow> bool \<Rightarrow> control \<Rightarrow> control option" where
  "control_setValidity key v c =
     (if c_error c key = Some (\<not> v) then None
      else
        let c1 = (if v then
              let n = (if c_error c key = Some True then c_invalidCount c - 1 else c_invalidCount c);
                  c0 = c\<lparr>c_invalidCount := n\<rparr>
              in if n = 0 then c0\<lparr>c_css := toggle_css True [] (c_css c0), c_valid := True, c_invalid := False\<rparr> else c0
            else c\<lparr>c_css := toggle_css False [] (c_css c), c_invalid := True, c_valid := False,
                   c_invalidCount := c_invalidCount c + 1\<rparr>)
        in Some (c1\<lparr>c_error := (c_error c1)(key \<mapsto> \<not> v), c_css := toggle_css v (key_suffix key) (c_css c1)\<rparr>))"

definition form_setValid :: "string \<Rightarrow> nat \<Rightarrow> form \<Rightarrow> form" where
  "form_setValid token i f =
     (case f_errors f token of
        None \<Rightarrow> f
      | Some q \<Rightarrow>
          if remove1 i q \<noteq> [] then f\<lparr>f_errors := (f_errors f)(token \<mapsto> remove1 i q)\<rparr>
          else
            let n = f_invalidCount f - 1;
                f1 = f\<lparr>f_invalidCount := n\<rparr>;
                f2 = (if n = 0 then f1\<lparr>f_css := toggle_css True [] (f_css f1), f_valid := True, f_invalid := False\<rparr> else f1)
            in f2\<lparr>f_errors := (f_errors f2)(token := None), f_css := toggle_css True (key_suffix token) (f_css f2)\<rparr>)"

definition form_setInvalid :: "string \<Rightarrow> nat \<Rightarrow> form \<Rightarrow> form" where
  "form_setInvalid token i f =
     (let f1 = (if f_invalidCount f = 0 then f\<lparr>f_css := toggle_css False [] (f_css f)\<rparr> else f) in
      case f_errors f1 token of
        Some q \<Rightarrow>
          if i \<in> set q then f1
          else f1\<lparr>f_errors := (f_errors f1)(token \<mapsto> q @ [i]), f_valid := False, f_invalid := True\<rparr>
      | None \<Rightarrow> f1\<lparr>f_errors := (f_errors f1)(token \<mapsto> [i]), f_invalidCount := f_invalidCount f1 + 1,
                   f_css := toggle_css False (key_suffix token) (f_css f1), f_valid := False, f_invalid := True\<rparr>)"

definition form_setValidity :: "string \<Rightarrow> bool \<Rightarrow> nat \<Rightarrow> form \<Rightarrow> form" where
  "form_setValidity token v i f = (if v then form_setValid token i f else form_setInvalid token i f)"

definition set_validity :: "nat \<Rightarrow> string \<Rightarrow> bool \<Rightarrow> dform \<Rightarrow> dform" where
  "set_validity i key v st =
     (case control_setValidity key v (ctl st i) of
        None \<Rightarrow> st
      | Some c \<Rightarrow> st\<lparr>ctl := (ctl st)(i := c), frm := form_setValidity key v i (frm st)\<rparr>)"

definition add_control :: "nat \<Rightarrow> dform \<Rightarrow> dform" where
  "add_control i st =
     st\<lparr>ctl := (ctl st)(i := new_control), frm := (frm st)\<lparr>f_controls := f_controls (frm st) @ [i]\<rparr>\<rparr>"

text \<open>\<open>$removeControl\<close>; \<open>order\<close> is the order of the tokens.\<close>

definition remove_control :: "string list \<Rightarrow> nat \<Rightarrow> dform \<Rightarrow> dform" where
  "remove_control order i st =
     (let f = fold (\<lambda>token. form_setValidity token True i) order (frm st)
      in st\<lparr>frm := f\<lparr>f_controls := remove1 i (f_controls f)\<rparr>\<rparr>)"

text \<open>\<open>$setPristine\<close>.\<close>

definition pristine_css :: "string set \<Rightarrow> string set" where
  "pristine_css css = insert ''ng-pristine'' (css - {''ng-dirty''})"

definition control_setPristine :: "control \<Rightarrow> control" where
  "control_setPristine c = c\<lparr>c_dirty := False, c_pristine := True, c_css := pristine_css (c_css c)\<rparr>"

definition form_setPristine :: "dform \<Rightarrow> dform" where
  "form_setPristine st =
     (let f = frm st in
      st\<lparr>ctl := (\<lambda>i. if i \<in> set (f_controls f) then control_setPristine (ctl st i) else ctl st i),
         frm := f\<lparr>f_dirty := False, f_pristine := True, f_css := pristine_css (f_css f)\<rparr>\<rparr>)"

section \<open>Parsers and formatters\<close>

definition is_empty :: "jsval option \<Rightarrow> bool" where
  "is_empty v = (v \<in> {None, Some JUndef, Some JNull, Some (JStr [])})"

definition strict_ne :: "jsval option \<Rightarrow> jsval option \<Rightarrow> bool" where
  "strict_ne a b = (a = None \<or> b = None \<or> a \<noteq> b)"

definition number_parser :: "form_env \<Rightarrow> nat \<Rightarrow> string \<Rightarrow> dform \<Rightarrow> jsval \<times> dform" where
  "number_parser env i s st =
     (if s = [] then (JNull, set_validity i ''number'' True st)
      else if number_regexp s then (parse_float (frac env) s, set_validity i ''number'' True st)
      else (JUndef, set_validity i ''number'' False st))"

text \<open>The native validator; \<open>bad\<close> is the flag \<open>badInput\<close> of the element.\<close>

definition native_validator :: "nat \<Rightarrow> bool \<Rightarrow> jsval \<times> dform \<Rightarrow> jsval \<times> dform" where
  "native_validator i bad = (\<lambda>(v, st).
     if c_error (ctl st i) ''number'' \<noteq> Some True \<and> bad then (JUndef, set_validity i ''number'' False st)
     else (v, st))"

definition run_parsers :: "form_env \<Rightarrow> nat \<Rightarrow> bool \<Rightarrow> string \<Rightarrow> dform \<Rightarrow> jsval \<times> dform" where
  "run_parsers env i bad s st =
     (case fd_kind (env_fields env i) of
        NumberInput \<Rightarrow>
          let r = number_parser env i s st in if native env then native_validator i bad r else r
      | _ \<Rightarrow> (JStr s, st))"

text \<open>The formatters run from the last to the first: the validator before the conversion.\<close>

definition number_formatters :: "nat \<Rightarrow> jsval \<Rightarrow> dform \<Rightarrow> jsval \<times> dform" where
  "number_formatters i v st =
     (let ok = is_empty (Some v) \<or> (case v of JNum _ \<Rightarrow> True | _ \<Rightarrow> False);
          w = (if ok then v else JUndef)
      in (JStr (if is_empty (Some w) then [] else js_string w), set_validity i ''number'' ok st))"

definition run_formatters :: "form_env \<Rightarrow> nat \<Rightarrow> jsval \<Rightarrow> dform \<Rightarrow> jsval \<times> dform" where
  "run_formatters env i v st =
     (case fd_kind (env_fields env i) of NumberInput \<Rightarrow> number_formatters i v st | _ \<Rightarrow> (v, st))"

section \<open>The model and the view\<close>

definition task_value :: "form_env \<Rightarrow> nat \<Rightarrow> dform \<Rightarrow> jsval" where
  "task_value env i st = js_prop (JObj (task_obj st)) (fd_key (env_fields env i))"

definition set_dirty :: "nat \<Rightarrow> dform \<Rightarrow> dform" where
  "set_dirty i st =
     (let c = ctl st i; f = frm st in
      if c_pristine c then
        st\<lparr>ctl := (ctl st)(i := c\<lparr>c_dirty := True, c_pristine := False,
                c_css := insert ''ng-dirty'' (c_css c - {''ng-pristine''})\<rparr>),
           frm := f\<lparr>f_dirty := True, f_pristine := False,
                f_css := insert ''ng-dirty'' (f_css f - {''ng-pristine''})\<rparr>\<rparr>
      else st)"

definition set_view_value :: "form_env \<Rightarrow> nat \<Rightarrow> bool \<Rightarrow> string \<Rightarrow> dform \<Rightarrow> dform" where
  "set_view_value env i bad s st =
     (let st1 = set_dirty i (st\<lparr>ctl := (ctl st)(i := (ctl st i)\<lparr>c_view := Some (JStr s)\<rparr>)\<rparr>);
          (v, st2) = run_parsers env i bad s st1
      in if strict_ne (c_model (ctl st2 i)) (Some v)
         then st2\<lparr>ctl := (ctl st2)(i := (ctl st2 i)\<lparr>c_model := Some v\<rparr>),
                  task_obj := obj_put (fd_key (env_fields env i)) v (task_obj st2)\<rparr>
         else st2)"

definition model_watch :: "form_env \<Rightarrow> nat \<Rightarrow> dform \<Rightarrow> dform" where
  "model_watch env i st =
     (let value = task_value env i st in
      if strict_ne (c_model (ctl st i)) (Some value) then
        let st1 = st\<lparr>ctl := (ctl st)(i := (ctl st i)\<lparr>c_model := Some value\<rparr>)\<rparr>;
            (v, st2) = run_formatters env i value st1
        in if strict_ne (c_view (ctl st2 i)) (Some v)
           then st2\<lparr>ctl := (ctl st2)(i := (ctl st2 i)\<lparr>c_view := Some v\<rparr>),
                    shown := (if fd_kind (env_fields env i) = HiddenInput then shown st2
                              else (shown st2)(i := if is_empty (Some v) then [] else js_string v))\<rparr>
           else st2
      else st)"

definition form_digest :: "form_env \<Rightarrow> dform \<Rightarrow> dform" where
  "form_digest env st = fold (model_watch env) (f_controls (frm st)) st"

text \<open>The handler of the events \<open>input\<close> and \<open>change\<close>: the element's value is \<open>s\<close>.\<close>

definition on_input :: "form_env \<Rightarrow> nat \<Rightarrow> string \<Rightarrow> bool \<Rightarrow> dform \<Rightarrow> dform" where
  "on_input env i s bad st =
     (let value = js_trim s;
          revalidate = native env \<and> fd_kind (env_fields env i) = NumberInput;
          st0 = st\<lparr>shown := (shown st)(i := s)\<rparr>
      in if fd_kind (env_fields env i) = HiddenInput then st
         else if strict_ne (c_view (ctl st i)) (Some (JStr value)) \<or> (value = [] \<and> revalidate)
         then form_digest env (set_view_value env i bad value st0)
         else st0)"

section \<open>Runs\<close>

datatype form_event = Typed nat string bool | FormDigest | Removed nat "string list" | Pristine

fun form_step :: "form_env \<Rightarrow> form_event \<Rightarrow> dform \<Rightarrow> dform" where
  "form_step env (Typed i s bad) st = (if i \<in> set (f_controls (frm st)) then on_input env i s bad st else st)"
| "form_step env FormDigest st = form_digest env st"
| "form_step env Pristine st = form_setPristine st"
| "form_step env (Removed i order) st =
     (if i \<in> set (f_controls (frm st)) \<and> set order = dom (f_errors (frm st)) then remove_control order i st else st)"

text \<open>Linking a form with \<open>n\<close> fields over an object, and the digest that follows.\<close>

definition link_form :: "form_env \<Rightarrow> nat \<Rightarrow> jsobj \<Rightarrow> dform" where
  "link_form env n ob =
     form_digest env (fold add_control [0..<n]
       \<lparr>ctl = (\<lambda>_. new_control), frm = new_form, task_obj = ob, shown = (\<lambda>_. [])\<rparr>)"

definition run_form :: "form_env \<Rightarrow> form_event list \<Rightarrow> dform \<Rightarrow> dform" where
  "run_form env es st = fold (form_step env) es st"

end
