(* ===== verification/Ng_Form_Inv.thy ===== *)
theory Ng_Form_Inv
  imports Ng_Form
begin

text \<open>
  The invariants of forms: a field counts its errors, a form keeps for every error the fields
  that have it, and after a digest the fields hold the values of the object.
\<close>

section \<open>Invariants\<close>

definition errs :: "control \<Rightarrow> string set" where
  "errs c = {k. c_error c k = Some True}"

definition css_ok :: "bool \<Rightarrow> string set \<Rightarrow> bool" where
  "css_ok v css \<longleftrightarrow> (''ng-valid'' \<in> css \<longleftrightarrow> v) \<and> (''ng-invalid'' \<in> css \<longleftrightarrow> \<not> v)"

text \<open>A control counts its errors, and is valid when it has none.\<close>

definition control_ok :: "control \<Rightarrow> bool" where
  "control_ok c \<longleftrightarrow> finite (errs c) \<and> c_invalidCount c = int (card (errs c)) \<and>
     (c_valid c \<longleftrightarrow> errs c = {}) \<and> (c_invalid c \<longleftrightarrow> \<not> c_valid c) \<and> css_ok (c_valid c) (c_css c)"

text \<open>A form has for every token the controls with that error, and is valid when there are none.\<close>

definition queues_ok :: "(nat \<Rightarrow> string set) \<Rightarrow> form \<Rightarrow> bool" where
  "queues_ok E f \<longleftrightarrow>
     (\<forall>k. case f_errors f k of
         None \<Rightarrow> \<forall>i \<in> set (f_controls f). k \<notin> E i
       | Some q \<Rightarrow> q \<noteq> [] \<and> distinct q \<and> set q = {i \<in> set (f_controls f). k \<in> E i}) \<and>
     f_errors f [] = None \<and> finite (dom (f_errors f)) \<and> f_invalidCount f = int (card (dom (f_errors f))) \<and>
     (f_valid f \<longleftrightarrow> dom (f_errors f) = {}) \<and> (f_invalid f \<longleftrightarrow> \<not> f_valid f) \<and> css_ok (f_valid f) (f_css f)"

definition form_ok :: "dform \<Rightarrow> bool" where
  "form_ok st \<longleftrightarrow> distinct (f_controls (frm st)) \<and> (\<forall>i \<in> set (f_controls (frm st)). control_ok (ctl st i)) \<and>
     queues_ok (\<lambda>i. errs (ctl st i)) (frm st)"

text \<open>What the invariant sees of a control and of a form.\<close>

lemma control_ok_cong:
  "c_error c' = c_error c \<Longrightarrow> c_invalidCount c' = c_invalidCount c \<Longrightarrow> c_valid c' = c_valid c \<Longrightarrow>
   c_invalid c' = c_invalid c \<Longrightarrow> css_ok (c_valid c) (c_css c') = css_ok (c_valid c) (c_css c) \<Longrightarrow>
   control_ok c' = control_ok c"
  by (simp add: control_ok_def errs_def)

lemma toggle_css_ok: "css_ok v (toggle_css v [] css)"
  by (simp add: css_ok_def toggle_css_def)

lemma toggle_css_key: "css_ok v (toggle_css w (key_suffix k) css) = css_ok v css" if "k \<noteq> []"
  using that by (auto simp: css_ok_def toggle_css_def key_suffix_def)

lemma css_ok_dirty: "css_ok v (insert ''ng-dirty'' (css - {''ng-pristine''})) = css_ok v css"
  by (simp add: css_ok_def)

lemma control_setValidity_ok:
  assumes "control_ok c" "control_setValidity k v c = Some c'" "k \<noteq> []"
  shows "control_ok c'" "errs c' = (if v then errs c - {k} else insert k (errs c))"
    "\<not> v \<longrightarrow> k \<notin> errs c"
proof -
  have e: "c_error c k \<noteq> Some (\<not> v)" using assms(2) by (simp add: control_setValidity_def split: if_splits)
  have err': "c_error c' = (c_error c)(k \<mapsto> \<not> v)"
    using assms(2) by (auto simp: control_setValidity_def Let_def split: if_splits)
  then show errs': "errs c' = (if v then errs c - {k} else insert k (errs c))"
    by (auto simp: errs_def)
  show new: "\<not> v \<longrightarrow> k \<notin> errs c" using e by (auto simp: errs_def)
  have fin: "finite (errs c)" "c_invalidCount c = int (card (errs c))"
    using assms(1) by (simp_all add: control_ok_def)
  have cnt: "c_invalidCount c' = int (card (errs c'))"
  proof (cases v)
    case True
    then have "c_invalidCount c' = (if k \<in> errs c then c_invalidCount c - 1 else c_invalidCount c)"
      using assms(2) by (auto simp: control_setValidity_def errs_def Let_def split: if_splits)
    moreover have "k \<in> errs c \<Longrightarrow> 0 < card (errs c)" using fin(1) by (metis card_gt_0_iff empty_iff)
    ultimately show ?thesis using fin errs' True by (auto simp: card_Diff_singleton_if of_nat_diff Suc_le_eq)
  next
    case False
    then have "c_invalidCount c' = c_invalidCount c + 1"
      using assms(2) by (auto simp: control_setValidity_def Let_def split: if_splits)
    then show ?thesis using fin errs' new False by simp
  qed
  have fin': "finite (errs c')" using fin(1) errs' by simp
  have "(c_valid c' \<longleftrightarrow> errs c' = {}) \<and> (c_invalid c' \<longleftrightarrow> \<not> c_valid c') \<and> css_ok (c_valid c') (c_css c')"
  proof (cases v)
    case True
    have zero: "c_invalidCount c' = 0 \<longleftrightarrow> errs c' = {}" using cnt fin' by simp
    have "(if c_invalidCount c' = 0 then c_valid c' \<and> \<not> c_invalid c' \<and> css_ok True (c_css c')
        else c_valid c' = c_valid c \<and> c_invalid c' = c_invalid c \<and> css_ok (c_valid c) (c_css c') = css_ok (c_valid c) (c_css c))"
      using assms(2) True by (auto simp: control_setValidity_def Let_def toggle_css_key [OF assms(3)] toggle_css_ok split: if_splits)
    moreover have "errs c' \<noteq> {} \<Longrightarrow> errs c \<noteq> {}" using errs' True by auto
    ultimately show ?thesis using assms(1) zero by (auto simp: control_ok_def split: if_splits)
  next
    case False
    then show ?thesis
      using assms(2) errs' by (auto simp: control_setValidity_def Let_def toggle_css_key [OF assms(3)] toggle_css_ok split: if_splits)
  qed
  with cnt fin' show "control_ok c'" unfolding control_ok_def by blast
qed


lemma queues_okD:
  assumes "queues_ok E f"
  shows "f_errors f k = None \<Longrightarrow> i \<in> set (f_controls f) \<Longrightarrow> k \<notin> E i"
    and "f_errors f k = Some q \<Longrightarrow> q \<noteq> [] \<and> distinct q \<and> set q = {i \<in> set (f_controls f). k \<in> E i}"
  using assms by (auto simp: queues_ok_def split: option.splits dest!: spec [of _ k])

lemma queues_valid:
  assumes "queues_ok E f" "i \<in> set (f_controls f)" "k \<noteq> []"
  shows "queues_ok (E(i := E i - {k})) (form_setValid k i f)"
proof (cases "f_errors f k")
  case None
  with queues_okD(1) [OF assms(1) None assms(2)] assms(1) show ?thesis
    by (simp add: form_setValid_def insert_absorb)
next
  case (Some q)
  note q = queues_okD(2) [OF assms(1) Some]
  have fin: "finite (dom (f_errors f))" "f_invalidCount f = int (card (dom (f_errors f)))"
    using assms(1) by (simp_all add: queues_ok_def)
  have other: "case f_errors f j of
         None \<Rightarrow> \<forall>a \<in> set (f_controls f). j \<notin> (E(i := E i - {k})) a
       | Some q \<Rightarrow> q \<noteq> [] \<and> distinct q \<and> set q = {a \<in> set (f_controls f). j \<in> (E(i := E i - {k})) a}" if "j \<noteq> k" for j
    using assms(1) that unfolding queues_ok_def by (auto split: option.splits dest!: spec [of _ j])
  show ?thesis
  proof (cases "remove1 i q = []")
    case False
    let ?g = "form_setValid k i f"
    have sel: "f_errors ?g = (f_errors f)(k \<mapsto> remove1 i q)" "f_controls ?g = f_controls f" "f_valid ?g = f_valid f"
        "f_invalid ?g = f_invalid f" "f_invalidCount ?g = f_invalidCount f" "f_css ?g = f_css f"
      using Some False by (simp_all add: form_setValid_def)
    have q': "set (remove1 i q) = {a \<in> set (f_controls f). k \<in> (E(i := E i - {k})) a}" "distinct (remove1 i q)"
      using q by auto
    have dom: "dom ((f_errors f)(k \<mapsto> remove1 i q)) = dom (f_errors f)" using Some by (simp add: insert_dom)
    show ?thesis unfolding queues_ok_def sel dom
    proof (intro conjI allI)
      show "((f_errors f)(k \<mapsto> remove1 i q)) [] = None" using assms(1,3) by (simp add: queues_ok_def)
    next
      fix j
      show "case ((f_errors f)(k \<mapsto> remove1 i q)) j of
         None \<Rightarrow> \<forall>a \<in> set (f_controls f). j \<notin> (E(i := E i - {k})) a
       | Some q \<Rightarrow> q \<noteq> [] \<and> distinct q \<and> set q = {a \<in> set (f_controls f). j \<in> (E(i := E i - {k})) a}"
        using other [of j] q' False by (cases "j = k") simp_all
    qed (insert assms(1), unfold queues_ok_def, (elim conjE, assumption)+)
  next
    case True
    let ?f = "form_setValid k i f"
    let ?n = "f_invalidCount f - 1"
    have E: "f_errors ?f = (f_errors f)(k := None)" "f_controls ?f = f_controls f" "f_invalidCount ?f = ?n"
      using Some True by (simp_all add: form_setValid_def Let_def)
    have V: "if ?n = 0 then f_valid ?f \<and> \<not> f_invalid ?f \<and> css_ok True (f_css ?f)
        else f_valid ?f = f_valid f \<and> f_invalid ?f = f_invalid f \<and> css_ok (f_valid f) (f_css ?f) = css_ok (f_valid f) (f_css f)"
      using Some True by (simp add: form_setValid_def Let_def toggle_css_key [OF assms(3)] toggle_css_ok)
    have "k \<in> dom (f_errors f)" using Some by blast
    from card_Suc_Diff1 [OF fin(1) this] have card: "?n = int (card (dom ((f_errors f)(k := None))))"
      using fin(2) by (simp del: card_Diff_insert)
    have dom: "dom ((f_errors f)(k := None)) = {} \<longleftrightarrow> ?n = 0" using card fin(1) by simp
    have "\<not> f_valid f" using assms(1) Some by (auto simp: queues_ok_def)
    have none: "\<forall>a \<in> set (f_controls f). k \<notin> (E(i := E i - {k})) a"
    proof -
      have "set (remove1 i q) = {a \<in> set (f_controls f). k \<in> E a} - {i}" using q by simp
      with True show ?thesis by auto
    qed
    show ?thesis unfolding queues_ok_def E
    proof (intro conjI allI)
      fix j
      show "case ((f_errors f)(k := None)) j of
         None \<Rightarrow> \<forall>a \<in> set (f_controls f). j \<notin> (E(i := E i - {k})) a
       | Some q \<Rightarrow> q \<noteq> [] \<and> distinct q \<and> set q = {a \<in> set (f_controls f). j \<in> (E(i := E i - {k})) a}"
        using other [of j] none by (cases "j = k") simp_all
      show "((f_errors f)(k := None)) [] = None" using assms(1) by (simp add: queues_ok_def)
      show "finite (dom ((f_errors f)(k := None)))" using fin(1) by simp
      show "?n = int (card (dom ((f_errors f)(k := None))))" by (rule card)
      show "f_valid ?f \<longleftrightarrow> dom ((f_errors f)(k := None)) = {}" "f_invalid ?f \<longleftrightarrow> \<not> f_valid ?f" "css_ok (f_valid ?f) (f_css ?f)"
        using V \<open>\<not> f_valid f\<close> assms(1) unfolding dom by (auto simp: queues_ok_def split: if_splits)
    qed
  qed
qed

lemma queues_invalid:
  assumes "queues_ok E f" "i \<in> set (f_controls f)" "k \<noteq> []" "k \<notin> E i"
  shows "queues_ok (E(i := insert k (E i))) (form_setInvalid k i f)"
proof -
  let ?f = "form_setInvalid k i f"
  have fin: "finite (dom (f_errors f))" "f_invalidCount f = int (card (dom (f_errors f)))"
    using assms(1) by (simp_all add: queues_ok_def)
  have notin: "i \<notin> set q" if "f_errors f k = Some q" for q
    using queues_okD(2) [OF assms(1) that] assms(4) by simp
  have E: "f_errors ?f = (f_errors f)(k \<mapsto> (case f_errors f k of None \<Rightarrow> [] | Some q \<Rightarrow> q) @ [i])"
      "f_controls ?f = f_controls f" "\<not> f_valid ?f" "f_invalid ?f"
      "f_invalidCount ?f = f_invalidCount f + (if f_errors f k = None then 1 else 0)"
    using notin by (auto simp: form_setInvalid_def Let_def split: option.splits)
  have css: "css_ok False (f_css ?f)"
  proof (cases "f_invalidCount f = 0")
    case False
    then have "\<not> f_valid f" using assms(1) fin by (auto simp: queues_ok_def)
    with assms(1) have "css_ok False (f_css f)" by (simp add: queues_ok_def)
    with False notin show ?thesis
      by (auto simp: form_setInvalid_def Let_def toggle_css_key [OF assms(3)] split: option.splits)
  qed (use notin in \<open>auto simp: form_setInvalid_def Let_def toggle_css_key [OF assms(3)] toggle_css_ok split: option.splits\<close>)
  have cnt: "f_invalidCount ?f = int (card (dom (f_errors ?f)))"
    using E(1,5) fin by (auto simp: card_insert_if insert_absorb domIff)
  show ?thesis unfolding queues_ok_def
  proof (intro conjI allI)
    fix j
    show "case f_errors ?f j of
         None \<Rightarrow> \<forall>a \<in> set (f_controls ?f). j \<notin> (E(i := insert k (E i))) a
       | Some q \<Rightarrow> q \<noteq> [] \<and> distinct q \<and> set q = {a \<in> set (f_controls ?f). j \<in> (E(i := insert k (E i))) a}"
    proof (cases "j = k")
      case True
      show ?thesis
      proof (cases "f_errors f k")
        case None
        with queues_okD(1) [OF assms(1) None] assms(2) True E(1,2) show ?thesis by auto
      next
        case (Some q)
        with queues_okD(2) [OF assms(1) Some] notin [OF Some] assms(2) True E(1,2) show ?thesis by auto
      qed
    next
      case False
      with assms(1) E(1,2) show ?thesis
        unfolding queues_ok_def by (auto split: option.splits dest!: spec [of _ j])
    qed
    show "f_errors ?f [] = None" using assms(1,3) E(1) by (simp add: queues_ok_def)
    show "finite (dom (f_errors ?f))" using E(1) fin by simp
    show "f_invalidCount ?f = int (card (dom (f_errors ?f)))" by (rule cnt)
    show "f_valid ?f \<longleftrightarrow> dom (f_errors ?f) = {}" using E(1,3) by auto
    show "f_invalid ?f \<longleftrightarrow> \<not> f_valid ?f" using E(3,4) by simp
    show "css_ok (f_valid ?f) (f_css ?f)" using css E(3) by simp
  qed
qed


lemma form_setValidity_controls [simp]: "f_controls (form_setValidity k v i f) = f_controls f"
  by (simp add: form_setValidity_def form_setValid_def form_setInvalid_def Let_def split: option.split)

lemma form_ok_set_validity:
  assumes "form_ok st" "i \<in> set (f_controls (frm st))" "k \<noteq> []"
  shows "form_ok (set_validity i k v st)"
proof (cases "control_setValidity k v (ctl st i)")
  case None
  with assms(1) show ?thesis by (simp add: set_validity_def)
next
  case (Some c)
  have ok: "control_ok (ctl st i)" "queues_ok (\<lambda>j. errs (ctl st j)) (frm st)"
    using assms by (simp_all add: form_ok_def)
  note c = control_setValidity_ok [OF ok(1) Some assms(3)]
  have E: "(\<lambda>j. errs (((ctl st)(i := c)) j)) = (\<lambda>j. errs (ctl st j))(i := errs c)"
    by (rule ext) simp
  have "queues_ok ((\<lambda>j. errs (ctl st j))(i := errs c)) (form_setValidity k v i (frm st))"
    using queues_valid [OF ok(2) assms(2,3)] queues_invalid [OF ok(2) assms(2,3)] c(2,3)
    by (auto simp: form_setValidity_def)
  then have "queues_ok (\<lambda>j. errs (((ctl st)(i := c)) j)) (form_setValidity k v i (frm st))" by (simp only: E)
  with assms(1) c(1) Some show ?thesis by (simp add: form_ok_def set_validity_def)
qed

text \<open>Changes that the invariant does not see.\<close>

definition same_control :: "control \<Rightarrow> control \<Rightarrow> bool" where
  "same_control c c' \<longleftrightarrow> c_error c' = c_error c \<and> c_invalidCount c' = c_invalidCount c \<and> c_valid c' = c_valid c \<and>
     c_invalid c' = c_invalid c \<and> (\<forall>v. css_ok v (c_css c') = css_ok v (c_css c))"

definition same_form :: "form \<Rightarrow> form \<Rightarrow> bool" where
  "same_form f f' \<longleftrightarrow> f_errors f' = f_errors f \<and> f_invalidCount f' = f_invalidCount f \<and> f_valid f' = f_valid f \<and>
     f_invalid f' = f_invalid f \<and> f_controls f' = f_controls f \<and> (\<forall>v. css_ok v (f_css f') = css_ok v (f_css f))"

lemma same_control_simps [simp]: "same_control c c" "same_control c (c\<lparr>c_view := a\<rparr>)" "same_control c (c\<lparr>c_model := a\<rparr>)"
  by (simp_all add: same_control_def)

lemma same_form_refl [simp]: "same_form f f"
  by (simp add: same_form_def)

lemma queues_ok_same:
  assumes "queues_ok E f" "same_form f f'"
  shows "queues_ok E f'"
proof -
  have "queues_ok E f' = queues_ok E f"
    using assms(2) unfolding same_form_def queues_ok_def by (elim conjE) (simp only:)
  with assms(1) show ?thesis by simp
qed

lemma form_ok_same:
  assumes "form_ok st" "\<And>j. same_control (ctl st j) (ctl st' j)" "same_form (frm st) (frm st')"
  shows "form_ok st'"
proof -
  have "errs (ctl st' j) = errs (ctl st j)" "control_ok (ctl st' j) = control_ok (ctl st j)" for j
    using assms(2) [of j] by (simp_all add: errs_def same_control_def control_ok_def)
  with assms(1,3) queues_ok_same [OF _ assms(3)] show ?thesis by (simp add: form_ok_def same_form_def)
qed

lemma set_validity_controls [simp]: "f_controls (frm (set_validity i k v st)) = f_controls (frm st)"
  by (simp add: set_validity_def split: option.split)

definition good_form :: "nat list \<Rightarrow> dform \<Rightarrow> bool" where
  "good_form cs st \<longleftrightarrow> form_ok st \<and> f_controls (frm st) = cs"

lemma good_set_validity: "good_form cs st \<Longrightarrow> i \<in> set cs \<Longrightarrow> k \<noteq> [] \<Longrightarrow> good_form cs (set_validity i k v st)"
  by (auto simp: good_form_def intro: form_ok_set_validity)

lemma good_same:
  "good_form cs st \<Longrightarrow> (\<And>j. same_control (ctl st j) (ctl st' j)) \<Longrightarrow> same_form (frm st) (frm st') \<Longrightarrow> good_form cs st'"
  by (auto simp: good_form_def same_form_def intro: form_ok_same)

lemma good_update:
  assumes "good_form cs st" "same_control (ctl st i) c"
  shows "good_form cs (st\<lparr>ctl := (ctl st)(i := c)\<rparr>)"
    "good_form cs (st\<lparr>ctl := (ctl st)(i := c), task_obj := ob\<rparr>)" "good_form cs (st\<lparr>ctl := (ctl st)(i := c), shown := d\<rparr>)"
  by (rule good_same [OF assms(1)]; simp add: assms(2))+

lemma good_set_dirty: "good_form cs st \<Longrightarrow> good_form cs (set_dirty i st)"
  by (rule good_same, assumption) (simp_all add: set_dirty_def Let_def same_control_def same_form_def css_ok_dirty)

lemma css_ok_pristine: "css_ok v (pristine_css css) = css_ok v css"
  by (simp add: css_ok_def pristine_css_def)

lemma good_pristine: "good_form cs st \<Longrightarrow> good_form cs (form_setPristine st)"
  by (rule good_same, assumption)
    (simp_all add: form_setPristine_def control_setPristine_def Let_def same_control_def same_form_def css_ok_pristine)

lemma good_parsers:
  assumes "good_form cs st" "i \<in> set cs"
  shows "good_form cs (snd (run_parsers env i bad s st))"
  using good_set_validity [OF assms] assms
  by (auto simp: run_parsers_def number_parser_def native_validator_def Let_def good_set_validity split: input_kind.split)

lemma good_formatters: "good_form cs st \<Longrightarrow> i \<in> set cs \<Longrightarrow> good_form cs (snd (run_formatters env i v st))"
  by (auto simp: run_formatters_def number_formatters_def Let_def good_set_validity split: input_kind.split)

lemma good_set_view_value:
  assumes "good_form cs st" "i \<in> set cs"
  shows "good_form cs (set_view_value env i bad s st)"
proof -
  let ?st1 = "set_dirty i (st\<lparr>ctl := (ctl st)(i := (ctl st i)\<lparr>c_view := Some (JStr s)\<rparr>)\<rparr>)"
  have "good_form cs ?st1" using assms by (intro good_set_dirty good_update) simp_all
  from good_parsers [OF this assms(2)] have "good_form cs (snd (run_parsers env i bad s ?st1))" .
  then show ?thesis
    by (auto simp: set_view_value_def Let_def good_update split: prod.split)
qed

lemma good_model_watch:
  assumes "good_form cs st" "i \<in> set cs"
  shows "good_form cs (model_watch env i st)"
proof -
  let ?val = "task_value env i st"
  let ?st1 = "st\<lparr>ctl := (ctl st)(i := (ctl st i)\<lparr>c_model := Some ?val\<rparr>)\<rparr>"
  have "good_form cs ?st1" using assms by (intro good_update) simp_all
  from good_formatters [OF this assms(2)] have "good_form cs (snd (run_formatters env i ?val ?st1))" .
  then show ?thesis using assms(1)
    by (auto simp: model_watch_def Let_def good_update split: prod.split)
qed

lemma good_digest_list: "good_form cs st \<Longrightarrow> set xs \<subseteq> set cs \<Longrightarrow> good_form cs (fold (model_watch env) xs st)"
  by (induction xs arbitrary: st) (auto intro: good_model_watch)

lemma good_form_digest: "good_form cs st \<Longrightarrow> good_form cs (form_digest env st)"
  using good_digest_list [of cs st cs] by (simp add: form_digest_def good_form_def)

lemma good_on_input: "good_form cs st \<Longrightarrow> i \<in> set cs \<Longrightarrow> good_form cs (on_input env i s bad st)"
proof -
  assume good: "good_form cs st" "i \<in> set cs"
  from good(1) have "good_form cs (st\<lparr>shown := d\<rparr>)" for d by (rule good_same) simp_all
  with good show ?thesis by (simp add: on_input_def Let_def good_form_digest good_set_view_value)
qed


section \<open>Adding and removing fields\<close>

lemma new_ok: "control_ok new_control" "errs new_control = {}" "queues_ok E new_form"
  by (auto simp: control_ok_def errs_def new_control_def css_ok_def queues_ok_def new_form_def)

lemma good_add:
  assumes "good_form cs st" "i \<notin> set cs" "cs = [] \<longrightarrow> frm st = new_form" "\<forall>j \<in> set cs. errs (ctl st j) = {}"
  shows "good_form (cs @ [i]) (add_control i st)"
proof -
  have q: "queues_ok (\<lambda>j. errs (ctl st j)) (frm st)" using assms(1) by (simp add: good_form_def form_ok_def)
  have "f_errors (frm st) k = None" for k
  proof (rule ccontr)
    assume "f_errors (frm st) k \<noteq> None"
    then obtain q where "f_errors (frm st) k = Some q" by blast
    from queues_okD(2) [OF q this] obtain i where "i \<in> set (f_controls (frm st))" "k \<in> errs (ctl st i)"
      by (cases q) auto
    with assms(1,4) show False by (auto simp: good_form_def)
  qed
  then have none: "f_errors (frm st) = Map.empty" by blast
  with assms show ?thesis
    by (auto simp: good_form_def form_ok_def add_control_def new_ok queues_ok_def)
qed

lemma good_adds:
  assumes "good_form cs st" "cs = [] \<longrightarrow> frm st = new_form" "\<forall>j \<in> set cs. errs (ctl st j) = {}"
    "distinct (cs @ xs)"
  shows "good_form (cs @ xs) (fold add_control xs st)"
  using assms
proof (induction xs arbitrary: cs st)
  case (Cons x xs)
  then have "good_form (cs @ [x]) (add_control x st)" by (intro good_add) simp_all
  from Cons.IH [OF this] Cons.prems(3,4) show ?case by (auto simp: add_control_def new_ok)
qed simp

lemma good_link: "good_form [0..<n] (link_form env n ob)"
proof -
  let ?st = "\<lparr>ctl = (\<lambda>_. new_control), frm = new_form, task_obj = ob, shown = (\<lambda>_. [])\<rparr>"
  have "good_form [] ?st" by (simp add: good_form_def form_ok_def new_ok) (simp add: new_form_def)
  from good_adds [OF this] have "good_form [0..<n] (fold add_control [0..<n] ?st)" by simp
  then show ?thesis by (simp add: link_form_def good_form_digest)
qed

lemma queues_valids:
  assumes "queues_ok E f" "i \<in> set (f_controls f)" "[] \<notin> set order"
  shows "queues_ok (E(i := E i - set order)) (fold (\<lambda>token. form_setValidity token True i) order f) \<and>
    f_controls (fold (\<lambda>token. form_setValidity token True i) order f) = f_controls f"
  using assms
proof (induction order arbitrary: E f)
  case (Cons k order)
  then have q: "queues_ok (E(i := E i - {k})) (form_setValidity k True i f)"
    using queues_valid [of E f i k] by (auto simp: form_setValidity_def)
  have "(E(i := E i - {k}))(i := (E(i := E i - {k})) i - set order) = E(i := E i - set (k # order))"
    by (rule ext) auto
  with Cons.IH [OF q] Cons.prems show ?case by (simp only: fold_simps o_apply form_setValidity_controls) simp
qed simp

lemma queues_ok_controls:
  assumes "queues_ok E f" "\<And>k. {a \<in> set cs. k \<in> E' a} = {a \<in> set (f_controls f). k \<in> E a}"
  shows "queues_ok E' (f\<lparr>f_controls := cs\<rparr>)"
proof -
  let ?g = "f\<lparr>f_controls := cs\<rparr>"
  have none: "(\<forall>i \<in> set cs. k \<notin> E' i) \<longleftrightarrow> (\<forall>i \<in> set (f_controls f). k \<notin> E i)" for k
    using assms(2) [of k] by blast
  have g: "f_errors ?g = f_errors f" "f_controls ?g = cs" "f_invalidCount ?g = f_invalidCount f"
      "f_valid ?g = f_valid f" "f_invalid ?g = f_invalid f" "f_css ?g = f_css f"
    by simp_all
  show ?thesis using assms(1) unfolding queues_ok_def g assms(2) none .
qed

lemma good_remove:
  assumes "good_form cs st" "i \<in> set cs" "set order = dom (f_errors (frm st))"
  shows "good_form (remove1 i cs) (remove_control order i st)"
proof -
  have cs: "f_controls (frm st) = cs" "form_ok st" "distinct cs"
    using assms(1) by (auto simp: good_form_def form_ok_def)
  then have q: "queues_ok (\<lambda>j. errs (ctl st j)) (frm st)" by (simp add: form_ok_def)
  let ?f = "fold (\<lambda>token. form_setValidity token True i) order (frm st)"
  let ?E = "(\<lambda>j. errs (ctl st j))(i := errs (ctl st i) - set order)"
  have "[] \<notin> set order" using q assms(3) by (auto simp: queues_ok_def)
  from queues_valids [OF q _ this] assms(2) cs(1) have f: "queues_ok ?E ?f" "f_controls ?f = cs" by simp_all
  have "errs (ctl st i) \<subseteq> set order"
    using queues_okD(1) [OF q, of _ i] assms(2,3) cs(1) by (auto simp: domIff)
  then have none: "?E i = {}" by auto
  have sel: "{a \<in> set (remove1 i cs). k \<in> errs (ctl st a)} = {a \<in> set cs. k \<in> ?E a}" for k
    using none cs(3) by auto
  from queues_ok_controls [OF f(1)] sel f(2)
  have "queues_ok (\<lambda>j. errs (ctl st j)) (?f\<lparr>f_controls := remove1 i cs\<rparr>)" by simp
  with cs f(2) show ?thesis
    by (auto simp: good_form_def form_ok_def remove_control_def Let_def dest: in_set_remove1)
qed

section \<open>Settled forms\<close>

text \<open>After a digest the fields that are in the form hold the values of the object.\<close>

definition settled :: "form_env \<Rightarrow> dform \<Rightarrow> bool" where
  "settled env st \<longleftrightarrow> (\<forall>i \<in> set (f_controls (frm st)). c_model (ctl st i) = Some (task_value env i st))"

lemma set_validity_other [simp]:
  "j \<noteq> i \<Longrightarrow> ctl (set_validity i k v st) j = ctl st j"
  "task_obj (set_validity i k v st) = task_obj st" "shown (set_validity i k v st) = shown st"
  by (simp_all add: set_validity_def split: option.split)

lemma control_setValidity_model [simp]:
  "control_setValidity k v c = Some c' \<Longrightarrow> c_model c' = c_model c \<and> c_view c' = c_view c"
  by (auto simp: control_setValidity_def Let_def split: if_splits)

lemma set_validity_model [simp]:
  "c_model (ctl (set_validity i k v st) j) = c_model (ctl st j)"
  "c_view (ctl (set_validity i k v st) j) = c_view (ctl st j)"
  by (auto simp: set_validity_def split: option.split)

lemma run_formatters_keeps [simp]:
  "j \<noteq> i \<Longrightarrow> ctl (snd (run_formatters env i v st)) j = ctl st j"
  "task_obj (snd (run_formatters env i v st)) = task_obj st"
  "c_model (ctl (snd (run_formatters env i v st)) j) = c_model (ctl st j)"
  "f_controls (frm (snd (run_formatters env i v st))) = f_controls (frm st)"
  by (simp_all add: run_formatters_def number_formatters_def Let_def split: input_kind.split)

lemma run_parsers_keeps [simp]:
  "j \<noteq> i \<Longrightarrow> ctl (snd (run_parsers env i bad s st)) j = ctl st j"
  "task_obj (snd (run_parsers env i bad s st)) = task_obj st"
  "c_model (ctl (snd (run_parsers env i bad s st)) j) = c_model (ctl st j)"
  "c_view (ctl (snd (run_parsers env i bad s st)) j) = c_view (ctl st j)"
  "f_controls (frm (snd (run_parsers env i bad s st))) = f_controls (frm st)"
  "shown (snd (run_parsers env i bad s st)) = shown st"
  by (simp_all add: run_parsers_def number_parser_def native_validator_def Let_def split: input_kind.split)

lemma model_watch_keeps [simp]:
  "task_obj (model_watch env i st) = task_obj st"
  "f_controls (frm (model_watch env i st)) = f_controls (frm st)"
  "j \<noteq> i \<Longrightarrow> ctl (model_watch env i st) j = ctl st j"
  using run_formatters_keeps [where env = env and i = i]
  by (auto simp: model_watch_def Let_def split_beta)

lemma task_value_cong: "task_obj st' = task_obj st \<Longrightarrow> task_value env i st' = task_value env i st"
  by (simp add: task_value_def)

lemma model_watch_model: "c_model (ctl (model_watch env i st) i) = Some (task_value env i st)"
  using run_formatters_keeps [where env = env and i = i]
  by (auto simp: model_watch_def Let_def split_beta strict_ne_def)

lemma model_watch_settled: "c_model (ctl st i) = Some (task_value env i st) \<Longrightarrow> model_watch env i st = st"
  by (simp add: model_watch_def strict_ne_def)

lemma digest_list_keeps:
  "task_obj (fold (model_watch env) xs st) = task_obj st"
  "f_controls (frm (fold (model_watch env) xs st)) = f_controls (frm st)"
  "j \<notin> set xs \<Longrightarrow> ctl (fold (model_watch env) xs st) j = ctl st j"
  by (induction xs arbitrary: st) simp_all

lemma digest_list_model:
  "j \<in> set xs \<Longrightarrow> c_model (ctl (fold (model_watch env) xs st) j) = Some (task_value env j st)"
proof (induction xs arbitrary: st)
  case (Cons x xs)
  show ?case
  proof (cases "j \<in> set xs")
    case True
    with Cons.IH [OF True, of "model_watch env x st"] show ?thesis by (simp add: task_value_def)
  next
    case False
    with Cons.prems digest_list_keeps(3) [OF False] show ?thesis by (simp add: model_watch_model)
  qed
qed simp

lemma form_digest_settled: "settled env (form_digest env st)"
  using digest_list_model digest_list_keeps(1,2) by (simp add: settled_def form_digest_def task_value_def)

text \<open>A second digest does nothing.\<close>

lemma form_digest_idle: "settled env st \<Longrightarrow> form_digest env st = st"
proof -
  assume "settled env st"
  then have "fold (model_watch env) xs st = st" if "set xs \<subseteq> set (f_controls (frm st))" for xs
    using that by (induction xs) (simp_all add: settled_def model_watch_settled)
  then show ?thesis by (simp add: form_digest_def)
qed

end
