(* ===== verification/Ng_Form_Props.thy ===== *)
theory Ng_Form_Props
  imports Ng_Form_Inv
begin

text \<open>
  What forms do: runs keep the invariants, what a linked form shows of its object, and what
  typing into a field writes to the object.
\<close>

section \<open>Runs keep the invariant\<close>

definition form_inv :: "form_env \<Rightarrow> nat \<Rightarrow> dform \<Rightarrow> bool" where
  "form_inv env n st \<longleftrightarrow> (\<exists>cs. good_form cs st \<and> set cs \<subseteq> {..<n}) \<and> settled env st"

lemma inv_link: "form_inv env n (link_form env n ob)"
  using good_link [of n env ob] form_digest_settled
  by (auto simp: form_inv_def link_form_def intro!: exI [of _ "[0..<n]"])

lemma settled_on_input:
  assumes "settled env st"
  shows "settled env (on_input env i s bad st)"
proof -
  have "settled env (st\<lparr>shown := d\<rparr>)" for d using assms by (simp add: settled_def task_value_def)
  with assms form_digest_settled show ?thesis by (auto simp: on_input_def Let_def)
qed

lemma inv_step: "form_inv env n st \<Longrightarrow> form_inv env n (form_step env e st)"
proof (cases e)
  case (Typed i s bad)
  assume inv: "form_inv env n st"
  then obtain cs where cs: "good_form cs st" "set cs \<subseteq> {..<n}" by (auto simp: form_inv_def)
  show ?thesis
  proof (cases "i \<in> set cs")
    case True
    from good_on_input [OF cs(1) True] inv cs show ?thesis
      by (auto simp: Typed form_inv_def settled_on_input)
  next
    case False
    with inv cs(1) show ?thesis by (simp add: Typed good_form_def)
  qed
next
  case FormDigest
  moreover assume "form_inv env n st"
  ultimately show ?thesis by (auto simp: form_inv_def form_digest_settled intro: good_form_digest)
next
  case Pristine
  assume inv: "form_inv env n st"
  have "settled env (form_setPristine st)"
    using inv by (simp add: form_inv_def settled_def form_setPristine_def control_setPristine_def task_value_def Let_def)
  with inv show ?thesis by (auto simp: Pristine form_inv_def intro: good_pristine)
next
  case (Removed i order)
  assume inv: "form_inv env n st"
  then obtain cs where cs: "good_form cs st" "set cs \<subseteq> {..<n}" by (auto simp: form_inv_def)
  show ?thesis
  proof (cases "i \<in> set cs \<and> set order = dom (f_errors (frm st))")
    case True
    then have "good_form (remove1 i cs) (remove_control order i st)" using good_remove [OF cs(1)] by blast
    moreover have "set (remove1 i cs) \<subseteq> {..<n}" using cs(2) set_remove1_subset [of i cs] by blast
    moreover have "settled env (remove_control order i st)"
      using inv calculation(1) cs(1) set_remove1_subset [of i cs]
      by (auto simp: form_inv_def settled_def good_form_def task_value_def remove_control_def Let_def)
    ultimately show ?thesis using True cs(1) by (auto simp: Removed form_inv_def good_form_def)
  next
    case False
    with inv cs(1) show ?thesis by (auto simp: Removed good_form_def)
  qed
qed

lemma inv_run: "form_inv env n (run_form env es (link_form env n ob))"
proof -
  have "form_inv env n st \<Longrightarrow> form_inv env n (fold (form_step env) es st)" for st
    by (induction es arbitrary: st) (simp_all add: inv_step)
  with inv_link show ?thesis by (simp add: run_form_def)
qed

section \<open>Typing\<close>

lemma obj_put_same: "obj_get ob k = Some v \<Longrightarrow> obj_put k v ob = ob"
  unfolding obj_get_def by (induction ob) (auto split: if_splits)

lemma js_prop_put: "js_prop (JObj (obj_put k v ob)) j = (if j = k then v else js_prop (JObj ob) j)"
  by (simp add: js_prop_def)

definition field_key :: "form_env \<Rightarrow> nat \<Rightarrow> string" where
  "field_key env i = fd_key (env_fields env i)"

text \<open>What a field makes of a text: the value and whether it is a number.\<close>

definition number_ok :: "bool \<Rightarrow> string \<Rightarrow> bool" where
  "number_ok bad t \<longleftrightarrow> \<not> bad \<and> (t = [] \<or> number_regexp t)"

definition field_value :: "form_env \<Rightarrow> nat \<Rightarrow> bool \<Rightarrow> string \<Rightarrow> jsval" where
  "field_value env i bad t =
     (if fd_kind (env_fields env i) \<noteq> NumberInput then JStr t
      else if \<not> number_ok bad t then JUndef
      else if t = [] then JNull else parse_float (frac env) t)"

lemma set_validity_error: "c_error (ctl (set_validity i k v st) i) k = Some (\<not> v)"
  by (auto simp: set_validity_def control_setValidity_def Let_def split: option.split if_splits)

lemma set_dirty_keeps [simp]:
  "task_obj (set_dirty i st) = task_obj st" "f_controls (frm (set_dirty i st)) = f_controls (frm st)"
  "j \<noteq> i \<Longrightarrow> ctl (set_dirty i st) j = ctl st j"
  "c_model (ctl (set_dirty i st) j) = c_model (ctl st j)" "c_view (ctl (set_dirty i st) j) = c_view (ctl st j)"
  by (simp_all add: set_dirty_def Let_def)

lemma number_parsers:
  assumes "native env" "fd_kind (env_fields env i) = NumberInput"
  shows "fst (run_parsers env i bad t st) = field_value env i bad t \<and>
    c_error (ctl (snd (run_parsers env i bad t st)) i) ''number'' = Some (\<not> number_ok bad t)"
  using assms set_validity_error [of i "''number''"]
  by (auto simp: run_parsers_def number_parser_def native_validator_def Let_def field_value_def number_ok_def)

lemma parsers_value:
  assumes "native env"
  shows "fst (run_parsers env i bad t st) = field_value env i bad t"
  using number_parsers [OF assms] by (cases "fd_kind (env_fields env i)") (auto simp: run_parsers_def field_value_def)

lemma set_view_value_facts:
  assumes "native env"
  shows "task_obj (set_view_value env i bad t st) =
      (if c_model (ctl st i) = Some (field_value env i bad t) then task_obj st
       else obj_put (field_key env i) (field_value env i bad t) (task_obj st))"
    and "c_model (ctl (set_view_value env i bad t st) i) = Some (field_value env i bad t)"
    and "c_view (ctl (set_view_value env i bad t st) i) = Some (JStr t)"
    and "j \<noteq> i \<Longrightarrow> ctl (set_view_value env i bad t st) j = ctl st j"
    and "f_controls (frm (set_view_value env i bad t st)) = f_controls (frm st)"
    and "fd_kind (env_fields env i) = NumberInput \<Longrightarrow>
      c_error (ctl (set_view_value env i bad t st) i) ''number'' = Some (\<not> number_ok bad t)"
  using parsers_value [OF assms, of i bad t] number_parsers [OF assms]
  by (auto simp: set_view_value_def Let_def split_beta strict_ne_def field_key_def)

text \<open>With distinct keys the digest that follows an input finds nothing to do.\<close>

lemma on_input_sets:
  assumes "settled env st" "inj_on (field_key env) (set (f_controls (frm st)))" "i \<in> set (f_controls (frm st))"
    and "native env" "fd_kind (env_fields env i) \<noteq> HiddenInput"
    and "c_view (ctl st i) \<noteq> Some (JStr (js_trim s)) \<or> js_trim s = [] \<and> fd_kind (env_fields env i) = NumberInput"
  shows "on_input env i s bad st = set_view_value env i bad (js_trim s) (st\<lparr>shown := (shown st)(i := s)\<rparr>)"
proof -
  let ?st = "set_view_value env i bad (js_trim s) (st\<lparr>shown := (shown st)(i := s)\<rparr>)"
  note facts = set_view_value_facts [OF assms(4), where i = i and bad = bad and t = "js_trim s" and st = "st\<lparr>shown := (shown st)(i := s)\<rparr>"]
  have "settled env ?st"
    unfolding settled_def
  proof
    fix j
    assume j: "j \<in> set (f_controls (frm ?st))"
    show "c_model (ctl ?st j) = Some (task_value env j ?st)"
    proof (cases "j = i")
      case True
      show ?thesis
      proof (cases "c_model (ctl st i) = Some (field_value env i bad (js_trim s))")
        case True
        with assms(1,3) facts(1,2) \<open>j = i\<close> show ?thesis by (simp add: settled_def task_value_def)
      next
        case False
        with facts(1,2) \<open>j = i\<close> show ?thesis by (simp add: task_value_def js_prop_put field_key_def)
      qed
    next
      case False
      with assms(2,3) j facts(5) have "field_key env j \<noteq> field_key env i" by (auto dest: inj_onD)
      with assms(1) j facts(1,4,5) False show ?thesis
        by (auto simp: settled_def task_value_def js_prop_put field_key_def)
    qed
  qed
  from form_digest_idle [OF this] assms(4-6) show ?thesis
    by (auto simp: on_input_def Let_def strict_ne_def)
qed

lemma typed_task:
  assumes "settled env st" "inj_on (field_key env) (set (f_controls (frm st)))" "i \<in> set (f_controls (frm st))"
    and "native env" "fd_kind (env_fields env i) \<noteq> HiddenInput"
    and "c_view (ctl st i) \<noteq> Some (JStr (js_trim s)) \<or> js_trim s = [] \<and> fd_kind (env_fields env i) = NumberInput"
    and "obj_get (task_obj st) (field_key env i) \<noteq> None"
  shows "task_obj (on_input env i s bad st) = obj_put (field_key env i) (field_value env i bad (js_trim s)) (task_obj st)"
    and "j \<noteq> i \<Longrightarrow> ctl (on_input env i s bad st) j = ctl st j"
    and "f_controls (frm (on_input env i s bad st)) = f_controls (frm st)"
    and "settled env (on_input env i s bad st)"
proof -
  note facts = set_view_value_facts [OF assms(4), where i = i and bad = bad and t = "js_trim s" and st = "st\<lparr>shown := (shown st)(i := s)\<rparr>"]
  note sets = on_input_sets [OF assms(1-6)]
  have "obj_get (task_obj st) (field_key env i) = Some (field_value env i bad (js_trim s))"
    if "c_model (ctl st i) = Some (field_value env i bad (js_trim s))"
    using that assms(1,3,7) by (auto simp: settled_def task_value_def js_prop_def field_key_def)
  from obj_put_same [OF this] facts(1)
  show "task_obj (on_input env i s bad st) = obj_put (field_key env i) (field_value env i bad (js_trim s)) (task_obj st)"
    by (auto simp: sets)
  show "j \<noteq> i \<Longrightarrow> ctl (on_input env i s bad st) j = ctl st j"
    "f_controls (frm (on_input env i s bad st)) = f_controls (frm st)"
    using facts(4,5) by (simp_all add: sets)
  show "settled env (on_input env i s bad st)" by (rule settled_on_input [OF assms(1)])
qed

section \<open>A form that has been linked\<close>

text \<open>The text that a field shows for a value of its key.\<close>

definition view_of :: "form_env \<Rightarrow> nat \<Rightarrow> jsval \<Rightarrow> jsval" where
  "view_of env i v =
     (if fd_kind (env_fields env i) = NumberInput then (case v of JNum z \<Rightarrow> JStr (js_string (JNum z)) | _ \<Rightarrow> JStr []) else v)"

lemma formatters_value:
  "fst (run_formatters env i v st) = view_of env i v"
  "fd_kind (env_fields env i) = NumberInput \<Longrightarrow>
    c_error (ctl (snd (run_formatters env i v st)) i) ''number'' = Some (\<not> (is_empty (Some v) \<or> (\<exists>z. v = JNum z)))"
  "c_view (ctl (snd (run_formatters env i v st)) j) = c_view (ctl st j)"
  "shown (snd (run_formatters env i v st)) = shown st"
  using set_validity_error [of i "''number''"]
  by (auto simp: run_formatters_def number_formatters_def view_of_def is_empty_def Let_def split: input_kind.split jsval.split)

lemma model_watch_first:
  assumes "c_model (ctl st i) = None" "c_view (ctl st i) = None"
  shows "c_view (ctl (model_watch env i st) i) = Some (view_of env i (task_value env i st))"
    "fd_kind (env_fields env i) = NumberInput \<Longrightarrow> c_error (ctl (model_watch env i st) i) ''number'' =
      Some (\<not> (is_empty (Some (task_value env i st)) \<or> (\<exists>z. task_value env i st = JNum z)))"
    "fd_kind (env_fields env i) \<noteq> HiddenInput \<Longrightarrow> shown (model_watch env i st) i =
      (let v = view_of env i (task_value env i st) in if is_empty (Some v) then [] else js_string v)"
  using assms formatters_value [of env i "task_value env i st"]
  by (simp_all add: model_watch_def Let_def split_beta strict_ne_def)

lemma model_watch_shown: "j \<noteq> i \<Longrightarrow> shown (model_watch env i st) j = shown st j"
  using formatters_value(4) by (simp add: model_watch_def Let_def split_beta)

lemma digest_first:
  fixes env :: form_env and st :: dform
  assumes "i \<in> set xs" "distinct xs" "\<forall>j \<in> set xs. c_model (ctl st j) = None \<and> c_view (ctl st j) = None"
  defines "st' \<equiv> fold (model_watch env) xs st" and "v \<equiv> task_value env i st"
  shows "c_view (ctl st' i) = Some (view_of env i v) \<and>
    (fd_kind (env_fields env i) = NumberInput \<longrightarrow>
       c_error (ctl st' i) ''number'' = Some (\<not> (is_empty (Some v) \<or> (\<exists>z. v = JNum z)))) \<and>
    (fd_kind (env_fields env i) \<noteq> HiddenInput \<longrightarrow>
       shown st' i = (if is_empty (Some (view_of env i v)) then [] else js_string (view_of env i v)))"
  using assms(1-3) unfolding st'_def v_def
proof (induction xs arbitrary: st)
  case (Cons x xs)
  have v: "task_value env j (model_watch env x st) = task_value env j st" for j by (simp add: task_value_def)
  show ?case
  proof (cases "x = i")
    case True
    have "shown (fold (model_watch env) xs (model_watch env x st)) i = shown (model_watch env x st) i"
      using Cons.prems(2) True by (induction xs arbitrary: st rule: rev_induct) (auto simp: model_watch_shown)
    with True Cons.prems model_watch_first [of st i env] digest_list_keeps(3) [of i xs env "model_watch env i st"]
    show ?thesis by (simp add: Let_def)
  next
    case False
    have "\<forall>j \<in> set xs. c_model (ctl (model_watch env x st) j) = None \<and> c_view (ctl (model_watch env x st) j) = None"
    proof
      fix j assume "j \<in> set xs"
      with Cons.prems(2) have "ctl (model_watch env x st) j = ctl st j" by (intro model_watch_keeps(3)) auto
      with Cons.prems(3) \<open>j \<in> set xs\<close> show "c_model (ctl (model_watch env x st) j) = None \<and>
          c_view (ctl (model_watch env x st) j) = None" by simp
    qed
    from Cons.IH [OF _ _ this] Cons.prems False show ?thesis by (simp add: v)
  qed
qed simp

lemma adds_fields:
  "f_controls (frm (fold add_control xs st)) = f_controls (frm st) @ xs \<and> task_obj (fold add_control xs st) = task_obj st \<and>
   (\<forall>j \<in> set xs. ctl (fold add_control xs st) j = new_control)"
  by (induction xs rule: rev_induct) (auto simp: add_control_def)

lemma link_form_shows:
  fixes env :: form_env and ob :: jsobj
  assumes "i < n"
  defines "st \<equiv> link_form env n ob" and "v \<equiv> js_prop (JObj ob) (field_key env i)"
  shows "c_view (ctl st i) = Some (view_of env i v)" "f_controls (frm st) = [0..<n]" "task_obj st = ob" "settled env st"
    "fd_kind (env_fields env i) = NumberInput \<Longrightarrow>
       c_error (ctl st i) ''number'' = Some (\<not> (is_empty (Some v) \<or> (\<exists>z. v = JNum z)))"
    "fd_kind (env_fields env i) \<noteq> HiddenInput \<Longrightarrow>
       shown st i = (if is_empty (Some (view_of env i v)) then [] else js_string (view_of env i v))"
proof -
  let ?s = "\<lparr>ctl = (\<lambda>_. new_control), frm = new_form, task_obj = ob, shown = (\<lambda>_. [])\<rparr>"
  let ?st = "fold add_control [0..<n] ?s"
  have st: "f_controls (frm ?st) = [0..<n]" "task_obj ?st = ob" "\<forall>j \<in> set [0..<n]. ctl ?st j = new_control"
    using adds_fields [of "[0..<n]" ?s] by (simp_all add: new_form_def)
  have v: "task_value env i ?st = v" using st(2) by (simp add: v_def task_value_def field_key_def)
  have "\<forall>j \<in> set [0..<n]. c_model (ctl ?st j) = None \<and> c_view (ctl ?st j) = None"
    using st(3) by (simp add: new_control_def)
  from digest_first [OF _ _ this, of i env, unfolded v] assms(1) st(1)
  show "c_view (ctl st i) = Some (view_of env i v)"
    "fd_kind (env_fields env i) = NumberInput \<Longrightarrow>
       c_error (ctl st i) ''number'' = Some (\<not> (is_empty (Some v) \<or> (\<exists>z. v = JNum z)))"
    "fd_kind (env_fields env i) \<noteq> HiddenInput \<Longrightarrow>
       shown st i = (if is_empty (Some (view_of env i v)) then [] else js_string (view_of env i v))"
    by (simp_all add: st_def link_form_def form_digest_def)
  show "f_controls (frm st) = [0..<n]" "task_obj st = ob" "settled env st"
    using st(1,2) digest_list_keeps(1,2) by (simp_all add: st_def link_form_def form_digest_settled) (simp_all add: form_digest_def)
qed

section \<open>The fields of the range dialog\<close>

definition range_env :: "(string \<Rightarrow> jsval) \<Rightarrow> form_env" where
  "range_env fr = \<lparr>env_fields = (\<lambda>i. if i = 0 then \<lparr>fd_kind = NumberInput, fd_key = ''from''\<rparr>
       else if i = 1 then \<lparr>fd_kind = NumberInput, fd_key = ''to''\<rparr> else \<lparr>fd_kind = TextInput, fd_key = ''msg''\<rparr>),
     native = True, frac = fr\<rparr>"

definition demo_task :: jsobj where
  "demo_task = [(''from'', JStr ''-1''), (''to'', JStr ''-1''), (''msg'', JStr [])]"

lemma upt_3: "[0..<3] = [0, 1, 2::nat]"
  by (simp add: upt_rec)

lemma digits_text:
  assumes "list_all is_digit s" "s \<noteq> []"
  shows "js_trim s = s" "number_regexp s" "parse_float fr s = JNum (int (digits_value s))"
proof -
  have "printable c" if "is_digit c" for c using that by (auto simp: is_digit_def printable_def Let_def)
  then have "printable (hd s)" "printable (last s)"
    using assms hd_in_set [of s] last_in_set [of s] by (auto simp: list_all_iff)
  with assms(2) show t: "js_trim s = s" by (rule js_trim_printable)
  obtain c r where s: "s = c # r" "is_digit c" using assms by (cases s) auto
  then have "c \<noteq> CHR ''-''" "c \<noteq> CHR ''+''" by (auto simp: is_digit_def)
  with s have u: "unsigned_part s = s" by (simp add: unsigned_part_def)
  have "takeWhile is_digit s \<noteq> []" "dropWhile is_digit s = []" using assms(1) s by (auto simp: list_all_iff)
  with t u assms show "number_regexp s" by (simp add: number_regexp_def)
  show "parse_float fr s = JNum (int (digits_value s))"
    using t u assms s \<open>c \<noteq> CHR ''-''\<close> by (simp add: parse_float_def)
qed

lemma range_keys:
  "field_key (range_env fr) 0 = ''from''" "field_key (range_env fr) (Suc 0) = ''to''" "field_key (range_env fr) 2 = ''msg''"
  by (simp_all add: field_key_def range_env_def)

lemma range_kinds:
  "fd_kind (env_fields (range_env fr) 0) = NumberInput" "fd_kind (env_fields (range_env fr) (Suc 0)) = NumberInput"
  "fd_kind (env_fields (range_env fr) 2) = TextInput" "native (range_env fr)"
  by (simp_all add: range_env_def)

lemma range_inj: "inj_on (field_key (range_env fr)) {0, 1, 2}"
  by (simp add: range_keys)

lemma demo_values:
  "js_prop (JObj demo_task) ''from'' = JStr ''-1''" "js_prop (JObj demo_task) ''to'' = JStr ''-1''"
  "js_prop (JObj demo_task) ''msg'' = JStr []"
  by (simp_all add: demo_task_def js_prop_def obj_get_def)

definition range_ok :: "(string \<Rightarrow> jsval) \<Rightarrow> nat set \<Rightarrow> dform \<Rightarrow> bool" where
  "range_ok fr untouched st \<longleftrightarrow> settled (range_env fr) st \<and> set (f_controls (frm st)) = {0, 1, 2} \<and>
     (\<forall>i \<in> untouched. c_view (ctl st i) = Some (JStr [])) \<and>
     (\<forall>i \<in> {0, 1, 2}. obj_get (task_obj st) (field_key (range_env fr) i) \<noteq> None)"

lemma range_start: "range_ok fr {0, 1, 2} (link_form (range_env fr) 3 demo_task)"
  using link_form_shows [of 0 3 "range_env fr" demo_task] link_form_shows(1) [of 1 3 "range_env fr" demo_task]
    link_form_shows(1) [of 2 3 "range_env fr" demo_task]
  by (simp add: range_ok_def upt_3 range_keys range_kinds view_of_def demo_values) (simp add: demo_task_def obj_get_def)

lemma range_typed:
  assumes "range_ok fr V st" "i \<in> {0, 1, 2}" "i \<in> V \<and> js_trim s \<noteq> [] \<or> i < 2 \<and> js_trim s = []"
  defines "st' \<equiv> form_step (range_env fr) (Typed i s False) st"
  shows "task_obj st' = obj_put (field_key (range_env fr) i) (field_value (range_env fr) i False (js_trim s)) (task_obj st) \<and>
    range_ok fr (V - {i}) st'"
proof -
  let ?env = "range_env fr"
  have st: "settled ?env st" "set (f_controls (frm st)) = {0, 1, 2}" "obj_get (task_obj st) (field_key ?env i) \<noteq> None"
    using assms(1,2) by (auto simp: range_ok_def)
  have env: "inj_on (field_key ?env) (set (f_controls (frm st)))" "native ?env" "fd_kind (env_fields ?env i) \<noteq> HiddenInput"
    using assms(2) range_kinds [of fr] range_inj [of fr] by (auto simp: st(2))
  have view: "c_view (ctl st i) \<noteq> Some (JStr (js_trim s)) \<or> js_trim s = [] \<and> fd_kind (env_fields ?env i) = NumberInput"
    using assms(3)
  proof
    assume untouched: "i \<in> V \<and> js_trim s \<noteq> []"
    with assms(1) have "c_view (ctl st i) = Some (JStr [])" by (simp add: range_ok_def)
    with untouched show ?thesis by auto
  next
    assume "i < 2 \<and> js_trim s = []"
    with range_kinds [of fr] show ?thesis by (auto simp: less_2_cases_iff)
  qed
  note typed = typed_task [OF st(1) env(1) _ env(2,3) view st(3)]
  have st': "st' = on_input ?env i s False st" using st(2) assms(2) by (simp add: st'_def)
  have i: "i \<in> set (f_controls (frm st))" using st(2) assms(2) by simp
  have "\<forall>j \<in> V - {i}. c_view (ctl (on_input ?env i s False st) j) = Some (JStr [])"
    using typed(2) [OF i] assms(1) by (simp add: range_ok_def)
  moreover have "\<forall>j \<in> {0, 1, 2}. obj_get (task_obj (on_input ?env i s False st)) (field_key ?env j) \<noteq> None"
    using assms(1) unfolding typed(1) [OF i] by (simp add: range_ok_def)
  ultimately show ?thesis
    unfolding st' range_ok_def typed(3) [OF i] st(2) typed(1) [OF i, symmetric] by (intro conjI refl typed(4) [OF i])
qed

definition range_form :: "(string \<Rightarrow> jsval) \<Rightarrow> form_event list \<Rightarrow> dform" where
  "range_form fr es = run_form (range_env fr) es (link_form (range_env fr) 3 demo_task)"

lemma range_value:
  "list_all is_digit a \<Longrightarrow> a \<noteq> [] \<Longrightarrow> i < 2 \<Longrightarrow> field_value (range_env fr) i False a = JNum (int (digits_value a))"
  "i < 2 \<Longrightarrow> field_value (range_env fr) i False [] = JNull"
  "field_value (range_env fr) 2 False m = JStr m"
  using digits_text [of a] by (auto simp: field_value_def range_kinds number_ok_def less_2_cases_iff)

lemma range_shown: "shown (range_form fr []) 0 = [] \<and> c_error (ctl (range_form fr []) 0) ''number'' = Some True"
  using link_form_shows [of 0 3 "range_env fr" demo_task]
  by (simp add: range_form_def run_form_def range_keys range_kinds view_of_def demo_values is_empty_def)

definition range_state :: "(string \<Rightarrow> jsval) \<Rightarrow> form_event list \<Rightarrow> nat set \<Rightarrow> jsobj \<Rightarrow> bool" where
  "range_state fr es untouched ob \<longleftrightarrow>
     range_ok fr untouched (range_form fr es) \<and> task_obj (range_form fr es) = ob"

lemma range_state_start: "range_state fr [] {0, 1, 2} demo_task"
  using range_start link_form_shows(3) [of 0 3] by (simp add: range_state_def range_form_def run_form_def)

lemma range_state_step:
  assumes "range_state fr es V ob" "i \<in> {0, 1, 2}" "i \<in> V \<and> js_trim s \<noteq> [] \<or> i < 2 \<and> js_trim s = []"
  shows "range_state fr (es @ [Typed i s False]) (V - {i})
     (obj_put (field_key (range_env fr) i) (field_value (range_env fr) i False (js_trim s)) ob)"
proof -
  have "range_form fr (es @ [Typed i s False]) = form_step (range_env fr) (Typed i s False) (range_form fr es)"
    by (simp only: range_form_def run_form_def fold_append fold_simps o_apply)
  with range_typed [OF _ assms(2,3), of fr "range_form fr es"] assms(1) show ?thesis
    unfolding range_state_def by simp
qed

lemma range_number:
  assumes "range_state fr es V ob" "i \<in> V" "i < 2" "list_all is_digit a" "a \<noteq> []"
  shows "range_state fr (es @ [Typed i a False]) (V - {i})
     (obj_put (field_key (range_env fr) i) (JNum (int (digits_value a))) ob)"
  using range_state_step [OF assms(1), of i a] digits_text(1) [OF assms(4,5)] range_value(1) [OF assms(4,5,3)] assms
  by (auto simp: less_2_cases_iff simp del: digits_value.simps)

lemma range_clear:
  assumes "range_state fr es V ob" "i < 2"
  shows "range_state fr (es @ [Typed i [] False]) (V - {i}) (obj_put (field_key (range_env fr) i) JNull ob)"
  using range_state_step [OF assms(1), of i "[]"] range_value(2) assms by (auto simp: js_trim_def trim_empty less_2_cases_iff)

lemma range_message:
  assumes "range_state fr es V ob" "2 \<in> V" "m \<noteq> []" "printable (hd m)" "printable (last m)"
  shows "range_state fr (es @ [Typed 2 m False]) (V - {2}) (obj_put ''msg'' (JStr m) ob)"
  using range_state_step [OF assms(1), of 2 m] range_value(3) js_trim_printable [OF assms(3-5)] assms
  by (auto simp: range_keys)

text \<open>The object of the dialog: both bounds typed, only the second one, and the first one cleared.\<close>

lemma range_typed_task:
  assumes "list_all is_digit a" "a \<noteq> []" "list_all is_digit b" "b \<noteq> []" "m \<noteq> []" "printable (hd m)" "printable (last m)"
  shows "task_obj (range_form fr [Typed 0 a False, Typed 1 b False, Typed 2 m False]) =
      [(''from'', JNum (int (digits_value a))), (''to'', JNum (int (digits_value b))), (''msg'', JStr m)]"
    and "task_obj (range_form fr [Typed 1 b False, Typed 2 m False]) =
      [(''from'', JStr ''-1''), (''to'', JNum (int (digits_value b))), (''msg'', JStr m)]"
    and "task_obj (range_form fr [Typed 0 [] False, Typed 1 b False, Typed 2 m False]) =
      [(''from'', JNull), (''to'', JNum (int (digits_value b))), (''msg'', JStr m)]"
proof -
  note start = range_state_start [of fr]
  have rest: "range_state fr (es @ [Typed 1 b False] @ [Typed 2 m False]) (V - {1} - {2})
      (obj_put ''msg'' (JStr m) (obj_put ''to'' (JNum (int (digits_value b))) ob))"
    if "range_state fr es V ob" "1 \<in> V" "2 \<in> V" for es V ob
    using range_message [OF range_number [OF that(1,2) _ assms(3,4)] _ assms(5-7)] that(3)
    by (simp add: range_keys del: digits_value.simps)
  show "task_obj (range_form fr [Typed 0 a False, Typed 1 b False, Typed 2 m False]) =
      [(''from'', JNum (int (digits_value a))), (''to'', JNum (int (digits_value b))), (''msg'', JStr m)]"
    using rest [OF range_number [OF start _ _ assms(1,2), of 0]]
    by (simp add: range_state_def range_keys demo_task_def del: digits_value.simps)
  show "task_obj (range_form fr [Typed 1 b False, Typed 2 m False]) =
      [(''from'', JStr ''-1''), (''to'', JNum (int (digits_value b))), (''msg'', JStr m)]"
    using rest [OF start] by (simp add: range_state_def range_keys demo_task_def del: digits_value.simps)
  show "task_obj (range_form fr [Typed 0 [] False, Typed 1 b False, Typed 2 m False]) =
      [(''from'', JNull), (''to'', JNum (int (digits_value b))), (''msg'', JStr m)]"
    using rest [OF range_clear [OF start, of 0]]
    by (simp add: range_state_def range_keys demo_task_def del: digits_value.simps)
qed

section \<open>Properties\<close>

text \<open>C22: A form reports its fields: after every sequence of inputs, digests and removals of fields
  it is valid exactly when all its fields are, shows the class of its state, and its list for
  an error holds each field with that error once; a field is valid when it has no error.\<close>

theorem form_reports_fields:
  "let st = run_form env es (link_form env n ob); f = frm st; cs = set (f_controls f) in
     cs \<subseteq> {..<n} \<and> (f_valid f \<longleftrightarrow> (\<forall>i \<in> cs. c_valid (ctl st i))) \<and> f_invalid f = (\<not> f_valid f) \<and>
     (''ng-invalid'' \<in> f_css f \<longleftrightarrow> \<not> f_valid f) \<and>
     (\<forall>i \<in> cs. c_valid (ctl st i) \<longleftrightarrow> (\<forall>k. c_error (ctl st i) k \<noteq> Some True)) \<and>
     (\<forall>k. case f_errors f k of
        None \<Rightarrow> \<forall>i \<in> cs. c_error (ctl st i) k \<noteq> Some True
      | Some q \<Rightarrow> q \<noteq> [] \<and> distinct q \<and> set q = {i \<in> cs. c_error (ctl st i) k = Some True})"
proof -
  define st where "st = run_form env es (link_form env n ob)"
  let ?cs = "set (f_controls (frm st))"
  have inv: "form_ok st" "?cs \<subseteq> {..<n}"
    using inv_run [of env n es ob] by (auto simp: form_inv_def good_form_def st_def)
  then have q: "queues_ok (\<lambda>i. errs (ctl st i)) (frm st)" and c: "\<forall>i \<in> ?cs. control_ok (ctl st i)"
    by (simp_all add: form_ok_def)
  have lists: "\<forall>k. case f_errors (frm st) k of
      None \<Rightarrow> \<forall>i \<in> ?cs. c_error (ctl st i) k \<noteq> Some True
    | Some q \<Rightarrow> q \<noteq> [] \<and> distinct q \<and> set q = {i \<in> ?cs. c_error (ctl st i) k = Some True}"
    using q unfolding queues_ok_def errs_def mem_Collect_eq by blast
  have fields: "\<forall>i \<in> ?cs. c_valid (ctl st i) \<longleftrightarrow> (\<forall>k. c_error (ctl st i) k \<noteq> Some True)"
    using c by (auto simp: control_ok_def errs_def)
  have flags: "f_valid (frm st) \<longleftrightarrow> dom (f_errors (frm st)) = {}" "f_invalid (frm st) = (\<not> f_valid (frm st))"
      "''ng-invalid'' \<in> f_css (frm st) \<longleftrightarrow> \<not> f_valid (frm st)"
    using q unfolding queues_ok_def css_ok_def by blast+
  have "dom (f_errors (frm st)) = {} \<longleftrightarrow> (\<forall>i \<in> ?cs. c_valid (ctl st i))"
  proof
    assume "dom (f_errors (frm st)) = {}"
    then show "\<forall>i \<in> ?cs. c_valid (ctl st i)" using lists fields by simp
  next
    assume valid: "\<forall>i \<in> ?cs. c_valid (ctl st i)"
    have "f_errors (frm st) k = None" for k
    proof (rule ccontr)
      assume "f_errors (frm st) k \<noteq> None"
      then obtain x q where "f_errors (frm st) k = Some (x # q)"
        using lists [THEN spec, of k] by (auto simp: neq_Nil_conv)
      with lists [THEN spec, of k] have "x \<in> ?cs" "c_error (ctl st x) k = Some True" by auto
      with valid fields show False by blast
    qed
    then show "dom (f_errors (frm st)) = {}" by auto
  qed
  with inv(2) lists fields flags show ?thesis unfolding Let_def st_def [symmetric] by blast
qed

theorem form_reports_fields_witness:
  "\<not> f_valid (frm (link_form (range_env (\<lambda>_. JUndef)) 3 demo_task))"
proof -
  let ?env = "range_env (\<lambda>_. JUndef)"
  let ?st = "link_form ?env 3 demo_task"
  have "c_error (ctl ?st 0) ''number'' = Some True" "set (f_controls (frm ?st)) = {0, 1, 2}"
    using link_form_shows [of 0 3 ?env demo_task]
    by (simp_all add: range_env_def demo_task_def js_prop_def obj_get_def upt_3 is_empty_def field_key_def)
  then show ?thesis
    using form_reports_fields [of ?env "[]" 3 demo_task] by (auto simp: run_form_def Let_def)
qed




end
