(* ===== verification/Js_Json.thy ===== *)
theory Js_Json
  imports Js Text
begin

text \<open>
  JSON texts: what \<open>JSON.stringify\<close> and Go's \<open>json.Marshal\<close> write and what \<open>JSON.parse\<close> reads. Numbers
  are integers; a text with a fraction or an exponent is not read. Strings are valid UTF-8, and
  Go's escapes of two separators of lines, which are read back as they were, are left out. Values survive the way
  from the one side to the other.
\<close>

section \<open>Writing\<close>

text \<open>Go escapes the characters that matter in HTML too, and has fewer short escapes.\<close>

datatype json_style = JsonJs | JsonGo

definition hex_lower :: "nat \<Rightarrow> char" where
  "hex_lower n = char_of (if n < 10 then 48 + n else 87 + n)"

definition u_escape :: "char \<Rightarrow> string" where
  "u_escape c = [CHR 0x5C, CHR ''u'', CHR ''0'', CHR ''0'', hex_lower (of_char c div 16), hex_lower (of_char c mod 16)]"

definition short_escapes :: "json_style \<Rightarrow> (char \<times> char) list" where
  "short_escapes st = [(CHR 0x22, CHR 0x22), (CHR 0x5C, CHR 0x5C), (CHR 0x0A, CHR ''n''), (CHR 0x0D, CHR ''r''), (CHR 0x09, CHR ''t'')] @
     (case st of JsonJs \<Rightarrow> [(CHR 0x08, CHR ''b''), (CHR 0x0C, CHR ''f'')] | JsonGo \<Rightarrow> [])"

definition json_char :: "json_style \<Rightarrow> char \<Rightarrow> string" where
  "json_char st c =
     (case map_of (short_escapes st) c of
        Some e \<Rightarrow> [CHR 0x5C, e]
      | None \<Rightarrow>
          if (of_char c :: nat) < 32 \<or> (st = JsonGo \<and> c \<in> {CHR ''<'', CHR ''>'', CHR ''&''})
          then u_escape c else [c])"

definition json_string :: "json_style \<Rightarrow> string \<Rightarrow> string" where
  "json_string st s = CHR 0x22 # concat (map (json_char st) s) @ [CHR 0x22]"

fun commas :: "string list \<Rightarrow> string" where
  "commas [] = []"
| "commas [t] = t"
| "commas (t # u # ts) = t @ CHR '','' # commas (u # ts)"

text \<open>Undefined and functions have no text: they are null in an array and left out of an object.
  \<open>keep\<close> is the replacer: it tells which keys are written.\<close>

fun json_text :: "json_style \<Rightarrow> (string \<Rightarrow> bool) \<Rightarrow> jsval \<Rightarrow> string option" where
  "json_text st keep JUndef = None"
| "json_text st keep JNull = Some ''null''"
| "json_text st keep (JBool b) = Some (if b then ''true'' else ''false'')"
| "json_text st keep (JNum n) = Some (itoa n)"
| "json_text st keep (JStr s) = Some (json_string st s)"
| "json_text st keep (JArr xs) = Some (CHR ''['' #
     commas (map (\<lambda>x. case json_text st keep x of None \<Rightarrow> ''null'' | Some t \<Rightarrow> t) xs) @ '']'')"
| "json_text st keep (JObj ob) = Some (CHR ''{'' #
     commas (concat (map (\<lambda>(k, v).
       if \<not> keep k then [] else case json_text st keep v of None \<Rightarrow> [] | Some t \<Rightarrow> [json_string st k @ CHR '':'' # t]) ob)) @
     ''}'')"
| "json_text st keep (JFun n s) = None"

section \<open>Reading\<close>

definition json_space :: "char \<Rightarrow> bool" where
  "json_space c = (c = CHR '' '' \<or> c = CHR 0x09 \<or> c = CHR 0x0A \<or> c = CHR 0x0D)"

definition skip :: "string \<Rightarrow> string" where
  "skip s = dropWhile json_space s"

definition hex_digit :: "char \<Rightarrow> nat option" where
  "hex_digit c = (let n = of_char c :: nat in
     if 48 \<le> n \<and> n \<le> 57 then Some (n - 48)
     else if 97 \<le> n \<and> n \<le> 102 then Some (n - 87)
     else if 65 \<le> n \<and> n \<le> 70 then Some (n - 55) else None)"

fun hex4 :: "string \<Rightarrow> (nat \<times> string) option" where
  "hex4 (a # b # c # d # s) =
     (case (hex_digit a, hex_digit b, hex_digit c, hex_digit d) of
        (Some i, Some j, Some k, Some l) \<Rightarrow> Some (((i * 16 + j) * 16 + k) * 16 + l, s)
      | _ \<Rightarrow> None)"
| "hex4 s = None"

definition utf8 :: "nat \<Rightarrow> string" where
  "utf8 n =
     (if n < 0x80 then [char_of n]
      else if n < 0x800 then [char_of (0xC0 + n div 64), char_of (0x80 + n mod 64)]
      else if n < 0x10000 then [char_of (0xE0 + n div 4096), char_of (0x80 + n div 64 mod 64), char_of (0x80 + n mod 64)]
      else [char_of (0xF0 + n div 262144), char_of (0x80 + n div 4096 mod 64), char_of (0x80 + n div 64 mod 64),
            char_of (0x80 + n mod 64)])"

definition unescape_of :: "(char \<times> char) list" where
  "unescape_of = [(CHR 0x22, CHR 0x22), (CHR 0x5C, CHR 0x5C), (CHR ''/'', CHR ''/''), (CHR ''b'', CHR 0x08),
     (CHR ''f'', CHR 0x0C), (CHR ''n'', CHR 0x0A), (CHR ''r'', CHR 0x0D), (CHR ''t'', CHR 0x09)]"

text \<open>The characters after a backslash; two escaped surrogates are one character.\<close>

definition read_escape :: "string \<Rightarrow> (string \<times> string) option" where
  "read_escape s =
     (case s of
        [] \<Rightarrow> None
      | e # s1 \<Rightarrow>
          (case map_of unescape_of e of
             Some c \<Rightarrow> Some ([c], s1)
           | None \<Rightarrow>
               if e \<noteq> CHR ''u'' then None
               else case hex4 s1 of
                 None \<Rightarrow> None
               | Some (hi, s2) \<Rightarrow>
                   if 0xD800 \<le> hi \<and> hi < 0xDC00 \<and> take 2 s2 = [CHR 0x5C, CHR ''u''] then
                     (case hex4 (drop 2 s2) of
                        Some (lo, s3) \<Rightarrow>
                          if 0xDC00 \<le> lo \<and> lo < 0xE000
                          then Some (utf8 (0x10000 + (hi - 0xD800) * 1024 + (lo - 0xDC00)), s3)
                          else Some (utf8 hi, s2)
                      | None \<Rightarrow> Some (utf8 hi, s2))
                   else Some (utf8 hi, s2)))"

fun read_chars :: "nat \<Rightarrow> string \<Rightarrow> (string \<times> string) option" where
  "read_chars 0 s = None"
| "read_chars (Suc n) [] = None"
| "read_chars (Suc n) (c # s) =
     (if c = CHR 0x22 then Some ([], s)
      else if c = CHR 0x5C then
        (case read_escape s of
           None \<Rightarrow> None
         | Some (cs, s1) \<Rightarrow> map_option (\<lambda>(t, r). (cs @ t, r)) (read_chars n s1))
      else if (of_char c :: nat) < 32 then None
      else map_option (\<lambda>(t, r). (c # t, r)) (read_chars n s))"

definition read_nat :: "string \<Rightarrow> (nat \<times> string) option" where
  "read_nat s =
     (let d = takeWhile is_digit s; r = dropWhile is_digit s in
      if d = [] \<or> (hd d = CHR ''0'' \<and> tl d \<noteq> []) \<or> (r \<noteq> [] \<and> hd r \<in> {CHR ''.'', CHR ''e'', CHR ''E''}) then None
      else Some (digits_value d, r))"

text \<open>Values, the elements of an array and the members of an object; the fuel is twice the
  length of the text, since a value and the list it is in take one unit each.\<close>

fun read_value :: "nat \<Rightarrow> string \<Rightarrow> (jsval \<times> string) option"
  and read_elems :: "nat \<Rightarrow> string \<Rightarrow> (jsval list \<times> string) option"
  and read_members :: "nat \<Rightarrow> jsobj \<Rightarrow> string \<Rightarrow> (jsobj \<times> string) option" where
  "read_value 0 s = None"
| "read_value (Suc n) s =
     (let t = skip s in
      if starts_with ''null'' t then Some (JNull, drop 4 t)
      else if starts_with ''true'' t then Some (JBool True, drop 4 t)
      else if starts_with ''false'' t then Some (JBool False, drop 5 t)
      else case t of
        [] \<Rightarrow> None
      | c # r \<Rightarrow>
          if c = CHR 0x22 then map_option (\<lambda>(u, r'). (JStr u, r')) (read_chars (length t) r)
          else if c = CHR ''['' then
            (if skip r \<noteq> [] \<and> hd (skip r) = CHR '']'' then Some (JArr [], tl (skip r))
             else map_option (\<lambda>(xs, r'). (JArr xs, r')) (read_elems n r))
          else if c = CHR ''{'' then
            (if skip r \<noteq> [] \<and> hd (skip r) = CHR ''}'' then Some (JObj [], tl (skip r))
             else map_option (\<lambda>(ob, r'). (JObj ob, r')) (read_members n [] r))
          else if c = CHR ''-'' then map_option (\<lambda>(m, r'). (JNum (- int m), r')) (read_nat r)
          else map_option (\<lambda>(m, r'). (JNum (int m), r')) (read_nat t))"
| "read_elems 0 s = None"
| "read_elems (Suc n) s =
     (case read_value n s of
        None \<Rightarrow> None
      | Some (v, r) \<Rightarrow>
          (case skip r of
             [] \<Rightarrow> None
           | c # r1 \<Rightarrow>
               if c = CHR '']'' then Some ([v], r1)
               else if c = CHR '','' then map_option (\<lambda>(vs, r2). (v # vs, r2)) (read_elems n r1)
               else None))"
| "read_members 0 ob s = None"
| "read_members (Suc n) ob s =
     (case skip s of
        [] \<Rightarrow> None
      | q # s1 \<Rightarrow>
          if q \<noteq> CHR 0x22 then None
          else (case read_chars (length s) s1 of
            None \<Rightarrow> None
          | Some (k, s2) \<Rightarrow>
              (case skip s2 of
                 [] \<Rightarrow> None
               | c # s3 \<Rightarrow>
                   if c \<noteq> CHR '':'' then None
                   else (case read_value n s3 of
                     None \<Rightarrow> None
                   | Some (v, r) \<Rightarrow>
                       (case skip r of
                          [] \<Rightarrow> None
                        | d # r1 \<Rightarrow>
                            if d = CHR ''}'' then Some (obj_put k v ob, r1)
                            else if d = CHR '','' then read_members n (obj_put k v ob) r1
                            else None)))))"

definition json_parse :: "string \<Rightarrow> jsval option" where
  "json_parse s =
     (case read_value (2 * length s + 2) s of
        Some (v, r) \<Rightarrow> if skip r = [] then Some v else None
      | None \<Rightarrow> None)"

section \<open>The round trip\<close>

text \<open>Values that have a JSON text which tells all of them.\<close>

fun json_value :: "(string \<Rightarrow> bool) \<Rightarrow> jsval \<Rightarrow> bool" where
  "json_value keep JUndef = False"
| "json_value keep (JFun n s) = False"
| "json_value keep (JArr xs) = list_all (json_value keep) xs"
| "json_value keep (JObj ob) = (distinct (map fst ob) \<and> list_all (\<lambda>(k, v). keep k \<and> json_value keep v) ob)"
| "json_value keep v = True"

lemma hex_lower_digit: "n < 16 \<Longrightarrow> hex_digit (hex_lower n) = Some n"
  by (auto simp: hex_digit_def hex_lower_def Let_def)

lemma read_u_escape:
  assumes "(of_char c :: nat) < 0x80"
  shows "read_escape (tl (u_escape c) @ r) = Some ([c], r)"
proof -
  have "hex_digit CHR ''0'' = Some 0" by (simp add: hex_digit_def Let_def)
  then have "hex4 (CHR ''0'' # CHR ''0'' # hex_lower (of_char c div 16) # hex_lower (of_char c mod 16) # r) =
      Some (of_char c, r)"
    using assms hex_lower_digit [of "of_char c div 16"] hex_lower_digit [of "of_char c mod 16"]
    by (simp add: mult.commute)
  then show ?thesis using assms by (simp add: u_escape_def read_escape_def unescape_of_def utf8_def)
qed

lemma json_char_cases:
  obtains (short) e where "json_char st c = [CHR 0x5C, e]" "map_of unescape_of e = Some c"
  | (unicode) "json_char st c = u_escape c" "(of_char c :: nat) < 0x80"
  | (plain) "json_char st c = [c]" "c \<noteq> CHR 0x22" "c \<noteq> CHR 0x5C" "\<not> (of_char c :: nat) < 32"
proof (cases "map_of (short_escapes st) c")
  case (Some e)
  then have "map_of unescape_of e = Some c"
    by (auto simp: short_escapes_def unescape_of_def split: json_style.splits if_splits)
  with Some show ?thesis by (intro that(1)) (simp_all add: json_char_def)
next
  case None
  then have "c \<noteq> CHR 0x22" "c \<noteq> CHR 0x5C" by (auto simp: short_escapes_def)
  show ?thesis
  proof (cases "(of_char c :: nat) < 32 \<or> (st = JsonGo \<and> c \<in> {CHR ''<'', CHR ''>'', CHR ''&''})")
    case True
    then have "(of_char c :: nat) < 0x80" by auto
    with None True show ?thesis by (intro that(2)) (auto simp: json_char_def)
  next
    case False
    with None \<open>c \<noteq> CHR 0x22\<close> \<open>c \<noteq> CHR 0x5C\<close> show ?thesis by (intro that(3)) (auto simp: json_char_def)
  qed
qed

lemma read_json_chars:
  "length s < n \<Longrightarrow> read_chars n (concat (map (json_char st) s) @ CHR 0x22 # r) = Some (s, r)"
proof (induction s arbitrary: n)
  case Nil
  then show ?case by (cases n) simp_all
next
  case (Cons c s)
  then obtain m where n: "n = Suc m" "length s < m" by (cases n) auto
  note IH = Cons.IH [OF n(2)]
  show ?case
  proof (cases rule: json_char_cases [of st c])
    case (short e)
    with IH n show ?thesis by (simp add: read_escape_def)
  next
    case unicode
    define u where "u = tl (u_escape c)"
    then have "json_char st c = CHR 0x5C # u" using unicode(1) by (simp add: u_escape_def)
    with IH n(1) read_u_escape [OF unicode(2), folded u_def] show ?thesis by simp
  next
    case plain
    with IH n show ?thesis by simp
  qed
qed


lemma json_string_read:
  assumes "length (json_string st s) \<le> Suc n"
  shows "read_chars n (tl (json_string st s) @ r) = Some (s, r)"
proof -
  have "length s \<le> length (concat (map (json_char st) s))"
  proof (induction s)
    case (Cons c s)
    have "json_char st c \<noteq> []" by (cases rule: json_char_cases [of st c]) (auto simp: u_escape_def)
    then have "1 \<le> length (json_char st c)" by (cases "json_char st c") auto
    with Cons show ?case by simp
  qed simp
  with assms read_json_chars [of s n st r] show ?thesis by (simp add: json_string_def)
qed

definition stops_number :: "string \<Rightarrow> bool" where
  "stops_number r = (r = [] \<or> \<not> is_digit (hd r) \<and> hd r \<notin> {CHR ''.'', CHR ''e'', CHR ''E''})"

lemma nat_digits_head: "list_all is_digit (nat_digits n) \<and> nat_digits n \<noteq> [] \<and> (n \<noteq> 0 \<longrightarrow> hd (nat_digits n) \<noteq> CHR ''0'')"
proof (induction n rule: nat_digits.induct)
  case (1 n)
  have d: "is_digit (digit_char k)" "k \<noteq> 0 \<longrightarrow> digit_char k \<noteq> CHR ''0''" if "k < 10" for k
  proof -
    have v: "(of_char (digit_char k) :: nat) = 48 + k" using that by (simp add: digit_char_def)
    then show "is_digit (digit_char k)" using that by (simp add: is_digit_def)
    show "k \<noteq> 0 \<longrightarrow> digit_char k \<noteq> CHR ''0''"
    proof (intro impI notI)
      assume "k \<noteq> 0" "digit_char k = CHR ''0''"
      then have "(of_char (digit_char k) :: nat) = of_char CHR ''0''" by simp
      with v \<open>k \<noteq> 0\<close> show False by simp
    qed
  qed
  show ?case
  proof (cases "n < 10")
    case True
    with d [of n] show ?thesis by (subst (1 2 3) nat_digits.simps) simp
  next
    case False
    with 1 d [of "n mod 10"] show ?thesis by (subst (1 2 3) nat_digits.simps) (simp add: hd_append)
  qed
qed

lemma read_nat_digits:
  assumes "stops_number r"
  shows "read_nat (nat_digits n @ r) = Some (n, r)"
proof -
  have d: "list_all is_digit (nat_digits n)" "nat_digits n \<noteq> []" "n \<noteq> 0 \<Longrightarrow> hd (nat_digits n) \<noteq> CHR ''0''"
    using nat_digits_head by simp_all
  have r: "takeWhile is_digit r = []" "dropWhile is_digit r = r" "r = [] \<or> hd r \<notin> {CHR ''.'', CHR ''e'', CHR ''E''}"
    using assms by (cases r; auto simp: stops_number_def)+
  have "takeWhile is_digit (nat_digits n @ r) = nat_digits n" "dropWhile is_digit (nat_digits n @ r) = r"
    using d(1) r by (simp_all add: takeWhile_append dropWhile_append list_all_iff)
  moreover have "nat_digits 0 = ''0''" by code_simp
  ultimately show ?thesis
    using d r(3) digits_value_nat_digits [of n] by (cases "n = 0") (auto simp: read_nat_def Let_def simp del: digits_value.simps)
qed


text \<open>The first character of a text decides how it is read.\<close>

lemma json_text_head:
  assumes "json_text st keep v = Some t"
  shows "t \<noteq> [] \<and> \<not> json_space (hd t) \<and> hd t \<noteq> CHR '']'' \<and> hd t \<noteq> CHR ''}''"
proof -
  have digits: "nat_digits n \<noteq> [] \<and> \<not> json_space (hd (nat_digits n)) \<and> hd (nat_digits n) \<noteq> CHR '']'' \<and>
      hd (nat_digits n) \<noteq> CHR ''}''" for n
    using nat_digits_head [of n] by (cases "nat_digits n") (auto simp: is_digit_def json_space_def)
  show ?thesis
  proof (cases "\<exists>n. v = JNum n")
    case True
    then obtain n where n: "v = JNum n" "t = itoa n" using assms by auto
    with digits show ?thesis by (cases "n < 0") (simp_all add: itoa_def json_space_def)
  next
    case False
    with assms show ?thesis by (cases v) (auto simp: json_string_def json_space_def split: if_splits)
  qed
qed

lemma skip_head: "t \<noteq> [] \<Longrightarrow> \<not> json_space (hd t) \<Longrightarrow> skip (t @ r) = t @ r"
  by (cases t) (simp_all add: skip_def)

lemma skip_Cons: "\<not> json_space c \<Longrightarrow> skip (c # s) = c # s"
  by (simp add: skip_def)

lemma stops_number_simps: "stops_number []" "stops_number (CHR '','' # r)" "stops_number (CHR '']'' # r)" "stops_number (CHR ''}'' # r)"
  by (simp_all add: stops_number_def is_digit_def)

lemma punctuation: "\<not> json_space CHR '',''" "\<not> json_space CHR '']''" "\<not> json_space CHR ''}''" "\<not> json_space CHR '':''"
    "\<not> json_space CHR 0x22"
  by (simp_all add: json_space_def)

definition reads :: "jsval \<Rightarrow> string \<Rightarrow> bool" where
  "reads v t = (t \<noteq> [] \<and> (\<forall>n r. 2 * length t \<le> n \<longrightarrow> stops_number r \<longrightarrow> read_value n (t @ r) = Some (v, r)))"

lemma readsD: "reads v t \<Longrightarrow> 2 * length t \<le> n \<Longrightarrow> stops_number r \<Longrightarrow> read_value n (t @ r) = Some (v, r)"
  by (simp add: reads_def)

lemma read_elems_commas:
  assumes "list_all2 reads vs ts" "ts \<noteq> []" "2 * length (commas ts) < n"
  shows "read_elems n (commas ts @ CHR '']'' # r) = Some (vs, r)"
  using assms
proof (induction ts arbitrary: vs n rule: commas.induct)
  case (2 t)
  then obtain v where v: "vs = [v]" "reads v t" by (auto simp: list_all2_Cons2)
  obtain m where n: "n = Suc m" "2 * length t \<le> m" using 2 by (cases n) auto
  from readsD [OF v(2) n(2) stops_number_simps(3)] show ?case by (simp add: n(1) v(1) skip_Cons punctuation)
next
  case (3 t u ts)
  then obtain v vs' where v: "vs = v # vs'" "reads v t" "list_all2 reads vs' (u # ts)" by (auto simp: list_all2_Cons2)
  obtain m where n: "n = Suc m" "2 * length t \<le> m" "2 * length (commas (u # ts)) < m" using 3 by (cases n) auto
  from readsD [OF v(2) n(2) stops_number_simps(2)] "3.IH" [OF v(3) _ n(3)]
  show ?case by (simp add: n(1) v(1) skip_Cons punctuation)
qed simp

definition member_text :: "json_style \<Rightarrow> string \<Rightarrow> string \<Rightarrow> string" where
  "member_text st k t = json_string st k @ CHR '':'' # t"

lemma read_member:
  assumes "reads v u" "2 * length (member_text st k u) \<le> m" "c = CHR '','' \<or> c = CHR ''}''"
  shows "read_members (Suc m) ob (member_text st k u @ c # r) =
    (if c = CHR ''}'' then Some (obj_put k v ob, r) else read_members m (obj_put k v ob) r)"
proof -
  define q where "q = tl (json_string st k)"
  have s: "json_string st k = CHR 0x22 # q" by (simp add: json_string_def q_def)
  let ?s = "member_text st k u @ c # r"
  have chars: "read_chars (length ?s) (q @ CHR '':'' # u @ c # r) = Some (k, CHR '':'' # u @ c # r)"
    using json_string_read [of st k "length ?s" "CHR '':'' # u @ c # r", folded q_def] by (simp add: member_text_def)
  have "skip ?s = CHR 0x22 # q @ CHR '':'' # u @ c # r" by (simp add: member_text_def s skip_Cons punctuation)
  moreover have "read_value m (u @ c # r) = Some (v, c # r)"
    using readsD [OF assms(1) _ stops_number_simps(2)] readsD [OF assms(1) _ stops_number_simps(4)] assms(2,3)
    by (auto simp: member_text_def)
  moreover have "\<not> json_space c" using assms(3) punctuation by auto
  ultimately show ?thesis using assms(3) chars by (auto simp: skip_Cons punctuation)
qed

lemma obj_put_new: "k \<notin> fst ` set ob \<Longrightarrow> obj_put k v ob = ob @ [(k, v)]"
  by (induction ob) auto

lemma read_members_commas:
  assumes "list_all2 (\<lambda>(k, v) t. \<exists>u. t = member_text st k u \<and> reads v u) ms ts" "ts \<noteq> []"
    "2 * length (commas ts) < n" "distinct (map fst ms)" "fst ` set ms \<inter> fst ` set ob = {}"
  shows "read_members n ob (commas ts @ CHR ''}'' # r) = Some (ob @ ms, r)"
  using assms
proof (induction ts arbitrary: ms ob n rule: commas.induct)
  case (2 t)
  then obtain k v u where v: "ms = [(k, v)]" "t = member_text st k u" "reads v u" by (auto simp: list_all2_Cons2)
  obtain m where n: "n = Suc m" "2 * length t \<le> m" using 2 by (cases n) auto
  from read_member [OF v(3) n(2) [unfolded v(2)]] "2.prems"(5) show ?case
    by (simp add: n(1) v(1,2) obj_put_new)
next
  case (3 t t' ts)
  let ?P = "\<lambda>(k, v) t. \<exists>u. t = member_text st k u \<and> reads v u"
  from "3.prems"(1) obtain p ms' where p: "ms = p # ms'" "?P p t" "list_all2 ?P ms' (t' # ts)" by (cases ms) auto
  then obtain k v u where v: "ms = (k, v) # ms'" "t = member_text st k u" "reads v u" "list_all2 ?P ms' (t' # ts)"
    by (cases p) auto
  obtain m where n: "n = Suc m" "2 * length t \<le> m" "2 * length (commas (t' # ts)) < m" using 3 by (cases n) auto
  have new: "obj_put k v ob = ob @ [(k, v)]" using "3.prems"(5) v(1) by (intro obj_put_new) auto
  have "read_members m (ob @ [(k, v)]) (commas (t' # ts) @ CHR ''}'' # r) = Some ((ob @ [(k, v)]) @ ms', r)"
    using "3.prems"(4,5) v(1) by (intro "3.IH" [OF v(4) _ n(3)]) auto
  with read_member [OF v(3) n(2) [unfolded v(2)], of "CHR '',''"] new show ?case by (simp add: n(1) v(1,2))
qed simp

lemma json_value_text:
  assumes "json_value keep v"
  obtains t where "json_text st keep v = Some t"
  using assms by (cases v) auto

lemma starts_with_Cons: "starts_with (c # p) (d # s) = (d = c \<and> starts_with p s)"
  by (auto simp: starts_with_def)

lemma read_open:
  "read_value (Suc n) (CHR ''['' # r) =
    (if skip r \<noteq> [] \<and> hd (skip r) = CHR '']'' then Some (JArr [], tl (skip r))
     else map_option (\<lambda>(xs, r'). (JArr xs, r')) (read_elems n r))"
  "read_value (Suc n) (CHR ''{'' # r) =
    (if skip r \<noteq> [] \<and> hd (skip r) = CHR ''}'' then Some (JObj [], tl (skip r))
     else map_option (\<lambda>(ob, r'). (JObj ob, r')) (read_members n [] r))"
  "read_value (Suc n) (CHR 0x22 # r) = map_option (\<lambda>(u, r'). (JStr u, r')) (read_chars (Suc (length r)) r)"
  "read_value (Suc n) (CHR ''-'' # r) = map_option (\<lambda>(m, r'). (JNum (- int m), r')) (read_nat r)"
  by (simp_all add: skip_Cons json_space_def starts_with_Cons Let_def del: read_elems.simps read_members.simps)

lemma read_digit:
  assumes "is_digit c"
  shows "read_value (Suc n) (c # r) = map_option (\<lambda>(m, r'). (JNum (int m), r')) (read_nat (c # r))"
proof -
  have "\<not> json_space c" "c \<notin> {CHR ''n'', CHR ''t'', CHR ''f'', CHR 0x22, CHR ''['', CHR ''{'', CHR ''-''}"
    using assms by (auto simp: is_digit_def json_space_def)
  then show ?thesis by (simp add: skip_Cons starts_with_Cons Let_def)
qed

declare read_value.simps [simp del]

lemma commas_head: "ts \<noteq> [] \<Longrightarrow> hd ts \<noteq> [] \<Longrightarrow> commas ts \<noteq> [] \<and> hd (commas ts) = hd (hd ts)"
  by (cases ts rule: commas.cases) (auto simp: hd_append)

lemma not_closed:
  assumes "ts \<noteq> []" "hd ts \<noteq> []" "\<not> json_space (hd (hd ts))" "hd (hd ts) \<noteq> c"
  shows "\<not> (skip (commas ts @ r) \<noteq> [] \<and> hd (skip (commas ts @ r)) = c)"
  using commas_head [OF assms(1,2)] assms(3,4) skip_head [of "commas ts" r] by (simp add: hd_append)

lemma reads_number: "reads (JNum n) (itoa n)"
  unfolding reads_def
proof (intro conjI allI impI)
  have d: "nat_digits k \<noteq> []" "list_all is_digit (nat_digits k)" for k using nat_digits_head [of k] by simp_all
  then show "itoa n \<noteq> []" by (simp add: itoa_def)
  fix m r
  assume m: "2 * length (itoa n) \<le> m" and r: "stops_number r"
  obtain k where k: "m = Suc k" using m \<open>itoa n \<noteq> []\<close> by (cases m) auto
  show "read_value m (itoa n @ r) = Some (JNum n, r)"
  proof (cases "n < 0")
    case True
    then show ?thesis by (simp add: k itoa_def read_open read_nat_digits [OF r])
  next
    case False
    obtain c cs where c: "nat_digits (nat n) = c # cs" "is_digit c" using d [of "nat n"] by (cases "nat_digits (nat n)") auto
    then have "read_value m (itoa n @ r) = map_option (\<lambda>(m, r'). (JNum (int m), r')) (read_nat (nat_digits (nat n) @ r))"
      using read_digit [OF c(2)] False by (simp add: k itoa_def)
    then show ?thesis using False by (simp add: read_nat_digits [OF r])
  qed
qed

lemma reads_array:
  assumes "list_all2 reads xs ts" "\<forall>t \<in> set ts. \<not> json_space (hd t) \<and> hd t \<noteq> CHR '']''"
  shows "reads (JArr xs) (CHR ''['' # commas ts @ '']'')"
  unfolding reads_def
proof (intro conjI allI impI)
  fix n r
  assume n: "2 * length (CHR ''['' # commas ts @ '']'') \<le> n"
  obtain m where m: "n = Suc m" using n by (cases n) auto
  show "read_value n ((CHR ''['' # commas ts @ '']'') @ r) = Some (JArr xs, r)"
  proof (cases "ts = []")
    case True
    with assms(1) show ?thesis by (simp add: m read_open skip_Cons punctuation)
  next
    case False
    have "hd ts \<noteq> []" "\<not> json_space (hd (hd ts))" "hd (hd ts) \<noteq> CHR '']''"
      using assms False by (cases ts; auto simp: list_all2_Cons2 reads_def)+
    from not_closed [OF False this, of "CHR '']'' # r"] read_elems_commas [OF assms(1) False, of m r] n
    show ?thesis by (auto simp: m read_open)
  qed
qed simp

lemma reads_object:
  assumes "list_all2 (\<lambda>(k, v) t. \<exists>u. t = member_text st k u \<and> reads v u) ob ts" "distinct (map fst ob)"
  shows "reads (JObj ob) (CHR ''{'' # commas ts @ ''}'')"
  unfolding reads_def
proof (intro conjI allI impI)
  fix n r
  assume n: "2 * length (CHR ''{'' # commas ts @ ''}'') \<le> n"
  obtain m where m: "n = Suc m" using n by (cases n) auto
  show "read_value n ((CHR ''{'' # commas ts @ ''}'') @ r) = Some (JObj ob, r)"
  proof (cases "ts = []")
    case True
    with assms(1) show ?thesis by (simp add: m read_open skip_Cons punctuation)
  next
    case False
    have "hd ts \<noteq> []" "\<not> json_space (hd (hd ts))" "hd (hd ts) \<noteq> CHR ''}''"
      using assms(1) False by (cases ts; auto simp: list_all2_Cons2 member_text_def json_string_def json_space_def)+
    from not_closed [OF False this, of "CHR ''}'' # r"] read_members_commas [OF assms(1) False, of m "[]" r] assms(2) n
    show ?thesis by (auto simp: m read_open)
  qed
qed simp

lemma reads_simple: "reads JNull ''null''" "reads (JBool b) (if b then ''true'' else ''false'')" "reads (JStr s) (json_string st s)"
proof -
  have w: "skip (CHR ''n'' # s) = CHR ''n'' # s" "skip (CHR ''t'' # s) = CHR ''t'' # s" "skip (CHR ''f'' # s) = CHR ''f'' # s" for s
    by (simp_all add: skip_def json_space_def)
  have words: "read_value (Suc m) (''null'' @ r) = Some (JNull, r)" "read_value (Suc m) (''true'' @ r) = Some (JBool True, r)"
      "read_value (Suc m) (''false'' @ r) = Some (JBool False, r)" for m r
    by (simp_all add: read_value.simps w starts_with_def Let_def)
  have word: "reads v t" if "t \<noteq> []" "\<And>m r. read_value (Suc m) (t @ r) = Some (v, r)" for v t
    unfolding reads_def
  proof (intro conjI allI impI)
    fix n r assume "2 * length t \<le> n"
    with that(1) obtain m where "n = Suc m" by (cases n) auto
    with that(2) show "read_value n (t @ r) = Some (v, r)" by simp
  qed (rule that(1))
  show "reads JNull ''null''" "reads (JBool b) (if b then ''true'' else ''false'')"
    by (intro word; use words in simp)+
  show "reads (JStr s) (json_string st s)"
    unfolding reads_def
  proof (intro conjI allI impI)
    fix n r
    assume n: "2 * length (json_string st s) \<le> n"
    define q where "q = tl (json_string st s)"
    have q: "json_string st s = CHR 0x22 # q" by (simp add: json_string_def q_def)
    obtain m where m: "n = Suc m" using n q by (cases n) auto
    show "read_value n (json_string st s @ r) = Some (JStr s, r)"
      using json_string_read [of st s "Suc (length (q @ r))" r, folded q_def] by (simp add: m q read_open)
  qed (simp add: json_string_def)
qed

lemma reads_text: "json_value keep v \<Longrightarrow> json_text st keep v = Some t \<Longrightarrow> reads v t"
proof (induction v arbitrary: t)
  case (JArr xs)
  let ?ts = "map (\<lambda>x. case json_text st keep x of None \<Rightarrow> ''null'' | Some t \<Rightarrow> t) xs"
  have el: "\<exists>t. json_text st keep x = Some t \<and> reads x t \<and> \<not> json_space (hd t) \<and> hd t \<noteq> CHR '']''" if "x \<in> set xs" for x
  proof -
    have v: "json_value keep x" using JArr.prems(1) that by (simp add: list_all_iff)
    obtain u where "json_text st keep x = Some u" using json_value_text [OF v] .
    with JArr.IH [OF that v] json_text_head show ?thesis by blast
  qed
  have "\<forall>x \<in> set xs. reads x (case json_text st keep x of None \<Rightarrow> ''null'' | Some t \<Rightarrow> t) \<and>
      (let t = case json_text st keep x of None \<Rightarrow> ''null'' | Some t \<Rightarrow> t in \<not> json_space (hd t) \<and> hd t \<noteq> CHR '']'')"
    using el by (metis option.simps(5))
  then have "list_all2 reads xs ?ts" "\<forall>t \<in> set ?ts. \<not> json_space (hd t) \<and> hd t \<noteq> CHR '']''"
    by (simp_all add: list_all2_map2 list_all2_same Let_def)
  then have "reads (JArr xs) (CHR ''['' # commas ?ts @ '']'')" by (rule reads_array)
  with JArr.prems(2) show ?case by simp
next
  case (JObj ob)
  let ?f = "\<lambda>(k, v). if \<not> keep k then [] else case json_text st keep v of None \<Rightarrow> [] | Some t \<Rightarrow> [json_string st k @ CHR '':'' # t]"
  let ?g = "\<lambda>(k, v). member_text st k (the (json_text st keep v))"
  have el: "?f p = [?g p] \<and> reads (snd p) (the (json_text st keep (snd p)))" if p: "p \<in> set ob" for p
  proof -
    obtain k v where kv: "p = (k, v)" by (cases p)
    have v: "keep k" "json_value keep v" using JObj.prems(1) p kv by (auto simp: list_all_iff)
    obtain u where u: "json_text st keep v = Some u" using json_value_text [OF v(2)] .
    have "reads v u" by (rule JObj.IH [OF _ _ v(2) u]) (use p kv in \<open>auto intro: prod_set_simps\<close>)
    with v(1) u kv show ?thesis by (simp add: member_text_def)
  qed
  have "concat (map ?f ob) = concat (map (\<lambda>p. [?g p]) ob)" using el by (intro arg_cong [of _ _ concat] map_cong) auto
  then have ts: "concat (map ?f ob) = map ?g ob" by simp
  have "list_all2 (\<lambda>(k, v) t. \<exists>u. t = member_text st k u \<and> reads v u) ob (map ?g ob)"
    using el by (fastforce simp: list_all2_map2 list_all2_same)
  from reads_object [OF this] JObj.prems ts show ?case by auto
next
  case (JNum n)
  then show ?case using reads_number by auto
qed (use reads_simple in auto)


text \<open>Reading is the inverse of writing, in both styles.\<close>

lemma json_round_trip:
  assumes "json_value keep v" "json_text st keep v = Some t"
  shows "json_parse t = Some v"
proof -
  from readsD [OF reads_text [OF assms], of "2 * length t + 2" "[]"] have "read_value (2 * length t + 2) t = Some (v, [])"
    by (simp add: stops_number_simps)
  then show ?thesis by (simp add: json_parse_def skip_def)
qed

end
