(* ===== verification/Ng_Resource.thy ===== *)
theory Ng_Resource
  imports Js "HOL-Library.AList"
begin

text \<open>
  The \<open>$resource\<close> service (\<^verbatim>\<open>angular-resource.js\<close>): building a URL from a template and
  parameters, the request of an action and what becomes of its response. \<open>$http\<close> is
  outside this theory: a request is the configuration handed to it, a response is given.
  Callbacks of the caller are reported as effects, in the order they run.
\<close>

datatype ng_err =
    BadMember string | BadName | BadArgs nat
  | BadCfg string string string

section \<open>Dotted paths\<close>

definition ident_start :: "char \<Rightarrow> bool" where
  "ident_start c = (is_alpha c \<or> c \<in> {CHR ''_'', CHR ''$'', CHR ''@''})"

definition member_name :: "string \<Rightarrow> bool" where
  "member_name w = (case w of [] \<Rightarrow> False | c # cs \<Rightarrow> ident_start c \<and> list_all (\<lambda>d. is_digit d \<or> ident_start d) cs)"

definition isValidDottedPath :: "string \<Rightarrow> bool" where
  "isValidDottedPath path =
     (path \<noteq> [] \<and> path \<noteq> ''hasOwnProperty'' \<and> list_all member_name (js_split (\<lambda>c. c = CHR ''.'') path))"

fun lookup_keys :: "jsval \<Rightarrow> string list \<Rightarrow> jsval" where
  "lookup_keys v [] = v"
| "lookup_keys v (k # ks) =
     (if isDefined v then lookup_keys (if v \<noteq> JNull then js_prop v k else JUndef) ks else v)"

definition lookupDottedPath :: "jsval \<Rightarrow> string \<Rightarrow> ng_err + jsval" where
  "lookupDottedPath v path =
     (if \<not> isValidDottedPath path then Inl (BadMember path)
      else Inr (lookup_keys v (js_split (\<lambda>c. c = CHR ''.'') path)))"

section \<open>Copying data into an instance\<close>

definition internal_key :: "string \<Rightarrow> bool" where
  "internal_key k = starts_with ''$$'' k"

definition shallowClearAndCopy :: "jsobj \<Rightarrow> jsobj \<Rightarrow> jsobj" where
  "shallowClearAndCopy src dst =
     (let cleared = fold obj_del (map fst dst) dst
      in fold (\<lambda>(k, v) d. if internal_key k then d else obj_put k v d) src cleared)"

definition toJSON :: "jsobj \<Rightarrow> jsobj" where
  "toJSON this = obj_del ''$resolved'' (obj_del ''$promise'' (extend1 [] this))"

section \<open>Percent encoding\<close>

definition unreserved :: "char \<Rightarrow> bool" where
  "unreserved c = (is_alpha c \<or> is_digit c \<or>
     c \<in> {CHR ''-'', CHR ''_'', CHR ''.'', CHR ''!'', CHR ''~'', CHR ''*'', CHR 0x27, CHR ''('', CHR '')''})"

definition hex_upper :: "nat \<Rightarrow> char" where
  "hex_upper d = char_of (if d < 10 then 48 + d else 55 + d)"

definition pct :: "char \<Rightarrow> string" where
  "pct c = [CHR ''%'', hex_upper (of_char c div 16), hex_upper (of_char c mod 16)]"

text \<open>Strings are UTF-8 here, so \<open>encodeURIComponent\<close> escapes byte by byte.\<close>

definition encodeURIComponent :: "string \<Rightarrow> string" where
  "encodeURIComponent s = concat (map (\<lambda>c. if unreserved c then [c] else pct c) s)"

definition encodeUriQuery :: "string \<Rightarrow> bool \<Rightarrow> string" where
  "encodeUriQuery val pctEncodeSpaces =
     replace_ci ''%20'' (if pctEncodeSpaces then ''%20'' else ''+'')
      (replace_ci ''%2C'' '',''
       (replace_ci ''%24'' ''$''
        (replace_ci ''%3A'' '':''
         (replace_ci ''%40'' ''@'' (encodeURIComponent val)))))"

definition encodeUriSegment :: "string \<Rightarrow> string" where
  "encodeUriSegment val =
     replace_ci ''%2B'' ''+'' (replace_ci ''%3D'' ''='' (replace_ci ''%26'' ''&'' (encodeUriQuery val True)))"

section \<open>Routes\<close>

text \<open>\<open>(\W|$)\<close> at the end of what was matched: end of input or a non-word character.\<close>

definition at_boundary :: "string \<Rightarrow> bool" where
  "at_boundary rest = (case rest of [] \<Rightarrow> True | c # _ \<Rightarrow> \<not> is_word c)"

definition matches_param :: "string \<Rightarrow> string \<Rightarrow> bool" where
  "matches_param param s = (starts_with ('':'' @ param) s \<and> at_boundary (drop (Suc (length param)) s))"

text \<open>\<open>(^|[^\\]):param(\W|$)\<close> anywhere in the URL; the flag tells that the character before is a backslash.\<close>

fun has_param :: "bool \<Rightarrow> string \<Rightarrow> string \<Rightarrow> bool" where
  "has_param esc param [] = False"
| "has_param esc param (c # s) =
     ((\<not> esc \<and> matches_param param (c # s)) \<or> has_param (c = CHR 0x5C) param s)"

definition line_end :: "char \<Rightarrow> bool" where
  "line_end c = (c = CHR 0x0A \<or> c = CHR 0x0D)"

text \<open>\<open>\?.*=:param(?:\W|$)\<close>: after some question mark, on the same line, \<open>=:param\<close>.\<close>

fun has_assign :: "string \<Rightarrow> string \<Rightarrow> bool" where
  "has_assign param [] = False"
| "has_assign param (c # s) =
     ((c = CHR ''='' \<and> matches_param param s) \<or> (\<not> line_end c \<and> has_assign param s))"

fun is_query_param :: "string \<Rightarrow> string \<Rightarrow> bool" where
  "is_query_param param [] = False"
| "is_query_param param (c # s) = ((c = CHR ''?'' \<and> has_assign param s) \<or> is_query_param param s)"

text \<open>The parameters of a template, each with its \<open>isQueryParamValue\<close>.\<close>

definition scan_param :: "string \<Rightarrow> string \<Rightarrow> (string \<times> bool) list \<Rightarrow> ng_err + (string \<times> bool) list" where
  "scan_param url param ps =
     (if param = ''hasOwnProperty'' then Inl BadName
      else if param \<noteq> [] \<and> \<not> list_all is_digit param \<and> has_param False param url
      then Inr (AList.update param (is_query_param param url) ps)
      else Inr ps)"

fun scan_params :: "string \<Rightarrow> string list \<Rightarrow> (string \<times> bool) list \<Rightarrow> ng_err + (string \<times> bool) list" where
  "scan_params url [] ps = Inr ps"
| "scan_params url (w # ws) ps =
     (case scan_param url w ps of Inl e \<Rightarrow> Inl e | Inr ps' \<Rightarrow> scan_params url ws ps')"

fun unescape_colons :: "string \<Rightarrow> string" where
  "unescape_colons [] = []"
| "unescape_colons [c] = [c]"
| "unescape_colons (c # d # s) =
     (if c = CHR 0x5C \<and> d = CHR '':'' then d # unescape_colons s else c # unescape_colons (d # s))"

text \<open>\<open>^https?:\/\/[^\/]*\<close> split off.\<close>

definition split_domain :: "string \<Rightarrow> string \<times> string" where
  "split_domain url =
     (let scheme = (if starts_with ''http://'' url then 7 else if starts_with ''https://'' url then 8 else 0)
      in if scheme = 0 then ([], url)
         else let host = takeWhile (\<lambda>c. c \<noteq> CHR ''/'') (drop scheme url)
              in (take scheme url @ host, drop (scheme + length host) url))"

text \<open>\<open>:param(\W|$)\<close>, globally: the boundary character is consumed by the match and copied.\<close>

definition after_param :: "string \<Rightarrow> string \<Rightarrow> string" where
  "after_param param s = drop (Suc (length param)) s"

function put_value :: "string \<Rightarrow> string \<Rightarrow> string \<Rightarrow> string" where
  "put_value param v [] = []"
| "put_value param v (c # s) =
     (if matches_param param (c # s)
      then v @ (case after_param param (c # s) of [] \<Rightarrow> [] | d # rest \<Rightarrow> d # put_value param v rest)
      else c # put_value param v s)"
  by pat_completeness auto
termination
proof (relation "measure (\<lambda>(param, v, s). length s)", goal_cases)
  case (2 param v c s d rest)
  then have "length (d # rest) \<le> length s"
    by (metis after_param_def drop_Suc_Cons length_drop diff_le_self)
  then show ?case by simp
qed auto

text \<open>\<open>(\/?):param(\W|$)\<close> for a parameter without a value: a slash after it absorbs the one before.\<close>

definition drop_param :: "string \<Rightarrow> string \<Rightarrow> string" where
  "drop_param lead tail = (case tail of [] \<Rightarrow> lead | d # _ \<Rightarrow> if d = CHR ''/'' then [d] else lead @ [d])"

function erase_param :: "string \<Rightarrow> string \<Rightarrow> string" where
  "erase_param param [] = []"
| "erase_param param (c # s) =
     (if c = CHR ''/'' \<and> matches_param param s
      then drop_param [c] (after_param param s) @ erase_param param (drop 1 (after_param param s))
      else if matches_param param (c # s)
      then drop_param [] (after_param param (c # s)) @ erase_param param (drop 1 (after_param param (c # s)))
      else c # erase_param param s)"
  by pat_completeness auto
termination
  by (relation "measure (\<lambda>(param, s). length s)") (auto simp: after_param_def)

definition strip_slashes :: "string \<Rightarrow> string" where
  "strip_slashes url =
     (let u = rev (dropWhile (\<lambda>c. c = CHR ''/'') (rev url)) in if u = [] then ''/'' else u)"

text \<open>\<open>\/\.(?=\w+($|\?))\<close>, first match: \<open>/.\<close> before a last path segment loses its slash.\<close>

definition last_segment :: "string \<Rightarrow> bool" where
  "last_segment s =
     (let rest = dropWhile is_word s
      in takeWhile is_word s \<noteq> [] \<and> (rest = [] \<or> hd rest = CHR ''?''))"

fun collapse_dot :: "string \<Rightarrow> string" where
  "collapse_dot [] = []"
| "collapse_dot (c # s) =
     (if c = CHR ''/'' \<and> starts_with ''.'' s \<and> last_segment (drop 1 s) then s
      else c # collapse_dot s)"

text \<open>\<open>\/\\\.\<close>, first match: an escaped dot.\<close>

fun unescape_dot :: "string \<Rightarrow> string" where
  "unescape_dot [] = []"
| "unescape_dot (c # s) =
     (if c = CHR ''/'' \<and> starts_with [CHR 0x5C, CHR ''.''] s then c # drop 1 s
      else c # unescape_dot s)"

record route =
  template :: string
  route_defaults :: jsobj

definition default_actions :: jsobj where
  "default_actions =
     [(''get'', JObj [(''method'', JStr ''GET'')]),
      (''save'', JObj [(''method'', JStr ''POST'')]),
      (''query'', JObj [(''method'', JStr ''GET''), (''isArray'', JBool True)]),
      (''remove'', JObj [(''method'', JStr ''DELETE'')]),
      (''delete'', JObj [(''method'', JStr ''DELETE'')])]"

definition provider_defaults :: jsobj where
  "provider_defaults = [(''stripTrailingSlashes'', JBool True), (''actions'', JObj default_actions)]"

definition new_route :: "string \<Rightarrow> jsobj \<Rightarrow> route" where
  "new_route tmpl options = \<lparr>template = tmpl, route_defaults = extend1 (extend1 [] provider_defaults) options\<rparr>"

definition route_val :: "route \<Rightarrow> jsobj \<Rightarrow> string \<Rightarrow> jsval" where
  "route_val r params k =
     (case obj_get params k of Some v \<Rightarrow> v | None \<Rightarrow> js_prop (JObj (route_defaults r)) k)"

definition subst_param :: "route \<Rightarrow> jsobj \<Rightarrow> string \<times> bool \<Rightarrow> string \<Rightarrow> string" where
  "subst_param r params = (\<lambda>(k, isQuery) url.
     let val = route_val r params k in
     if isDefined val \<and> val \<noteq> JNull
     then put_value k (if isQuery then encodeUriQuery (js_string val) True
                       else encodeUriSegment (js_string val)) url
     else erase_param k url)"

text \<open>
  The URL and the query parameters that \<open>setUrlParams\<close> leaves in the configuration. The
  test \<open>!self.urlParams[key]\<close> also sees the members every object inherits.
\<close>

definition setUrlParams :: "route \<Rightarrow> jsobj \<Rightarrow> string \<Rightarrow> ng_err + (string \<times> jsobj)" where
  "setUrlParams r params actionUrl =
     (let url = (if actionUrl \<noteq> [] then actionUrl else template r) in
      case scan_params url (js_split (\<lambda>c. \<not> is_word c) url) [] of
        Inl e \<Rightarrow> Inl e
      | Inr urlParams \<Rightarrow>
          let (protocolAndDomain, url1) = split_domain (unescape_colons url);
              url2 = fold (subst_param r params) urlParams url1;
              url3 = (if truthy (js_prop (JObj (route_defaults r)) ''stripTrailingSlashes'')
                      then strip_slashes url2 else url2);
              url4 = collapse_dot url3
          in Inr (protocolAndDomain @ unescape_dot url4,
                  filter (\<lambda>(k, v). map_of urlParams k = None \<and> k \<notin> set object_proto) params))"

section \<open>Actions: the request\<close>

definition has_body :: "jsobj \<Rightarrow> bool" where
  "has_body act =
     (map to_lower (js_string (js_prop (JObj act) ''method'')) \<in> {''post'', ''put'', ''patch''})"

record call_args =
  ca_params :: jsval
  ca_data :: jsval
  ca_success :: jsval
  ca_error :: jsval

definition no_args :: call_args where
  "no_args = \<lparr>ca_params = JObj [], ca_data = JUndef, ca_success = JUndef, ca_error = JUndef\<rparr>"

definition arg1 :: "bool \<Rightarrow> jsval \<Rightarrow> call_args \<Rightarrow> call_args" where
  "arg1 hasBody a1 ca =
     (if isFunction a1 then ca\<lparr>ca_success := a1\<rparr>
      else if hasBody then ca\<lparr>ca_data := a1\<rparr> else ca\<lparr>ca_params := a1\<rparr>)"

definition arg23 :: "bool \<Rightarrow> jsval \<Rightarrow> jsval \<Rightarrow> jsval \<Rightarrow> call_args \<Rightarrow> call_args" where
  "arg23 hasBody a1 a2 a3 ca =
     (if isFunction a2 then
        if isFunction a1 then ca\<lparr>ca_success := a1, ca_error := a2\<rparr>
        else arg1 hasBody a1 (ca\<lparr>ca_success := a2, ca_error := a3\<rparr>)
      else ca\<lparr>ca_params := a1, ca_data := a2, ca_success := a3\<rparr>)"

text \<open>The \<open>switch (arguments.length)\<close> with its fall-throughs.\<close>

fun action_args :: "bool \<Rightarrow> jsval list \<Rightarrow> ng_err + call_args" where
  "action_args hasBody [] = Inr no_args"
| "action_args hasBody [a1] = Inr (arg1 hasBody a1 no_args)"
| "action_args hasBody [a1, a2] = Inr (arg23 hasBody a1 a2 JUndef no_args)"
| "action_args hasBody [a1, a2, a3] = Inr (arg23 hasBody a1 a2 a3 no_args)"
| "action_args hasBody [a1, a2, a3, a4] =
     Inr (arg23 hasBody a1 a2 a3 (no_args\<lparr>ca_error := a4, ca_success := a3\<rparr>))"
| "action_args hasBody args = Inl (BadArgs (length args))"

text \<open>Parameter values that are functions are called; \<open>@path\<close> reads the data.\<close>

definition extract_value :: "(nat \<Rightarrow> jsval) \<Rightarrow> jsval \<Rightarrow> jsval \<Rightarrow> ng_err + jsval" where
  "extract_value call data value =
     (let v = (case value of JFun f _ \<Rightarrow> call f | _ \<Rightarrow> value) in
      case v of JStr (c # path) \<Rightarrow> (if c = CHR ''@'' then lookupDottedPath data path else Inr v)
      | _ \<Rightarrow> Inr v)"

fun extract_all :: "(nat \<Rightarrow> jsval) \<Rightarrow> jsval \<Rightarrow> jsobj \<Rightarrow> jsobj \<Rightarrow> ng_err + jsobj" where
  "extract_all call data [] ids = Inr ids"
| "extract_all call data ((k, v) # ps) ids =
     (case extract_value call data v of Inl e \<Rightarrow> Inl e
      | Inr w \<Rightarrow> extract_all call data ps (obj_put k w ids))"

definition extractParams :: "(nat \<Rightarrow> jsval) \<Rightarrow> jsobj \<Rightarrow> jsval \<Rightarrow> jsobj \<Rightarrow> ng_err + jsobj" where
  "extractParams call paramDefaults data actionParams =
     extract_all call data (extend1 (extend1 [] paramDefaults) actionParams) []"

definition action_config :: "jsobj \<Rightarrow> jsobj" where
  "action_config act =
     fold (\<lambda>(k, v). obj_put k v)
       (filter (\<lambda>(k, v). k \<notin> {''params'', ''isArray'', ''interceptor'', ''cancellable''}) act) []"

definition js_str_prop :: "jsobj \<Rightarrow> string \<Rightarrow> string" where
  "js_str_prop ob k = (case obj_get ob k of Some (JStr s) \<Rightarrow> s | _ \<Rightarrow> [])"

definition resource_request ::
  "(nat \<Rightarrow> jsval) \<Rightarrow> route \<Rightarrow> jsobj \<Rightarrow> jsobj \<Rightarrow> call_args \<Rightarrow> ng_err + jsobj" where
  "resource_request call r paramDefaults act ca =
     (let cfg = (if has_body act then obj_put ''data'' (ca_data ca) (action_config act)
                 else action_config act);
          actionParams = obj_fields (js_prop (JObj act) ''params'')
      in case extractParams call paramDefaults (ca_data ca) actionParams of
           Inl e \<Rightarrow> Inl e
         | Inr ids \<Rightarrow>
             (case setUrlParams r (extend1 (extend1 [] ids) (obj_fields (ca_params ca)))
                     (js_str_prop act ''url'') of
                Inl e \<Rightarrow> Inl e
              | Inr (url, query) \<Rightarrow>
                  let cfg' = obj_put ''url'' (JStr url) cfg
                  in Inr (if query = [] then cfg' else obj_put ''params'' (JObj query) cfg')))"

section \<open>Actions: the response\<close>

text \<open>The instance or collection an action returns: a collection has members besides its elements.\<close>

datatype resval = RArr "jsval list" jsobj | RObj jsobj

definition own_fields :: "jsval \<Rightarrow> jsobj" where
  "own_fields v = (case v of JObj ob \<Rightarrow> ob
     | JArr xs \<Rightarrow> zip (map (itoa \<circ> int) [0..<length xs]) xs
     | JStr s \<Rightarrow> zip (map (itoa \<circ> int) [0..<length s]) (map (\<lambda>c. JStr [c]) s)
     | _ \<Rightarrow> [])"

definition new_resource :: "jsval \<Rightarrow> jsobj" where
  "new_resource v = shallowClearAndCopy (own_fields v) []"

definition initial_value :: "jsobj \<Rightarrow> jsval \<Rightarrow> resval" where
  "initial_value act data =
     (if truthy (js_prop (JObj act) ''isArray'') then RArr [] [] else RObj (new_resource data))"

fun set_member :: "string \<Rightarrow> jsval \<Rightarrow> resval \<Rightarrow> resval" where
  "set_member k v (RArr xs ms) = RArr xs (obj_put k v ms)"
| "set_member k v (RObj ob) = RObj (obj_put k v ob)"

fun get_member :: "string \<Rightarrow> resval \<Rightarrow> jsval" where
  "get_member k (RArr xs ms) = (case obj_get ms k of Some v \<Rightarrow> v | None \<Rightarrow> JUndef)"
| "get_member k (RObj ob) = (case obj_get ob k of Some v \<Rightarrow> v | None \<Rightarrow> JUndef)"

definition resource_item :: "jsval \<Rightarrow> jsval" where
  "resource_item item = (if typeof_object item then JObj (new_resource item) else item)"

text \<open>
  The success handler of \<open>$http\<close>: the data of the response goes into the value, or the
  handler throws and the promise is rejected.
\<close>

definition take_data :: "jsobj \<Rightarrow> jsval \<Rightarrow> resval \<Rightarrow> ng_err + resval" where
  "take_data act data value =
     (let arr = truthy (js_prop (JObj act) ''isArray'') in
      if \<not> truthy data then Inr value
      else if isArray data \<noteq> arr then
        Inl (BadCfg (if arr then ''array'' else ''object'') (if isArray data then ''array'' else ''object'')
          (js_str_prop act ''method''))
      else (case (value, data) of
              (RArr _ ms, JArr items) \<Rightarrow> Inr (RArr (map resource_item items) ms)
            | (RObj ob, _) \<Rightarrow>
                Inr (RObj (obj_put ''$promise'' (get_member ''$promise'' value)
                            (shallowClearAndCopy (own_fields data) ob)))
            | _ \<Rightarrow> Inr value))"

datatype http_result = HttpOk jsval | HttpFail jsval

datatype res_effect = CallSuccess nat resval | CallError nat jsval

fun invoke_success :: "jsval \<Rightarrow> resval \<Rightarrow> res_effect list" where
  "invoke_success (JFun f _) v = [CallSuccess f v]"
| "invoke_success _ v = []"

fun invoke_error :: "jsval \<Rightarrow> jsval \<Rightarrow> res_effect list" where
  "invoke_error (JFun f _) r = [CallError f r]"
| "invoke_error _ r = []"

text \<open>
  What happens when the request settles, for an action without interceptors and not
  cancellable: the handlers in the order they were attached. The last component tells
  whether the instance's promise is fulfilled.
\<close>

definition resource_settle ::
  "jsobj \<Rightarrow> call_args \<Rightarrow> http_result \<Rightarrow> resval \<Rightarrow> resval \<times> res_effect list \<times> bool" where
  "resource_settle act ca res value =
     (case res of
        HttpFail resp \<Rightarrow>
          (set_member ''$resolved'' (JBool True) value, invoke_error (ca_error ca) resp, False)
      | HttpOk data \<Rightarrow>
          (case take_data act data value of
             Inl e \<Rightarrow> (set_member ''$resolved'' (JBool True) value, [], False)
           | Inr v \<Rightarrow>
               let v' = set_member ''$resolved'' (JBool True) v
               in (v', invoke_success (ca_success ca) v', True)))"

text \<open>The value a class-level call returns before the response arrives.\<close>

definition resource_call ::
  "(nat \<Rightarrow> jsval) \<Rightarrow> route \<Rightarrow> jsobj \<Rightarrow> jsobj \<Rightarrow> jsval \<Rightarrow> jsval list \<Rightarrow>
     ng_err + (jsobj \<times> call_args \<times> resval)" where
  "resource_call call r paramDefaults act promise args =
     (case action_args (has_body act) args of
        Inl e \<Rightarrow> Inl e
      | Inr ca \<Rightarrow>
          (case resource_request call r paramDefaults act ca of
             Inl e \<Rightarrow> Inl e
           | Inr cfg \<Rightarrow>
               Inr (cfg, ca, set_member ''$resolved'' (JBool False)
                               (set_member ''$promise'' promise (initial_value act (ca_data ca))))))"

text \<open>\<open>Resource.prototype['$' + name]\<close> and \<open>Resource.bind\<close>.\<close>

definition instance_args :: "jsobj \<Rightarrow> jsval \<Rightarrow> jsval \<Rightarrow> jsval \<Rightarrow> jsval list" where
  "instance_args this params success error =
     (if isFunction params then [JObj [], JObj this, params, success]
      else [params, JObj this, success, error])"

definition resource_bind :: "jsobj \<Rightarrow> jsobj \<Rightarrow> jsobj" where
  "resource_bind paramDefaults additional = extend1 (extend1 [] paramDefaults) additional"

section \<open>Encoding lemmas\<close>

text \<open>Encoded text is a sequence of tokens: plain characters and percent escapes.\<close>

definition token :: "string \<Rightarrow> bool" where
  "token t = (case t of [c] \<Rightarrow> c \<noteq> CHR ''%''
     | [p, a, b] \<Rightarrow> p = CHR ''%'' \<and> a \<noteq> CHR ''%'' \<and> b \<noteq> CHR ''%'' | _ \<Rightarrow> False)"

definition swap_token :: "string \<Rightarrow> string \<Rightarrow> string \<Rightarrow> string" where
  "swap_token p r t = (if map to_lower t = map to_lower p then r else t)"

lemma to_lower_pct: "to_lower c = CHR ''%'' \<longleftrightarrow> c = CHR ''%''"
proof -
  have "\<forall>c. to_lower c = CHR ''%'' \<longleftrightarrow> c = CHR ''%''" by code_simp
  then show ?thesis by blast
qed

lemma token_cases:
  assumes "token t"
  obtains c where "t = [c]" "c \<noteq> CHR ''%''"
    | a b where "t = [CHR ''%'', a, b]" "a \<noteq> CHR ''%''" "b \<noteq> CHR ''%''"
  using assms by (auto simp: token_def split: list.splits)

lemma starts_ci_other:
  "hd p = CHR ''%'' \<Longrightarrow> p \<noteq> [] \<Longrightarrow> c \<noteq> CHR ''%'' \<Longrightarrow> \<not> starts_ci p (c # s)"
  using to_lower_pct [of c] to_lower_pct [of "CHR ''%''"]
  by (cases p) (auto simp: starts_ci_def)

lemma replace_ci_other:
  "hd p = CHR ''%'' \<Longrightarrow> p \<noteq> [] \<Longrightarrow> c \<noteq> CHR ''%'' \<Longrightarrow> replace_ci p r (c # s) = c # replace_ci p r s"
  by (simp add: starts_ci_other)

lemma replace_ci_tokens:
  assumes "list_all token ts" "p = [CHR ''%'', x, y]"
  shows "replace_ci p r (concat ts) = concat (map (swap_token p r) ts)"
  using assms(1)
proof (induction ts)
  case (Cons t ts)
  have p: "hd p = CHR ''%''" "p \<noteq> []" "length p = 3" using assms(2) by auto
  from Cons.prems have "token t" by simp
  then show ?case
  proof (cases rule: token_cases)
    case (1 c)
    then have "map to_lower t \<noteq> map to_lower p" using assms(2) by auto
    with 1 Cons p show ?thesis by (simp add: starts_ci_other swap_token_def)
  next
    case (2 a b)
    have st: "starts_ci p (t @ concat ts) \<longleftrightarrow> map to_lower t = map to_lower p"
      using 2 p by (simp add: starts_ci_def)
    show ?thesis
    proof (cases "map to_lower t = map to_lower p")
      case True
      with st 2 p have "replace_ci p r (t @ concat ts) = r @ replace_ci p r (concat ts)"
        by simp
      with True Cons show ?thesis by (simp add: swap_token_def)
    next
      case False
      with st 2 p have "replace_ci p r (t @ concat ts) = t @ replace_ci p r (concat ts)"
        by (simp add: starts_ci_other)
      with False Cons show ?thesis by (simp add: swap_token_def)
    qed
  qed
qed simp

text \<open>The token of a character when the characters of \<open>S\<close> stand for themselves.\<close>

definition tok :: "char set \<Rightarrow> char \<Rightarrow> string" where
  "tok S c = (if c \<in> S then [c] else pct c)"

definition plain :: "char set" where
  "plain = {c. unreserved c}"

definition query_chars :: "char set" where
  "query_chars = insert CHR '','' (insert CHR ''$'' (insert CHR '':'' (insert CHR ''@'' plain)))"

definition segment_chars :: "char set" where
  "segment_chars = insert CHR ''+'' (insert CHR ''='' (insert CHR ''&'' query_chars))"

fun hex_value :: "char \<Rightarrow> nat" where
  "hex_value c = (let n = of_char (to_lower c) in if n < 58 then n - 48 else n - 87)"

lemma hex_value_upper: "d < 16 \<Longrightarrow> hex_value (hex_upper d) = d"
  by (auto simp: hex_upper_def to_lower_def Let_def)

lemma hex_value_lower: "to_lower a = to_lower b \<Longrightarrow> hex_value a = hex_value b"
  by simp

lemma hex_upper_no_pct: "d < 16 \<Longrightarrow> hex_upper d \<noteq> CHR ''%''"
proof -
  have "list_all (\<lambda>d. hex_upper d \<noteq> CHR ''%'') [0..<16]" by code_simp
  then show "d < 16 \<Longrightarrow> ?thesis" by (simp only: list_all_iff set_upt) simp
qed

lemma char_halves: "of_char c div 16 < (16::nat)" "of_char c mod 16 < (16::nat)"
  using nat_of_char_less_256 [of c] by (simp_all add: less_mult_imp_div_less)

lemma pct_lower_inj: "map to_lower (pct c) = map to_lower (pct d) \<longleftrightarrow> c = d"
proof
  assume "map to_lower (pct c) = map to_lower (pct d)"
  then have "hex_value (hex_upper (of_char c div 16)) = hex_value (hex_upper (of_char d div 16))"
      "hex_value (hex_upper (of_char c mod 16)) = hex_value (hex_upper (of_char d mod 16))"
    by (simp_all add: pct_def)
  then have "of_char c div 16 = (of_char d div 16 :: nat)" "of_char c mod 16 = (of_char d mod 16 :: nat)"
    by (simp_all only: hex_value_upper char_halves)
  then have "of_char c = (of_char d :: nat)" by (metis div_mult_mod_eq)
  then show "c = d" by simp
qed simp

lemma token_tok: "CHR ''%'' \<notin> S \<Longrightarrow> token (tok S c)"
  by (auto simp: tok_def token_def pct_def hex_upper_no_pct char_halves)

lemma swap_tok: "swap_token (pct d) [d] (tok S c) = tok (insert d S) c"
  by (auto simp: swap_token_def tok_def pct_lower_inj) (simp_all add: pct_def)

lemma swap_tok_same: "swap_token (pct d) (pct d) (tok S c) = tok S c"
  by (auto simp: swap_token_def tok_def pct_lower_inj) (simp_all add: pct_def)

lemma replace_tok:
  assumes "CHR ''%'' \<notin> S"
  shows "replace_ci (pct d) [d] (concat (map (tok S) s)) = concat (map (tok (insert d S)) s)"
    and "replace_ci (pct d) (pct d) (concat (map (tok S) s)) = concat (map (tok S) s)"
proof -
  have t: "list_all token (map (tok S) s)"
    using token_tok [OF assms] by (simp add: list_all_iff)
  have p: "pct d = [CHR ''%'', hex_upper (of_char d div 16), hex_upper (of_char d mod 16)]"
    by (simp add: pct_def)
  show "replace_ci (pct d) [d] (concat (map (tok S) s)) = concat (map (tok (insert d S)) s)"
    using replace_ci_tokens [OF t p] by (simp add: comp_def swap_tok)
  show "replace_ci (pct d) (pct d) (concat (map (tok S) s)) = concat (map (tok S) s)"
    using replace_ci_tokens [OF t p] by (simp add: comp_def swap_tok_same)
qed

lemma pct_literals:
  "''%20'' = pct CHR '' ''" "''%2C'' = pct CHR '',''" "''%24'' = pct CHR ''$''" "''%3A'' = pct CHR '':''"
  "''%40'' = pct CHR ''@''" "''%2B'' = pct CHR ''+''" "''%3D'' = pct CHR ''=''" "''%26'' = pct CHR ''&''"
  by code_simp+

lemma pct_not_plain: "CHR ''%'' \<notin> plain"
  by (simp add: plain_def) code_simp

lemma encodeUriQuery_tokens: "encodeUriQuery s True = concat (map (tok query_chars) s)"
  unfolding encodeUriQuery_def encodeURIComponent_def if_P [OF TrueI] pct_literals
proof -
  have "concat (map (\<lambda>c. if unreserved c then [c] else pct c) s) = concat (map (tok plain) s)"
    by (simp add: tok_def plain_def cong: map_cong)
  then show "replace_ci (pct CHR '' '') (pct CHR '' '') (replace_ci (pct CHR '','') '',''
     (replace_ci (pct CHR ''$'') ''$'' (replace_ci (pct CHR '':'') '':'' (replace_ci (pct CHR ''@'') ''@''
     (concat (map (\<lambda>c. if unreserved c then [c] else pct c) s)))))) = concat (map (tok query_chars) s)"
    using pct_not_plain by (simp add: replace_tok query_chars_def)
qed

lemma encodeUriSegment_tokens: "encodeUriSegment s = concat (map (tok segment_chars) s)"
  unfolding encodeUriSegment_def pct_literals encodeUriQuery_tokens
  using pct_not_plain by (simp add: replace_tok query_chars_def segment_chars_def)

text \<open>\<open>decodeURIComponent\<close>, on bytes.\<close>

fun pct_decode :: "string \<Rightarrow> string" where
  "pct_decode (p # a # b # s) =
     (if p = CHR ''%'' then char_of (16 * hex_value a + hex_value b) # pct_decode s
      else p # pct_decode (a # b # s))"
| "pct_decode s = s"

lemma pct_decode_plain: "c \<noteq> CHR ''%'' \<Longrightarrow> pct_decode (c # s) = c # pct_decode s"
  by (cases s; cases "tl s") auto

lemma pct_decode_pct: "pct_decode (pct c @ s) = c # pct_decode s"
  by (simp add: pct_def hex_value_upper char_halves del: hex_value.simps)

lemma pct_decode_tokens:
  "CHR ''%'' \<notin> S \<Longrightarrow> pct_decode (concat (map (tok S) s)) = s"
proof (induction s)
  case (Cons c s)
  then have "c \<in> S \<Longrightarrow> c \<noteq> CHR ''%''" by auto
  with Cons show ?case by (auto simp: tok_def pct_decode_pct pct_decode_plain)
qed simp

lemma hex_upper_word: "n < 16 \<Longrightarrow> is_alpha (hex_upper n) \<or> is_digit (hex_upper n)"
  by (auto simp: hex_upper_def is_alpha_def is_digit_def Let_def)

lemma tok_chars:
  assumes "d \<in> set (tok S c)"
  shows "d \<in> S \<or> d = CHR ''%'' \<or> is_alpha d \<or> is_digit d"
  using assms hex_upper_word [OF char_halves(1), of c] hex_upper_word [OF char_halves(2), of c]
  by (auto simp: tok_def pct_def split: if_splits)

lemma segment_chars_safe:
  "CHR ''%'' \<notin> segment_chars" "CHR ''/'' \<notin> segment_chars" "CHR ''?'' \<notin> segment_chars"
  "CHR 0x23 \<notin> segment_chars" "CHR 0x5C \<notin> segment_chars"
  using pct_not_plain
  by (simp_all add: segment_chars_def query_chars_def plain_def unreserved_def is_alpha_def is_digit_def)

lemma encodeUriSegment_chars:
  assumes "d \<in> set (encodeUriSegment s)"
  shows "d \<notin> {CHR ''/'', CHR ''?'', CHR 0x23, CHR 0x5C}"
  using assms segment_chars_safe
  by (auto simp: encodeUriSegment_tokens is_alpha_def is_digit_def dest!: tok_chars)

section \<open>Route lemmas\<close>

lemma js_split_word: "list_all (\<lambda>c. \<not> p c) k \<Longrightarrow> js_split p k = [k]"
  by (induction k) auto

lemma js_split_sep: "p c \<Longrightarrow> js_split p (xs @ c # ys) = js_split p xs @ js_split p ys"
proof (induction xs)
  case (Cons x xs)
  then show ?case
    using js_split_nonempty [of p xs] by (cases "js_split p xs") auto
qed simp

lemma matches_param_last:
  assumes "list_all is_word w" "list_all is_word k"
  shows "matches_param w (CHR '':'' # k) \<longleftrightarrow> w = k"
proof
  assume m: "matches_param w (CHR '':'' # k)"
  then have t: "take (length w) k = w" and b: "at_boundary (drop (length w) k)"
    by (simp_all add: matches_param_def starts_with_def)
  have "drop (length w) k = []"
  proof (rule ccontr)
    assume "drop (length w) k \<noteq> []"
    then obtain c r where "drop (length w) k = c # r" by (cases "drop (length w) k") auto
    moreover from this have "c \<in> set k" by (metis in_set_dropD list.set_intros(1))
    ultimately show False using b assms(2) by (simp add: at_boundary_def list_all_iff)
  qed
  with t show "w = k" by simp
qed (simp add: matches_param_def starts_with_def at_boundary_def)

lemma has_param_prefix:
  assumes "CHR '':'' \<notin> set pre" "CHR 0x5C \<notin> set pre" "list_all is_word w" "list_all is_word k"
  shows "has_param False w (pre @ CHR '':'' # k) \<longleftrightarrow> w = k"
proof -
  have none: "\<not> has_param e w s" if "CHR '':'' \<notin> set s" for e s
    using that by (induction s arbitrary: e) (auto simp: matches_param_def starts_with_def)
  have "CHR '':'' \<notin> set k" using assms(4)
    by (auto simp: list_all_iff is_word_def is_alpha_def is_digit_def)
  then have "has_param False w (CHR '':'' # k) \<longleftrightarrow> w = k"
    using none matches_param_last [OF assms(3,4)] by simp
  with assms(1,2) show ?thesis
    by (induction pre) (auto simp: matches_param_def starts_with_def)
qed

lemma is_query_none: "CHR ''?'' \<notin> set s \<Longrightarrow> \<not> is_query_param k s"
  by (induction s) auto

lemma word_no_special: "list_all is_word k \<Longrightarrow> c \<in> set k \<Longrightarrow>
    c \<notin> {CHR '':'', CHR ''?'', CHR 0x5C, CHR ''/'', CHR ''.''}"
  by (auto simp: list_all_iff is_word_def is_alpha_def is_digit_def)

lemma scan_params_single:
  assumes "list_all (\<lambda>w. list_all is_word w \<and> w \<noteq> ''hasOwnProperty'') ws"
    and "\<And>w. list_all is_word w \<Longrightarrow> has_param False w url \<longleftrightarrow> w = k"
    and "k \<noteq> []" "\<not> list_all is_digit k" "\<not> is_query_param k url" "ps = [] \<or> ps = [(k, False)]"
  shows "\<exists>ps'. scan_params url ws ps = Inr ps' \<and> (ps' = [] \<or> ps' = [(k, False)]) \<and>
    (k \<in> set ws \<or> ps \<noteq> [] \<longrightarrow> ps' = [(k, False)])"
  using assms(1,6)
proof (induction ws arbitrary: ps)
  case (Cons w ws)
  have "scan_param url w ps = Inr (if w = k then [(k, False)] else ps)"
    using Cons.prems assms(2) [of w] assms(3-5) by (auto simp: scan_param_def)
  with Cons.IH [of "if w = k then [(k, False)] else ps"] Cons.prems show ?case by auto
qed auto

lemma unescape_colons_id: "CHR 0x5C \<notin> set s \<Longrightarrow> unescape_colons s = s"
  by (induction s rule: unescape_colons.induct) auto

lemma put_value_last:
  assumes "CHR '':'' \<notin> set pre" "list_all is_word k"
  shows "put_value k v (pre @ CHR '':'' # k) = pre @ v"
  using assms matches_param_last [OF assms(2,2)]
  by (induction pre) (auto simp: matches_param_def starts_with_def after_param_def at_boundary_def)

lemma strip_slashes_id: "s \<noteq> [] \<Longrightarrow> last s \<noteq> CHR ''/'' \<Longrightarrow> strip_slashes s = s"
  by (cases s rule: rev_cases) (auto simp: strip_slashes_def)

lemma unescape_dot_id: "CHR 0x5C \<notin> set s \<Longrightarrow> unescape_dot s = s"
proof (induction s)
  case (Cons c s)
  then show ?case by (cases s) (auto simp: starts_with_def)
qed simp

lemma collapse_dot_id:
  assumes "CHR ''.'' \<notin> set pre" "CHR ''/'' \<notin> set v" "v = [] \<or> hd v \<noteq> CHR ''.''"
  shows "collapse_dot (pre @ v) = pre @ v"
proof -
  have "collapse_dot v = v" using assms(2) by (induction v) auto
  with assms(1,3) show ?thesis
  proof (induction pre)
    case (Cons c pre)
    then show ?case by (cases pre; cases v) (auto simp: starts_with_def)
  qed simp
qed

lemma encodeUriSegment_nonempty: "v \<noteq> [] \<Longrightarrow> encodeUriSegment v \<noteq> []"
  by (cases v) (auto simp: encodeUriSegment_tokens tok_def pct_def)

lemma encodeUriSegment_hd: "v \<noteq> [] \<Longrightarrow> hd v \<noteq> CHR ''.'' \<Longrightarrow> hd (encodeUriSegment v) \<noteq> CHR ''.''"
  by (cases v) (auto simp: encodeUriSegment_tokens tok_def pct_def)

lemma route_val_param: "obj_get params k = Some v \<Longrightarrow> route_val r params k = v"
  by (simp add: route_val_def)

lemma colon_not_word: "\<not> is_word CHR '':''"
  by (simp add: is_word_def is_alpha_def is_digit_def)

text \<open>The parameter table of a template whose only parameter is its last path segment.\<close>

lemma scan_last_segment:
  assumes "list_all (\<lambda>c. c \<notin> {CHR '':'', CHR ''?'', CHR ''.'', CHR 0x5C}) pre"
    and "list_all is_word k" "k \<noteq> []" "\<not> list_all is_digit k"
    and "''hasOwnProperty'' \<notin> set (k # js_split (\<lambda>c. \<not> is_word c) pre)"
  shows "scan_params (pre @ CHR '':'' # k) (js_split (\<lambda>c. \<not> is_word c) (pre @ CHR '':'' # k)) [] =
    Inr [(k, False)]"
proof -
  have ws: "js_split (\<lambda>c. \<not> is_word c) (pre @ CHR '':'' # k) = js_split (\<lambda>c. \<not> is_word c) pre @ [k]"
    using assms(2) colon_not_word by (simp add: js_split_sep js_split_word)
  have pre: "CHR '':'' \<notin> set pre" "CHR 0x5C \<notin> set pre" "CHR ''?'' \<notin> set pre"
    using assms(1) by (auto simp: list_all_iff)
  have words: "list_all (\<lambda>w. list_all is_word w \<and> w \<noteq> ''hasOwnProperty'') (js_split (\<lambda>c. \<not> is_word c) pre @ [k])"
    using assms(2,5) by (auto simp: list_all_iff dest: js_split_pieces)
  have "CHR ''?'' \<notin> set k" using word_no_special [OF assms(2)] by blast
  with pre have "\<not> is_query_param k (pre @ CHR '':'' # k)" by (intro is_query_none) auto
  from scan_params_single [OF words has_param_prefix [OF pre(1,2) _ assms(2)] assms(3,4) this]
  show ?thesis by (auto simp: ws)
qed

text \<open>A template without parameters is the URL of the request as it stands.\<close>

lemma scan_params_none:
  assumes "list_all (\<lambda>w. w \<noteq> ''hasOwnProperty'') ws" "CHR '':'' \<notin> set url"
  shows "scan_params url ws ps = Inr ps"
proof -
  have none: "\<not> has_param e w s" if "CHR '':'' \<notin> set s" for e s w
    using that by (induction s arbitrary: e) (auto simp: matches_param_def starts_with_def)
  show ?thesis using assms(1)
    by (induction ws) (auto simp: scan_param_def none [OF assms(2)])
qed

lemma setUrlParams_static:
  assumes "url = (if actionUrl \<noteq> [] then actionUrl else template r)"
    and "url = CHR ''/'' # p" "last url \<noteq> CHR ''/''" "CHR '':'' \<notin> set url" "CHR ''.'' \<notin> set url"
      "CHR 0x5C \<notin> set url" "list_all (\<lambda>w. w \<noteq> ''hasOwnProperty'') (js_split (\<lambda>c. \<not> is_word c) url)"
  shows "setUrlParams r params actionUrl = Inr (url, filter (\<lambda>(k, v). k \<notin> set object_proto) params)"
proof -
  have "split_domain (unescape_colons url) = ([], url)"
    using assms(2,6) by (simp add: unescape_colons_id split_domain_def starts_with_def)
  moreover have "strip_slashes url = url" using assms(2,3) by (intro strip_slashes_id) auto
  moreover have "collapse_dot url = url" using collapse_dot_id [of url "[]"] assms(5) by simp
  moreover have "unescape_dot url = url" using assms(6) by (rule unescape_dot_id)
  ultimately show ?thesis
    using scan_params_none [OF assms(7,4), of "[]"] assms(1) [symmetric]
    by (simp add: setUrlParams_def Let_def)
qed

lemma setUrlParams_last:
  assumes "pre = CHR ''/'' # p" "list_all (\<lambda>c. c \<notin> {CHR '':'', CHR ''?'', CHR ''.'', CHR 0x5C}) pre"
    and "list_all is_word k" "k \<noteq> []" "\<not> list_all is_digit k"
    and "''hasOwnProperty'' \<notin> set (k # js_split (\<lambda>c. \<not> is_word c) pre)"
    and "obj_get params k = Some (JStr v)" "v \<noteq> []" "hd v \<noteq> CHR ''.''"
  shows "setUrlParams r params (pre @ CHR '':'' # k) =
    Inr (pre @ encodeUriSegment v, filter (\<lambda>(j, w). j \<noteq> k \<and> j \<notin> set object_proto) params)"
proof -
  let ?url = "pre @ CHR '':'' # k" and ?seg = "encodeUriSegment v"
  have pre: "CHR '':'' \<notin> set pre" "CHR 0x5C \<notin> set pre" "CHR ''.'' \<notin> set pre"
    using assms(2) by (auto simp: list_all_iff)
  have k: "CHR 0x5C \<notin> set k" using word_no_special [OF assms(3)] by blast
  have dom: "split_domain (unescape_colons ?url) = ([], ?url)"
    using pre(2) k assms(1) by (simp add: unescape_colons_id split_domain_def starts_with_def)
  have sub: "subst_param r params (k, False) ?url = pre @ ?seg"
    using assms(3,7) pre(1) by (simp add: subst_param_def route_val_param isDefined_def put_value_last)
  have seg: "\<forall>d \<in> set ?seg. d \<notin> {CHR ''/'', CHR ''?'', CHR 0x23, CHR 0x5C}" "?seg \<noteq> []"
      "hd ?seg \<noteq> CHR ''.''"
    by (rule ballI, erule encodeUriSegment_chars)
       (simp_all only: encodeUriSegment_nonempty encodeUriSegment_hd assms(8,9) not_False_eq_True)
  have strip: "strip_slashes (pre @ ?seg) = pre @ ?seg"
  proof (rule strip_slashes_id)
    show "last (pre @ ?seg) \<noteq> CHR ''/''" using seg(1,2) last_in_set [OF seg(2)] by auto
  qed (simp add: seg(2))
  have dots: "collapse_dot (pre @ ?seg) = pre @ ?seg" "unescape_dot (pre @ ?seg) = pre @ ?seg"
  proof -
    show "collapse_dot (pre @ ?seg) = pre @ ?seg"
      by (rule collapse_dot_id) (use seg pre(3) in auto)
    show "unescape_dot (pre @ ?seg) = pre @ ?seg"
      by (rule unescape_dot_id) (use seg pre(2) in auto)
  qed
  show ?thesis
    using scan_last_segment [OF assms(2-6)] dom sub strip dots
    by (auto simp: setUrlParams_def Let_def intro!: filter_cong)
qed

lemma encodeUriSegment_decode: "pct_decode (encodeUriSegment v) = v"
  unfolding encodeUriSegment_tokens by (rule pct_decode_tokens [OF segment_chars_safe(1)])

section \<open>Properties\<close>

text \<open>A path parameter of a route is substituted as one path segment: the URL of the
  request is the prefix of the template followed by the escaped value, the escaped part
  contains no slash, question mark or hash, decoding it gives the value back, and the
  parameter is not repeated in the query string.\<close>

lemma resource_path_param:
  assumes "pre = CHR ''/'' # p" "list_all (\<lambda>c. c \<notin> {CHR '':'', CHR ''?'', CHR ''.'', CHR 0x5C}) pre"
    and "list_all is_word k" "k \<noteq> []" "\<not> list_all is_digit k"
    and "''hasOwnProperty'' \<notin> set (k # js_split (\<lambda>c. \<not> is_word c) pre)"
    and "obj_get params k = Some (JStr v)" "v \<noteq> []" "hd v \<noteq> CHR ''.''"
  shows "\<exists>seg query. setUrlParams r params (pre @ CHR '':'' # k) = Inr (pre @ seg, query) \<and>
    pct_decode seg = v \<and> set seg \<inter> {CHR ''/'', CHR ''?'', CHR 0x23} = {} \<and> k \<notin> fst ` set query"
  unfolding setUrlParams_last [OF assms]
  by (rule exI [where x = "encodeUriSegment v"])
     (auto simp: encodeUriSegment_decode dest: encodeUriSegment_chars)

lemma resource_path_param_witness:
  "\<exists>seg query. setUrlParams (new_route ''/api/broadcast_range'' []) [(''room_id'', JStr ''a/b?c''), (''peer_num'', JNum 3)]
      ''/api/room/:room_id'' = Inr (''/api/room/'' @ seg, query) \<and> pct_decode seg = ''a/b?c'' \<and>
      set seg \<inter> {CHR ''/'', CHR ''?'', CHR 0x23} = {} \<and> ''room_id'' \<notin> fst ` set query"
  using resource_path_param [of "''/api/room/''" "''api/room/''" "''room_id''"
      "[(''room_id'', JStr ''a/b?c''), (''peer_num'', JNum 3)]" "''a/b?c''" "new_route ''/api/broadcast_range'' []"]
  by (simp add: is_word_def is_alpha_def is_digit_def obj_get_def)

text \<open>When the request of an action settles, the returned value is always marked
  resolved, and at most one of the two callbacks runs: the error callback exactly when
  the request failed, the success callback exactly when it succeeded and the response
  has the declared shape. A response of the wrong shape runs neither callback and leaves
  the collection as it was; an empty response is accepted and changes nothing.\<close>

lemma resource_settles_once:
  assumes "ca_success ca = JFun sf ss" "ca_error ca = JFun ef es"
    and "resource_settle act ca res value = (value', effects, fulfilled)"
  shows "get_member ''$resolved'' value' = JBool True \<and>
    (case res of
       HttpFail resp \<Rightarrow> effects = [CallError ef resp] \<and> \<not> fulfilled
     | HttpOk data \<Rightarrow>
         if truthy data \<and> isArray data \<noteq> truthy (js_prop (JObj act) ''isArray'')
         then effects = [] \<and> \<not> fulfilled \<and> value' = set_member ''$resolved'' (JBool True) value
         else effects = [CallSuccess sf value'] \<and> fulfilled \<and>
           (\<not> truthy data \<longrightarrow> value' = set_member ''$resolved'' (JBool True) value))"
proof -
  have mem: "get_member ''$resolved'' (set_member ''$resolved'' (JBool True) v) = JBool True" for v
    by (cases v) auto
  show ?thesis
  proof (cases res)
    case (HttpFail resp)
    with assms mem show ?thesis by (auto simp: resource_settle_def)
  next
    case (HttpOk data)
    with assms mem show ?thesis
      by (auto simp: resource_settle_def take_data_def Let_def split: if_splits resval.splits jsval.splits)
  qed
qed

lemma resource_settles_once_witness:
  "\<exists>v. resource_settle [(''method'', JStr ''GET''), (''isArray'', JBool True)]
      (no_args\<lparr>ca_success := JFun 1 [], ca_error := JFun 2 []\<rparr>) (HttpOk (JArr [JNum 5])) (RArr [] []) =
      (v, [CallSuccess 1 v], True) \<and> get_member ''$resolved'' v = JBool True"
proof -
  let ?act = "[(''method'', JStr ''GET''), (''isArray'', JBool True)]"
  let ?ca = "no_args\<lparr>ca_success := JFun 1 [], ca_error := JFun 2 []\<rparr>"
  obtain v e f where r: "resource_settle ?act ?ca (HttpOk (JArr [JNum 5])) (RArr [] []) = (v, e, f)"
    by (metis prod_cases3)
  from resource_settles_once [OF _ _ r] show ?thesis
    using r by (simp add: js_tests js_prop_def obj_get_def)
qed

text \<open>The argument lists of an action call are read as documented: data comes after the
  parameters, callbacks come last, and for a method without a body a single object is
  the parameters, with a body it is the data.\<close>

lemma resource_args:
  assumes "\<not> isFunction p" "\<not> isFunction d" "isFunction s" "isFunction e"
  shows "action_args b [p, d, s, e] = Inr \<lparr>ca_params = p, ca_data = d, ca_success = s, ca_error = e\<rparr> \<and>
    action_args False [p, s, e] = Inr \<lparr>ca_params = p, ca_data = JUndef, ca_success = s, ca_error = e\<rparr> \<and>
    action_args True [d, s, e] = Inr \<lparr>ca_params = JObj [], ca_data = d, ca_success = s, ca_error = e\<rparr> \<and>
    action_args b [s, e] = Inr \<lparr>ca_params = JObj [], ca_data = JUndef, ca_success = s, ca_error = e\<rparr> \<and>
    action_args b [] = Inr no_args \<and> action_args b [p, d, s, e, p] = Inl (BadArgs 5)"
  using assms by (simp add: arg23_def arg1_def no_args_def)

lemma resource_args_witness:
  "action_args True [JObj [(''br_msg'', JStr ''hi'')], JFun 1 [], JFun 2 []] =
    Inr \<lparr>ca_params = JObj [], ca_data = JObj [(''br_msg'', JStr ''hi'')], ca_success = JFun 1 [],
      ca_error = JFun 2 []\<rparr>"
  using resource_args [of "JObj []" "JObj [(''br_msg'', JStr ''hi'')]" "JFun 1 []" "JFun 2 []"]
  by (simp add: isFunction_def)

end
