(* ===== verification/Ng_Http.thy ===== *)
theory Ng_Http
  imports Js_Json Ng_Resource
begin

text \<open>
  The service \<open>$http\<close> of angular: headers, transformations of requests and responses, URLs,
  the chain of interceptors, and the requests with their cache and their list of pending
  requests, as steps: a request is made, the backend answers, a digest runs.

  Values of the cache are promises of requests in flight, responses, and plain values
  such as templates. A configuration gives what \<open>$http\<close> reads of it; transformations, header
  functions, cookies and the origin test are parameters. Header names are not names that
  objects inherit. The backend answers each request at most once.
\<close>

section \<open>Headers\<close>

definition lowercase :: "string \<Rightarrow> string" where
  "lowercase s = map to_lower s"

definition to_upper :: "char \<Rightarrow> char" where
  "to_upper c = (let n = of_char c :: nat in if 97 \<le> n \<and> n \<le> 122 then char_of (n - 32) else c)"

definition parse_line :: "string \<Rightarrow> jsobj \<Rightarrow> jsobj" where
  "parse_line line parsed =
     (let found = CHR '':'' \<in> set line;
          key = lowercase (js_trim (if found then takeWhile (\<lambda>c. c \<noteq> CHR '':'') line else []));
          val = js_trim (if found then tl (dropWhile (\<lambda>c. c \<noteq> CHR '':'') line) else line)
      in if key = [] then parsed
         else obj_put key (JStr (case obj_get parsed key of
                Some (JStr old) \<Rightarrow> if old = [] then val else old @ '', '' @ val
              | _ \<Rightarrow> val)) parsed)"

definition parseHeaders :: "string \<Rightarrow> jsobj" where
  "parseHeaders headers = (if headers = [] then [] else fold parse_line (js_split (\<lambda>c. c = CHR 0x0A) headers) [])"

text \<open>The headers that a response keeps: parsed or still a string.\<close>

definition headers_obj :: "jsval \<Rightarrow> jsobj" where
  "headers_obj headers = (case headers of JObj ob \<Rightarrow> ob | JStr s \<Rightarrow> parseHeaders s | _ \<Rightarrow> [])"

definition headersGetter :: "jsval \<Rightarrow> string option \<Rightarrow> jsval" where
  "headersGetter headers name =
     (case name of
        Some n \<Rightarrow>
          if n = [] then JObj (headers_obj headers)
          else (case obj_get (headers_obj headers) (lowercase n) of
                  Some v \<Rightarrow> if truthy v then v else JNull
                | None \<Rightarrow> JNull)
      | None \<Rightarrow> JObj (headers_obj headers))"

section \<open>Transformations\<close>

datatype http_err = BadJson string | TransformThrew

type_synonym transform = "jsval \<Rightarrow> jsval \<Rightarrow> http_err + jsval"

fun transformData :: "jsval \<Rightarrow> jsval \<Rightarrow> transform list \<Rightarrow> http_err + jsval" where
  "transformData data headers [] = Inr data"
| "transformData data headers (f # fns) =
     (case f data headers of Inl e \<Rightarrow> Inl e | Inr d \<Rightarrow> transformData d headers fns)"

definition isSuccess :: "int \<Rightarrow> bool" where
  "isSuccess status = (200 \<le> status \<and> status < 300)"

definition isObject :: "jsval \<Rightarrow> bool" where
  "isObject v = (v \<noteq> JNull \<and> typeof_object v)"

text \<open>\<open>PROTECTION_PREFIX\<close>, \<open>JSON_START\<close> and \<open>JSON_END\<close>.\<close>

definition strip_prefix :: "string \<Rightarrow> string" where
  "strip_prefix s =
     (if starts_with ('')]}'' @ [CHR 0x27, CHR '','', CHR 0x0A]) s then drop 6 s
      else if starts_with ('')]}'' @ [CHR 0x27, CHR 0x0A]) s then drop 5 s else s)"

definition json_start :: "string \<Rightarrow> bool" where
  "json_start s =
     (case trim_left js_space id s of
        [] \<Rightarrow> False
      | c # r \<Rightarrow> c = CHR ''['' \<or> (c = CHR ''{'' \<and> r \<noteq> [] \<and> hd r \<noteq> CHR ''{''))"

definition json_end :: "string \<Rightarrow> bool" where
  "json_end s = (case trim_left js_space rev (rev s) of [] \<Rightarrow> False | c # _ \<Rightarrow> c = CHR ''}'' \<or> c = CHR '']'')"

definition default_transformResponse :: transform where
  "default_transformResponse data headers =
     (case data of
        JStr s \<Rightarrow>
          let t = strip_prefix s in
          if json_start t \<and> json_end t
          then (case json_parse t of None \<Rightarrow> Inl (BadJson t) | Some v \<Rightarrow> Inr v)
          else Inr (JStr t)
      | _ \<Rightarrow> Inr data)"

text \<open>\<open>toJson\<close>: keys that begin with a dollar are not written.\<close>

definition json_key :: "string \<Rightarrow> bool" where
  "json_key k = (case k of [] \<Rightarrow> True | c # _ \<Rightarrow> c \<noteq> CHR ''$'')"

definition toJson :: "jsval \<Rightarrow> jsval" where
  "toJson v = (case json_text JsonJs json_key v of None \<Rightarrow> JUndef | Some t \<Rightarrow> JStr t)"

definition default_transformRequest :: transform where
  "default_transformRequest d headers = Inr (if isObject d then toJson d else d)"

section \<open>URLs\<close>

fun insert_key :: "string \<Rightarrow> string list \<Rightarrow> string list" where
  "insert_key k [] = [k]"
| "insert_key k (j # js) = (if lexordp_eq (map (of_char :: char \<Rightarrow> nat) k) (map of_char j) then k # j # js else j # insert_key k js)"

definition sortedKeys :: "jsobj \<Rightarrow> string list" where
  "sortedKeys ob = foldr insert_key (map fst ob) []"

definition query_part :: "string \<Rightarrow> jsval \<Rightarrow> string" where
  "query_part key v = encodeUriQuery key False @ ''='' @ encodeUriQuery (js_string (if isObject v then toJson v else v)) False"

definition query_parts :: "jsobj \<Rightarrow> string list" where
  "query_parts params =
     concat (map (\<lambda>key.
       let value = the (obj_get params key) in
       if value = JNull \<or> value = JUndef then []
       else map (query_part key) (case value of JArr vs \<Rightarrow> vs | _ \<Rightarrow> [value])) (sortedKeys params))"

fun join :: "string \<Rightarrow> string list \<Rightarrow> string" where
  "join sep [] = []"
| "join sep [t] = t"
| "join sep (t # u # ts) = t @ sep @ join sep (u # ts)"

definition buildUrl :: "string \<Rightarrow> jsobj option \<Rightarrow> string" where
  "buildUrl url params =
     (case params of
        None \<Rightarrow> url
      | Some ob \<Rightarrow>
          let parts = query_parts ob in
          if parts = [] then url
          else url @ (if CHR ''?'' \<in> set url then ''&'' else ''?'') @ join ''&'' parts)"

section \<open>Interceptors\<close>

text \<open>The list that is kept reversed; a response interceptor is put at its own index.\<close>

record 'a interceptor =
  i_request :: "('a \<Rightarrow> 'a + 'a) option"
  i_requestError :: "('a \<Rightarrow> 'a + 'a) option"
  i_response :: "('a \<Rightarrow> 'a + 'a) option"
  i_responseError :: "('a \<Rightarrow> 'a + 'a) option"

type_synonym 'a handler_pair = "('a \<Rightarrow> 'a + 'a) option \<times> ('a \<Rightarrow> 'a + 'a) option"

definition response_interceptor :: "('a + 'a \<Rightarrow> 'a + 'a) \<Rightarrow> 'a interceptor" where
  "response_interceptor fn = \<lparr>i_request = None, i_requestError = None, i_response = Some (\<lambda>r. fn (Inr r)),
     i_responseError = Some (\<lambda>r. fn (Inl r))\<rparr>"

definition reversedInterceptors :: "'a interceptor list \<Rightarrow> ('a + 'a \<Rightarrow> 'a + 'a) list \<Rightarrow> 'a interceptor list" where
  "reversedInterceptors ints fns =
     fold (\<lambda>(index, fn) rs. take index rs @ [response_interceptor fn] @ drop index rs) (zip [0..<length fns] fns) (rev ints)"

definition chain_link :: "'a interceptor \<Rightarrow> 'a handler_pair list \<Rightarrow> 'a handler_pair list" where
  "chain_link i chain =
     (let c1 = (if i_request i \<noteq> None \<or> i_requestError i \<noteq> None then (i_request i, i_requestError i) # chain else chain)
      in if i_response i \<noteq> None \<or> i_responseError i \<noteq> None then c1 @ [(i_response i, i_responseError i)] else c1)"

definition http_chain :: "'a interceptor list \<Rightarrow> ('a \<Rightarrow> 'a + 'a) \<Rightarrow> 'a handler_pair list" where
  "http_chain rints server = fold chain_link rints [(Some server, None)]"

text \<open>\<open>promise.then(thenFn, rejectFn)\<close> along the chain; a rejection is on the left.\<close>

definition then_pair :: "'a handler_pair \<Rightarrow> 'a + 'a \<Rightarrow> 'a + 'a" where
  "then_pair p r =
     (case r of
        Inr v \<Rightarrow> (case fst p of Some f \<Rightarrow> f v | None \<Rightarrow> Inr v)
      | Inl e \<Rightarrow> (case snd p of Some f \<Rightarrow> f e | None \<Rightarrow> Inl e))"

definition run_chain :: "'a handler_pair list \<Rightarrow> 'a \<Rightarrow> 'a + 'a" where
  "run_chain ps v = fold then_pair ps (Inr v)"

section \<open>Requests\<close>

datatype cache_opt = CacheUndef | CacheFalse | CacheTrue | CacheObj nat

record http_config =
  cfg_method :: "string option"
  cfg_url :: string
  cfg_params :: "jsobj option"
  cfg_data :: jsval
  cfg_headers :: jsobj
  cfg_cache :: cache_opt
  cfg_transformRequest :: "transform list"
  cfg_transformResponse :: "transform list"
  cfg_xsrfCookieName :: "string option"
  cfg_xsrfHeaderName :: "string option"

record http_env =
  common_headers :: jsobj
  method_headers :: "string \<Rightarrow> jsobj"
  call_header :: "nat \<Rightarrow> jsval"
  default_cache :: cache_opt
  cookies :: "string \<Rightarrow> string option"
  same_origin :: "string \<Rightarrow> bool"
  xsrf_cookie :: string
  xsrf_header :: string

definition content_json :: jsobj where
  "content_json = [(''Content-Type'', JStr ''application/json;charset=utf-8'')]"

text \<open>The defaults of the provider.\<close>

definition default_env :: "(nat \<Rightarrow> jsval) \<Rightarrow> (string \<Rightarrow> string option) \<Rightarrow> (string \<Rightarrow> bool) \<Rightarrow> http_env" where
  "default_env call ck same = \<lparr>common_headers = [(''Accept'', JStr ''application/json, text/plain, */*'')],
     method_headers = (\<lambda>m. if m = ''post'' \<or> m = ''put'' \<or> m = ''patch'' then content_json else []),
     call_header = call, default_cache = CacheUndef, cookies = ck, same_origin = same,
     xsrf_cookie = ''XSRF-TOKEN'', xsrf_header = ''X-XSRF-TOKEN''\<rparr>"

record raw_resp =
  r_data :: jsval
  r_status :: int
  r_headers :: jsval
  r_statusText :: string

datatype promise = Waiting | Follow nat | Settled bool raw_resp

record http_request =
  q_config :: http_config
  q_url :: string
  q_data :: jsval
  q_headers :: jsobj
  q_cache :: "nat option"
  q_promise :: promise
  q_sent :: bool

datatype cache_value = InFlight nat | Response int jsval jsobj string | Plain jsval

record http =
  requests :: "http_request list"
  pending :: "nat list"
  http_cache :: "nat \<Rightarrow> string \<rightharpoonup> cache_value"

definition http_start :: http where
  "http_start = \<lparr>requests = [], pending = [], http_cache = (\<lambda>_. Map.empty)\<rparr>"

definition execHeaders :: "(nat \<Rightarrow> jsval) \<Rightarrow> jsobj \<Rightarrow> jsobj" where
  "execHeaders call headers =
     fold (\<lambda>(header, fn) hs.
       case fn of
         JFun f _ \<Rightarrow> if call f = JNull \<or> call f = JUndef then obj_del header hs else obj_put header (call f) hs
       | _ \<Rightarrow> hs) headers headers"

definition mergeHeaders :: "http_env \<Rightarrow> http_config \<Rightarrow> jsobj" where
  "mergeHeaders env cfg =
     (let defs = extend1 (extend1 [] (common_headers env))
            (case cfg_method cfg of Some m \<Rightarrow> method_headers env (lowercase m) | None \<Rightarrow> []);
          merged = fold (\<lambda>(name, v) hs.
            if list_ex (\<lambda>(h, _). lowercase h = lowercase name) hs then hs else obj_put name v hs)
            defs (extend1 [] (cfg_headers cfg))
      in execHeaders (call_header env) merged)"

definition wants_cache :: "cache_opt \<Rightarrow> bool" where
  "wants_cache c = (case c of CacheTrue \<Rightarrow> True | CacheObj _ \<Rightarrow> True | _ \<Rightarrow> False)"

definition uses_cache :: "http_env \<Rightarrow> http_config \<Rightarrow> nat option" where
  "uses_cache env cfg =
     (if (wants_cache (cfg_cache cfg) \<or> wants_cache (default_cache env)) \<and> cfg_cache cfg \<noteq> CacheFalse \<and> (cfg_method cfg = Some ''GET'' \<or> cfg_method cfg = Some ''JSONP'')
      then Some (case cfg_cache cfg of CacheObj c \<Rightarrow> c | _ \<Rightarrow> (case default_cache env of CacheObj c \<Rightarrow> c | _ \<Rightarrow> 0))
      else None)"

definition settled_with :: "jsval \<Rightarrow> int \<Rightarrow> jsval \<Rightarrow> string \<Rightarrow> promise" where
  "settled_with response status headers statusText =
     (let s = max status 0 in
      Settled (isSuccess s) \<lparr>r_data = response, r_status = s, r_headers = headers, r_statusText = statusText\<rparr>)"

definition cached_promise :: "cache_value option \<Rightarrow> promise" where
  "cached_promise cached =
     (case cached of
        None \<Rightarrow> Waiting
      | Some (InFlight j) \<Rightarrow> Follow j
      | Some (Response status response headers statusText) \<Rightarrow> settled_with response status (JObj headers) statusText
      | Some (Plain v) \<Rightarrow> settled_with v 200 (JObj []) ''OK'')"

definition cache_read :: "http \<Rightarrow> nat option \<Rightarrow> string \<Rightarrow> cache_value option" where
  "cache_read st c url = (case c of None \<Rightarrow> None | Some k \<Rightarrow> http_cache st k url)"

definition cache_write :: "nat option \<Rightarrow> string \<Rightarrow> cache_value option \<Rightarrow> http \<Rightarrow> http" where
  "cache_write c url v st =
     (case c of None \<Rightarrow> st | Some k \<Rightarrow> st\<lparr>http_cache := (http_cache st)(k := (http_cache st k)(url := v))\<rparr>)"

definition xsrf_headers :: "http_env \<Rightarrow> http_config \<Rightarrow> jsobj \<Rightarrow> jsobj" where
  "xsrf_headers env cfg hs =
     (let cookie = (case cfg_xsrfCookieName cfg of Some n \<Rightarrow> n | None \<Rightarrow> xsrf_cookie env);
          header = (case cfg_xsrfHeaderName cfg of Some n \<Rightarrow> n | None \<Rightarrow> xsrf_header env)
      in case (if same_origin env (cfg_url cfg) then cookies env cookie else None) of
           None \<Rightarrow> hs
         | Some v \<Rightarrow> if v = [] then hs else obj_put header (JStr v) hs)"

definition sendReq :: "http_env \<Rightarrow> http_config \<Rightarrow> jsval \<Rightarrow> jsobj \<Rightarrow> http \<Rightarrow> http" where
  "sendReq env cfg reqData reqHeaders st =
     (let i = length (requests st);
          url = buildUrl (cfg_url cfg) (cfg_params cfg);
          c = uses_cache env cfg;
          cached = cache_read st c url;
          st1 = (if cached = None then cache_write c url (Some (InFlight i)) st else st)
      in st1\<lparr>requests := requests st @ [\<lparr>q_config = cfg, q_url = url, q_data = reqData,
               q_headers = (if cached = None then xsrf_headers env cfg reqHeaders else reqHeaders),
               q_cache = c, q_promise = cached_promise cached, q_sent = (cached = None)\<rparr>],
             pending := pending st @ [i]\<rparr>)"

text \<open>\<open>$http\<close> with \<open>serverRequest\<close>.\<close>

definition http_send :: "http_env \<Rightarrow> http_config \<Rightarrow> http \<Rightarrow> http_err + http" where
  "http_send env cfg0 st =
     (let headers = mergeHeaders env cfg0;
          method = map to_upper (case cfg_method cfg0 of Some m \<Rightarrow> m | None \<Rightarrow> ''get'');
          cfg = cfg0\<lparr>cfg_method := Some method, cfg_headers := headers\<rparr>
      in case transformData (cfg_data cfg) (JObj headers) (cfg_transformRequest cfg) of
           Inl e \<Rightarrow> Inl e
         | Inr d \<Rightarrow>
             let hs = (if d = JUndef then filter (\<lambda>(h, _). lowercase h \<noteq> ''content-type'') headers else headers)
             in Inr (sendReq env (cfg\<lparr>cfg_headers := hs\<rparr>) d hs st))"

text \<open>\<open>$http.get\<close>, \<open>$http.post\<close> and the like.\<close>

definition short_method :: "string \<Rightarrow> string \<Rightarrow> http_config \<Rightarrow> http_config" where
  "short_method name url cfg = cfg\<lparr>cfg_method := Some name, cfg_url := url\<rparr>"

definition short_method_data :: "string \<Rightarrow> string \<Rightarrow> jsval \<Rightarrow> http_config \<Rightarrow> http_config" where
  "short_method_data name url data cfg = cfg\<lparr>cfg_method := Some name, cfg_url := url, cfg_data := data\<rparr>"

definition final :: "http \<Rightarrow> nat \<Rightarrow> promise" where
  "final st i = (case q_promise (requests st ! i) of Follow j \<Rightarrow> q_promise (requests st ! j) | p \<Rightarrow> p)"

text \<open>A digest calls \<open>removePendingReq\<close> of the requests that have settled.\<close>

definition http_digest :: "http \<Rightarrow> http" where
  "http_digest st = st\<lparr>pending := filter (\<lambda>i. final st i = Waiting) (pending st)\<rparr>"

definition http_done :: "nat \<Rightarrow> int \<Rightarrow> jsval \<Rightarrow> jsval \<Rightarrow> string \<Rightarrow> bool \<Rightarrow> http \<Rightarrow> http" where
  "http_done i status response headers statusText in_phase st =
     (let q = requests st ! i;
          st1 = cache_write (q_cache q) (q_url q)
                  (if isSuccess status then Some (Response status response (headers_obj headers) statusText) else None) st;
          st2 = st1\<lparr>requests := (requests st)[i := q\<lparr>q_promise := settled_with response status headers statusText\<rparr>]\<rparr>
      in if in_phase then st2 else http_digest st2)"

text \<open>What the caller of \<open>$http\<close> is told: an exception of a transformation, or a response and
  whether it is a success.\<close>

definition http_result :: "http \<Rightarrow> nat \<Rightarrow> (http_err + bool \<times> raw_resp) option" where
  "http_result st i =
     (case final st i of
        Settled _ r \<Rightarrow>
          Some (case transformData (r_data r) (r_headers r) (cfg_transformResponse (q_config (requests st ! i))) of
            Inl e \<Rightarrow> Inl e
          | Inr d \<Rightarrow> Inr (isSuccess (r_status r), r\<lparr>r_data := d\<rparr>))
      | _ \<Rightarrow> None)"

section \<open>Runs\<close>

datatype http_event =
    Send http_config
  | Done nat int jsval jsval string bool
  | Digest
  | CachePut nat string jsval
  | CacheRemove nat string

fun http_step :: "http_env \<Rightarrow> http_event \<Rightarrow> http \<Rightarrow> http" where
  "http_step env (Send cfg) st = (case http_send env cfg st of Inl e \<Rightarrow> st | Inr st' \<Rightarrow> st')"
| "http_step env (Done i status response headers statusText in_phase) st =
     (if i < length (requests st) \<and> q_sent (requests st ! i) \<and> q_promise (requests st ! i) = Waiting
      then http_done i status response headers statusText in_phase st else st)"
| "http_step env Digest st = http_digest st"
| "http_step env (CachePut c url v) st = cache_write (Some c) url (Some (Plain v)) st"
| "http_step env (CacheRemove c url) st = cache_write (Some c) url None st"

definition http_run :: "http_env \<Rightarrow> http_event list \<Rightarrow> http \<Rightarrow> http" where
  "http_run env es st = fold (http_step env) es st"

end
