(* ===== verification/Ng_Http_Props.thy ===== *)
theory Ng_Http_Props
  imports Ng_Http
begin

text \<open>
  What \<open>$http\<close> does: JSON bodies survive the default transformations, interceptors are in
  order, and the requests, the cache and the list of pending requests stay consistent.
\<close>

section \<open>JSON bodies\<close>

text \<open>How the texts of values begin and end.\<close>

lemma digits_printable: "is_digit c \<Longrightarrow> printable c \<and> c \<notin> {CHR ''['', CHR ''{'', CHR '']'', CHR ''}'', CHR '')''}"
  by (auto simp: is_digit_def printable_def Let_def)

lemma json_ends:
  assumes "json_text st keep v = Some t"
  shows "t \<noteq> [] \<and> printable (hd t) \<and> printable (last t) \<and> hd t \<noteq> CHR '')'' \<and>
    (hd t = CHR ''['' \<longleftrightarrow> (\<exists>xs. v = JArr xs)) \<and> (hd t = CHR ''{'' \<longleftrightarrow> (\<exists>ob. v = JObj ob)) \<and>
    (last t = CHR ''}'' \<or> last t = CHR '']'' \<longleftrightarrow> isObject v)"
proof (cases v)
  case (JNum n)
  have d: "nat_digits k \<noteq> []" "is_digit (hd (nat_digits k))" "is_digit (last (nat_digits k))" for k
    using nat_digits_head [of k] by (auto simp: list_all_iff)
  with assms JNum digits_printable [OF d(2)] digits_printable [OF d(3)] show ?thesis
    by (cases "n < 0") (auto simp: itoa_def isObject_def typeof_object_def printable_def)
qed (use assms in \<open>auto simp: json_string_def printable_def isObject_def typeof_object_def split: if_splits\<close>)

lemma json_object_second:
  assumes "json_text st keep (JObj ob) = Some t"
  shows "tl t \<noteq> [] \<and> hd (tl t) \<noteq> CHR ''{''"
proof -
  let ?ts = "concat (map (\<lambda>(k, v). if \<not> keep k then []
      else case json_text st keep v of None \<Rightarrow> [] | Some t \<Rightarrow> [json_string st k @ CHR '':'' # t]) ob)"
  have t: "tl t = commas ?ts @ ''}''" using assms by auto
  show ?thesis
  proof (cases "?ts = []")
    case True
    show ?thesis unfolding t True by simp
  next
    case False
    have "\<forall>u \<in> set ?ts. u \<noteq> [] \<and> hd u = CHR 0x22" by (auto simp: json_string_def split: option.splits if_splits)
    with False have "hd ?ts \<noteq> []" "hd (hd ?ts) = CHR 0x22" using hd_in_set [OF False] by blast+
    with commas_head [OF False] have "commas ?ts \<noteq> []" "hd (commas ?ts) = CHR 0x22" by auto
    then show ?thesis unfolding t by (simp add: hd_append)
  qed
qed

lemma recognised:
  assumes "json_text st keep v = Some t"
  shows "json_start t \<and> json_end t \<longleftrightarrow> isObject v" "strip_prefix t = t"
proof -
  note ends = json_ends [OF assms]
  have first: "trim_left js_space id t = t" "trim_left js_space rev (rev t) = rev t"
    using ends space_at_printable [OF js_space_list, of t] space_at_printable [OF js_space_list, of "rev t"]
    by (subst trim_left.simps; simp add: hd_rev)+
  obtain c r where t: "t = c # r" using ends by (cases t) auto
  have "json_end t \<longleftrightarrow> isObject v"
    using ends first(2) by (cases "rev t") (auto simp: json_end_def hd_rev [symmetric])
  moreover have "isObject v \<Longrightarrow> json_start t"
    using ends first(1) json_object_second [of st keep _ t] assms t
    by (cases v) (auto simp: json_start_def isObject_def typeof_object_def)
  ultimately show "json_start t \<and> json_end t \<longleftrightarrow> isObject v" by blast
  show "strip_prefix t = t" using ends t by (auto simp: strip_prefix_def starts_with_def)
qed

lemma default_response:
  assumes "json_value keep v" "json_text st keep v = Some t"
  shows "default_transformResponse (JStr t) hs = Inr (if isObject v then v else JStr t)"
  using recognised [OF assms(2)] json_round_trip [OF assms] by (simp add: default_transformResponse_def)



section \<open>The order of interceptors\<close>

definition request_pairs :: "'a interceptor \<Rightarrow> 'a handler_pair list" where
  "request_pairs i = (if i_request i \<noteq> None \<or> i_requestError i \<noteq> None then [(i_request i, i_requestError i)] else [])"

definition response_pairs :: "'a interceptor \<Rightarrow> 'a handler_pair list" where
  "response_pairs i = (if i_response i \<noteq> None \<or> i_responseError i \<noteq> None then [(i_response i, i_responseError i)] else [])"

text \<open>Requests pass the interceptors in the order they were registered, responses in the opposite
  order.\<close>

lemma http_chain_order:
  "http_chain (reversedInterceptors ints []) server =
     concat (map request_pairs ints) @ [(Some server, None)] @ concat (map response_pairs (rev ints))"
proof -
  have "fold chain_link rs (xs @ [(Some server, None)] @ ys) =
      concat (map request_pairs (rev rs)) @ xs @ [(Some server, None)] @ ys @ concat (map response_pairs rs)" for rs xs ys
  proof (induction rs arbitrary: xs ys)
    case (Cons r rs)
    have "chain_link r (xs @ [(Some server, None)] @ ys) = (request_pairs r @ xs) @ [(Some server, None)] @ (ys @ response_pairs r)"
      by (simp add: chain_link_def request_pairs_def response_pairs_def Let_def)
    with Cons.IH [of "request_pairs r @ xs" "ys @ response_pairs r"] show ?case by simp
  qed simp
  from this [of "rev ints" "[]" "[]"] show ?thesis by (simp add: http_chain_def reversedInterceptors_def)
qed

section \<open>Requests in flight\<close>

definition in_flight :: "http \<Rightarrow> nat \<Rightarrow> bool" where
  "in_flight st i = (i < length (requests st) \<and> q_sent (requests st ! i) \<and> q_promise (requests st ! i) = Waiting)"

definition same_key :: "http \<Rightarrow> nat \<Rightarrow> nat \<Rightarrow> bool" where
  "same_key st i j = (q_url (requests st ! i) = q_url (requests st ! j) \<and> q_cache (requests st ! i) = q_cache (requests st ! j))"

definition request_ok :: "http \<Rightarrow> nat \<Rightarrow> bool" where
  "request_ok st i =
     (case q_promise (requests st ! i) of
        Waiting \<Rightarrow> q_sent (requests st ! i)
      | Settled ok r \<Rightarrow> ok = isSuccess (r_status r)
      | Follow j \<Rightarrow> j < i \<and> q_sent (requests st ! j) \<and> \<not> q_sent (requests st ! i) \<and> same_key st i j)"

definition cache_ok :: "http \<Rightarrow> bool" where
  "cache_ok st \<longleftrightarrow> (\<forall>c u i. http_cache st c u = Some (InFlight i) \<longrightarrow>
     in_flight st i \<and> q_url (requests st ! i) = u \<and> q_cache (requests st ! i) = Some c)"

definition pending_ok :: "http \<Rightarrow> bool" where
  "pending_ok st \<longleftrightarrow> distinct (pending st) \<and> set (pending st) \<subseteq> {..<length (requests st)} \<and>
     (\<forall>i < length (requests st). final st i = Waiting \<longrightarrow> i \<in> set (pending st))"

definition http_ok :: "http \<Rightarrow> bool" where
  "http_ok st \<longleftrightarrow> cache_ok st \<and> (\<forall>i < length (requests st). request_ok st i) \<and> pending_ok st"

definition single :: "http \<Rightarrow> bool" where
  "single st \<longleftrightarrow>
     (\<forall>i c. in_flight st i \<longrightarrow> q_cache (requests st ! i) = Some c \<longrightarrow> http_cache st c (q_url (requests st ! i)) \<noteq> None) \<and>
     (\<forall>i j. in_flight st i \<longrightarrow> in_flight st j \<longrightarrow> q_cache (requests st ! i) \<noteq> None \<longrightarrow> same_key st i j \<longrightarrow> i = j)"

lemma final_sent:
  assumes "request_ok st i" "q_sent (requests st ! i)"
  shows "final st i = q_promise (requests st ! i)"
  using assms by (auto simp: request_ok_def final_def split: promise.splits)

lemma ok_requests_cong:
  assumes "requests st' = requests st"
  shows "in_flight st' = in_flight st" "request_ok st' = request_ok st" "final st' = final st" "same_key st' = same_key st"
  using assms by (auto simp: in_flight_def request_ok_def final_def same_key_def fun_eq_iff split: promise.splits)

lemma http_okI:
  assumes "requests st' = requests st" "http_ok st" "pending_ok st'"
    and "\<And>c u i. http_cache st' c u = Some (InFlight i) \<Longrightarrow> http_cache st c u = Some (InFlight i)"
  shows "http_ok st'"
  using assms ok_requests_cong [OF assms(1)] by (simp add: http_ok_def cache_ok_def) blast

lemma ok_digest:
  assumes "http_ok st"
  shows "http_ok (http_digest st)"
proof (rule http_okI [OF _ assms])
  show r: "requests (http_digest st) = requests st" by (simp add: http_digest_def)
  show "pending_ok (http_digest st)"
    using assms ok_requests_cong(3) [OF r] by (auto simp: http_ok_def pending_ok_def http_digest_def)
qed (simp add: http_digest_def)

lemma single_digest: "single (http_digest st) = single st"
  by (simp add: single_def http_digest_def in_flight_def same_key_def)

lemma cache_write_simps [simp]:
  "requests (cache_write c u v st) = requests st" "pending (cache_write c u v st) = pending st"
  "http_cache (cache_write None u v st) = http_cache st"
  "http_cache (cache_write (Some k) u v st) k' w = (if k' = k \<and> w = u then v else http_cache st k' w)"
  by (simp_all add: cache_write_def split: option.split)

lemma ok_cache_write:
  assumes "http_ok st" "\<forall>i. v \<noteq> Some (InFlight i)"
  shows "http_ok (cache_write c u v st)"
proof (rule http_okI [OF _ assms(1)])
  show "pending_ok (cache_write c u v st)"
    using assms(1) ok_requests_cong(3) [of "cache_write c u v st" st] by (simp add: http_ok_def pending_ok_def)
  show "http_cache (cache_write c u v st) k w = Some (InFlight i) \<Longrightarrow> http_cache st k w = Some (InFlight i)" for k w i
    using assms(2) by (cases c) (auto split: if_splits)
qed simp

text \<open>Sending appends one request.\<close>

lemma nth_new:
  assumes "requests st' = requests st @ [q]"
  shows "i < length (requests st) \<Longrightarrow> requests st' ! i = requests st ! i" "requests st' ! length (requests st) = q"
    "length (requests st') = Suc (length (requests st))"
  using assms by (simp_all add: nth_append)

lemma sendReq_shape:
  fixes env :: http_env and cfg :: http_config and d :: jsval and hs :: jsobj and st :: http
  defines "st' \<equiv> sendReq env cfg d hs st"
  obtains q cached where "requests st' = requests st @ [q]" "pending st' = pending st @ [length (requests st)]"
    "cached = cache_read st (q_cache q) (q_url q)" "q_promise q = cached_promise cached" "q_sent q = (cached = None)"
    "q_cache q = uses_cache env cfg" "q_url q = buildUrl (cfg_url cfg) (cfg_params cfg)" "q_config q = cfg"
    "http_cache st' = (if cached = None then http_cache (cache_write (q_cache q) (q_url q) (Some (InFlight (length (requests st)))) st)
       else http_cache st)"
proof -
  let ?url = "buildUrl (cfg_url cfg) (cfg_params cfg)" and ?c = "uses_cache env cfg"
  let ?cached = "cache_read st ?c ?url"
  show ?thesis
    by (rule that [of "last (requests st')" ?cached]) (simp_all add: st'_def sendReq_def Let_def)
qed

lemma ok_sendReq:
  assumes "http_ok st"
  shows "http_ok (sendReq env cfg d hs st)"
proof -
  let ?st' = "sendReq env cfg d hs st" and ?n = "length (requests st)"
  obtain q cached where q: "requests ?st' = requests st @ [q]" "pending ?st' = pending st @ [?n]"
    "cached = cache_read st (q_cache q) (q_url q)" "q_promise q = cached_promise cached" "q_sent q = (cached = None)"
    "http_cache ?st' = (if cached = None then http_cache (cache_write (q_cache q) (q_url q) (Some (InFlight ?n)) st)
       else http_cache st)"
    by (rule sendReq_shape)
  note nth = nth_new [OF q(1)]
  have old: "cache_ok st" "\<And>i. i < ?n \<Longrightarrow> request_ok st i" "pending_ok st" using assms by (simp_all add: http_ok_def)
  have follow: "j < ?n \<and> q_sent (requests st ! j) \<and> q_url (requests st ! j) = q_url q \<and> q_cache (requests st ! j) = q_cache q \<and>
      q_promise (requests st ! j) = Waiting"
    if "q_promise q = Follow j" for j
  proof -
    have "cached = Some (InFlight j)" using that q(4)
      by (auto simp: cached_promise_def settled_with_def Let_def split: option.splits cache_value.splits)
    then have "\<exists>c. q_cache q = Some c \<and> http_cache st c (q_url q) = Some (InFlight j)"
      using q(3) by (auto simp: cache_read_def split: option.splits)
    with old(1) show ?thesis by (auto simp: cache_ok_def in_flight_def)
  qed
  have fl: "in_flight ?st' i \<longleftrightarrow> in_flight st i \<or> i = ?n \<and> cached = None" for i
    using nth q(4,5) by (auto simp: in_flight_def cached_promise_def less_Suc_eq)
  have final: "i < ?n \<Longrightarrow> final ?st' i = final st i" for i
  proof -
    assume i: "i < ?n"
    then have "\<And>j. q_promise (requests st ! i) = Follow j \<Longrightarrow> j < ?n" using old(2) [OF i] by (auto simp: request_ok_def)
    with nth i show "final ?st' i = final st i" by (auto simp: final_def split: promise.split)
  qed
  have "cache_ok ?st'"
    using old(1) fl nth q(3,6) unfolding cache_ok_def
    by (cases "q_cache q") (auto simp: cache_read_def in_flight_def split: if_splits)
  moreover have "request_ok ?st' i" if "i < Suc ?n" for i
  proof (cases "i = ?n")
    case True
    show ?thesis
    proof (cases "q_promise q")
      case (Follow j)
      then have "\<not> q_sent q" using q(4,5) by (auto simp: cached_promise_def)
      with follow [OF Follow] nth(1,2) True Follow show ?thesis by (simp add: request_ok_def same_key_def)
    qed (use nth True q(4,5) in \<open>auto simp: request_ok_def cached_promise_def settled_with_def Let_def
          split: option.splits cache_value.splits\<close>)
  next
    case False
    with that have i: "i < ?n" by simp
    then have "\<And>j. q_promise (requests st ! i) = Follow j \<Longrightarrow> j < ?n" using old(2) [OF i] by (auto simp: request_ok_def)
    with nth i old(2) [OF i] show ?thesis by (auto simp: request_ok_def same_key_def split: promise.splits)
  qed
  moreover have "pending_ok ?st'"
    using old(3) nth(3) q(2) final by (auto simp: pending_ok_def less_Suc_eq)
  ultimately show ?thesis using nth(3) by (simp add: http_ok_def)
qed


lemma single_sendReq:
  assumes "http_ok st" "single st"
  shows "single (sendReq env cfg d hs st)"
proof -
  let ?st' = "sendReq env cfg d hs st" and ?n = "length (requests st)"
  obtain q cached where q: "requests ?st' = requests st @ [q]" 
    "cached = cache_read st (q_cache q) (q_url q)" "q_promise q = cached_promise cached" "q_sent q = (cached = None)"
    "http_cache ?st' = (if cached = None then http_cache (cache_write (q_cache q) (q_url q) (Some (InFlight ?n)) st)
       else http_cache st)"
    by (rule sendReq_shape)
  note nth = nth_new [OF q(1)]
  have fl: "in_flight ?st' i \<longleftrightarrow> in_flight st i \<or> i = ?n \<and> cached = None" for i
    using nth q(3,4) by (auto simp: in_flight_def cached_promise_def less_Suc_eq)
  have lt: "in_flight st i \<Longrightarrow> i < ?n" for i by (simp add: in_flight_def)
  have new: "\<not> same_key ?st' i ?n" if "in_flight st i" "cached = None" "q_cache q \<noteq> None" for i
    using that assms(2) nth lt [OF that(1)] q(2) by (auto simp: single_def same_key_def cache_read_def)
  show ?thesis
    unfolding single_def
  proof (intro conjI allI impI)
    fix i c
    assume "in_flight ?st' i" "q_cache (requests ?st' ! i) = Some c"
    then show "http_cache ?st' c (q_url (requests ?st' ! i)) \<noteq> None"
      using assms(2) fl nth lt q(5) unfolding single_def by (cases "q_cache q") auto
  next
    fix i j
    assume ij: "in_flight ?st' i" "in_flight ?st' j" "q_cache (requests ?st' ! i) \<noteq> None" "same_key ?st' i j"
    then have sym: "same_key ?st' j i" "q_cache (requests ?st' ! j) \<noteq> None" by (simp_all add: same_key_def)
    from ij fl consider "in_flight st i" "in_flight st j" | "in_flight st i" "j = ?n" "cached = None"
      | "i = ?n" "cached = None" "in_flight st j" | "i = ?n" "j = ?n"
      by blast
    then show "i = j"
    proof cases
      case 1
      with ij assms(2) nth lt show ?thesis by (auto simp: single_def same_key_def)
    next
      case 2
      with new [OF 2(1,3)] ij sym nth show ?thesis by auto
    next
      case 3
      with new [OF 3(3,2)] ij sym nth show ?thesis by auto
    qed simp
  qed
qed

text \<open>An answer settles one request, and those that follow it.\<close>

definition settle :: "nat \<Rightarrow> promise \<Rightarrow> http \<Rightarrow> http" where
  "settle i p st = st\<lparr>requests := (requests st)[i := (requests st ! i)\<lparr>q_promise := p\<rparr>]\<rparr>"

lemma settle_nth:
  assumes "i < length (requests st)"
  shows "q_promise (requests (settle i p st) ! j) = (if j = i then p else q_promise (requests st ! j))"
    "q_sent (requests (settle i p st) ! j) = q_sent (requests st ! j)"
    "q_url (requests (settle i p st) ! j) = q_url (requests st ! j)"
    "q_cache (requests (settle i p st) ! j) = q_cache (requests st ! j)"
    "q_config (requests (settle i p st) ! j) = q_config (requests st ! j)"
    "length (requests (settle i p st)) = length (requests st)"
  using assms by (simp_all add: settle_def nth_list_update)

lemma settle_final:
  assumes "http_ok st" "in_flight st i" "p = settled_with r s h t" "j < length (requests st)"
  shows "final (settle i p st) j = (if j = i \<or> q_promise (requests st ! j) = Follow i then p else final st j)"
proof -
  have i: "i < length (requests st)" "q_promise (requests st ! i) = Waiting" using assms(2) by (simp_all add: in_flight_def)
  show ?thesis
    using assms(3) settle_nth [OF i(1)] i(2) by (auto simp: final_def settled_with_def Let_def split: promise.split)
qed

lemma ok_settle:
  assumes "http_ok st" "in_flight st i" "p = settled_with r s h t" "\<forall>c u. http_cache st c u \<noteq> Some (InFlight i)"
  shows "http_ok (settle i p st)"
proof -
  have i: "i < length (requests st)" "q_promise (requests st ! i) = Waiting" using assms(2) by (simp_all add: in_flight_def)
  note nth = settle_nth [OF i(1)]
  have fl: "in_flight (settle i p st) j \<longleftrightarrow> in_flight st j \<and> j \<noteq> i" for j
    using nth assms(3) by (auto simp: in_flight_def settled_with_def Let_def)
  have cache: "http_cache (settle i p st) = http_cache st" "pending (settle i p st) = pending st" by (simp_all add: settle_def)
  have "cache_ok (settle i p st)"
    using assms(1,4) fl nth cache by (auto simp: http_ok_def cache_ok_def)
  moreover have "request_ok (settle i p st) j" if "j < length (requests st)" for j
  proof -
    have "request_ok st j" using assms(1) that by (simp add: http_ok_def)
    then show ?thesis using nth assms(3)
      by (cases "j = i") (auto simp: request_ok_def same_key_def settled_with_def Let_def split: promise.splits)
  qed
  moreover have "p \<noteq> Waiting" by (simp add: assms(3) settled_with_def Let_def)
  then have "pending_ok (settle i p st)"
    using assms(1) settle_final [OF assms(1-3)] nth(6) cache i(2)
    by (auto simp: http_ok_def pending_ok_def split: if_splits)
  ultimately show ?thesis using nth(6) by (simp add: http_ok_def)
qed

definition answer :: "int \<Rightarrow> jsval \<Rightarrow> jsval \<Rightarrow> string \<Rightarrow> cache_value option" where
  "answer status response headers statusText =
     (if isSuccess status then Some (Response status response (headers_obj headers) statusText) else None)"

lemma http_done_eq:
  "http_done i status response headers statusText in_phase st =
    (let st2 = settle i (settled_with response status headers statusText)
           (cache_write (q_cache (requests st ! i)) (q_url (requests st ! i)) (answer status response headers statusText) st)
     in if in_phase then st2 else http_digest st2)"
  by (simp add: http_done_def settle_def answer_def Let_def)


lemma ok_http_done:
  assumes "http_ok st" "in_flight st i"
  shows "http_ok (http_done i status response headers statusText in_phase st)"
proof -
  let ?q = "requests st ! i"
  let ?st1 = "cache_write (q_cache ?q) (q_url ?q) (answer status response headers statusText) st"
  have ok: "http_ok ?st1" by (rule ok_cache_write [OF assms(1)]) (simp add: answer_def)
  have fl: "in_flight ?st1 i" using assms(2) by (simp add: in_flight_def)
  have "http_cache ?st1 c u \<noteq> Some (InFlight i)" for c u
  proof
    assume hit: "http_cache ?st1 c u = Some (InFlight i)"
    have "cache_ok ?st1" using ok by (simp only: http_ok_def)
    with hit have "q_url (requests ?st1 ! i) = u \<and> q_cache (requests ?st1 ! i) = Some c" unfolding cache_ok_def by blast
    then have "q_url ?q = u" "q_cache ?q = Some c" by simp_all
    with hit show False by (simp add: answer_def split: if_splits)
  qed
  then have "http_ok (settle i (settled_with response status headers statusText) ?st1)"
    by (intro ok_settle [OF ok fl refl]) blast
  then show ?thesis using ok_digest by (simp add: http_done_eq Let_def)
qed

lemma single_http_done:
  assumes "single st" "in_flight st i"
  shows "single (http_done i status response headers statusText in_phase st)"
proof -
  let ?q = "requests st ! i" and ?p = "settled_with response status headers statusText"
  let ?st1 = "cache_write (q_cache ?q) (q_url ?q) (answer status response headers statusText) st"
  let ?st2 = "settle i ?p ?st1"
  have i: "i < length (requests ?st1)" using assms(2) by (simp add: in_flight_def)
  note nth = settle_nth [OF i]
  have p: "?p \<noteq> Waiting" by (simp add: settled_with_def Let_def)
  have fl: "in_flight ?st2 j \<longleftrightarrow> in_flight st j \<and> j \<noteq> i" for j
    using nth p by (auto simp: in_flight_def)
  have cache: "http_cache ?st2 = http_cache ?st1" by (simp add: settle_def)
  have "single ?st2"
    unfolding single_def
  proof (intro conjI allI impI)
    fix j c
    assume j: "in_flight ?st2 j" "q_cache (requests ?st2 ! j) = Some c"
    have old: "http_cache st c (q_url (requests st ! j)) \<noteq> None" "same_key st j i \<Longrightarrow> j = i"
      using assms j fl nth by (auto simp: single_def)
    have "\<not> (q_cache ?q = Some c \<and> q_url ?q = q_url (requests st ! j))"
      using old(2) j fl nth by (auto simp: same_key_def)
    with old(1) show "http_cache ?st2 c (q_url (requests ?st2 ! j)) \<noteq> None"
      using nth unfolding cache by (cases "q_cache ?q") auto
  next
    fix j k
    assume "in_flight ?st2 j" "in_flight ?st2 k" "q_cache (requests ?st2 ! j) \<noteq> None" "same_key ?st2 j k"
    with assms(1) fl nth show "j = k" by (auto simp: single_def same_key_def)
  qed
  then show ?thesis by (simp add: http_done_eq Let_def single_digest)
qed

lemma ok_http_step: "http_ok st \<Longrightarrow> http_ok (http_step env e st)"
  by (cases e) (auto simp: http_send_def Let_def ok_digest ok_cache_write in_flight_def
      intro: ok_sendReq ok_http_done split: sum.split)

lemma single_http_step:
  assumes "http_ok st" "single st" "\<forall>c u. e \<noteq> CacheRemove c u"
  shows "single (http_step env e st)"
proof (cases e)
  case (CachePut c u v)
  have "single (cache_write (Some c) u (Some (Plain v)) st)"
    using assms(2) by (auto simp: single_def in_flight_def same_key_def)
  then show ?thesis by (simp add: CachePut)
qed (use assms in \<open>auto simp: http_send_def Let_def single_digest in_flight_def
      intro: single_sendReq single_http_done split: sum.split\<close>)

lemma http_run_ok:
  "http_ok (http_run env es http_start)"
  "\<forall>e \<in> set es. \<forall>c u. e \<noteq> CacheRemove c u \<Longrightarrow> single (http_run env es http_start)"
proof -
  have start: "http_ok http_start" "single http_start"
    by (simp_all add: http_start_def http_ok_def cache_ok_def pending_ok_def single_def in_flight_def)
  have ok: "http_ok st \<Longrightarrow> http_ok (fold (http_step env) es st)" for st es
    by (induction es arbitrary: st) (simp_all add: ok_http_step)
  show "http_ok (http_run env es http_start)" using ok [OF start(1)] by (simp add: http_run_def)
  have "\<forall>e \<in> set es. \<forall>c u. e \<noteq> CacheRemove c u \<Longrightarrow> http_ok st \<Longrightarrow> single st \<Longrightarrow> single (fold (http_step env) es st)" for st
  proof (induction es arbitrary: st)
    case (Cons e es)
    have "single (http_step env e st)" using Cons.prems by (intro single_http_step) auto
    with Cons ok_http_step [OF Cons.prems(2)] show ?case by simp
  qed simp
  with start show "\<forall>e \<in> set es. \<forall>c u. e \<noteq> CacheRemove c u \<Longrightarrow> single (http_run env es http_start)"
    by (simp add: http_run_def)
qed

section \<open>Properties of requests\<close>


text \<open>C21: One answer serves all that wait for it: when the backend answers a request, this request
  and exactly those that follow it settle, all with the same response, and are no longer
  pending after the digest; a success is kept in the cache, so that a later request for its
  URL is settled with it at once and not sent, and after a failure it is sent again.\<close>

theorem http_answer_shared:
  assumes "st = http_run env es http_start" "in_flight st i" "q_cache (requests st ! i) = Some c"
    and "st' = http_step env (Done i status response headers statusText False) st"
    and "uses_cache env cfg = Some c" "buildUrl (cfg_url cfg) (cfg_params cfg) = q_url (requests st ! i)"
  shows "(\<forall>j < length (requests st).
      final st' j = (if j = i \<or> q_promise (requests st ! j) = Follow i
        then settled_with response status headers statusText else final st j) \<and>
      (j \<in> set (pending st') \<longleftrightarrow> final st' j = Waiting)) \<and>
    (let q = requests (sendReq env cfg d hs st') ! length (requests st) in
      q_sent q = (\<not> isSuccess status) \<and>
      (isSuccess status \<longrightarrow> q_promise q = settled_with response status (JObj (headers_obj headers)) statusText))"
proof -
  have ok: "http_ok st" unfolding assms(1) by (rule http_run_ok)
  let ?q = "requests st ! i" and ?p = "settled_with response status headers statusText"
  let ?st1 = "cache_write (q_cache ?q) (q_url ?q) (answer status response headers statusText) st"
  let ?st2 = "settle i ?p ?st1"
  have i: "i < length (requests st)" "q_sent ?q" "q_promise ?q = Waiting" using assms(2) by (simp_all add: in_flight_def)
  then have st': "st' = http_digest ?st2" by (simp add: assms(4) http_done_eq Let_def)
  have ok1: "http_ok ?st1" by (rule ok_cache_write [OF ok]) (simp add: answer_def)
  have fl: "in_flight ?st1 i" using assms(2) by (simp add: in_flight_def)
  have reqs: "requests st' = requests ?st2" "final st' = final ?st2"
    using ok_requests_cong(3) [of st' ?st2] by (simp_all add: st' http_digest_def)
  have len: "length (requests st') = length (requests st)" by (simp add: reqs(1) settle_def)
  have f: "final st' j = (if j = i \<or> q_promise (requests st ! j) = Follow i then ?p else final st j)"
    if "j < length (requests st)" for j
    using settle_final [OF ok1 fl refl, of j] that ok_requests_cong(3) [of ?st1 st] by (simp add: reqs(2))
  have "http_ok st'" using ok_http_done [OF ok assms(2)] i by (simp add: assms(4))
  then have "j \<in> set (pending st') \<longleftrightarrow> final st' j = Waiting" if "j < length (requests st)" for j
    using that len reqs(2) by (auto simp: http_ok_def pending_ok_def st' http_digest_def)
  with f have "\<forall>j < length (requests st).
      final st' j = (if j = i \<or> q_promise (requests st ! j) = Follow i then ?p else final st j) \<and>
      (j \<in> set (pending st') \<longleftrightarrow> final st' j = Waiting)" by blast
  moreover have cached: "cache_read st' (uses_cache env cfg) (buildUrl (cfg_url cfg) (cfg_params cfg)) =
      answer status response headers statusText"
    using assms(3,5,6) by (simp add: cache_read_def st' http_digest_def settle_def)
  ultimately show ?thesis
    using len by (simp add: sendReq_def Let_def nth_append answer_def cached_promise_def)
qed

definition demo_env :: http_env where
  "demo_env = default_env (\<lambda>_. JUndef) (\<lambda>_. None) (\<lambda>_. True)"

definition demo_get :: http_config where
  "demo_get = \<lparr>cfg_method = Some ''GET'', cfg_url = ''/a'', cfg_params = None, cfg_data = JUndef, cfg_headers = [],
     cfg_cache = CacheTrue, cfg_transformRequest = [], cfg_transformResponse = [], cfg_xsrfCookieName = None,
     cfg_xsrfHeaderName = None\<rparr>"

abbreviation demo_run :: http where
  "demo_run \<equiv> http_run demo_env [Send demo_get, Send demo_get] http_start"

lemma demo_requests:
  "length (requests demo_run) = 2" "q_promise (requests demo_run ! 0) = Waiting" "q_sent (requests demo_run ! 0)"
  "q_cache (requests demo_run ! 0) = Some 0" "q_url (requests demo_run ! 0) = ''/a''"
  "q_promise (requests demo_run ! 1) = Follow 0" "\<not> q_sent (requests demo_run ! 1)"
  by (simp_all add: http_run_def http_start_def http_send_def demo_get_def demo_env_def default_env_def Let_def sendReq_def
      uses_cache_def wants_cache_def buildUrl_def cache_read_def cache_write_def cached_promise_def to_upper_def)


theorem http_answer_shared_witness:
  "final (http_step demo_env (Done 0 200 (JStr ''x'') (JStr []) ''OK'' False) demo_run) 1 =
     settled_with (JStr ''x'') 200 (JStr []) ''OK''"
proof -
  have "in_flight demo_run 0" using demo_requests by (simp add: in_flight_def)
  moreover have "uses_cache demo_env demo_get = Some 0" "buildUrl (cfg_url demo_get) (cfg_params demo_get) = ''/a''"
    by (simp_all add: uses_cache_def wants_cache_def demo_get_def buildUrl_def demo_env_def default_env_def)
  ultimately show ?thesis
    using http_answer_shared [OF refl _ demo_requests(4) refl, where cfg = demo_get] demo_requests by simp
qed

end
