(* ===== verification/Console.thy ===== *)
theory Console
  imports Ng_Resource
begin

text \<open>
  The web console (\<^verbatim>\<open>static/scripts/main.js\<close>): the resources it declares, the overview
  page with its chart of operations per second, and the dialogs of the room page. A
  dialog closes with the object of its form, or with null when it is cancelled; a truthy
  result becomes one request.
\<close>

section \<open>Configuration\<close>

record ng_config =
  startSymbol :: string
  endSymbol :: string
  useXDomain :: bool
  common_headers :: jsobj

definition console_config :: "ng_config \<Rightarrow> ng_config" where
  "console_config c = c\<lparr>startSymbol := ''[['', endSymbol := '']]'', useXDomain := True,
     common_headers := obj_del ''X-Requested-With'' (common_headers c)\<rparr>"

section \<open>Resources\<close>

definition auth_headers :: jsobj where
  "auth_headers = [(''X-Auth-Key'', JStr ''12345''), (''X-Auth-Secret'', JStr ''secret'')]"

definition server_rooms_actions :: jsobj where
  "server_rooms_actions =
     [(''query'', JObj [(''method'', JStr ''GET''), (''isArray'', JBool True), (''headers'', JObj auth_headers)]),
      (''create'', JObj [(''method'', JStr ''PUT'')])]"

definition broadcast_actions :: jsobj where
  "broadcast_actions =
     [(''query'', JObj [(''method'', JStr ''GET''), (''isArray'', JBool True)]),
      (''broadcast'', JObj [(''method'', JStr ''POST''), (''url'', JStr ''/api/broadcast_all'')]),
      (''broadPeers'', JObj [(''method'', JStr ''POST''), (''url'', JStr ''/api/broadcast_peers'')])]"

definition slot_actions :: jsobj where
  "slot_actions =
     [(''rangeSet'', JObj [(''method'', JStr ''POST'')]),
      (''broadSet'', JObj [(''method'', JStr ''POST''), (''url'', JStr ''/api/broadcast_set'')]),
      (''viewRoom'', JObj [(''method'', JStr ''GET''), (''url'', JStr ''/api/room/:room_id''),
         (''params'', JObj [(''room_id'', JStr ''@room_id'')]), (''isArray'', JBool True)])]"

record factory =
  f_route :: route
  f_actions :: jsobj

definition resource_factory :: "string \<Rightarrow> jsobj \<Rightarrow> factory" where
  "resource_factory url actions =
     \<lparr>f_route = new_route url [], f_actions = extend1 (extend1 [] default_actions) actions\<rparr>"

definition ServerRoomsFactory :: factory where
  "ServerRoomsFactory = resource_factory ''/api/server_rooms'' server_rooms_actions"

definition BroadcastFactory :: factory where
  "BroadcastFactory = resource_factory ''/api/broadcast_all'' broadcast_actions"

definition SlotFactory :: factory where
  "SlotFactory = resource_factory ''/api/broadcast_range'' slot_actions"

definition factory_call :: "factory \<Rightarrow> string \<Rightarrow> jsval list \<Rightarrow> ng_err + (jsobj \<times> call_args \<times> resval)" where
  "factory_call f name args =
     resource_call (\<lambda>_. JUndef) (f_route f) [] (obj_fields (js_prop (JObj (f_actions f)) name)) (JFun 0 []) args"

section \<open>The overview page\<close>

type_synonym point = "int \<times> jsval"

text \<open>\<open>chart_ops\<close> is \<open>$scope.chartOps\<close> with the data of its only series, which the poll
  updates, kept apart in \<open>chart_data\<close>.\<close>

record overview =
  ov_scope :: jsobj
  chart_ops :: jsobj
  chart_data :: "point list"

definition overview_init :: overview where
  "overview_init = \<lparr>ov_scope = [],
     chart_ops =
       [(''options'', JObj [(''global'', JObj [(''useUTC'', JBool False)]),
           (''chart'', JObj [(''useUTC'', JBool False), (''type'', JStr ''spline'')])]),
        (''series'', JArr [JObj [(''name'', JStr ''OP/s''), (''data'', JArr [])]]),
        (''title'', JObj [(''text'', JStr ''OP/s'')]),
        (''xAxis'', JObj [(''type'', JStr ''datetime''), (''title'', JObj [(''text'', JStr ''Time'')])]),
        (''yAxis'', JObj [(''title'', JObj [(''text'', JStr ''value'')])])],
     chart_data = []\<rparr>"

definition refreshChart :: "int \<Rightarrow> jsval \<Rightarrow> point list \<Rightarrow> point list" where
  "refreshChart now data seriesArray =
     (let s = (if length seriesArray > 20 then tl seriesArray else seriesArray) in s @ [(now, data)])"

definition overview_keys :: "string list" where
  "overview_keys = [''product'', ''hub_room_cnt'', ''online_peer_cnt'', ''total_br_msg_cnt'',
     ''total_br_msg_size'', ''br_msg_avg_time'', ''cpu_cores'', ''go_routines'', ''go_version'',
     ''process_id'', ''ops'']"

text \<open>\<open>v >= 0\<close>; the conversion of strings to numbers is a parameter (None for NaN).\<close>

fun ge0 :: "(string \<Rightarrow> int option) \<Rightarrow> jsval \<Rightarrow> bool" where
  "ge0 tonum (JNum n) = (0 \<le> n)"
| "ge0 tonum JNull = True"
| "ge0 tonum (JBool b) = True"
| "ge0 tonum (JStr s) = (case tonum s of Some n \<Rightarrow> 0 \<le> n | None \<Rightarrow> False)"
| "ge0 tonum (JArr xs) = (case tonum (js_join xs) of Some n \<Rightarrow> 0 \<le> n | None \<Rightarrow> False)"
| "ge0 tonum _ = False"

definition overview_success :: "(string \<Rightarrow> int option) \<Rightarrow> int \<Rightarrow> jsval \<Rightarrow> overview \<Rightarrow> overview" where
  "overview_success tonum now succData ov =
     (let scope1 = fold (\<lambda>k. obj_put k (js_prop succData k)) overview_keys (ov_scope ov);
          ops = js_prop succData ''ops'';
          shown = (if ops \<noteq> JUndef \<and> ge0 tonum ops then ops else JNum 0)
      in ov\<lparr>ov_scope := obj_put ''ops'' shown scope1,
            chart_data := refreshChart now shown (chart_data ov)\<rparr>)"

text \<open>The three-second poll: each answer that arrives is a step.\<close>

definition overview_run :: "(string \<Rightarrow> int option) \<Rightarrow> (int \<times> jsval) list \<Rightarrow> overview \<Rightarrow> overview" where
  "overview_run tonum = fold (\<lambda>(now, d). overview_success tonum now d)"

definition overview_request :: jsobj where
  "overview_request = [(''url'', JStr ''/api/overview''), (''method'', JStr ''GET''), (''headers'', JObj auth_headers)]"

section \<open>The dialogs of the room page\<close>

datatype dialog = BroadPeers | BroadcastAllRoom | RangeSet | BroadSet

fun dialog_task :: "dialog \<Rightarrow> jsval" where
  "dialog_task BroadPeers = JObj [(''peers'', JStr ''''), (''br_msg'', JStr '''')]"
| "dialog_task BroadcastAllRoom = JUndef"
| "dialog_task RangeSet = JObj [(''from'', JStr ''-1''), (''to'', JStr ''-1''), (''msg'', JStr '''')]"
| "dialog_task BroadSet = JObj [(''from'', JStr ''''), (''msg'', JStr '''')]"

datatype dialog_button = Ok jsval | Cancel

fun dialog_result :: "dialog_button \<Rightarrow> jsval" where
  "dialog_result (Ok task) = task"
| "dialog_result Cancel = JNull"

text \<open>The callbacks: 1 alerts \<open>success\<close>, 2 alerts the data of the failed response.\<close>

definition alert_callbacks :: "jsval list" where
  "alert_callbacks = [JFun 1 [], JFun 2 []]"

fun dialog_action :: "dialog \<Rightarrow> factory \<times> string" where
  "dialog_action BroadPeers = (BroadcastFactory, ''broadPeers'')"
| "dialog_action BroadcastAllRoom = (BroadcastFactory, ''broadcast'')"
| "dialog_action RangeSet = (SlotFactory, ''rangeSet'')"
| "dialog_action BroadSet = (SlotFactory, ''broadSet'')"

definition dialog_close :: "dialog \<Rightarrow> dialog_button \<Rightarrow> (ng_err + (jsobj \<times> call_args \<times> resval)) option" where
  "dialog_close d b =
     (let task = dialog_result b in
      if truthy task then
        (let (f, name) = dialog_action d in Some (factory_call f name (task # alert_callbacks)))
      else None)"

fun alert_of :: "res_effect \<Rightarrow> jsval" where
  "alert_of (CallSuccess _ v) = JStr ''success''"
| "alert_of (CallError _ failedData) = js_prop failedData ''data''"

definition dialog_alerts :: "dialog \<Rightarrow> call_args \<Rightarrow> resval \<Rightarrow> http_result \<Rightarrow> jsval list" where
  "dialog_alerts d ca value res =
     (let (f, name) = dialog_action d;
          (v, effects, ok) = resource_settle (obj_fields (js_prop (JObj (f_actions f)) name)) ca res value
      in map alert_of effects)"

text \<open>The room dialog asks for the peers of a room as soon as it opens.\<close>

definition checkRoom :: "jsval \<Rightarrow> ng_err + (jsobj \<times> call_args \<times> resval)" where
  "checkRoom room = factory_call SlotFactory ''viewRoom'' [room, JFun 3 [], JFun 2 []]"

definition server_rooms_query :: "ng_err + (jsobj \<times> call_args \<times> resval)" where
  "server_rooms_query = factory_call ServerRoomsFactory ''query'' []"

section \<open>Evaluating the resource tables\<close>

lemmas factory_defs = factory_call_def ServerRoomsFactory_def BroadcastFactory_def SlotFactory_def
  resource_factory_def server_rooms_actions_def broadcast_actions_def slot_actions_def default_actions_def
  js_prop_def obj_get_def obj_fields_def

definition dialog_url :: "dialog \<Rightarrow> string" where
  "dialog_url d = (case d of BroadPeers \<Rightarrow> ''/api/broadcast_peers'' | BroadcastAllRoom \<Rightarrow> ''/api/broadcast_all''
     | RangeSet \<Rightarrow> ''/api/broadcast_range'' | BroadSet \<Rightarrow> ''/api/broadcast_set'')"

definition dialog_act :: "dialog \<Rightarrow> jsobj" where
  "dialog_act d = (let (f, name) = dialog_action d in obj_fields (js_prop (JObj (f_actions f)) name))"

lemma dialog_act_eq:
  "dialog_act BroadPeers = [(''method'', JStr ''POST''), (''url'', JStr ''/api/broadcast_peers'')]"
  "dialog_act BroadcastAllRoom = [(''method'', JStr ''POST''), (''url'', JStr ''/api/broadcast_all'')]"
  "dialog_act RangeSet = [(''method'', JStr ''POST'')]"
  "dialog_act BroadSet = [(''method'', JStr ''POST''), (''url'', JStr ''/api/broadcast_set'')]"
  by (simp_all add: dialog_act_def factory_defs)

lemma has_body_post: "has_body ((''method'', JStr ''POST'') # act)"
proof -
  have "map to_lower ''POST'' = ''post''" by code_simp
  then show ?thesis by (simp only: has_body_def js_prop_def obj_get_def) simp
qed

lemma dialog_has_body: "has_body (dialog_act d)"
  by (cases d) (simp_all only: dialog_act_eq has_body_post)

lemma dialog_route_url:
  "setUrlParams (f_route (fst (dialog_action d))) params (js_str_prop (dialog_act d) ''url'') =
    Inr (dialog_url d, filter (\<lambda>(k, v). k \<notin> set object_proto) params)"
proof (rule setUrlParams_static)
  show "dialog_url d = (if js_str_prop (dialog_act d) ''url'' \<noteq> [] then js_str_prop (dialog_act d) ''url''
      else template (f_route (fst (dialog_action d))))"
    by (cases d) (simp_all add: dialog_act_eq dialog_url_def js_str_prop_def obj_get_def
        SlotFactory_def resource_factory_def new_route_def)
  show "dialog_url d = CHR ''/'' # tl (dialog_url d)" by (cases d) (simp_all add: dialog_url_def)
  show "last (dialog_url d) \<noteq> CHR ''/''" "CHR '':'' \<notin> set (dialog_url d)" "CHR ''.'' \<notin> set (dialog_url d)"
      "CHR 0x5C \<notin> set (dialog_url d)"
    by (cases d; simp add: dialog_url_def)+
  show "list_all (\<lambda>w. w \<noteq> ''hasOwnProperty'') (js_split (\<lambda>c. \<not> is_word c) (dialog_url d))"
    by (cases d) (simp_all add: dialog_url_def is_word_def is_alpha_def is_digit_def)
qed

lemma dialog_request:
  "resource_request call (f_route (fst (dialog_action d))) [] (dialog_act d)
     (no_args\<lparr>ca_data := task, ca_success := sf, ca_error := ef\<rparr>) =
   Inr (obj_put ''url'' (JStr (dialog_url d)) (obj_put ''data'' task (dialog_act d)))"
proof -
  have "action_config (dialog_act d) = dialog_act d"
    by (cases d) (simp_all add: dialog_act_eq action_config_def)
  moreover have "js_prop (JObj (dialog_act d)) ''params'' = JUndef"
    by (cases d) (simp_all add: dialog_act_eq js_prop_def obj_get_def inherited_def object_proto_def)
  ultimately show ?thesis
    by (simp add: resource_request_def dialog_has_body extractParams_def dialog_route_url no_args_def
        obj_fields_def Let_def)
qed

lemma dialog_close_ok:
  assumes "truthy task" "\<not> isFunction task"
  shows "dialog_close d (Ok task) = Some (Inr
    (obj_put ''url'' (JStr (dialog_url d)) (obj_put ''data'' task (dialog_act d)),
     no_args\<lparr>ca_data := task, ca_success := JFun 1 [], ca_error := JFun 2 []\<rparr>,
     set_member ''$resolved'' (JBool False)
       (set_member ''$promise'' (JFun 0 []) (initial_value (dialog_act d) task))))"
proof -
  obtain f name where f: "dialog_action d = (f, name)" by force
  then have act: "obj_fields (js_prop (JObj (f_actions f)) name) = dialog_act d"
    by (simp add: dialog_act_def)
  have "action_args True (task # alert_callbacks) =
      Inr (no_args\<lparr>ca_data := task, ca_success := JFun 1 [], ca_error := JFun 2 []\<rparr>)"
    using assms by (simp add: alert_callbacks_def arg23_def arg1_def isFunction_def no_args_def)
  with assms f act dialog_request [where call = "\<lambda>_. JUndef" and d = d and task = task and sf = "JFun 1 []" and ef = "JFun 2 []"] show ?thesis
    by (simp add: dialog_close_def factory_call_def resource_call_def dialog_has_body)
qed

section \<open>The room view\<close>

definition view_act :: jsobj where
  "view_act = [(''method'', JStr ''GET''), (''url'', JStr ''/api/room/:room_id''),
     (''params'', JObj [(''room_id'', JStr ''@room_id'')]), (''isArray'', JBool True)]"

lemma view_act_eq: "obj_fields (js_prop (JObj (f_actions SlotFactory)) ''viewRoom'') = view_act"
  by (simp add: factory_defs view_act_def)

lemma view_no_body: "\<not> has_body view_act"
proof -
  have "map to_lower ''GET'' = ''get''" by code_simp
  then show ?thesis
    by (simp only: has_body_def view_act_def js_prop_def obj_get_def) simp
qed

lemma view_params:
  "extractParams call [] JUndef [(''room_id'', JStr ''@room_id'')] = Inr [(''room_id'', JUndef)]"
proof -
  have "isValidDottedPath ''room_id''"
    by (simp add: isValidDottedPath_def member_name_def ident_start_def is_alpha_def is_digit_def)
  then show ?thesis
    by (simp add: extractParams_def extract_value_def lookupDottedPath_def isDefined_def)
qed

lemma checkRoom_request:
  assumes "distinct (map fst flds)" "obj_get flds ''room_id'' = Some (JStr v)" "v \<noteq> []" "hd v \<noteq> CHR ''.''"
  shows "\<exists>cfg ca ms. checkRoom (JObj flds) = Inr (cfg, ca, RArr [] ms) \<and>
    ca_success ca = JFun 3 [] \<and> ca_error ca = JFun 2 [] \<and>
    obj_get cfg ''method'' = Some (JStr ''GET'') \<and>
    obj_get cfg ''url'' = Some (JStr (''/api/room/'' @ encodeUriSegment v))"
proof -
  let ?params = "extend1 [(''room_id'', JUndef)] flds"
  have "obj_get ?params ''room_id'' = Some (JStr v)"
    using obj_get_extend1 [OF assms(1)] assms(2) by simp
  from setUrlParams_last [of "''/api/room/''" "''api/room/''" "''room_id''" ?params v, OF _ _ _ _ _ _ this assms(3,4)]
  have url: "\<exists>q. setUrlParams r ?params ''/api/room/:room_id'' = Inr (''/api/room/'' @ encodeUriSegment v, q)" for r
    by (simp add: is_word_def is_alpha_def is_digit_def)
  have args: "action_args False [JObj flds, JFun 3 [], JFun 2 []] =
      Inr \<lparr>ca_params = JObj flds, ca_data = JUndef, ca_success = JFun 3 [], ca_error = JFun 2 []\<rparr>"
    by (simp add: arg23_def arg1_def isFunction_def no_args_def)
  have acts: "action_config view_act = [(''method'', JStr ''GET''), (''url'', JStr ''/api/room/:room_id'')]"
      "js_prop (JObj view_act) ''params'' = JObj [(''room_id'', JStr ''@room_id'')]"
      "js_str_prop view_act ''url'' = ''/api/room/:room_id''" "truthy (js_prop (JObj view_act) ''isArray'')"
    by (simp_all add: view_act_def action_config_def js_prop_def js_str_prop_def obj_get_def truthy_def)
  obtain q where q: "setUrlParams (f_route SlotFactory) ?params ''/api/room/:room_id'' =
      Inr (''/api/room/'' @ encodeUriSegment v, q)"
    using url by blast
  let ?ca = "\<lparr>ca_params = JObj flds, ca_data = JUndef, ca_success = JFun 3 [], ca_error = JFun 2 []\<rparr>"
  have "resource_request (\<lambda>_. JUndef) (f_route SlotFactory) [] view_act ?ca =
      Inr (let cfg = [(''method'', JStr ''GET''), (''url'', JStr (''/api/room/'' @ encodeUriSegment v))]
           in if q = [] then cfg else obj_put ''params'' (JObj q) cfg)"
    using q by (simp add: resource_request_def view_no_body acts view_params Let_def)
  then show ?thesis
    by (simp add: checkRoom_def factory_call_def view_act_eq resource_call_def view_no_body args Let_def obj_get_def
        initial_value_def acts del: action_args.simps)
qed

text \<open>The room dialog takes an array of peers; any other answer is refused, with neither callback called.\<close>

lemma view_settles:
  assumes "ca_success ca = JFun 3 []"
  shows "\<exists>ms'. resource_settle view_act ca (HttpOk (JArr ps)) (RArr [] ms) =
      (RArr (map resource_item ps) ms', [CallSuccess 3 (RArr (map resource_item ps) ms')], True)"
    "truthy data \<Longrightarrow> \<not> isArray data \<Longrightarrow> \<exists>v. resource_settle view_act ca (HttpOk data) (RArr [] ms) = (v, [], False)"
  using assms by (auto simp: resource_settle_def take_data_def view_act_def js_tests js_prop_def obj_get_def Let_def)

section \<open>The chart window\<close>

lemma refreshChart_last: "refreshChart now d s = (if 20 < length s then tl s else s) @ [(now, d)]"
  by (simp add: refreshChart_def)

definition window :: "'a list \<Rightarrow> 'a list" where
  "window xs = drop (length xs - 21) xs"

lemma refreshChart_window: "refreshChart now d (window xs) = window (xs @ [(now, d)])"
proof (cases "length xs < 21")
  case False
  then have "tl (drop (length xs - 21) xs) = drop (Suc (length xs - 21)) xs" by (simp add: drop_Suc tl_drop)
  moreover have "Suc (length xs - 21) = Suc (length xs) - 21" using False by simp
  ultimately show ?thesis using False by (simp add: refreshChart_last window_def)
qed (simp add: refreshChart_last window_def)

definition ops_of :: "(string \<Rightarrow> int option) \<Rightarrow> jsval \<Rightarrow> jsval" where
  "ops_of tonum d = (let ops = js_prop d ''ops'' in if ops \<noteq> JUndef \<and> ge0 tonum ops then ops else JNum 0)"

lemma overview_chart_run:
  "chart_data ov = window xs \<Longrightarrow>
    chart_data (overview_run tonum polls ov) = window (xs @ map (\<lambda>(t, d). (t, ops_of tonum d)) polls)"
proof (induction polls arbitrary: ov xs)
  case (Cons p polls)
  obtain t d where p: "p = (t, d)" by force
  have "chart_data (overview_success tonum t d ov) = window (xs @ [(t, ops_of tonum d)])"
    using Cons.prems by (simp add: overview_success_def ops_of_def refreshChart_window Let_def)
  from Cons.IH [OF this] p show ?case by (simp add: overview_run_def)
qed (simp add: overview_run_def)

section \<open>Properties\<close>

text \<open>A console dialog sends exactly what was entered, and only when it was confirmed:
  cancelling it, or confirming an empty form value, makes no request; confirming a task
  makes one POST request to the dialog's own endpoint with the task as its body and no
  query string.\<close>

lemma dialog_sends_task:
  assumes "\<not> isFunction task"
  shows "dialog_close d Cancel = None \<and>
    (case dialog_close d (Ok task) of
       None \<Rightarrow> \<not> truthy task
     | Some r \<Rightarrow> truthy task \<and> (\<exists>cfg ca value. r = Inr (cfg, ca, value) \<and>
         obj_get cfg ''method'' = Some (JStr ''POST'') \<and> obj_get cfg ''url'' = Some (JStr (dialog_url d)) \<and>
         obj_get cfg ''data'' = Some task \<and> obj_get cfg ''params'' = None))"
proof (cases "truthy task")
  case True
  have "obj_get (dialog_act d) ''method'' = Some (JStr ''POST'')" "obj_get (dialog_act d) ''params'' = None"
    by (cases d; simp add: dialog_act_eq obj_get_def)+
  with True dialog_close_ok [OF True assms, of d] show ?thesis
    by (simp add: dialog_close_def js_tests)
qed (simp add: dialog_close_def js_tests)

lemma dialog_sends_task_witness:
  "\<exists>cfg ca value. dialog_close BroadPeers (Ok (JObj [(''peers'', JStr ''p1''), (''br_msg'', JStr ''hi'')])) =
      Some (Inr (cfg, ca, value)) \<and> obj_get cfg ''url'' = Some (JStr ''/api/broadcast_peers'')"
  using dialog_sends_task [of "JObj [(''peers'', JStr ''p1''), (''br_msg'', JStr ''hi'')]" BroadPeers]
  by (auto simp: js_tests dialog_url_def split: option.splits)

text \<open>The dialogs report success for every answer that is an object, whatever its
  content: the server answers a failed request with status 200 and \<open>ret = 400\<close>
  (\<open>jsonRetFail\<close>), and the console alerts \<open>success\<close>. Only a failed HTTP request is
  reported, and exactly once.\<close>

lemma dialog_alerts_success:
  assumes "truthy task" "\<not> isFunction task" "dialog_close d (Ok task) = Some (Inr (cfg, ca, value))"
  shows "dialog_alerts d ca value (HttpOk (JObj answer)) = [JStr ''success''] \<and>
    dialog_alerts d ca value (HttpFail resp) = [js_prop resp ''data'']"
proof -
  have ca: "ca_success ca = JFun 1 []" "ca_error ca = JFun 2 []"
    and v: "\<exists>ob. value = RObj ob" and arr: "\<not> truthy (js_prop (JObj (dialog_act d)) ''isArray'')"
  proof -
    show arr: "\<not> truthy (js_prop (JObj (dialog_act d)) ''isArray'')"
      by (cases d) (simp_all add: dialog_act_eq js_prop_def obj_get_def inherited_def object_proto_def js_tests)
    show "ca_success ca = JFun 1 []" "ca_error ca = JFun 2 []" "\<exists>ob. value = RObj ob"
      using dialog_close_ok [OF assms(1,2), of d] assms(3) arr by (auto simp: initial_value_def)
  qed
  have settle: "dialog_alerts d ca value res = map alert_of (fst (snd (resource_settle (dialog_act d) ca res value)))" for res
    by (simp add: dialog_alerts_def dialog_act_def case_prod_beta Let_def)
  from v obtain ob where "value = RObj ob" by blast
  with ca arr show ?thesis
    unfolding settle by (simp add: resource_settle_def take_data_def isArray_def Let_def)
qed

lemma dialog_alerts_success_witness:
  "\<exists>cfg ca value. dialog_close BroadSet (Ok (JObj [(''from'', JStr ''1,2'')])) = Some (Inr (cfg, ca, value)) \<and>
    dialog_alerts BroadSet ca value (HttpOk (JObj [(''ret'', JNum 400), (''msg'', JStr ''Read Body failed'')])) =
      [JStr ''success'']"
proof -
  let ?t = "JObj [(''from'', JStr ''1,2'')]"
  have t: "truthy ?t" "\<not> isFunction ?t" by (simp_all add: js_tests)
  obtain cfg ca v where c: "dialog_close BroadSet (Ok ?t) = Some (Inr (cfg, ca, v))"
    using dialog_close_ok [OF t, of BroadSet] by blast
  with dialog_alerts_success [OF t c] show ?thesis by blast
qed

text \<open>The chart of the overview page is a sliding window: after any number of polls it
  holds the last 21 answers, in order, each as the number of operations it reported or 0
  when the answer had none or a negative one.\<close>

lemma overview_chart_window:
  "chart_data (overview_run tonum polls overview_init) =
     (let pts = map (\<lambda>(t, d). (t, ops_of tonum d)) polls in drop (length pts - 21) pts)"
  using overview_chart_run [of overview_init "[]" tonum polls]
  by (simp add: overview_init_def window_def Let_def)

end
