(* ===== verification/Console_Utils.thy ===== *)
theory Console_Utils
  imports Js Wire
begin

text \<open>
  The small scripts of the console: string hashing, colour strings and the template cache
  of \<^verbatim>\<open>static/scripts/utils.js\<close>, and the chat box of \<^verbatim>\<open>static/scripts/ws.js\<close>.
  JavaScript's bit operators convert a number to a signed 32-bit integer and back; the
  other arithmetic is on doubles, which is exact on integers below $2^{53}$.
\<close>

section \<open>Hashing a string (utils.js)\<close>

text \<open>\<open>ToInt32\<close> as a word; \<open>sint\<close> reads the signed number back.\<close>

definition to_int32 :: "int \<Rightarrow> 32 word" where
  "to_int32 n = word_of_int n"

definition hash_step :: "int \<Rightarrow> nat \<Rightarrow> int" where
  "hash_step hash c = int c + (sint (push_bit 5 (to_int32 hash)) - hash)"

text \<open>A string is its list of UTF-16 code units.\<close>

definition hashCode :: "nat list \<Rightarrow> int" where
  "hashCode str = foldl hash_step 0 str"

section \<open>Colours (utils.js)\<close>

definition hex_char :: "nat \<Rightarrow> char" where
  "hex_char d = ''0123456789abcdef'' ! d"

text \<open>\<open>toString(16)\<close> of a byte: no leading zero.\<close>

definition byte_hex :: "32 word \<Rightarrow> string" where
  "byte_hex b = (if unat b < 16 then [hex_char (unat b)]
     else [hex_char (unat b div 16), hex_char (unat b mod 16)])"

definition argb_byte :: "int \<Rightarrow> nat \<Rightarrow> 32 word" where
  "argb_byte i k = signed_drop_bit k (to_int32 i) AND 0xFF"

definition intToARGB :: "int \<Rightarrow> string" where
  "intToARGB i =
     take 6 (byte_hex (argb_byte i 24) @ byte_hex (argb_byte i 16) @ byte_hex (argb_byte i 8) @
             byte_hex (to_int32 i AND 0xFF))"

section \<open>The template cache (utils.js)\<close>

text \<open>
  The cache is an object literal, so names of inherited members are found in it. The
  compiler of templates and the server are parameters; an absent template leaves
  \<open>tmpl_string\<close> undefined.
\<close>

datatype 'tpl cached = Own 'tpl | Inherited string

record 'tpl tmpl_state =
  tmpl_cache :: "string \<rightharpoonup> 'tpl"
  tmpl_requests :: "string list"

definition cache_lookup :: "(string \<rightharpoonup> 'tpl) \<Rightarrow> string \<Rightarrow> 'tpl cached option" where
  "cache_lookup cache name =
     (case cache name of Some t \<Rightarrow> Some (Own t)
      | None \<Rightarrow> if name \<in> set object_proto then Some (Inherited name) else None)"

definition tmpl_url :: "string \<Rightarrow> string" where
  "tmpl_url name = ''/admin/templates'' @ ''/'' @ name @ ''.html''"

definition tmpl ::
  "(string option \<Rightarrow> 'tpl) \<Rightarrow> (string \<Rightarrow> string option) \<Rightarrow> string \<Rightarrow> 'tpl tmpl_state \<Rightarrow>
     'tpl cached \<times> 'tpl tmpl_state" where
  "tmpl compile server name st =
     (case cache_lookup (tmpl_cache st) name of
        Some t \<Rightarrow> (t, st)
      | None \<Rightarrow>
          let t = compile (server (tmpl_url name))
          in (Own t, st\<lparr>tmpl_cache := (tmpl_cache st)(name \<mapsto> t),
                       tmpl_requests := tmpl_requests st @ [tmpl_url name]\<rparr>))"

fun tmpl_calls ::
  "(string option \<Rightarrow> 'tpl) \<Rightarrow> ((string \<Rightarrow> string option) \<times> string) list \<Rightarrow> 'tpl tmpl_state \<Rightarrow> 'tpl tmpl_state" where
  "tmpl_calls compile [] st = st"
| "tmpl_calls compile ((server, name) # cs) st = tmpl_calls compile cs (snd (tmpl compile server name st))"

section \<open>The chat box (ws.js)\<close>

datatype ready_state = Connecting | Open | Closed

record chat =
  chat_conn :: "ready_state option"    \<comment> \<open>None: the browser has no \<open>WebSocket\<close>\<close>
  chat_sent :: "string list"
  chat_input :: string
  chat_log :: "string list"
  scrollTop :: int
  scrollHeight :: int
  clientHeight :: int

text \<open>Appending an element of height \<open>dh\<close> keeps the log at its end if it was there.\<close>

definition appendLog :: "string \<Rightarrow> int \<Rightarrow> chat \<Rightarrow> chat" where
  "appendLog msg dh c =
     (let doScroll = (scrollTop c = scrollHeight c - clientHeight c);
          c1 = c\<lparr>chat_log := chat_log c @ [msg], scrollHeight := scrollHeight c + dh\<rparr>
      in if doScroll then c1\<lparr>scrollTop := scrollHeight c1 - clientHeight c1\<rparr> else c1)"

datatype chat_err = InvalidStateError

text \<open>\<open>WebSocket.send\<close>: throws while connecting, discards once closed.\<close>

definition chat_submit :: "chat \<Rightarrow> chat_err + chat" where
  "chat_submit c =
     (case chat_conn c of
        None \<Rightarrow> Inr c
      | Some rs \<Rightarrow>
          if chat_input c = [] then Inr c
          else if rs = Connecting then Inl InvalidStateError
          else Inr (c\<lparr>chat_sent := chat_sent c @ (if rs = Open then [chat_input c] else []),
                      chat_input := []\<rparr>))"

definition chat_start :: "bool \<Rightarrow> int \<Rightarrow> chat \<Rightarrow> chat" where
  "chat_start has_ws dh c =
     (if has_ws then c\<lparr>chat_conn := Some Connecting\<rparr>
      else appendLog ''Your browser does not support WebSockets.'' dh (c\<lparr>chat_conn := None\<rparr>))"

datatype chat_event = OnOpen | OnClose int | OnMessage string int | Submit

fun chat_step :: "chat_event \<Rightarrow> chat \<Rightarrow> chat_err + chat" where
  "chat_step OnOpen c = Inr (c\<lparr>chat_conn := Some Open\<rparr>)"
| "chat_step (OnClose dh) c = Inr (appendLog ''Connection closed.'' dh (c\<lparr>chat_conn := Some Closed\<rparr>))"
| "chat_step (OnMessage m dh) c = Inr (appendLog m dh c)"
| "chat_step Submit c = chat_submit c"

section \<open>Lemmas on the hash\<close>

text \<open>The polynomial hash of 32-bit words, base 31.\<close>

definition poly_hash :: "nat list \<Rightarrow> 32 word" where
  "poly_hash str = foldl (\<lambda>h c. 31 * h + of_nat c) 0 str"

lemma hash_step_word: "word_of_int (hash_step h c) = 31 * word_of_int h + (of_nat c :: 32 word)"
  by (simp add: hash_step_def to_int32_def push_bit_eq_mult algebra_simps)

lemma sint32_bounds: "- (2 ^ 31) \<le> sint (w :: 32 word)" "sint (w :: 32 word) < 2 ^ 31"
  using sint_range_size [of w] by (simp_all add: word_size)

lemma hash_step_bound:
  assumes "c < 65536" "\<bar>h\<bar> \<le> B"
  shows "\<bar>hash_step h c\<bar> \<le> B + (2 ^ 31 + 65535)"
  using assms sint32_bounds [of "push_bit 5 (to_int32 h)"] by (simp add: hash_step_def)

lemma foldl_hash_word:
  "word_of_int (foldl hash_step h str) = foldl (\<lambda>h c. 31 * h + of_nat c) (word_of_int h :: 32 word) str"
  by (induction str arbitrary: h) (simp_all add: hash_step_word)

lemma foldl_hash_bound:
  assumes "list_all (\<lambda>c. c < 65536) str" "\<bar>h\<bar> \<le> B"
  shows "\<bar>foldl hash_step h str\<bar> \<le> B + int (length str) * (2 ^ 31 + 65535)"
  using assms
proof (induction str arbitrary: h B)
  case (Cons c str)
  then have "\<bar>hash_step h c\<bar> \<le> B + (2 ^ 31 + 65535)" by (intro hash_step_bound) auto
  from Cons.IH [OF _ this] Cons.prems show ?case by (simp add: algebra_simps)
qed simp

lemma byte_hex_len: "length (byte_hex b) \<in> {1, 2}"
  by (simp add: byte_hex_def)

section \<open>Lemmas on the template cache\<close>

lemma tmpl_url_inj: "tmpl_url a = tmpl_url b \<longleftrightarrow> a = b"
  by (simp add: tmpl_url_def)

text \<open>Each template in the cache was asked for once, each other one never.\<close>

definition asked_once :: "'tpl tmpl_state \<Rightarrow> bool" where
  "asked_once st \<longleftrightarrow> (\<forall>name. count_list (tmpl_requests st) (tmpl_url name) =
     (if tmpl_cache st name = None then 0 else 1))"

lemma tmpl_asked_once: "asked_once st \<Longrightarrow> asked_once (snd (tmpl compile server name st))"
  by (auto simp: asked_once_def tmpl_def cache_lookup_def tmpl_url_inj Let_def split: option.splits)

lemma tmpl_keeps:
  "tmpl_cache st a = Some t \<Longrightarrow> tmpl_cache (snd (tmpl compile server name st)) a = Some t"
  by (auto simp: tmpl_def cache_lookup_def Let_def split: option.splits)

lemma tmpl_calls_ok:
  "asked_once st \<Longrightarrow> asked_once (tmpl_calls compile cs st)"
  "tmpl_cache st a = Some t \<Longrightarrow> tmpl_cache (tmpl_calls compile cs st) a = Some t"
  by (induction cs arbitrary: st) (auto simp: tmpl_asked_once tmpl_keeps)

section \<open>Properties\<close>

text \<open>The string hash of the console is the base-31 polynomial hash modulo $2^{32}$
  although its intermediate values are not reduced, and for strings of up to $2^{21}$ code
  units every intermediate value stays below $2^{53}$, so the arithmetic on doubles is
  exact.\<close>

lemma hashCode_polynomial:
  assumes "list_all (\<lambda>c. c < 65536) str" "length str \<le> 2 ^ 21"
  shows "word_of_int (hashCode str) = poly_hash str \<and> (\<forall>n. \<bar>hashCode (take n str)\<bar> < 2 ^ 53)"
proof (intro conjI allI)
  show "word_of_int (hashCode str) = poly_hash str"
    using foldl_hash_word [of 0 str] by (simp add: hashCode_def poly_hash_def)
  fix n
  have "list_all (\<lambda>c. c < 65536) (take n str)"
    using assms(1) by (auto simp: list_all_iff dest: in_set_takeD)
  from foldl_hash_bound [OF this, of 0 0]
  have "\<bar>hashCode (take n str)\<bar> \<le> int (length (take n str)) * (2 ^ 31 + 65535)"
    by (simp add: hashCode_def)
  also have "\<dots> \<le> 2 ^ 21 * (2 ^ 31 + 65535)"
  proof (rule mult_right_mono)
    have "length (take n str) \<le> 2 ^ 21" using assms(2) by simp
    then have "int (length (take n str)) \<le> int (2 ^ 21)" by (simp only: of_nat_le_iff)
    then show "int (length (take n str)) \<le> 2 ^ 21" by simp
  qed simp
  also have "\<dots> < 2 ^ 53" by simp
  finally show "\<bar>hashCode (take n str)\<bar> < 2 ^ 53" .
qed

lemma hashCode_polynomial_witness:
  "word_of_int (hashCode [104, 105]) = (3329 :: 32 word)"
  using hashCode_polynomial [of "[104, 105]"] by (simp add: poly_hash_def)

text \<open>A colour string has between four and six characters (leading zeros of a byte are
  dropped), so distinct numbers collide and most numbers with a small byte do not give
  the six digits a colour needs.\<close>

lemma intToARGB_length:
  "4 \<le> length (intToARGB i) \<and> length (intToARGB i) \<le> 6 \<and>
    intToARGB 0x01110101 = intToARGB 0x11010101"
proof -
  have "4 \<le> length (intToARGB i) \<and> length (intToARGB i) \<le> 6"
    using byte_hex_len [of "argb_byte i 24"] byte_hex_len [of "argb_byte i 16"]
      byte_hex_len [of "argb_byte i 8"] byte_hex_len [of "to_int32 i AND 0xFF"]
    by (auto simp: intToARGB_def)
  moreover have "intToARGB 0x01110101 = intToARGB 0x11010101"
    by (simp add: intToARGB_def argb_byte_def to_int32_def byte_hex_def hex_char_def)
  ultimately show ?thesis by simp
qed

text \<open>The template cache asks the server for a template at most once, over any sequence of
  calls and however the server's answers change, and the first answer is final: a
  template that was missing the first time stays missing.\<close>

lemma tmpl_fetches_once:
  assumes "name \<notin> set object_proto"
    and "st = tmpl_calls compile cs \<lparr>tmpl_cache = Map.empty, tmpl_requests = []\<rparr>"
    and "tmpl_cache st name = None"
  shows "let t = compile (server (tmpl_url name));
             st' = tmpl_calls compile cs' (snd (tmpl compile server name st))
         in tmpl compile server' name st' = (Own t, st') \<and>
            count_list (tmpl_requests st') (tmpl_url name) = 1"
proof -
  let ?t = "compile (server (tmpl_url name))"
  let ?st = "tmpl_calls compile cs' (snd (tmpl compile server name st))"
  have "asked_once st"
    unfolding assms(2) by (rule tmpl_calls_ok(1)) (simp add: asked_once_def)
  then have "asked_once ?st" by (simp add: tmpl_calls_ok(1) tmpl_asked_once)
  moreover have "tmpl_cache ?st name = Some ?t"
    using assms(1,3) by (intro tmpl_calls_ok(2)) (simp add: tmpl_def cache_lookup_def Let_def)
  ultimately show ?thesis by (simp add: tmpl_def cache_lookup_def asked_once_def Let_def)
qed

lemma tmpl_fetches_once_witness:
  "let st' = tmpl_calls id [(\<lambda>_. Some ''new'', ''room'')]
       (snd (tmpl id (\<lambda>_. None) ''room'' \<lparr>tmpl_cache = Map.empty, tmpl_requests = []\<rparr>))
   in tmpl id (\<lambda>_. Some ''new'') ''room'' st' = (Own None, st') \<and>
      count_list (tmpl_requests st') (tmpl_url ''room'') = 1"
  using tmpl_fetches_once [of "''room''" _ id "[]" "\<lambda>_. None" "[(\<lambda>_. Some ''new'', ''room'')]" "\<lambda>_. Some ''new''"]
  by (simp add: object_proto_def)

end
