(* ===== verification/Ng_Q.thy ===== *)
theory Ng_Q
  imports Js
begin

text \<open>
  The promise service \<open>$q\<close> of angular 1.2.29 (\<open>angular.js\<close>, \<open>qFactory\<close>), on which the
  resources, the dialogs and the HTTP service of the console rest. The closures of the
  source are first-order values of type \<open>fn\<close>; deferreds live in a heap of \<open>dstate\<close>; \<open>nextTick\<close>
  appends to the queue \<open>ticks\<close>, which a digest empties from the front. User callbacks are
  a parameter: each returns or throws a value after settling or chaining any promises.
  Values are not promise-like unless they are promises of this service.
\<close>

section \<open>Values and closures\<close>

datatype pval = V jsval | PD nat | PRej pval

definition isPromiseLike :: "pval \<Rightarrow> bool" where
  "isPromiseLike v = (case v of V _ \<Rightarrow> False | _ \<Rightarrow> True)"

datatype fn =
    User nat
  | WrapCb nat "fn option" | WrapEb nat "fn option" | WrapPb nat "fn option"
  | FinCb "nat option" bool | FinThen pval bool | FinElse
  | TryCb "fn option" | TryEb "fn option" | TryPb "fn option"
  | WhenOk nat | WhenErr nat | WhenPb nat
  | AllOk nat nat | AllErr nat nat

type_synonym cbs = "fn option \<times> fn option \<times> fn option"

text \<open>A settled deferred keeps its array of callbacks: a notification scheduled before the
  settlement still reads it.\<close>

datatype dstate = Pending "cbs list" | Settled "cbs list" pval

datatype task =
    TSettle pval "cbs list"
  | TNotify nat pval
  | TRef nat "fn option" jsval
  | TRej nat "fn option" pval
  | TWhen nat pval

record when_rec =
  w_result :: nat
  w_done :: bool
  w_cbs :: "nat option \<times> nat option \<times> nat option"

record all_rec =
  a_deferred :: nat
  a_counter :: nat
  a_results :: "jsval option list"

datatype 'a outcome = Ret 'a | Throw pval

record qst =
  defs :: "nat \<Rightarrow> dstate"
  q_next :: nat
  ticks :: "task list"
  whens :: "when_rec list"
  alls :: "all_rec list"
  calls :: "(nat \<times> pval) list"
  errors :: "pval list"
  overflow :: bool

definition q_init :: qst where
  "q_init = \<lparr>defs = (\<lambda>_. Pending []), q_next = 0, ticks = [], whens = [], alls = [],
     calls = [], errors = [], overflow = False\<rparr>"

section \<open>Deferreds\<close>

definition nextTick :: "task \<Rightarrow> qst \<Rightarrow> qst" where
  "nextTick t st = st\<lparr>ticks := ticks st @ [t]\<rparr>"

definition exceptionHandler :: "pval \<Rightarrow> qst \<Rightarrow> qst" where
  "exceptionHandler e st = st\<lparr>errors := errors st @ [e]\<rparr>"

definition defer_q :: "qst \<Rightarrow> nat \<times> qst" where
  "defer_q st = (q_next st, st\<lparr>q_next := Suc (q_next st)\<rparr>)"

definition q_resolve :: "nat \<Rightarrow> pval \<Rightarrow> qst \<Rightarrow> qst" where
  "q_resolve d val st = (case defs st d of
     Pending callbacks \<Rightarrow>
       (let st1 = st\<lparr>defs := (defs st)(d := Settled callbacks val)\<rparr>
        in if callbacks \<noteq> [] then nextTick (TSettle val callbacks) st1 else st1)
   | Settled _ _ \<Rightarrow> st)"

definition q_reject :: "nat \<Rightarrow> pval \<Rightarrow> qst \<Rightarrow> qst" where
  "q_reject d reason = q_resolve d (PRej reason)"

definition q_notify :: "nat \<Rightarrow> pval \<Rightarrow> qst \<Rightarrow> qst" where
  "q_notify d progress st = (case defs st d of
     Pending callbacks \<Rightarrow> if callbacks \<noteq> [] then nextTick (TNotify d progress) st else st
   | Settled _ _ \<Rightarrow> st)"

definition push_pending :: "nat \<Rightarrow> cbs \<Rightarrow> qst \<Rightarrow> qst" where
  "push_pending d c st = (case defs st d of
     Pending callbacks \<Rightarrow> st\<lparr>defs := (defs st)(d := Pending (callbacks @ [c]))\<rparr>
   | Settled _ _ \<Rightarrow> st)"

text \<open>\<open>then\<close> on a promise, a wrapped value or a rejection. A settled deferred passes the wrapped
  callbacks on to its value; the recursion is as deep as the chain of deferreds, and a
  chain that comes back to itself exhausts the stack, which sets \<open>overflow\<close>.\<close>

fun then_q :: "nat \<Rightarrow> pval \<Rightarrow> cbs \<Rightarrow> qst \<Rightarrow> nat \<times> qst" where
  "then_q 0 p c st = (0, st\<lparr>overflow := True\<rparr>)"
| "then_q (Suc n) (V v) (cb, eb, pb) st =
     (let (r, st1) = defer_q st in (r, nextTick (TRef r cb v) st1))"
| "then_q (Suc n) (PRej reason) (cb, eb, pb) st =
     (let (r, st1) = defer_q st in (r, nextTick (TRej r eb reason) st1))"
| "then_q (Suc n) (PD d) (cb, eb, pb) st =
     (let (r, st1) = defer_q st;
          w = (Some (WrapCb r cb), Some (WrapEb r eb), Some (WrapPb r pb))
      in case defs st1 d of
           Pending _ \<Rightarrow> (r, push_pending d w st1)
         | Settled _ val \<Rightarrow> (r, snd (then_q n val w st1)))"

definition promise_then :: "pval \<Rightarrow> cbs \<Rightarrow> qst \<Rightarrow> nat \<times> qst" where
  "promise_then p c st = then_q (Suc (Suc (q_next st))) p c st"

definition promise_catch :: "pval \<Rightarrow> fn option \<Rightarrow> qst \<Rightarrow> nat \<times> qst" where
  "promise_catch p callback = promise_then p (None, callback, None)"

definition promise_finally :: "pval \<Rightarrow> nat option \<Rightarrow> qst \<Rightarrow> nat \<times> qst" where
  "promise_finally p callback = promise_then p (Some (FinCb callback True), Some (FinCb callback False), None)"

definition reject_q :: "pval \<Rightarrow> qst \<Rightarrow> nat \<times> qst" where
  "reject_q reason st = (let (r, st1) = defer_q st in (r, q_reject r reason st1))"

definition makePromise :: "pval \<Rightarrow> bool \<Rightarrow> qst \<Rightarrow> nat \<times> qst" where
  "makePromise v resolved st =
     (let (r, st1) = defer_q st in (r, if resolved then q_resolve r v st1 else q_reject r v st1))"

section \<open>Calling a closure\<close>

datatype qop = QResolve nat pval | QReject nat pval | QNotify nat pval | QThen pval cbs

fun q_op :: "qop \<Rightarrow> qst \<Rightarrow> qst" where
  "q_op (QResolve d v) st = q_resolve d v st"
| "q_op (QReject d v) st = q_reject d v st"
| "q_op (QNotify d v) st = q_notify d v st"
| "q_op (QThen p c) st = snd (promise_then p c st)"

type_synonym user = "nat \<Rightarrow> pval \<Rightarrow> qop list \<times> pval outcome"

definition call_user :: "user \<Rightarrow> nat \<Rightarrow> pval \<Rightarrow> qst \<Rightarrow> pval outcome \<times> qst" where
  "call_user u i v st =
     (let (ops, res) = u i v in (res, fold q_op ops (st\<lparr>calls := calls st @ [(i, v)]\<rparr>)))"

definition q_undef :: pval where
  "q_undef = V JUndef"

definition settle_wrapped :: "nat \<Rightarrow> pval outcome \<times> qst \<Rightarrow> pval outcome \<times> qst" where
  "settle_wrapped r os = (case os of
     (Ret x, st) \<Rightarrow> (Ret q_undef, q_resolve r x st)
   | (Throw e, st) \<Rightarrow> (Ret q_undef, exceptionHandler e (q_reject r e st)))"

definition notify_wrapped :: "nat \<Rightarrow> pval outcome \<times> qst \<Rightarrow> pval outcome \<times> qst" where
  "notify_wrapped r os = (case os of
     (Ret x, st) \<Rightarrow> (Ret q_undef, q_notify r x st)
   | (Throw e, st) \<Rightarrow> (Ret q_undef, exceptionHandler e st))"

definition ret_promise :: "nat \<times> qst \<Rightarrow> pval outcome \<times> qst" where
  "ret_promise p = (Ret (PD (fst p)), snd p)"

definition try_reject :: "pval outcome \<times> qst \<Rightarrow> pval outcome \<times> qst" where
  "try_reject os = (case os of (Ret x, st) \<Rightarrow> (Ret x, st)
     | (Throw e, st) \<Rightarrow> ret_promise (reject_q e (exceptionHandler e st)))"

definition handleCallback :: "user \<Rightarrow> nat option \<Rightarrow> pval \<Rightarrow> bool \<Rightarrow> qst \<Rightarrow> pval outcome \<times> qst" where
  "handleCallback u callback v isResolved st =
     (case (case callback of Some i \<Rightarrow> call_user u i q_undef st | None \<Rightarrow> (Ret q_undef, st)) of
        (Throw e, st1) \<Rightarrow> ret_promise (makePromise e False st1)
      | (Ret out, st1) \<Rightarrow>
          if isPromiseLike out
          then ret_promise (promise_then out (Some (FinThen v isResolved), Some FinElse, None) st1)
          else ret_promise (makePromise v isResolved st1))"

definition upd_when :: "nat \<Rightarrow> qst \<Rightarrow> qst" where
  "upd_when w st = st\<lparr>whens := (whens st)[w := (whens st ! w)\<lparr>w_done := True\<rparr>]\<rparr>"

definition value_of :: "pval \<Rightarrow> jsval" where
  "value_of p = (case p of V v \<Rightarrow> v | _ \<Rightarrow> JUndef)"

definition all_ok :: "nat \<Rightarrow> nat \<Rightarrow> jsval \<Rightarrow> qst \<Rightarrow> qst" where
  "all_ok a key v st =
     (let rec = alls st ! a in
      if a_results rec ! key \<noteq> None then st
      else (let rec' = rec\<lparr>a_results := (a_results rec)[key := Some v], a_counter := a_counter rec - 1\<rparr>;
                st1 = st\<lparr>alls := (alls st)[a := rec']\<rparr>
            in if a_counter rec' = 0 then q_resolve (a_deferred rec) (V (JArr (map the (a_results rec')))) st1
               else st1))"

definition all_err :: "nat \<Rightarrow> nat \<Rightarrow> pval \<Rightarrow> qst \<Rightarrow> qst" where
  "all_err a key reason st =
     (let rec = alls st ! a in
      if a_results rec ! key \<noteq> None then st else q_reject (a_deferred rec) reason st)"

fun call_fn :: "user \<Rightarrow> fn \<Rightarrow> pval \<Rightarrow> qst \<Rightarrow> pval outcome \<times> qst" where
  "call_fn u (User i) v st = call_user u i v st"
| "call_fn u (WrapCb r None) v st = settle_wrapped r (Ret v, st)"
| "call_fn u (WrapCb r (Some f)) v st = settle_wrapped r (call_fn u f v st)"
| "call_fn u (WrapEb r None) v st = settle_wrapped r (ret_promise (reject_q v st))"
| "call_fn u (WrapEb r (Some f)) v st = settle_wrapped r (call_fn u f v st)"
| "call_fn u (WrapPb r None) v st = notify_wrapped r (Ret v, st)"
| "call_fn u (WrapPb r (Some f)) v st = notify_wrapped r (call_fn u f v st)"
| "call_fn u (FinCb callback b) v st = handleCallback u callback v b st"
| "call_fn u (FinThen w b) v st = ret_promise (makePromise w b st)"
| "call_fn u FinElse v st = ret_promise (makePromise v False st)"
| "call_fn u (TryCb None) v st = (Ret v, st)"
| "call_fn u (TryCb (Some f)) v st = try_reject (call_fn u f v st)"
| "call_fn u (TryEb None) v st = ret_promise (reject_q v st)"
| "call_fn u (TryEb (Some f)) v st = try_reject (call_fn u f v st)"
| "call_fn u (TryPb None) v st = (Ret v, st)"
| "call_fn u (TryPb (Some f)) v st =
     (case call_fn u f v st of (Ret x, st1) \<Rightarrow> (Ret x, st1) | (Throw e, st1) \<Rightarrow> (Ret q_undef, exceptionHandler e st1))"
| "call_fn u (WhenOk w) v st =
     (let rec = whens st ! w in
      if w_done rec then (Ret q_undef, st)
      else (let (cb, eb, pb) = w_cbs rec;
                (r, st1) = promise_then v (Some (TryCb (map_option User cb)), Some (TryEb (map_option User eb)),
                    Some (TryPb (map_option User pb))) (upd_when w st)
            in (Ret q_undef, q_resolve (w_result rec) (PD r) st1)))"
| "call_fn u (WhenErr w) v st =
     (let rec = whens st ! w in
      if w_done rec then (Ret q_undef, st)
      else (case w_cbs rec of
          (cb, None, pb) \<Rightarrow> settle_wrapped (w_result rec) (ret_promise (reject_q v (upd_when w st)))
        | (cb, Some i, pb) \<Rightarrow> settle_wrapped (w_result rec) (try_reject (call_user u i v (upd_when w st)))))"
| "call_fn u (WhenPb w) v st =
     (let rec = whens st ! w in
      if w_done rec then (Ret q_undef, st)
      else (case w_cbs rec of
          (cb, eb, None) \<Rightarrow> notify_wrapped (w_result rec) (Ret v, st)
        | (cb, eb, Some i) \<Rightarrow>
            (case call_user u i v st of
               (Ret x, st1) \<Rightarrow> (Ret q_undef, q_notify (w_result rec) x st1)
             | (Throw e, st1) \<Rightarrow> (Ret q_undef, q_notify (w_result rec) q_undef (exceptionHandler e st1)))))"
| "call_fn u (AllOk a key) v st = (Ret q_undef, all_ok a key (value_of v) st)"
| "call_fn u (AllErr a key) v st = (Ret q_undef, all_err a key v st)"

section \<open>Ticks\<close>

definition call_opt :: "user \<Rightarrow> fn option \<Rightarrow> pval \<Rightarrow> qst \<Rightarrow> pval outcome \<times> qst" where
  "call_opt u f v st = (case f of Some g \<Rightarrow> call_fn u g v st | None \<Rightarrow> (Throw (V (JStr ''TypeError'')), st))"

definition notify_one :: "user \<Rightarrow> pval \<Rightarrow> cbs \<Rightarrow> qst \<Rightarrow> qst" where
  "notify_one u progress c st = (case c of (cb, eb, pb) \<Rightarrow> snd (call_opt u pb progress st))"

definition callbacks_of :: "nat \<Rightarrow> qst \<Rightarrow> cbs list" where
  "callbacks_of d st = (case defs st d of Pending c \<Rightarrow> c | Settled c _ \<Rightarrow> c)"

fun run_task :: "user \<Rightarrow> task \<Rightarrow> qst \<Rightarrow> qst" where
  "run_task u (TSettle val callbacks) st = fold (\<lambda>c s. snd (promise_then val c s)) callbacks st"
| "run_task u (TNotify d progress) st = fold (notify_one u progress) (callbacks_of d st) st"
| "run_task u (TRef r cb v) st = (case call_opt u cb (V v) st of
     (Ret x, st1) \<Rightarrow> q_resolve r x st1 | (Throw e, st1) \<Rightarrow> exceptionHandler e st1)"
| "run_task u (TRej r eb reason) st = (case (case eb of
        Some g \<Rightarrow> call_fn u g reason st | None \<Rightarrow> ret_promise (reject_q reason st)) of
     (Ret x, st1) \<Rightarrow> q_resolve r x st1
   | (Throw e, st1) \<Rightarrow> exceptionHandler e (q_reject r e st1))"
| "run_task u (TWhen w v) st =
     snd (promise_then v (Some (WhenOk w), Some (WhenErr w), Some (WhenPb w)) st)"

definition tick :: "user \<Rightarrow> qst \<Rightarrow> qst" where
  "tick u st = (case ticks st of [] \<Rightarrow> st | t # ts \<Rightarrow> run_task u t (st\<lparr>ticks := ts\<rparr>))"

fun run_ticks :: "user \<Rightarrow> nat \<Rightarrow> qst \<Rightarrow> qst" where
  "run_ticks u 0 st = st"
| "run_ticks u (Suc n) st = run_ticks u n (tick u st)"

section \<open>when and all\<close>

definition when_q :: "pval \<Rightarrow> nat option \<times> nat option \<times> nat option \<Rightarrow> qst \<Rightarrow> nat \<times> qst" where
  "when_q v c st =
     (let (r, st1) = defer_q st; w = length (whens st1);
          st2 = st1\<lparr>whens := whens st1 @ [\<lparr>w_result = r, w_done = False, w_cbs = c\<rparr>]\<rparr>
      in (r, nextTick (TWhen w v) st2))"

fun all_loop :: "nat \<Rightarrow> nat \<Rightarrow> pval list \<Rightarrow> qst \<Rightarrow> qst" where
  "all_loop a key [] st = st"
| "all_loop a key (p # ps) st =
     all_loop a (Suc key) ps (snd (promise_then p (Some (AllOk a key), Some (AllErr a key), None) st))"

definition all_q :: "pval list \<Rightarrow> qst \<Rightarrow> nat \<times> qst" where
  "all_q promises st =
     (let (d, st1) = defer_q st; a = length (alls st1);
          st2 = st1\<lparr>alls := alls st1 @ [\<lparr>a_deferred = d, a_counter = length promises,
                                       a_results = replicate (length promises) None\<rparr>]\<rparr>;
          st3 = all_loop a 0 promises st2
      in (d, if promises = [] then q_resolve d (V (JArr [])) st3 else st3))"


section \<open>A settled deferred stays settled\<close>

definition settled :: "qst \<Rightarrow> nat \<Rightarrow> pval \<Rightarrow> bool" where
  "settled st d v = (\<exists>c. defs st d = Settled c v)"

named_theorems q_keeps

lemma settled_frame [simp]:
  "settled (st\<lparr>q_next := n\<rparr>) d v = settled st d v" "settled (st\<lparr>ticks := t\<rparr>) d v = settled st d v"
  "settled (st\<lparr>whens := w\<rparr>) d v = settled st d v" "settled (st\<lparr>alls := a\<rparr>) d v = settled st d v"
  "settled (st\<lparr>calls := l\<rparr>) d v = settled st d v" "settled (st\<lparr>errors := e\<rparr>) d v = settled st d v"
  "settled (st\<lparr>overflow := b\<rparr>) d v = settled st d v" "settled (nextTick t' st) d v = settled st d v"
  "settled (exceptionHandler e' st) d v = settled st d v" "settled (upd_when i st) d v = settled st d v"
  "settled (snd (defer_q st)) d v = settled st d v"
  by (simp_all add: settled_def nextTick_def exceptionHandler_def upd_when_def defer_q_def)

lemma settled_unique: "settled st d v \<Longrightarrow> settled st d w \<Longrightarrow> v = w"
  by (auto simp: settled_def)

lemma settled_resolve [q_keeps]: "settled st d v \<Longrightarrow> settled (q_resolve e w st) d v"
  by (auto simp: settled_def q_resolve_def nextTick_def Let_def split: dstate.splits)

lemma settled_reject [q_keeps]: "settled st d v \<Longrightarrow> settled (q_reject e w st) d v"
  by (simp add: q_reject_def settled_resolve)

lemma settled_notify [q_keeps]: "settled st d v \<Longrightarrow> settled (q_notify e w st) d v"
  by (auto simp: q_notify_def split: dstate.splits)

lemma settled_push [q_keeps]: "settled st d v \<Longrightarrow> settled (push_pending e c st) d v"
  by (auto simp: settled_def push_pending_def split: dstate.splits)

lemma settled_then_q [q_keeps]: "settled st d v \<Longrightarrow> settled (snd (then_q n p c st)) d v"
  by (induction n p c st rule: then_q.induct)
    (auto simp: defer_q_def settled_push Let_def split: dstate.splits)

lemma settled_then [q_keeps]: "settled st d v \<Longrightarrow> settled (snd (promise_then p c st)) d v"
  by (simp add: promise_then_def settled_then_q)

lemma settled_reject_q [q_keeps]: "settled st d v \<Longrightarrow> settled (snd (reject_q x st)) d v"
  by (simp add: reject_q_def case_prod_beta settled_reject)

lemma settled_makePromise [q_keeps]: "settled st d v \<Longrightarrow> settled (snd (makePromise x b st)) d v"
  by (simp add: makePromise_def case_prod_beta settled_reject settled_resolve)

lemma settled_op [q_keeps]: "settled st d v \<Longrightarrow> settled (q_op op st) d v"
  by (cases op) (simp_all add: q_keeps)

lemma settled_fold:
  "(\<And>x s. settled s d v \<Longrightarrow> settled (f x s) d v) \<Longrightarrow> settled st d v \<Longrightarrow> settled (fold f xs st) d v"
  by (induction xs arbitrary: st) auto

lemma settled_user [q_keeps]: "settled st d v \<Longrightarrow> settled (snd (call_user u i x st)) d v"
  by (simp add: call_user_def case_prod_beta settled_fold [OF settled_op])

lemma settled_userD: "call_user u i x st = (out, st1) \<Longrightarrow> settled st d v \<Longrightarrow> settled st1 d v"
  using settled_user [of st d v u i x] by simp

lemma settled_wrappers [q_keeps]:
  "settled (snd os) d v \<Longrightarrow> settled (snd (settle_wrapped r os)) d v"
  "settled (snd os) d v \<Longrightarrow> settled (snd (notify_wrapped r os)) d v"
  "settled (snd os) d v \<Longrightarrow> settled (snd (try_reject os)) d v"
  "settled (snd p) d v \<Longrightarrow> settled (snd (ret_promise p)) d v"
  by (cases os; auto simp: settle_wrapped_def notify_wrapped_def try_reject_def ret_promise_def q_keeps
      split: outcome.splits)+

lemma settled_handle [q_keeps]: "settled st d v \<Longrightarrow> settled (snd (handleCallback u c x b st)) d v"
  by (auto simp: handleCallback_def q_keeps dest: settled_userD
      split: outcome.splits prod.splits option.splits)

lemma settled_all_cbs [q_keeps]:
  "settled st d v \<Longrightarrow> settled (all_ok a k x st) d v" "settled st d v \<Longrightarrow> settled (all_err a k y st) d v"
  by (simp_all add: all_ok_def all_err_def Let_def q_keeps)

lemma settled_call [q_keeps]: "settled st d v \<Longrightarrow> settled (snd (call_fn u f x st)) d v"
proof (induction u f x st rule: call_fn.induct)
  case (16 u f v' st)
  then show ?case by (auto split: prod.splits outcome.splits)
next
  case (17 u w x st)
  then show ?case by (simp add: Let_def case_prod_beta q_keeps)
next
  case (19 u w x st)
  then show ?case
    by (auto simp: Let_def q_keeps dest: settled_userD split: prod.splits outcome.splits option.splits)
qed (auto simp: Let_def q_keeps split: prod.splits option.splits)

lemma settled_call_opt: "call_opt u f x st = (out, st1) \<Longrightarrow> settled st d v \<Longrightarrow> settled st1 d v"
  using settled_call [of st d v u "the f" x] by (auto simp: call_opt_def split: option.splits)

lemma settled_run_task [q_keeps]: "settled st d v \<Longrightarrow> settled (run_task u t st) d v"
proof (induction u t st rule: run_task.induct)
  case (1 u val cs st)
  then show ?case by (simp add: settled_fold [OF settled_then])
next
  case (2 u e progress st)
  have "settled (notify_one u progress c s) d v" if "settled s d v" for c s
    using settled_call_opt [OF _ that] by (auto simp: notify_one_def split: prod.splits) (metis prod.collapse)
  with 2 show ?case by (simp add: settled_fold)
next
  case (3 u r cb x st)
  then show ?case by (auto simp: q_keeps dest: settled_call_opt split: prod.splits outcome.splits)
next
  case (4 u r eb reason st)
  then have "settled (snd (case eb of Some g \<Rightarrow> call_fn u g reason st | None \<Rightarrow> ret_promise (reject_q reason st))) d v"
    by (auto simp: q_keeps split: option.splits)
  then show ?case by (auto simp: q_keeps split: prod.splits outcome.splits)
qed (simp add: q_keeps)

lemma settled_tick [q_keeps]: "settled st d v \<Longrightarrow> settled (tick u st) d v"
  by (auto simp: tick_def q_keeps split: list.splits)

section \<open>Only ticks call back, and new ticks queue behind the old\<close>

definition q_frame :: "qst \<Rightarrow> qst \<Rightarrow> bool" where
  "q_frame st st' = (calls st' = calls st \<and> (\<exists>more. ticks st' = ticks st @ more))"

lemma q_frame_refl [simp, intro]: "q_frame st st"
  by (simp add: q_frame_def)

lemma q_frame_trans: "q_frame a b \<Longrightarrow> q_frame b c \<Longrightarrow> q_frame a c"
  by (auto simp: q_frame_def)

named_theorems q_frames

lemma q_frame_basic [q_frames]:
  "q_frame st (nextTick t st)" "q_frame st (exceptionHandler e st)" "q_frame st (snd (defer_q st))"
  "q_frame st (q_resolve d v st)" "q_frame st (q_reject d v st)" "q_frame st (q_notify d v st)"
  "q_frame st (push_pending d c st)"
  by (auto simp: q_frame_def nextTick_def exceptionHandler_def defer_q_def q_resolve_def q_reject_def
      q_notify_def push_pending_def Let_def split: dstate.splits)

lemmas q_frame_after = q_frame_basic [THEN q_frame_trans [rotated]] q_frame_basic

lemma q_frame_then_q [q_frames]: "q_frame st (snd (then_q n p c st))"
proof (induction n p c st rule: then_q.induct)
  case (4 n d cb eb pb st)
  then show ?case
    using q_frame_trans [OF q_frame_basic(3)] q_frame_basic(7)
    by (fastforce simp: Let_def case_prod_beta split: dstate.splits)
qed (auto simp: q_frame_def defer_q_def nextTick_def)

lemma q_frame_then [q_frames]: "q_frame st (snd (promise_then p c st))"
  by (simp add: promise_then_def q_frame_then_q)

lemma q_frame_fold: "(\<And>x s. q_frame s (f x s)) \<Longrightarrow> q_frame st (fold f xs st)"
  by (induction xs arbitrary: st) (auto intro: q_frame_trans)

lemma q_frame_op [q_frames]: "q_frame st (q_op op st)"
  by (cases op) (simp_all add: q_frames)

lemma q_frame_all_loop [q_frames]: "q_frame st (all_loop a k ps st)"
  by (induction a k ps st rule: all_loop.induct) (auto intro: q_frame_trans q_frame_then)

lemma call_user_frame:
  "q_frame (st\<lparr>calls := calls st @ [(i, v)]\<rparr>) (snd (call_user u i v st))"
  by (simp add: call_user_def case_prod_beta q_frame_fold [OF q_frame_op])

section \<open>Delivery\<close>

fun thens :: "nat \<Rightarrow> nat list \<Rightarrow> qst \<Rightarrow> qst" where
  "thens d [] st = st"
| "thens d (i # is) st = thens d is (snd (promise_then (PD d) (Some (User i), None, None) st))"

definition wrapped :: "nat \<times> nat \<Rightarrow> cbs" where
  "wrapped p = (Some (WrapCb (fst p) (Some (User (snd p)))), Some (WrapEb (fst p) None), Some (WrapPb (fst p) None))"

lemma thens_pending:
  "defs st d = Pending cs \<Longrightarrow>
    \<exists>ps. map snd ps = is \<and> defs (thens d is st) d = Pending (cs @ map wrapped ps) \<and>
      calls (thens d is st) = calls st \<and> ticks (thens d is st) = ticks st"
proof (induction "is" arbitrary: st cs)
  case (Cons i "is")
  let ?st = "snd (promise_then (PD d) (Some (User i), None, None) st)"
  have "defs ?st d = Pending (cs @ [wrapped (q_next st, i)])" "calls ?st = calls st" "ticks ?st = ticks st"
    using Cons.prems by (auto simp: promise_then_def defer_q_def push_pending_def wrapped_def Let_def)
  with Cons.IH [of ?st] obtain ps where "map snd ps = is"
      "defs (thens d is ?st) d = Pending ((cs @ [wrapped (q_next st, i)]) @ map wrapped ps)"
      "calls (thens d is ?st) = calls st" "ticks (thens d is ?st) = ticks st" by auto
  then show ?case by (intro exI [of _ "(q_next st, i) # ps"]) simp
qed (auto intro: exI [of _ "[]"])

definition ref_task :: "jsval \<Rightarrow> nat \<times> nat \<times> nat \<Rightarrow> task" where
  "ref_task v x = TRef (fst x) (Some (WrapCb (fst (snd x)) (Some (User (snd (snd x)))))) v"

lemma settle_values:
  "\<exists>xs. map snd xs = ps \<and> calls (run_task u (TSettle (V v) (map wrapped ps)) st) = calls st \<and>
    ticks (run_task u (TSettle (V v) (map wrapped ps)) st) = ticks st @ map (ref_task v) xs"
proof (induction ps arbitrary: st)
  case (Cons p ps)
  let ?st = "snd (promise_then (V v) (wrapped p) st)"
  have "calls ?st = calls st" "ticks ?st = ticks st @ [ref_task v (q_next st, p)]"
    by (simp_all add: promise_then_def defer_q_def nextTick_def wrapped_def ref_task_def)
  with Cons.IH [of ?st] obtain xs where "map snd xs = ps" "calls (fold (\<lambda>c s. snd (promise_then (V v) c s)) (map wrapped ps) ?st) = calls st"
      "ticks (fold (\<lambda>c s. snd (promise_then (V v) c s)) (map wrapped ps) ?st) = ticks st @ ref_task v (q_next st, p) # map (ref_task v) xs"
    by auto
  then show ?case by (intro exI [of _ "(q_next st, p) # xs"]) simp
qed auto

lemma run_ref_task:
  "calls (run_task u (ref_task v x) st) = calls st @ [(snd (snd x), V v)] \<and>
   (\<exists>more. ticks (run_task u (ref_task v x) st) = ticks st @ more)"
proof -
  obtain r w i where x: "x = (r, w, i)" by (cases x)
  obtain out st1 where c: "call_user u i (V v) st = (out, st1)" by force
  have f: "q_frame (st\<lparr>calls := calls st @ [(i, V v)]\<rparr>) st1"
    using call_user_frame [of st i "V v" u] c by simp
  have "q_frame st1 (run_task u (ref_task v x) st)"
    using x c by (cases out) (auto simp: ref_task_def call_opt_def settle_wrapped_def
        intro: q_frame_after)
  from q_frame_trans [OF f this] x show ?thesis by (auto simp: q_frame_def)
qed

lemma run_ref_tasks:
  "ticks st = map (ref_task v) xs @ rest \<Longrightarrow>
    calls (run_ticks u (length xs) st) = calls st @ map (\<lambda>x. (snd (snd x), V v)) xs"
proof (induction xs arbitrary: st rest)
  case (Cons x xs)
  let ?st = "st\<lparr>ticks := map (ref_task v) xs @ rest\<rparr>"
  have t: "tick u st = run_task u (ref_task v x) ?st" using Cons.prems by (simp add: tick_def)
  obtain more where "ticks (tick u st) = map (ref_task v) xs @ (rest @ more)"
    using run_ref_task [of u v x ?st] t by auto
  from Cons.IH [OF this] run_ref_task [of u v x ?st] t show ?case by simp
qed simp

text \<open>\<open>all\<close> on plain values: one tick per value fills the array.\<close>

definition all_task :: "nat \<Rightarrow> nat \<Rightarrow> nat \<Rightarrow> jsval \<Rightarrow> task" where
  "all_task a d k v = TRef (Suc (d + k)) (Some (AllOk a k)) v"

lemma all_loop_values:
  "q_next st = Suc (d + k) \<Longrightarrow>
    all_loop a k (map V vs) st =
      st\<lparr>q_next := q_next st + length vs, ticks := ticks st @ map (\<lambda>i. all_task a d (k + i) (vs ! i)) [0..<length vs]\<rparr>"
proof (induction vs arbitrary: st k)
  case (Cons v vs)
  let ?st = "st\<lparr>q_next := Suc (q_next st), ticks := ticks st @ [all_task a d k v]\<rparr>"
  have "snd (promise_then (V v) (Some (AllOk a k), Some (AllErr a k), None) st) = ?st"
    using Cons.prems by (simp add: promise_then_def defer_q_def nextTick_def all_task_def)
  moreover have "map (\<lambda>i. all_task a d (k + i) ((v # vs) ! i)) [0..<Suc (length vs)] =
      all_task a d k v # map (\<lambda>i. all_task a d (Suc k + i) (vs ! i)) [0..<length vs]"
    by (subst upt_conv_Cons, simp) (simp add: map_Suc_upt [symmetric] del: upt_Suc map_Suc_upt)
  ultimately show ?case
    using Cons.IH [of ?st "Suc k"] Cons.prems by (simp del: upt_Suc)
qed simp

definition all_state :: "nat \<Rightarrow> nat \<Rightarrow> jsval list \<Rightarrow> nat \<Rightarrow> qst \<Rightarrow> bool" where
  "all_state a d vs k st = (a < length (alls st) \<and>
     alls st ! a = \<lparr>a_deferred = d, a_counter = length vs - k,
        a_results = map Some (take k vs) @ replicate (length vs - k) None\<rparr> \<and>
     (\<forall>j. d \<le> j \<longrightarrow> j \<le> d + length vs \<longrightarrow> (j = d \<or> d + k < j) \<longrightarrow> defs st j = Pending []) \<and>
     ticks st = map (\<lambda>i. all_task a d i (vs ! i)) [k..<length vs])"

lemma all_state_step:
  assumes "all_state a d vs k st" "Suc k < length vs"
  shows "all_state a d vs (Suc k) (tick u st)"
proof -
  let ?rec = "\<lparr>a_deferred = d, a_counter = length vs - Suc k,
      a_results = map Some (take (Suc k) vs) @ replicate (length vs - Suc k) None\<rparr>"
  have ts: "ticks st = all_task a d k (vs ! k) # map (\<lambda>i. all_task a d i (vs ! i)) [Suc k..<length vs]"
    using assms by (simp add: all_state_def upt_conv_Cons)
  have st: "a < length (alls st)" "defs st (Suc (d + k)) = Pending []"
      "alls st ! a = \<lparr>a_deferred = d, a_counter = length vs - k,
        a_results = map Some (take k vs) @ replicate (length vs - k) None\<rparr>"
    using assms by (auto simp: all_state_def)
  have n: "length vs - k = Suc (length vs - Suc k)" using assms(2) by simp
  have "(map Some (take k vs) @ replicate (length vs - k) None)[k := Some (vs ! k)] =
      map Some (take (Suc k) vs) @ replicate (length vs - Suc k) None"
    using assms(2) n by (simp add: list_update_append take_Suc_conv_app_nth)
  moreover have "(map Some (take k vs) @ replicate (length vs - k) None) ! k = None"
    using assms(2) by (simp add: nth_append)
  ultimately have "tick u st = st\<lparr>ticks := map (\<lambda>i. all_task a d i (vs ! i)) [Suc k..<length vs],
      alls := (alls st)[a := ?rec], defs := (defs st)(Suc (d + k) := Settled [] q_undef)\<rparr>"
    using st assms(2) by (simp add: tick_def ts all_task_def [of _ _ k] call_opt_def all_ok_def value_of_def
        q_resolve_def n Let_def)
  with assms show ?thesis by (auto simp: all_state_def)
qed

lemma all_state_last:
  assumes "all_state a d vs k st" "Suc k = length vs"
  shows "settled (tick u st) d (V (JArr vs))"
proof -
  have ts: "ticks st = [all_task a d k (vs ! k)]" using assms by (simp add: all_state_def upt_conv_Cons)
  have st: "a < length (alls st)" "defs st (Suc (d + k)) = Pending []" "defs st d = Pending []"
      "alls st ! a = \<lparr>a_deferred = d, a_counter = length vs - k,
        a_results = map Some (take k vs) @ replicate (length vs - k) None\<rparr>"
    using assms by (auto simp: all_state_def)
  have "map the ((map Some (take k vs) @ replicate (length vs - k) None)[k := Some (vs ! k)]) = vs"
    using assms(2) take_Suc_conv_app_nth [of k vs]
    by (simp add: list_update_append comp_def flip: assms(2))
  moreover have "(map Some (take k vs) @ replicate (length vs - k) None) ! k = None" "length vs - k = Suc 0"
    using assms(2) by (auto simp: nth_append)
  ultimately show ?thesis
    using st by (simp add: tick_def ts all_task_def call_opt_def all_ok_def value_of_def
        Let_def q_resolve_def settled_def)
qed

lemma all_state_run:
  "all_state a d vs k st \<Longrightarrow> k < length vs \<Longrightarrow> settled (run_ticks u (length vs - k) st) d (V (JArr vs))"
proof (induction "length vs - k" arbitrary: k st)
  case (Suc m)
  show ?case
  proof (cases "Suc k = length vs")
    case True
    moreover have "length vs - k = Suc 0" using True by simp
    ultimately show ?thesis using all_state_last [OF Suc.prems(1) True] by simp
  next
    case False
    with Suc.prems have *: "Suc k < length vs" by simp
    have "length vs - k = Suc (length vs - Suc k)" using * by simp
    moreover have "settled (run_ticks u (length vs - Suc k) (tick u st)) d (V (JArr vs))"
      using Suc.hyps(1) [of "Suc k" "tick u st"] Suc.hyps(2) all_state_step [OF Suc.prems(1) *] * by simp
    ultimately show ?thesis by simp
  qed
qed simp

section \<open>Runs\<close>

datatype q_event = EvOp qop | EvReject pval | EvFinally pval "nat option" | EvCatch pval "fn option"
  | EvWhen pval "nat option \<times> nat option \<times> nat option" | EvAll "pval list" | EvTick

fun q_step :: "user \<Rightarrow> q_event \<Rightarrow> qst \<Rightarrow> qst" where
  "q_step u (EvOp op) st = q_op op st"
| "q_step u (EvReject reason) st = snd (reject_q reason st)"
| "q_step u (EvFinally p callback) st = snd (promise_finally p callback st)"
| "q_step u (EvCatch p callback) st = snd (promise_catch p callback st)"
| "q_step u (EvWhen v c) st = snd (when_q v c st)"
| "q_step u (EvAll ps) st = snd (all_q ps st)"
| "q_step u EvTick st = tick u st"

lemma settled_all_loop [q_keeps]: "settled st d v \<Longrightarrow> settled (all_loop a k ps st) d v"
  by (induction a k ps st rule: all_loop.induct) (simp_all add: q_keeps)

lemma settled_step: "settled st d v \<Longrightarrow> settled (q_step u ev st) d v"
  by (cases ev) (auto simp: q_keeps promise_finally_def promise_catch_def when_q_def all_q_def
      defer_q_def Let_def)

interpretation q: write_once settled "q_step u" for u
  by unfold_locales (auto intro: settled_unique settled_step)

lemma q_step_frame: "ev \<noteq> EvTick \<Longrightarrow> q_frame st (q_step u ev st)"
proof (cases ev)
  case (EvAll ps)
  let ?st = "st\<lparr>q_next := Suc (q_next st), alls := alls st @ [\<lparr>a_deferred = q_next st, a_counter = length ps,
      a_results = replicate (length ps) None\<rparr>]\<rparr>"
  have "q_frame st ?st" by (simp add: q_frame_def)
  then have "q_frame st (all_loop (length (alls st)) 0 ps ?st)" by (rule q_frame_trans) (rule q_frame_all_loop)
  then have "q_frame st (q_resolve (q_next st) (V (JArr [])) (all_loop (length (alls st)) 0 ps ?st))"
    by (rule q_frame_after)
  with \<open>q_frame st (all_loop _ _ _ _)\<close> EvAll show ?thesis
    by (cases "ps = []") (simp_all add: all_q_def defer_q_def Let_def)
qed (auto simp: q_frames reject_q_def promise_finally_def promise_catch_def when_q_def case_prod_beta
    intro!: q_frame_after, auto simp: q_frame_def defer_q_def)

section \<open>Properties\<close>

text \<open>A promise settles once: whatever operations, callbacks and ticks follow, a settled
  deferred keeps its value, so that resolving or rejecting it again changes nothing.\<close>

lemma q_settles_once:
  assumes "settled (fold (q_step u) evs q_init) d v"
  shows "settled (fold (q_step u) (evs @ later) q_init) d w \<longleftrightarrow> w = v"
  using assms by (rule q.first_value_wins)

lemma q_settles_once_witness:
  "\<forall>w. settled (fold (q_step (\<lambda>i x. ([], Ret x))) ([EvOp (QResolve 0 (V (JNum 1)))] @ [EvOp (QReject 0 (V JNull)), EvTick]) q_init) 0 w
    \<longleftrightarrow> w = V (JNum 1)"
proof
  fix w
  have "settled (fold (q_step (\<lambda>i x. ([], Ret x))) [EvOp (QResolve 0 (V (JNum 1)))] q_init) 0 (V (JNum 1))"
    by (simp add: settled_def q_resolve_def q_init_def)
  from q_settles_once [OF this]
  show "settled (fold (q_step (\<lambda>i x. ([], Ret x))) ([EvOp (QResolve 0 (V (JNum 1)))] @ [EvOp (QReject 0 (V JNull)), EvTick]) q_init) 0 w
      \<longleftrightarrow> w = V (JNum 1)" .
qed

text \<open>C19: Callbacks are called later, once, and in order: no operation of the service calls a
  user callback by itself, and when a promise with callbacks \<open>is\<close> is resolved with a value,
  the next \<open>1 + length is\<close> ticks call each of them once with that value, in the order of
  their registration, whatever the callbacks do.\<close>

theorem q_callbacks_in_order:
  assumes "ticks st = []" "defs st d = Pending []" "is \<noteq> []"
  shows "let st1 = q_resolve d (V v) (thens d is st) in calls st1 = calls st \<and> (\<forall>ev. ev \<noteq> EvTick \<longrightarrow> calls (q_step u ev st1) = calls st1) \<and>
    calls (run_ticks u (Suc (length is)) st1) = calls st @ map (\<lambda>i. (i, V v)) is"
proof -
  define st1 where "st1 = q_resolve d (V v) (thens d is st)"
  obtain ps where ps: "map snd ps = is" "defs (thens d is st) d = Pending (map wrapped ps)"
      "calls (thens d is st) = calls st" "ticks (thens d is st) = []"
    using thens_pending [OF assms(2), of "is"] assms(1) by auto
  moreover have "ps \<noteq> []" using ps(1) assms(3) by auto
  ultimately have st1: "ticks st1 = [TSettle (V v) (map wrapped ps)]" "calls st1 = calls st"
    unfolding st1_def by (auto simp: q_resolve_def nextTick_def Let_def)
  let ?st2 = "run_task u (TSettle (V v) (map wrapped ps)) (st1\<lparr>ticks := []\<rparr>)"
  obtain xs where xs: "map snd xs = ps" "calls ?st2 = calls st1" "ticks ?st2 = map (ref_task v) xs @ []"
    using settle_values [of ps u v "st1\<lparr>ticks := []\<rparr>"] by auto
  have len: "length is = length xs" using xs(1) ps(1) by auto
  have "is = map (\<lambda>x. snd (snd x)) xs" using xs(1) ps(1) by (auto simp: comp_def)
  then have "calls (run_ticks u (length xs) ?st2) = calls st @ map (\<lambda>i. (i, V v)) is"
    using run_ref_tasks [OF xs(3), of u] xs(2) st1(2) by (simp add: comp_def)
  moreover have "run_ticks u (Suc (length is)) st1 = run_ticks u (length xs) ?st2"
    using st1(1) len by (simp add: tick_def)
  ultimately show ?thesis using st1(2) q_step_frame [of _ st1 u] unfolding st1_def [symmetric]
    by (auto simp: q_frame_def Let_def)
qed

theorem q_callbacks_in_order_witness:
  "calls (run_ticks (\<lambda>i x. ([QReject 0 x], Throw x)) 3 (q_resolve 0 (V (JNum 7)) (thens 0 [5, 6] q_init))) =
    [(5, V (JNum 7)), (6, V (JNum 7))]"
  using q_callbacks_in_order [of q_init 0 "[5, 6]" "JNum 7" "\<lambda>i x. ([QReject 0 x], Throw x)"]
  by (simp add: q_init_def numeral_3_eq_3 Let_def)

text \<open>\<open>$q.all\<close> on an array of plain values resolves its promise with the array of these
  values in order, after one tick per value; for an empty array it does so at once.\<close>

lemma q_all_collects:
  assumes "ticks st = []" "\<forall>j\<ge>q_next st. defs st j = Pending []"
  shows "let (d, st1) = all_q (map V vs) st in settled (run_ticks u (length vs) st1) d (V (JArr vs))"
proof (cases "vs = []")
  case True
  then show ?thesis using assms by (simp add: all_q_def defer_q_def q_resolve_def settled_def Let_def)
next
  case False
  let ?st = "st\<lparr>q_next := Suc (q_next st), alls := alls st @ [\<lparr>a_deferred = q_next st, a_counter = length vs,
      a_results = replicate (length vs) None\<rparr>]\<rparr>"
  have "all_state (length (alls st)) (q_next st) vs 0 (all_loop (length (alls st)) 0 (map V vs) ?st)"
    using assms all_loop_values [of ?st "q_next st" 0 "length (alls st)" vs] by (simp add: all_state_def)
  from all_state_run [OF this] False show ?thesis
    by (simp add: all_q_def defer_q_def Let_def)
qed

lemma q_all_collects_witness:
  "let (d, st1) = all_q (map V [JNum 1, JNull]) q_init in settled (run_ticks (\<lambda>i x. ([], Ret x)) 2 st1) d (V (JArr [JNum 1, JNull]))"
  using q_all_collects [of q_init "[JNum 1, JNull]" "\<lambda>i x. ([], Ret x)"] by (simp add: q_init_def numeral_2_eq_2)

end
