(* ===== verification/Modal.thy ===== *)
theory Modal
  imports Js
begin

text \<open>
  The dialogs of the console: \<open>ui-bootstrap-tpls.js\<close>, the stacked map, the multi map, the
  modal stack and the modal service. The state of the stack is one record; promises are
  the outcomes recorded for a dialog, animations are events that arrive later, and the
  document is the classes of its elements, the focused element and the inserted ones.
  Listeners of \<open>modal.closing\<close> are a parameter that says whether they prevent the closing.
\<close>

section \<open>The stacked map\<close>

type_synonym ('k, 'v) smap = "('k \<times> 'v) list"

definition sm_new :: "('k, 'v) smap" where
  "sm_new = []"

definition sm_add :: "'k \<Rightarrow> 'v \<Rightarrow> ('k, 'v) smap \<Rightarrow> ('k, 'v) smap" where
  "sm_add key v stack = stack @ [(key, v)]"

fun sm_get :: "'k \<Rightarrow> ('k, 'v) smap \<Rightarrow> 'v option" where
  "sm_get key [] = None"
| "sm_get key ((k, v) # stack) = (if key = k then Some v else sm_get key stack)"

definition sm_keys :: "('k, 'v) smap \<Rightarrow> 'k list" where
  "sm_keys stack = map fst stack"

definition sm_top :: "('k, 'v) smap \<Rightarrow> ('k \<times> 'v) option" where
  "sm_top stack = (if stack = [] then None else Some (last stack))"

text \<open>\<open>stack.splice(idx, 1)\<close>; a negative index counts from the end.\<close>

definition splice1 :: "int \<Rightarrow> 'a list \<Rightarrow> 'a option \<times> 'a list" where
  "splice1 idx xs =
     (let i = (if idx < 0 then nat (max 0 (int (length xs) + idx)) else nat idx)
      in if i < length xs then (Some (xs ! i), take i xs @ drop (Suc i) xs) else (None, xs))"

fun sm_index :: "'k \<Rightarrow> int \<Rightarrow> ('k, 'v) smap \<Rightarrow> int" where
  "sm_index key i [] = -1"
| "sm_index key i ((k, v) # stack) = (if key = k then i else sm_index key (i + 1) stack)"

definition sm_remove :: "'k \<Rightarrow> ('k, 'v) smap \<Rightarrow> ('k \<times> 'v) option \<times> ('k, 'v) smap" where
  "sm_remove key stack = splice1 (sm_index key 0 stack) stack"

definition sm_removeTop :: "('k, 'v) smap \<Rightarrow> ('k \<times> 'v) option \<times> ('k, 'v) smap" where
  "sm_removeTop stack = splice1 (int (length stack) - 1) stack"

definition sm_length :: "('k, 'v) smap \<Rightarrow> nat" where
  "sm_length stack = length stack"

section \<open>The multi map\<close>

text \<open>The map is a plain object: a name of \<open>Object.prototype\<close> is found there although nothing
  was put, and has no \<open>push\<close> and no \<open>indexOf\<close>. An error is \<open>None\<close>.\<close>

type_synonym 'v mmap = "(string \<times> 'v list) list"

definition mm_inherits :: "'v mmap \<Rightarrow> string \<Rightarrow> bool" where
  "mm_inherits mm key = (map_of mm key = None \<and> key \<in> set object_proto)"

definition mm_entries :: "'v mmap \<Rightarrow> (string \<times> 'v list) list" where
  "mm_entries mm = mm"

definition mm_keys :: "'v mmap \<Rightarrow> string list" where
  "mm_keys mm = map fst mm"

definition mm_get :: "'v mmap \<Rightarrow> string \<Rightarrow> 'v list option" where
  "mm_get mm key = map_of mm key"

definition mm_hasKey :: "'v mmap \<Rightarrow> string \<Rightarrow> bool" where
  "mm_hasKey mm key = (map_of mm key \<noteq> None \<or> mm_inherits mm key)"

fun mm_set :: "string \<Rightarrow> 'v list \<Rightarrow> 'v mmap \<Rightarrow> 'v mmap" where
  "mm_set key vs [] = [(key, vs)]"
| "mm_set key vs ((k, ws) # mm) = (if k = key then (k, vs) # mm else (k, ws) # mm_set key vs mm)"

definition mm_put :: "string \<Rightarrow> 'v \<Rightarrow> 'v mmap \<Rightarrow> 'v mmap option" where
  "mm_put key v mm =
     (if mm_inherits mm key then None
      else Some (mm_set key ((case map_of mm key of Some vs \<Rightarrow> vs | None \<Rightarrow> []) @ [v]) mm))"

definition mm_remove :: "string \<Rightarrow> 'v \<Rightarrow> 'v mmap \<Rightarrow> 'v mmap option" where
  "mm_remove key v mm =
     (if mm_inherits mm key then None
      else case map_of mm key of
        None \<Rightarrow> Some mm
      | Some vs \<Rightarrow> (let vs' = remove1 v vs in
          Some (if vs' = [] then filter (\<lambda>p. fst p \<noteq> key) mm else mm_set key vs' mm)))"

section \<open>The state of the modal stack\<close>

type_synonym mid = nat
type_synonym eid = nat

datatype backdrop = NoBackdrop | Backdrop | Static

record modal =
  m_scope :: nat
  m_backdrop :: backdrop
  m_keyboard :: bool
  m_openedClass :: string
  m_windowTopClass :: string
  m_animation :: bool
  m_appendTo :: "eid option"

record win =
  w_scope :: nat
  w_backdrop :: backdrop
  w_keyboard :: bool
  w_openedClass :: string
  w_windowTopClass :: string
  w_animation :: bool
  w_appendTo :: "eid option"
  w_domEl :: eid
  w_opener :: "eid option"

datatype m_outcome = Resolved jsval | Rejected jsval

datatype removal = RmWindow mid win | RmBackdrop eid

datatype leaving = LvWindow mid eid | LvBackdrop eid

record mst =
  openedWindows :: "(mid, win) smap"
  openedClasses :: "mid mmap"
  backdrop_el :: "(eid \<times> int) option"
  focusable :: "eid list option"
  next_el :: eid
  el_class :: "eid \<Rightarrow> string set"
  in_dom :: "eid list"
  entering :: "(nat \<times> eid \<times> string) list"
  scheduled :: "nat list"
  results :: "mid \<Rightarrow> m_outcome option"
  rendered :: "mid list"
  closed :: "mid list"
  removing :: "removal list"
  leaves :: "leaving list"
  focused :: "eid option"
  m_errors :: "string list"

definition m_init :: "eid \<Rightarrow> mst" where
  "m_init e = \<lparr>openedWindows = [], openedClasses = [], backdrop_el = None, focusable = None,
     next_el = e, el_class = (\<lambda>_. {}), in_dom = [], entering = [], scheduled = [], results = Map.empty,
     rendered = [], closed = [], removing = [], leaves = [], focused = None, m_errors = []\<rparr>"

definition OPENED_MODAL_CLASS :: string where
  "OPENED_MODAL_CLASS = ''modal-open''"

definition body_class :: "string \<Rightarrow> string" where
  "body_class openedClass = (if openedClass \<noteq> [] then openedClass else OPENED_MODAL_CLASS)"

definition class_words :: "string \<Rightarrow> string set" where
  "class_words cs = set (js_split (\<lambda>c. c = CHR '' '') cs) - {[]}"

definition toggleClass :: "eid \<Rightarrow> string \<Rightarrow> bool \<Rightarrow> mst \<Rightarrow> mst" where
  "toggleClass e cs on st = st\<lparr>el_class := (el_class st)(e :=
     (if on then el_class st e \<union> class_words cs else el_class st e - class_words cs))\<rparr>"

definition backdropIndex :: "(mid, win) smap \<Rightarrow> int" where
  "backdropIndex ws = fold (\<lambda>i top. case sm_get (sm_keys ws ! i) ws of
      Some w \<Rightarrow> if w_backdrop w \<noteq> NoBackdrop then int i else top | None \<Rightarrow> top)
    [0..<length (sm_keys ws)] (-1)"

section \<open>Operations of the modal stack\<close>

definition watch_backdrop :: "mst \<Rightarrow> mst" where
  "watch_backdrop st = st\<lparr>backdrop_el := map_option (\<lambda>(e, i). (e, backdropIndex (openedWindows st))) (backdrop_el st)\<rparr>"

definition toggleTopWindowClass :: "bool \<Rightarrow> mst \<Rightarrow> mst" where
  "toggleTopWindowClass on st = (case sm_top (openedWindows st) of
     None \<Rightarrow> st | Some (k, w) \<Rightarrow> toggleClass (w_domEl w) (w_windowTopClass w) on st)"

definition removeAfterAnimate :: "removal \<Rightarrow> mst \<Rightarrow> mst" where
  "removeAfterAnimate r st = st\<lparr>removing := removing st @ [r]\<rparr>"

definition checkRemoveBackdrop :: "mst \<Rightarrow> mst" where
  "checkRemoveBackdrop st = (case backdrop_el st of
     Some (e, i) \<Rightarrow> if backdropIndex (openedWindows st) = -1
       then (removeAfterAnimate (RmBackdrop e) st)\<lparr>backdrop_el := None\<rparr> else st
   | None \<Rightarrow> st)"

definition removeModalWindow :: "mid \<Rightarrow> win \<Rightarrow> mst \<Rightarrow> mst" where
  "removeModalWindow m w st =
     (let st1 = st\<lparr>openedWindows := snd (sm_remove m (openedWindows st))\<rparr>;
          st2 = checkRemoveBackdrop (removeAfterAnimate (RmWindow m w) st1)
      in st2\<lparr>focused := (case w_opener w of Some e \<Rightarrow> Some e | None \<Rightarrow> w_appendTo w)\<rparr>)"

text \<open>\<open>done\<close> of a window: its class leaves the body when no other dialog uses it.\<close>

definition window_done :: "mid \<Rightarrow> win \<Rightarrow> mst \<Rightarrow> mst" where
  "window_done m w st = (let c = body_class (w_openedClass w) in
     case mm_remove c m (openedClasses st) of
       None \<Rightarrow> st\<lparr>m_errors := m_errors st @ [''TypeError'']\<rparr>
     | Some mm \<Rightarrow> (let st1 = st\<lparr>openedClasses := mm\<rparr>;
         st2 = (case w_appendTo w of Some e \<Rightarrow> toggleClass e c (mm_hasKey mm c) st1 | None \<Rightarrow> st1)
         in toggleTopWindowClass True st2))"

definition afterAnimating :: "removal \<Rightarrow> mst \<Rightarrow> mst" where
  "afterAnimating r st = (case r of
     RmWindow m w \<Rightarrow> window_done m w (st\<lparr>leaves := leaves st @ [LvWindow m (w_domEl w)]\<rparr>)
   | RmBackdrop e \<Rightarrow> st\<lparr>leaves := leaves st @ [LvBackdrop e]\<rparr>)"

definition after_leave :: "leaving \<Rightarrow> mst \<Rightarrow> mst" where
  "after_leave l st = (case l of
     LvWindow m e \<Rightarrow> st\<lparr>in_dom := removeAll e (in_dom st), closed := closed st @ [m]\<rparr>
   | LvBackdrop e \<Rightarrow> st\<lparr>in_dom := removeAll e (in_dom st)\<rparr>)"

definition m_throw :: "string \<Rightarrow> mst \<Rightarrow> mst" where
  "m_throw e st = st\<lparr>m_errors := m_errors st @ [e]\<rparr>"

definition new_win :: "modal \<Rightarrow> eid \<Rightarrow> eid option \<Rightarrow> win" where
  "new_win mo el opener = \<lparr>w_scope = m_scope mo, w_backdrop = m_backdrop mo, w_keyboard = m_keyboard mo,
     w_openedClass = m_openedClass mo, w_windowTopClass = m_windowTopClass mo,
     w_animation = m_animation mo, w_appendTo = m_appendTo mo, w_domEl = el, w_opener = opener\<rparr>"

definition show_backdrop :: "mst \<Rightarrow> mst" where
  "show_backdrop st = (let i = backdropIndex (openedWindows st) in
     if i \<ge> 0 \<and> backdrop_el st = None
     then st\<lparr>backdrop_el := Some (next_el st, i), in_dom := in_dom st @ [next_el st], next_el := Suc (next_el st)\<rparr>
     else st)"

definition clearFocusListCache :: "mst \<Rightarrow> mst" where
  "clearFocusListCache st = st\<lparr>focusable := Some []\<rparr>"

text \<open>Opening: the window is on the stack before the checks that can throw. The element of the
  window and the element that had the focus are set at the end of the function; nothing
  in between reads them.\<close>

definition m_open :: "mid \<Rightarrow> modal \<Rightarrow> mst \<Rightarrow> mst" where
  "m_open m mo st =
     (let c = body_class (m_openedClass mo);
          st1 = toggleTopWindowClass False st;
          el = (if backdrop_el st = None \<and> backdropIndex (sm_add m (new_win mo 0 None) (openedWindows st)) \<ge> 0
                then Suc (next_el st) else next_el st);
          st2 = st1\<lparr>openedWindows := sm_add m (new_win mo el (focused st)) (openedWindows st1)\<rparr>
      in case mm_put c m (openedClasses st2) of
           None \<Rightarrow> m_throw ''TypeError'' st2
         | Some mm \<Rightarrow> (let st3 = st2\<lparr>openedClasses := mm\<rparr> in
             case m_appendTo mo of
               None \<Rightarrow> m_throw ''appendTo element not found'' st3
             | Some body \<Rightarrow> (let st4 = show_backdrop st3;
                 st5 = st4\<lparr>in_dom := in_dom st4 @ [el], next_el := Suc el, entering := entering st4 @ [(m_scope mo, body, c)]\<rparr>
                 in clearFocusListCache st5)))"

text \<open>The enter animation ends: the body gets the class unless the dialog is already closing.\<close>

definition after_enter :: "nat \<times> eid \<times> string \<Rightarrow> mst \<Rightarrow> mst" where
  "after_enter x st = (case x of (sc, body, c) \<Rightarrow> if sc \<in> set (scheduled st) then st else toggleClass body c True st)"

definition settle_result :: "mid \<Rightarrow> m_outcome \<Rightarrow> mst \<Rightarrow> mst" where
  "settle_result m out st = (if results st m = None then st\<lparr>results := (results st)(m \<mapsto> out)\<rparr> else st)"

type_synonym preventer = "mid \<Rightarrow> jsval \<Rightarrow> bool \<Rightarrow> bool"

definition broadcastClosing :: "preventer \<Rightarrow> mid \<Rightarrow> jsval \<Rightarrow> bool \<Rightarrow> bool" where
  "broadcastClosing prevent m resultOrReason closing = (\<not> prevent m resultOrReason closing)"

definition m_close :: "preventer \<Rightarrow> mid \<Rightarrow> jsval \<Rightarrow> mst \<Rightarrow> bool \<times> mst" where
  "m_close prevent m result st = (case sm_get m (openedWindows st) of
     None \<Rightarrow> (True, st)
   | Some w \<Rightarrow> if broadcastClosing prevent m result True
       then (True, removeModalWindow m w (settle_result m (Resolved result) (st\<lparr>scheduled := w_scope w # scheduled st\<rparr>)))
       else (False, st))"

definition m_dismiss :: "preventer \<Rightarrow> mid \<Rightarrow> jsval \<Rightarrow> mst \<Rightarrow> bool \<times> mst" where
  "m_dismiss prevent m reason st = (case sm_get m (openedWindows st) of
     None \<Rightarrow> (True, st)
   | Some w \<Rightarrow> if broadcastClosing prevent m reason False
       then (True, removeModalWindow m w (settle_result m (Rejected reason) (st\<lparr>scheduled := w_scope w # scheduled st\<rparr>)))
       else (False, st))"

section \<open>Facts about the stacked map\<close>

lemma sm_get_append: "sm_get k (s @ t) = (case sm_get k s of Some v \<Rightarrow> Some v | None \<Rightarrow> sm_get k t)"
  by (induction k s rule: sm_get.induct) auto

lemma sm_get_None: "sm_get k s = None \<longleftrightarrow> k \<notin> fst ` set s"
  by (induction k s rule: sm_get.induct) auto

lemma sm_get_SomeD: "sm_get k s = Some v \<Longrightarrow> (k, v) \<in> set s"
  by (induction k s rule: sm_get.induct) (auto split: if_splits)

lemma sm_get_distinct: "distinct (map fst s) \<Longrightarrow> (k, v) \<in> set s \<Longrightarrow> sm_get k s = Some v"
  by (induction k s rule: sm_get.induct) force+

lemma sm_index_range:
  "k \<in> fst ` set s \<Longrightarrow> i \<le> sm_index k i s \<and> sm_index k i s < i + int (length s)"
  by (induction k i s rule: sm_index.induct) fastforce+

lemma sm_index_missing: "k \<notin> fst ` set s \<Longrightarrow> sm_index k i s = -1"
  by (induction k i s rule: sm_index.induct) auto

lemma splice1_shift:
  assumes "0 \<le> i"
  shows "splice1 (i + 1) (x # xs) = (fst (splice1 i xs), x # snd (splice1 i xs))"
proof -
  have "nat (i + 1) = Suc (nat i)" using assms by simp
  then show ?thesis using assms by (simp add: splice1_def Let_def)
qed

lemma sm_index_shift: "k \<in> fst ` set s \<Longrightarrow> sm_index k (i + j) s = sm_index k i s + j"
  by (induction k i s rule: sm_index.induct) (auto simp: add.commute add.left_commute)

lemma sm_remove_Nil [simp]: "sm_remove k [] = (None, [])"
  by (simp add: sm_remove_def splice1_def)

lemma sm_remove_Cons:
  "sm_remove k ((j, v) # s) = (if k = j then (Some (j, v), s)
     else if k \<in> fst ` set s then (fst (sm_remove k s), (j, v) # snd (sm_remove k s))
     else (Some (last ((j, v) # s)), butlast ((j, v) # s)))"
proof (cases "k = j")
  case True
  then show ?thesis by (simp add: sm_remove_def splice1_def)
next
  case False
  show ?thesis
  proof (cases "k \<in> fst ` set s")
    case True
    with False sm_index_range [OF True, of 0] sm_index_shift [OF True, of 0 1] show ?thesis
      by (simp add: sm_remove_def splice1_shift)
  next
    case missing: False
    with False have "sm_index k 0 ((j, v) # s) = -1" by (intro sm_index_missing) auto
    moreover have "nat (int (length ((j, v) # s)) - 1) = length s" by simp
    ultimately have "sm_remove k ((j, v) # s) = (Some (((j, v) # s) ! length s), take (length s) ((j, v) # s))"
      by (simp add: sm_remove_def splice1_def Let_def)
    with False missing show ?thesis by (auto simp: last_conv_nth butlast_conv_take)
  qed
qed

lemma sm_remove_present:
  "k \<in> fst ` set s \<Longrightarrow> \<exists>v pre post. s = pre @ (k, v) # post \<and> k \<notin> fst ` set pre \<and>
    sm_get k s = Some v \<and> sm_remove k s = (Some (k, v), pre @ post)"
proof (induction s)
  case (Cons p s)
  obtain j u where p: "p = (j, u)" by force
  show ?case
  proof (cases "k = j")
    case True
    then show ?thesis using p by (intro exI [of _ u] exI [of _ "[]"] exI [of _ s]) (simp add: sm_remove_Cons)
  next
    case False
    with Cons p obtain v pre post where "s = pre @ (k, v) # post" "k \<notin> fst ` set pre" "sm_get k s = Some v"
        "sm_remove k s = (Some (k, v), pre @ post)" by auto
    with False p show ?thesis
      by (intro exI [of _ v] exI [of _ "p # pre"] exI [of _ post]) (auto simp: sm_remove_Cons)
  qed
qed simp

lemma sm_remove_length: "sm_get k s = Some v \<Longrightarrow> length (snd (sm_remove k s)) < length s"
proof -
  assume "sm_get k s = Some v"
  then have "k \<in> fst ` set s" by (auto dest: sm_get_SomeD intro: rev_image_eqI)
  from sm_remove_present [OF this] show ?thesis by auto
qed

lemma sm_get_top: "sm_top s = Some (k, v) \<Longrightarrow> sm_get k s \<noteq> None"
  by (auto simp: sm_top_def sm_get_None split: if_splits) (metis fst_conv imageI last_in_set)

text \<open>The contract the modal stack needs of its map: additions go on top, and removing a key
  that is present takes out its first entry and nothing else.\<close>

locale lifo_map =
  fixes add :: "'k \<Rightarrow> 'v \<Rightarrow> 's \<Rightarrow> 's" and top :: "'s \<Rightarrow> ('k \<times> 'v) option"
    and remove :: "'k \<Rightarrow> 's \<Rightarrow> ('k \<times> 'v) option \<times> 's" and entries :: "'s \<Rightarrow> ('k \<times> 'v) list"
  assumes entries_add: "entries (add k v s) = entries s @ [(k, v)]"
    and top_entries: "top s = (if entries s = [] then None else Some (last (entries s)))"
    and remove_present: "k \<in> fst ` set (entries s) \<Longrightarrow> \<exists>v pre post. entries s = pre @ (k, v) # post \<and>
      k \<notin> fst ` set pre \<and> fst (remove k s) = Some (k, v) \<and> entries (snd (remove k s)) = pre @ post"
begin

lemma top_add: "top (add k v s) = Some (k, v)"
  by (simp add: top_entries entries_add)

lemma remove_top:
  assumes "distinct (map fst (entries s))" "top s = Some (k, v)"
  shows "entries (snd (remove k s)) = butlast (entries s)"
proof -
  have l: "entries s \<noteq> []" "last (entries s) = (k, v)" using assms(2) by (auto simp: top_entries split: if_splits)
  then have e: "entries s = butlast (entries s) @ [(k, v)]" by (metis append_butlast_last_id)
  then have "k \<in> fst ` set (entries s)" by (metis fst_conv image_eqI in_set_conv_decomp)
  from remove_present [OF this] obtain w pre post where p: "entries s = pre @ (k, w) # post"
      "entries (snd (remove k s)) = pre @ post" by blast
  have "post = []"
  proof (rule ccontr)
    assume "post \<noteq> []"
    then have "last (entries s) = last post" by (simp add: p(1))
    with l(2) \<open>post \<noteq> []\<close> have "k \<in> fst ` set post" by (metis fst_conv image_eqI last_in_set)
    with assms(1) p(1) show False by auto
  qed
  with p show ?thesis by simp
qed

lemma remove_add: "k \<notin> fst ` set (entries s) \<Longrightarrow> distinct (map fst (entries s)) \<Longrightarrow> entries (snd (remove k (add k v s))) = entries s"
  using remove_top [of "add k v s" k v] by (simp add: entries_add top_add)

end

interpretation sm: lifo_map sm_add sm_top sm_remove "\<lambda>s. s"
proof
  show "\<exists>v pre post. s = pre @ (k, v) # post \<and> k \<notin> fst ` set pre \<and> fst (sm_remove k s) = Some (k, v) \<and>
      snd (sm_remove k s) = pre @ post" if "k \<in> fst ` set s" for k :: 'a and s :: "('a \<times> 'b) list"
    using sm_remove_present [OF that] by force
qed (simp_all add: sm_add_def sm_top_def)

section \<open>Dismissing all dialogs, keys and clicks\<close>

lemma opened_frame [simp]:
  "openedWindows (toggleClass e c b st) = openedWindows st"
  "openedWindows (toggleTopWindowClass b st) = openedWindows st"
  "openedWindows (removeAfterAnimate r st) = openedWindows st"
  "openedWindows (checkRemoveBackdrop st) = openedWindows st"
  "openedWindows (settle_result m out st) = openedWindows st"
  by (auto simp: toggleClass_def toggleTopWindowClass_def removeAfterAnimate_def checkRemoveBackdrop_def
      settle_result_def split: option.splits)

lemma opened_removeModalWindow [simp]:
  "openedWindows (removeModalWindow m w st) = snd (sm_remove m (openedWindows st))"
  by (simp add: removeModalWindow_def Let_def)

function dismissAll :: "preventer \<Rightarrow> jsval \<Rightarrow> mst \<Rightarrow> mst" where
  "dismissAll prevent reason st = (case sm_top (openedWindows st) of
     None \<Rightarrow> st
   | Some (k, w) \<Rightarrow> (let (ok, st') = m_dismiss prevent k reason st in
       if ok then dismissAll prevent reason st' else st'))"
  by pat_completeness auto
termination
proof (relation "measure (\<lambda>(p, r, st). length (openedWindows st))")
  fix prevent reason st kw k w x ok st'
  assume top: "sm_top (openedWindows st) = Some kw" "(k, w) = kw"
    and d: "x = m_dismiss prevent k reason st" "(ok, st') = x" "ok"
  then obtain v where v: "sm_get k (openedWindows st) = Some v"
    using sm_get_top [of "openedWindows st" k w] by auto
  with d have "openedWindows st' = snd (sm_remove k (openedWindows st))"
    by (auto simp: m_dismiss_def split: if_splits)
  with sm_remove_length [OF v]
  show "((prevent, reason, st'), prevent, reason, st) \<in> measure (\<lambda>(p, r, st). length (openedWindows st))"
    by simp
qed simp

declare dismissAll.simps [simp del]

definition getTop :: "mst \<Rightarrow> (mid \<times> win) option" where
  "getTop st = sm_top (openedWindows st)"

definition modalRendered :: "mid \<Rightarrow> mst \<Rightarrow> mst" where
  "modalRendered m st = (if sm_get m (openedWindows st) \<noteq> None then st\<lparr>rendered := m # rendered st\<rparr> else st)"

text \<open>The list of focusable elements is undefined before the first dialog is opened; every key
  press that reads it loads it first.\<close>

definition focus_list :: "mst \<Rightarrow> eid list" where
  "focus_list st = (case focusable st of Some es \<Rightarrow> es | None \<Rightarrow> [])"

definition focusFirstFocusableElement :: "mst \<Rightarrow> bool \<times> mst" where
  "focusFirstFocusableElement st =
     (if focus_list st \<noteq> [] then (True, st\<lparr>focused := Some (hd (focus_list st))\<rparr>) else (False, st))"

definition focusLastFocusableElement :: "mst \<Rightarrow> bool \<times> mst" where
  "focusLastFocusableElement st =
     (if focus_list st \<noteq> [] then (True, st\<lparr>focused := Some (last (focus_list st))\<rparr>) else (False, st))"

definition isModalFocused :: "eid \<Rightarrow> win \<Rightarrow> bool" where
  "isModalFocused target w = (target = w_domEl w)"

definition isFocusInFirstItem :: "eid \<Rightarrow> mst \<Rightarrow> bool" where
  "isFocusInFirstItem target st = (focus_list st \<noteq> [] \<and> target = hd (focus_list st))"

definition isFocusInLastItem :: "eid \<Rightarrow> mst \<Rightarrow> bool" where
  "isFocusInLastItem target st = (focus_list st \<noteq> [] \<and> target = last (focus_list st))"

definition loadFocusElementList :: "(eid \<Rightarrow> eid list) \<Rightarrow> win \<Rightarrow> mst \<Rightarrow> mst" where
  "loadFocusElementList query w st =
     (if focus_list st = [] then st\<lparr>focusable := Some (query (w_domEl w))\<rparr> else st)"

record key_event =
  k_which :: nat
  k_defaultPrevented :: bool
  k_shift :: bool
  k_target :: eid

text \<open>The result says whether the handler prevented the default action.\<close>

definition keydownListener :: "preventer \<Rightarrow> (eid \<Rightarrow> eid list) \<Rightarrow> key_event \<Rightarrow> mst \<Rightarrow> bool \<times> mst" where
  "keydownListener prevent query evt st =
     (if k_defaultPrevented evt then (False, st)
      else case sm_top (openedWindows st) of
        None \<Rightarrow> (False, st)
      | Some (k, w) \<Rightarrow>
          if k_which evt = 27 then
            (if w_keyboard w then (True, snd (m_dismiss prevent k (JStr ''escape key press'') st)) else (False, st))
          else if k_which evt = 9 then
            (let st1 = loadFocusElementList query w st in
             if k_shift evt then
               (if isFocusInFirstItem (k_target evt) st1 \<or> isModalFocused (k_target evt) w
                then focusLastFocusableElement st1 else (False, st1))
             else
               (if isFocusInLastItem (k_target evt) st1 then focusFirstFocusableElement st1 else (False, st1)))
          else (False, st))"

text \<open>A click on the window directive; \<open>outside\<close>: the target is the window element itself.\<close>

definition window_click :: "preventer \<Rightarrow> bool \<Rightarrow> mst \<Rightarrow> mst" where
  "window_click prevent outside st = (case getTop st of
     Some (k, w) \<Rightarrow> if w_backdrop w \<noteq> NoBackdrop \<and> w_backdrop w \<noteq> Static \<and> outside
       then snd (m_dismiss prevent k (JStr ''backdrop click'') st) else st
   | None \<Rightarrow> st)"

definition window_rendered :: "mst \<Rightarrow> mst" where
  "window_rendered st = (case getTop st of Some (k, w) \<Rightarrow> modalRendered k st | None \<Rightarrow> st)"

text \<open>The scope of a dialog is destroyed from outside.\<close>

definition scope_destroyed :: "preventer \<Rightarrow> mid \<Rightarrow> nat \<Rightarrow> mst \<Rightarrow> mst" where
  "scope_destroyed prevent m sc st =
     (if sc \<in> set (scheduled st) then st else snd (m_dismiss prevent m (JStr ''$uibUnscheduledDestruction'') st))"

section \<open>Runs of the modal stack\<close>

datatype m_event =
    OpenDialog mid modal | CloseDialog mid jsval | DismissDialog mid jsval | DismissAll jsval
  | Key key_event | Click bool | Render | Digest | Destroy mid nat
  | Entered nat | Animated nat | Left nat

definition take_at :: "nat \<Rightarrow> 'a list \<Rightarrow> ('a \<times> 'a list) option" where
  "take_at i xs = (if i < length xs then Some (xs ! i, take i xs @ drop (Suc i) xs) else None)"

fun m_step :: "preventer \<Rightarrow> (eid \<Rightarrow> eid list) \<Rightarrow> m_event \<Rightarrow> mst \<Rightarrow> mst" where
  "m_step prevent query (OpenDialog m mo) st = m_open m mo st"
| "m_step prevent query (CloseDialog m v) st = snd (m_close prevent m v st)"
| "m_step prevent query (DismissDialog m v) st = snd (m_dismiss prevent m v st)"
| "m_step prevent query (DismissAll v) st = dismissAll prevent v st"
| "m_step prevent query (Key k) st = snd (keydownListener prevent query k st)"
| "m_step prevent query (Click b) st = window_click prevent b st"
| "m_step prevent query Render st = window_rendered st"
| "m_step prevent query Digest st = watch_backdrop st"
| "m_step prevent query (Destroy m sc) st = scope_destroyed prevent m sc st"
| "m_step prevent query (Entered i) st = (case take_at i (entering st) of
     Some (x, rest) \<Rightarrow> after_enter x (st\<lparr>entering := rest\<rparr>) | None \<Rightarrow> st)"
| "m_step prevent query (Animated i) st = (case take_at i (removing st) of
     Some (r, rest) \<Rightarrow> afterAnimating r (st\<lparr>removing := rest\<rparr>) | None \<Rightarrow> st)"
| "m_step prevent query (Left i) st = (case take_at i (leaves st) of
     Some (l, rest) \<Rightarrow> after_leave l (st\<lparr>leaves := rest\<rparr>) | None \<Rightarrow> st)"

section \<open>The invariant\<close>

definition pend_wins :: "removal list \<Rightarrow> (mid \<times> win) list" where
  "pend_wins rs = concat (map (\<lambda>r. case r of RmWindow m w \<Rightarrow> [(m, w)] | RmBackdrop e \<Rightarrow> []) rs)"

definition all_wins :: "mst \<Rightarrow> (mid \<times> win) list" where
  "all_wins st = openedWindows st @ pend_wins (removing st)"

definition wants_backdrop :: "(mid, win) smap \<Rightarrow> bool" where
  "wants_backdrop ws = list_ex (\<lambda>(m, w). w_backdrop w \<noteq> NoBackdrop) ws"

definition with_class :: "(mid \<times> win) list \<Rightarrow> string \<Rightarrow> mid set" where
  "with_class ws c = fst ` set (filter (\<lambda>(m, w). body_class (w_openedClass w) = c) ws)"

definition mm_vals :: "'v mmap \<Rightarrow> string \<Rightarrow> 'v list" where
  "mm_vals mm c = (case map_of mm c of Some vs \<Rightarrow> vs | None \<Rightarrow> [])"

definition mm_ok :: "'v mmap \<Rightarrow> bool" where
  "mm_ok mm = (distinct (map fst mm) \<and> [] \<notin> snd ` set mm \<and> (\<forall>c. distinct (mm_vals mm c)) \<and>
     fst ` set mm \<inter> set object_proto = {})"

definition modal_ok :: "mst \<Rightarrow> bool" where
  "modal_ok st = (distinct (map fst (all_wins st)) \<and>
     (backdrop_el st \<noteq> None \<longleftrightarrow> wants_backdrop (openedWindows st)) \<and>
     (\<forall>m\<in>fst ` set (openedWindows st). results st m = None) \<and>
     mm_ok (openedClasses st) \<and> (\<forall>c. set (mm_vals (openedClasses st) c) = with_class (all_wins st) c))"

definition event_ok :: "m_event \<Rightarrow> mst \<Rightarrow> bool" where
  "event_ok ev st = (case ev of
     OpenDialog m mo \<Rightarrow> m \<notin> fst ` set (all_wins st) \<and> results st m = None \<and> m_appendTo mo \<noteq> None \<and>
       body_class (m_openedClass mo) \<notin> set object_proto
   | _ \<Rightarrow> True)"

subsection \<open>The index of the top backdrop\<close>

lemma fold_last_index:
  "fold (\<lambda>i top. if P i then int i else top) xs t =
     (if \<exists>i\<in>set xs. P i then int (last (filter P xs)) else t)"
  by (induction xs arbitrary: t) (auto simp: filter_empty_conv)

lemma backdropIndex_eq:
  assumes "distinct (map fst ws)"
  shows "backdropIndex ws =
    fold (\<lambda>i top. if w_backdrop (snd (ws ! i)) \<noteq> NoBackdrop then int i else top) [0..<length ws] (-1)"
proof -
  have "sm_get (sm_keys ws ! i) ws = Some (snd (ws ! i))" if "i < length ws" for i
    using assms that by (intro sm_get_distinct) (auto simp: sm_keys_def)
  then show ?thesis unfolding backdropIndex_def by (intro fold_cong) (auto simp: sm_keys_def)
qed

lemma wants_backdrop_nth: "wants_backdrop ws \<longleftrightarrow> (\<exists>i\<in>set [0..<length ws]. w_backdrop (snd (ws ! i)) \<noteq> NoBackdrop)"
  by (simp add: wants_backdrop_def list_ex_length case_prod_beta Bex_def)

lemma backdropIndex_iff:
  assumes "distinct (map fst ws)"
  shows "0 \<le> backdropIndex ws \<longleftrightarrow> wants_backdrop ws" "backdropIndex ws = -1 \<longleftrightarrow> \<not> wants_backdrop ws"
  unfolding backdropIndex_eq [OF assms] fold_last_index wants_backdrop_nth by auto

subsection \<open>The multi map\<close>

lemma map_of_mm_set [simp]: "map_of (mm_set k vs mm) = (map_of mm)(k \<mapsto> vs)"
  by (induction k vs mm rule: mm_set.induct) auto

lemma mm_set_fst: "fst ` set (mm_set k vs mm) = insert k (fst ` set mm)"
  by (induction k vs mm rule: mm_set.induct) auto

lemma mm_set_snd: "snd ` set (mm_set k vs mm) \<subseteq> insert vs (snd ` set mm)"
  by (induction k vs mm rule: mm_set.induct) auto

lemma mm_set_distinct: "distinct (map fst mm) \<Longrightarrow> distinct (map fst (mm_set k vs mm))"
proof (induction k vs mm rule: mm_set.induct)
  case (2 key vs k ws mm)
  then show ?case using mm_set_fst [of key vs mm] by auto
qed simp

lemma mm_vals_set [simp]: "mm_vals (mm_set k vs mm) c = (if c = k then vs else mm_vals mm c)"
  by (simp add: mm_vals_def)

lemma mm_vals_del [simp]: "mm_vals (filter (\<lambda>p. fst p \<noteq> k) mm) c = (if c = k then [] else mm_vals mm c)"
  by (simp add: mm_vals_def map_of_filter_neq)

lemma mm_put_ok:
  assumes "mm_ok mm" "k \<notin> set object_proto" "v \<notin> set (mm_vals mm k)"
  shows "\<exists>mm'. mm_put k v mm = Some mm' \<and> mm_ok mm' \<and>
    (\<forall>c. mm_vals mm' c = (if c = k then mm_vals mm k @ [v] else mm_vals mm c))"
proof -
  let ?mm = "mm_set k (mm_vals mm k @ [v]) mm"
  have "mm_put k v mm = Some ?mm" using assms(2) by (simp add: mm_put_def mm_inherits_def mm_vals_def)
  moreover have "mm_ok ?mm"
    using assms mm_set_snd [of k "mm_vals mm k @ [v]" mm] by (auto simp: mm_ok_def mm_set_fst mm_set_distinct)
  ultimately show ?thesis by simp
qed

lemma mm_remove_ok:
  assumes "mm_ok mm" "k \<notin> set object_proto"
  shows "\<exists>mm'. mm_remove k v mm = Some mm' \<and> mm_ok mm' \<and>
    (\<forall>c. mm_vals mm' c = (if c = k then remove1 v (mm_vals mm k) else mm_vals mm c))"
proof (cases "map_of mm k")
  case None
  with assms show ?thesis by (auto simp: mm_remove_def mm_inherits_def mm_vals_def)
next
  case (Some vs)
  then have vs: "mm_vals mm k = vs" by (simp add: mm_vals_def)
  have d: "distinct vs" using assms(1) vs by (auto simp: mm_ok_def)
  show ?thesis
  proof (cases "remove1 v vs = []")
    case True
    have "mm_ok (filter (\<lambda>p. fst p \<noteq> k) mm)"
      using assms(1) by (auto simp: mm_ok_def distinct_map_filter)
    with True Some assms vs show ?thesis by (auto simp: mm_remove_def mm_inherits_def)
  next
    case False
    have "mm_ok (mm_set k (remove1 v vs) mm)"
      using assms mm_set_snd [of k "remove1 v vs" mm] False d by (auto simp: mm_ok_def mm_set_fst mm_set_distinct)
    with False Some assms vs show ?thesis by (auto simp: mm_remove_def mm_inherits_def)
  qed
qed

lemma mm_ok_hasKey: "mm_ok mm \<Longrightarrow> c \<notin> set object_proto \<Longrightarrow> mm_hasKey mm c \<longleftrightarrow> mm_vals mm c \<noteq> []"
  by (auto simp: mm_ok_def mm_hasKey_def mm_inherits_def mm_vals_def split: option.splits)
    (metis image_eqI map_of_SomeD snd_conv)

subsection \<open>Preservation\<close>

lemma pend_wins_append [simp]: "pend_wins (rs @ ss) = pend_wins rs @ pend_wins ss"
  by (simp add: pend_wins_def)

lemma pend_wins_simps [simp]:
  "pend_wins [] = []" "pend_wins (RmWindow m w # rs) = (m, w) # pend_wins rs" "pend_wins (RmBackdrop e # rs) = pend_wins rs"
  by (simp_all add: pend_wins_def)

text \<open>The components of the state that the invariant reads.\<close>

definition modal_view :: "mst \<Rightarrow> (mid, win) smap \<times> (mid \<times> win) list \<times> bool \<times> (mid \<Rightarrow> m_outcome option) \<times> mid mmap" where
  "modal_view st = (openedWindows st, pend_wins (removing st), backdrop_el st \<noteq> None, results st, openedClasses st)"

fun view_ok :: "(mid, win) smap \<times> (mid \<times> win) list \<times> bool \<times> (mid \<Rightarrow> m_outcome option) \<times> mid mmap \<Rightarrow> bool" where
  "view_ok (ws, ps, b, res, mm) = (distinct (map fst (ws @ ps)) \<and> b = wants_backdrop ws \<and>
     (\<forall>m\<in>fst ` set ws. res m = None) \<and> mm_ok mm \<and> (\<forall>c. set (mm_vals mm c) = with_class (ws @ ps) c))"

lemma modal_ok_eq: "modal_ok st = view_ok (modal_view st)"
  by (simp add: modal_ok_def modal_view_def all_wins_def)

lemma modal_okD:
  assumes "modal_ok st"
  shows "distinct (map fst (all_wins st))" "(backdrop_el st \<noteq> None) = wants_backdrop (openedWindows st)"
    "\<forall>m\<in>fst ` set (openedWindows st). results st m = None" "mm_ok (openedClasses st)"
    "set (mm_vals (openedClasses st) c) = with_class (all_wins st) c"
  using assms by (auto simp: modal_ok_def)

lemma modal_ok_view: "modal_view st = modal_view st' \<Longrightarrow> modal_ok st = modal_ok st'"
  by (simp add: modal_view_def modal_ok_def all_wins_def)

lemma modal_view_frame [simp]:
  "modal_view (toggleClass e c b st) = modal_view st"
  "modal_view (toggleTopWindowClass b st) = modal_view st"
  "modal_view (watch_backdrop st) = modal_view st"
  "modal_view (modalRendered m st) = modal_view st"
  "modal_view (window_rendered st) = modal_view st"
  "modal_view (after_enter x st) = modal_view st"
  "modal_view (after_leave l st) = modal_view st"
  "modal_view (snd (focusLastFocusableElement st)) = modal_view st"
  "modal_view (snd (focusFirstFocusableElement st)) = modal_view st"
  "modal_view (loadFocusElementList q w st) = modal_view st"
  by (auto simp: modal_view_def toggleClass_def toggleTopWindowClass_def watch_backdrop_def
      modalRendered_def window_rendered_def getTop_def after_enter_def after_leave_def
      focusLastFocusableElement_def focusFirstFocusableElement_def loadFocusElementList_def
      split: option.splits prod.splits leaving.splits)

lemma with_class_append: "with_class (xs @ ys) c = with_class xs c \<union> with_class ys c"
  by (auto simp: with_class_def)

lemma with_class_Cons: "with_class ((m, w) # ws) c = (if body_class (w_openedClass w) = c then {m} else {}) \<union> with_class ws c"
  by (auto simp: with_class_def)

lemma with_class_Nil: "with_class [] c = {}"
  by (simp add: with_class_def)

lemmas with_class_simps = with_class_append with_class_Cons with_class_Nil

lemma with_class_sub: "with_class ws c \<subseteq> fst ` set ws"
  by (auto simp: with_class_def)

lemma check_view:
  assumes "distinct (map fst (openedWindows st))"
  shows "modal_view (checkRemoveBackdrop st) = (openedWindows st, pend_wins (removing st),
     backdrop_el st \<noteq> None \<and> wants_backdrop (openedWindows st), results st, openedClasses st)"
  using backdropIndex_iff [OF assms]
  by (auto simp: checkRemoveBackdrop_def modal_view_def removeAfterAnimate_def split: option.splits)

lemma removeModalWindow_view:
  assumes "distinct (map fst (openedWindows st))" "sm_get m (openedWindows st) = Some w"
  obtains pre post where "openedWindows st = pre @ (m, w) # post"
    "modal_view (removeModalWindow m w st) = (pre @ post, pend_wins (removing st) @ [(m, w)],
       backdrop_el st \<noteq> None \<and> wants_backdrop (pre @ post), results st, openedClasses st)"
proof -
  have "m \<in> fst ` set (openedWindows st)" using assms(2) by (auto dest: sm_get_SomeD intro: rev_image_eqI)
  from sm_remove_present [OF this] assms(2) obtain pre post where p: "openedWindows st = pre @ (m, w) # post"
      "snd (sm_remove m (openedWindows st)) = pre @ post" by auto
  let ?st = "removeAfterAnimate (RmWindow m w) (st\<lparr>openedWindows := pre @ post\<rparr>)"
  have "distinct (map fst (openedWindows ?st))" using assms(1) p(1) by auto
  from check_view [OF this] have "modal_view (removeModalWindow m w st) = (pre @ post, pend_wins (removing st) @ [(m, w)],
       backdrop_el st \<noteq> None \<and> wants_backdrop (pre @ post), results st, openedClasses st)"
    using p(2) by (simp add: removeModalWindow_def Let_def modal_view_def removeAfterAnimate_def)
  with p(1) that show ?thesis by blast
qed

lemma modal_ok_remove:
  assumes "modal_ok st" "sm_get m (openedWindows st) = Some w"
  shows "modal_ok (removeModalWindow m w (settle_result m out (st\<lparr>scheduled := l\<rparr>)))"
proof -
  let ?st = "settle_result m out (st\<lparr>scheduled := l\<rparr>)"
  have r: "results st m = None" "distinct (map fst (openedWindows st))"
    using assms sm_get_SomeD [OF assms(2)] by (force simp: modal_ok_def all_wins_def)+
  then have f: "openedWindows ?st = openedWindows st" "removing ?st = removing st" "backdrop_el ?st = backdrop_el st"
      "openedClasses ?st = openedClasses st" "results ?st = (results st)(m \<mapsto> out)"
    by (simp_all add: settle_result_def)
  obtain pre post where p: "openedWindows st = pre @ (m, w) # post"
    "modal_view (removeModalWindow m w ?st) = (pre @ post, pend_wins (removing st) @ [(m, w)],
       backdrop_el st \<noteq> None \<and> wants_backdrop (pre @ post), (results st)(m \<mapsto> out), openedClasses st)"
    using removeModalWindow_view [of ?st m w] assms(2) r(2) unfolding f by blast
  have "wants_backdrop (openedWindows st) \<longleftrightarrow> w_backdrop w \<noteq> NoBackdrop \<or> wants_backdrop (pre @ post)"
    by (auto simp: p(1) wants_backdrop_def)
  moreover have "m \<notin> fst ` set (pre @ post)" using r(2) p(1) by auto
  moreover have "distinct (map fst (pre @ post @ pend_wins (removing st) @ [(m, w)]))"
    using assms(1) p(1) by (auto simp: modal_ok_def all_wins_def)
  moreover have "with_class (pre @ post @ pend_wins (removing st) @ [(m, w)]) c = with_class (all_wins st) c" for c
    by (auto simp: all_wins_def p(1) with_class_simps)
  moreover have "\<forall>k\<in>fst ` set (pre @ post). ((results st)(m \<mapsto> out)) k = None"
    using modal_okD(3) [OF assms(1)] r(2) p(1) by auto
  ultimately show ?thesis
    using modal_okD [OF assms(1)] by (simp only: modal_ok_eq [of "removeModalWindow m w _"] p(2) view_ok.simps append_assoc) blast
qed

lemma modal_ok_close: "modal_ok st \<Longrightarrow> modal_ok (snd (m_close prevent m v st))"
  by (auto simp: m_close_def modal_ok_remove split: option.splits)

lemma modal_ok_dismiss: "modal_ok st \<Longrightarrow> modal_ok (snd (m_dismiss prevent m v st))"
  by (auto simp: m_dismiss_def modal_ok_remove split: option.splits)

lemma modal_ok_dismissAll: "modal_ok st \<Longrightarrow> modal_ok (dismissAll prevent v st)"
proof (induction prevent v st rule: dismissAll.induct)
  case (1 prevent v st)
  show ?case
  proof (cases "sm_top (openedWindows st)")
    case None
    with 1 show ?thesis by (simp add: dismissAll.simps [of _ _ st])
  next
    case (Some kw)
    obtain k w where kw: "kw = (k, w)" by force
    obtain ok st' where d: "m_dismiss prevent k v st = (ok, st')" by force
    have "modal_ok st'" using modal_ok_dismiss [OF 1(2), of prevent k v] d by simp
    with 1(1) [OF Some kw [symmetric] d [symmetric] refl] Some kw d show ?thesis
      by (simp add: dismissAll.simps [of _ _ st])
  qed
qed

lemma toggleTopWindowClass_openedClasses [simp]: "openedClasses (toggleTopWindowClass b st) = openedClasses st"
  by (simp add: toggleTopWindowClass_def toggleClass_def split: option.splits)

lemma modal_ok_open:
  assumes "modal_ok st" "m \<notin> fst ` set (all_wins st)" "results st m = None" "m_appendTo mo = Some body"
    "body_class (m_openedClass mo) \<notin> set object_proto"
  shows "modal_ok (m_open m mo st)" "m_errors (m_open m mo st) = m_errors st"
    "\<exists>w. openedWindows (m_open m mo st) = openedWindows st @ [(m, w)] \<and> w_backdrop w = m_backdrop mo \<and> w_keyboard w = m_keyboard mo"
proof -
  let ?c = "body_class (m_openedClass mo)"
  have ok: "mm_ok (openedClasses st)" and cls: "\<And>c. set (mm_vals (openedClasses st) c) = with_class (all_wins st) c"
    and b: "backdrop_el st \<noteq> None \<longleftrightarrow> wants_backdrop (openedWindows st)"
    and d: "distinct (map fst (all_wins st))"
    using assms(1) by (auto simp: modal_ok_def)
  have "m \<notin> set (mm_vals (openedClasses st) ?c)" using cls with_class_sub assms(2) by blast
  from mm_put_ok [OF ok assms(5) this] obtain mm where mm: "mm_put ?c m (openedClasses st) = Some mm" "mm_ok mm"
      "\<And>c. mm_vals mm c = (if c = ?c then mm_vals (openedClasses st) ?c @ [m] else mm_vals (openedClasses st) c)" by blast
  define el where "el = (if backdrop_el st = None \<and> backdropIndex (sm_add m (new_win mo 0 None) (openedWindows st)) \<ge> 0
                then Suc (next_el st) else next_el st)"
  define w where "w = new_win mo el (focused st)"
  define st3 where "st3 = (toggleTopWindowClass False st)\<lparr>openedWindows := openedWindows st @ [(m, w)], openedClasses := mm\<rparr>"
  have st3: "openedWindows st3 = openedWindows st @ [(m, w)]" "openedClasses st3 = mm" "backdrop_el st3 = backdrop_el st"
      "removing st3 = removing st" "results st3 = results st" "m_errors st3 = m_errors st"
    by (auto simp: st3_def toggleTopWindowClass_def toggleClass_def split: option.splits)
  have op: "m_open m mo st = clearFocusListCache ((show_backdrop st3)\<lparr>in_dom := in_dom (show_backdrop st3) @ [el],
      next_el := Suc el, entering := entering (show_backdrop st3) @ [(m_scope mo, body, ?c)]\<rparr>)"
    using mm(1) assms(4) st3(2,3)
    by (simp add: m_open_def Let_def sm_add_def el_def [symmetric, unfolded sm_add_def] w_def [symmetric] st3_def
        toggleTopWindowClass_openedClasses)
  have w: "openedWindows (m_open m mo st) = openedWindows st @ [(m, w)]" "w_backdrop w = m_backdrop mo"
      "w_keyboard w = m_keyboard mo" "w_openedClass w = m_openedClass mo"
      "modal_view (m_open m mo st) = (openedWindows st @ [(m, w)], pend_wins (removing st),
        backdrop_el st \<noteq> None \<or> backdropIndex (openedWindows st @ [(m, w)]) \<ge> 0, results st, mm)"
      "m_errors (m_open m mo st) = m_errors st"
    unfolding op using st3 by (auto simp: show_backdrop_def clearFocusListCache_def modal_view_def w_def new_win_def Let_def)
  have "distinct (map fst (openedWindows st @ [(m, w)]))" using d assms(2) by (auto simp: all_wins_def)
  from backdropIndex_iff(1) [OF this]
  have "backdrop_el st \<noteq> None \<or> backdropIndex (openedWindows st @ [(m, w)]) \<ge> 0 \<longleftrightarrow> wants_backdrop (openedWindows st @ [(m, w)])"
    using b by (auto simp: wants_backdrop_def)
  note bd = this
  have "distinct (map fst ((openedWindows st @ [(m, w)]) @ pend_wins (removing st)))"
    using d assms(2) by (auto simp: all_wins_def)
  moreover have "\<forall>k\<in>fst ` set (openedWindows st @ [(m, w)]). results st k = None"
    using assms(1,3) by (simp add: modal_ok_def)
  moreover have "set (mm_vals mm c) = with_class ((openedWindows st @ [(m, w)]) @ pend_wins (removing st)) c" for c
    using cls [of c] by (auto simp: mm(3) with_class_simps all_wins_def w(4))
  ultimately show "modal_ok (m_open m mo st)"
    using bd mm(2) by (simp only: modal_ok_eq w(5) view_ok.simps) blast
  show "m_errors (m_open m mo st) = m_errors st" by (rule w(6))
  show "\<exists>w. openedWindows (m_open m mo st) = openedWindows st @ [(m, w)] \<and> w_backdrop w = m_backdrop mo \<and> w_keyboard w = m_keyboard mo"
    using w by blast
qed

lemma toggle_none [simp]: "modal_view (case x of Some e \<Rightarrow> toggleClass e c b st | None \<Rightarrow> st) = modal_view st"
  by (simp split: option.splits)

lemma take_at_split: "take_at i xs = Some (x, rest) \<Longrightarrow> \<exists>pre post. xs = pre @ x # post \<and> rest = pre @ post"
proof (intro exI conjI)
  assume a: "take_at i xs = Some (x, rest)"
  then show "xs = take i xs @ x # drop (Suc i) xs"
    by (auto simp: take_at_def split: if_splits intro: id_take_nth_drop)
  from a show "rest = take i xs @ drop (Suc i) xs"
    by (auto simp: take_at_def split: if_splits)
qed

lemma modal_ok_animated:
  assumes "modal_ok st" "removing st = pre @ r # post"
  shows "modal_ok (afterAnimating r (st\<lparr>removing := pre @ post\<rparr>))"
proof (cases r)
  case (RmBackdrop e)
  with assms show ?thesis by (simp add: afterAnimating_def modal_ok_eq modal_view_def)
next
  case (RmWindow m w)
  let ?c = "body_class (w_openedClass w)"
  have aw: "all_wins st = openedWindows st @ pend_wins pre @ (m, w) # pend_wins post"
    using assms(2) RmWindow by (simp add: all_wins_def)
  have ok: "mm_ok (openedClasses st)" and cls: "\<And>c. set (mm_vals (openedClasses st) c) = with_class (all_wins st) c"
    and d: "distinct (map fst (all_wins st))"
    using assms(1) by (auto simp: modal_ok_def)
  have "m \<in> set (mm_vals (openedClasses st) ?c)" by (simp add: cls aw with_class_simps)
  then have "?c \<in> fst ` set (openedClasses st)"
    by (cases "map_of (openedClasses st) ?c") (auto simp: mm_vals_def dest!: map_of_SomeD intro: rev_image_eqI)
  then have "?c \<notin> set object_proto" using ok by (auto simp: mm_ok_def)
  from mm_remove_ok [OF ok this, of m] obtain mm where mm: "mm_remove ?c m (openedClasses st) = Some mm" "mm_ok mm"
      "\<And>c. mm_vals mm c = (if c = ?c then remove1 m (mm_vals (openedClasses st) ?c) else mm_vals (openedClasses st) c)"
    by blast
  have v: "modal_view (afterAnimating r (st\<lparr>removing := pre @ post\<rparr>)) =
      (openedWindows st, pend_wins pre @ pend_wins post, backdrop_el st \<noteq> None, results st, mm)"
    using RmWindow mm(1) by (simp add: afterAnimating_def window_done_def Let_def) (simp add: modal_view_def)
  have nm: "m \<notin> with_class (openedWindows st @ pend_wins pre @ pend_wins post) c" for c
  proof -
    have "m \<notin> fst ` set (openedWindows st @ pend_wins pre @ pend_wins post)" using d by (auto simp: aw)
    then show ?thesis using with_class_sub [of "openedWindows st @ pend_wins pre @ pend_wins post" c] by blast
  qed
  have "set (mm_vals mm c) = with_class (openedWindows st @ pend_wins pre @ pend_wins post) c" for c
  proof (cases "c = ?c")
    case True
    have "set (mm_vals mm ?c) = set (mm_vals (openedClasses st) ?c) - {m}"
      using ok by (simp add: mm(3) mm_ok_def set_remove1_eq)
    also have "\<dots> = with_class (openedWindows st @ pend_wins pre @ pend_wins post) ?c"
      unfolding cls aw using nm [of ?c] by (simp add: with_class_simps)
    finally show ?thesis using True by simp
  next
    case False
    then have "set (mm_vals mm c) = with_class (all_wins st) c" by (simp add: mm(3) cls)
    with False show ?thesis by (simp add: aw with_class_simps)
  qed
  moreover have "distinct (map fst (openedWindows st @ pend_wins pre @ pend_wins post))" using d by (auto simp: aw)
  ultimately show ?thesis
    using modal_okD(2,3) [OF assms(1)] mm(2) by (simp only: modal_ok_eq [of "afterAnimating _ _"] v view_ok.simps) blast
qed

lemma modal_ok_step:
  assumes "modal_ok st" "event_ok ev st"
  shows "modal_ok (m_step prevent query ev st)"
proof (cases ev)
  case (OpenDialog m mo)
  with assms show ?thesis by (auto simp: event_ok_def intro: modal_ok_open(1))
next
  case (Key k)
  have *: "modal_ok (loadFocusElementList query w st)" for w
    using assms(1) modal_ok_view [OF modal_view_frame(10)] by simp
  with assms Key show ?thesis
    by (auto simp: keydownListener_def Let_def modal_ok_dismiss split: option.splits
        intro: iffD2 [OF modal_ok_view [OF modal_view_frame(8)]] iffD2 [OF modal_ok_view [OF modal_view_frame(9)]])
next
  case (Animated i)
  with assms show ?thesis
    by (auto split: option.splits dest!: take_at_split intro: modal_ok_animated)
next
  case (Entered i)
  with assms show ?thesis by (auto split: option.splits simp: modal_ok_eq) (simp add: modal_view_def)
next
  case (Left i)
  with assms show ?thesis by (auto split: option.splits simp: modal_ok_eq) (simp add: modal_view_def)
next
  case Render
  with assms show ?thesis by (simp add: modal_ok_eq)
next
  case Digest
  with assms show ?thesis by (simp add: modal_ok_eq)
qed (use assms in \<open>auto simp: modal_ok_close modal_ok_dismiss modal_ok_dismissAll window_click_def getTop_def
  scope_destroyed_def split: option.splits\<close>)

fun events_ok :: "preventer \<Rightarrow> (eid \<Rightarrow> eid list) \<Rightarrow> m_event list \<Rightarrow> mst \<Rightarrow> bool" where
  "events_ok prevent query [] st = True"
| "events_ok prevent query (ev # evs) st = (event_ok ev st \<and> events_ok prevent query evs (m_step prevent query ev st))"

lemma modal_ok_run: "modal_ok st \<Longrightarrow> events_ok prevent query evs st \<Longrightarrow> modal_ok (fold (m_step prevent query) evs st)"
  by (induction evs arbitrary: st) (auto intro: modal_ok_step)

lemma modal_ok_init: "modal_ok (m_init e)"
  by (simp add: modal_ok_def m_init_def all_wins_def wants_backdrop_def mm_ok_def mm_vals_def with_class_def)

subsection \<open>Outcomes are final\<close>

lemma results_frame [simp]:
  "results (toggleClass e c b st) = results st" "results (toggleTopWindowClass b st) = results st"
  "results (checkRemoveBackdrop st) = results st" "results (removeModalWindow m w st) = results st"
  "results (m_open m mo st) = results st" "results (window_done m w st) = results st"
  "results (afterAnimating r st) = results st" "results (after_leave l st) = results st"
  "results (after_enter x st) = results st" "results (watch_backdrop st) = results st"
  "results (window_rendered st) = results st" "results (loadFocusElementList q w st) = results st"
  "results (snd (focusLastFocusableElement st)) = results st" "results (snd (focusFirstFocusableElement st)) = results st"
proof -
  show t: "results (toggleClass e c b st) = results st" for e c b st by (simp add: toggleClass_def)
  show tt: "results (toggleTopWindowClass b st) = results st" for b st by (simp add: toggleTopWindowClass_def t split: option.splits)
  show c: "results (checkRemoveBackdrop st) = results st" for st
    by (simp add: checkRemoveBackdrop_def removeAfterAnimate_def split: option.splits)
  show "results (removeModalWindow m w st) = results st" by (simp add: removeModalWindow_def Let_def c removeAfterAnimate_def)
  show "results (m_open m mo st) = results st"
    by (simp add: m_open_def Let_def m_throw_def clearFocusListCache_def show_backdrop_def tt split: option.splits)
  show wd: "results (window_done m w st) = results st" for st
    by (simp add: window_done_def Let_def t tt split: option.splits)
  show "results (afterAnimating r st) = results st"
    by (cases r) (simp_all add: afterAnimating_def window_done_def Let_def t tt split: option.splits)
  show "results (after_leave l st) = results st" by (simp add: after_leave_def split: leaving.splits)
  show "results (after_enter x st) = results st" by (simp add: after_enter_def t split: prod.splits)
  show "results (watch_backdrop st) = results st" by (simp add: watch_backdrop_def)
  show "results (window_rendered st) = results st"
    by (simp add: window_rendered_def modalRendered_def split: option.splits)
  show "results (loadFocusElementList q w st) = results st" by (simp add: loadFocusElementList_def)
  show "results (snd (focusLastFocusableElement st)) = results st" by (simp add: focusLastFocusableElement_def)
  show "results (snd (focusFirstFocusableElement st)) = results st" by (simp add: focusFirstFocusableElement_def)
qed

definition outcome_is :: "mst \<Rightarrow> mid \<Rightarrow> m_outcome \<Rightarrow> bool" where
  "outcome_is st m out = (results st m = Some out)"

lemma results_settle: "results st m = Some out \<Longrightarrow> results (settle_result k o' st) m = Some out"
  by (auto simp: settle_result_def)

lemma results_close: "results st m = Some out \<Longrightarrow> results (snd (m_close p k v st)) m = Some out"
  by (auto simp: m_close_def results_settle split: option.splits)

lemma results_dismiss: "results st m = Some out \<Longrightarrow> results (snd (m_dismiss p k v st)) m = Some out"
  by (auto simp: m_dismiss_def results_settle split: option.splits)

lemma results_dismissAll: "results st m = Some out \<Longrightarrow> results (dismissAll p v st) m = Some out"
proof (induction p v st rule: dismissAll.induct)
  case (1 p v st)
  show ?case
  proof (cases "sm_top (openedWindows st)")
    case (Some kw)
    obtain k w where kw: "kw = (k, w)" by force
    obtain ok st' where d: "m_dismiss p k v st = (ok, st')" by force
    have "results st' m = Some out" using results_dismiss [OF 1(2), of p k v] d by simp
    with 1(1) [OF Some kw [symmetric] d [symmetric] refl] Some kw d show ?thesis
      by (simp add: dismissAll.simps [of _ _ st])
  qed (use 1 in \<open>simp add: dismissAll.simps [of _ _ st]\<close>)
qed

lemma results_step: "results st m = Some out \<Longrightarrow> results (m_step p q ev st) m = Some out"
  by (cases ev) (auto simp: results_close results_dismiss results_dismissAll keydownListener_def Let_def
      window_click_def getTop_def scope_destroyed_def split: option.splits)

interpretation dialog: write_once outcome_is "m_step prevent query" for prevent query
  by unfold_locales (auto simp: outcome_is_def results_step)

subsection \<open>Dismissing the top\<close>

lemma dismiss_top:
  assumes "modal_ok st" "openedWindows st = ws @ [(k, w)]" "\<not> prevent k v False"
  shows "\<exists>st'. m_dismiss prevent k v st = (True, st') \<and> modal_ok st' \<and> openedWindows st' = ws \<and>
    pend_wins (removing st') = pend_wins (removing st) @ [(k, w)] \<and> results st' = (results st)(k \<mapsto> Rejected v)"
proof -
  have d: "distinct (map fst (openedWindows st))" using assms(1) by (simp add: modal_ok_def all_wins_def)
  then have g: "sm_get k (openedWindows st) = Some w" by (intro sm_get_distinct) (simp_all add: assms(2))
  let ?st1 = "settle_result k (Rejected v) (st\<lparr>scheduled := w_scope w # scheduled st\<rparr>)"
  have st1: "openedWindows ?st1 = openedWindows st" "removing ?st1 = removing st" by (simp_all add: settle_result_def)
  have "results st k = None" using modal_okD(3) [OF assms(1)] by (simp add: assms(2))
  then have r: "results ?st1 = (results st)(k \<mapsto> Rejected v)" by (simp add: settle_result_def)
  have md: "m_dismiss prevent k v st = (True, removeModalWindow k w ?st1)"
    using g assms(3) by (simp add: m_dismiss_def broadcastClosing_def)
  have "sm_top (openedWindows st) = Some (k, w)" by (simp add: sm_top_def assms(2))
  from sm.remove_top [OF d this] have "openedWindows (removeModalWindow k w ?st1) = ws"
    by (simp add: assms(2))
  moreover have "pend_wins (removing (removeModalWindow k w ?st1)) = pend_wins (removing st) @ [(k, w)]"
    using removeModalWindow_view [of ?st1 k w] d g unfolding st1 modal_view_def by (metis fst_conv snd_conv)
  ultimately show ?thesis
    using md modal_ok_dismiss [OF assms(1), of prevent k v] r by auto
qed

lemma dismissAll_spec:
  assumes "modal_ok st"
  shows "\<exists>kept out. openedWindows st = kept @ out \<and> openedWindows (dismissAll prevent v st) = kept \<and>
    (\<forall>(k, w)\<in>set out. \<not> prevent k v False) \<and> (kept \<noteq> [] \<longrightarrow> prevent (fst (last kept)) v False) \<and>
    pend_wins (removing (dismissAll prevent v st)) = pend_wins (removing st) @ rev out \<and>
    (\<forall>m. results (dismissAll prevent v st) m = (if m \<in> fst ` set out then Some (Rejected v) else results st m))"
  using assms
proof (induction "openedWindows st" arbitrary: st rule: rev_induct)
  case Nil
  from Nil(1) show ?case by (simp add: dismissAll.simps [of _ _ st] sm_top_def flip: Nil(1))
next
  case (snoc kw ws)
  obtain k w where kw: "kw = (k, w)" by force
  have ow: "openedWindows st = ws @ [(k, w)]" using snoc(2) kw by simp
  have top: "sm_top (openedWindows st) = Some (k, w)" by (simp add: ow sm_top_def)
  show ?case
  proof (cases "prevent k v False")
    case True
    have "sm_get k (openedWindows st) = Some w"
      using modal_okD(1) [OF snoc(3)] by (intro sm_get_distinct) (auto simp: all_wins_def ow)
    with True have "dismissAll prevent v st = st"
      by (simp add: dismissAll.simps [of _ _ st] top m_dismiss_def broadcastClosing_def)
    with True ow show ?thesis by (intro exI [of _ "ws @ [(k, w)]"] exI [of _ "[]"]) simp
  next
    case False
    from dismiss_top [OF snoc(3) ow, of prevent v] False obtain st' where st': "m_dismiss prevent k v st = (True, st')" "modal_ok st'"
        "openedWindows st' = ws" "pend_wins (removing st') = pend_wins (removing st) @ [(k, w)]"
        "results st' = (results st)(k \<mapsto> Rejected v)" by blast
    have da: "dismissAll prevent v st = dismissAll prevent v st'"
      using st'(1) by (simp add: dismissAll.simps [of _ _ st] top)
    from snoc(1) [OF st'(3) [symmetric] st'(2)] obtain kept out where ko: "ws = kept @ out"
        "openedWindows (dismissAll prevent v st') = kept"
        "\<forall>(k, w)\<in>set out. \<not> prevent k v False" "kept \<noteq> [] \<longrightarrow> prevent (fst (last kept)) v False"
        "pend_wins (removing (dismissAll prevent v st')) = pend_wins (removing st') @ rev out"
        "\<forall>m. results (dismissAll prevent v st') m = (if m \<in> fst ` set out then Some (Rejected v) else results st' m)"
      unfolding st'(3) by blast
    show ?thesis
      by (intro exI [of _ kept] exI [of _ "out @ [(k, w)]"]) (use ko ow st'(4,5) False in \<open>simp add: da\<close>)
  qed
qed

section \<open>The modal service\<close>

text \<open>\<open>$uibModal.open\<close> waits for its template and for the previous dialog: the requests form a
  chain, and the head of the chain goes on the stack when its template has arrived.
  \<open>ctl\<close> says whether the controller of a dialog can be instantiated.\<close>

datatype tpl_status = TplWait | TplOk | TplFail jsval

record modal_options =
  mo_template :: bool
  mo_scope :: nat
  mo_animation :: "bool option"
  mo_backdrop :: "backdrop option"
  mo_keyboard :: "bool option"
  mo_openedClass :: string
  mo_windowTopClass :: string
  mo_appendTo :: "eid option option"

definition merge_options :: "eid \<Rightarrow> modal_options \<Rightarrow> modal" where
  "merge_options body opts = \<lparr>m_scope = mo_scope opts,
     m_backdrop = (case mo_backdrop opts of Some b \<Rightarrow> b | None \<Rightarrow> Backdrop),
     m_keyboard = (case mo_keyboard opts of Some b \<Rightarrow> b | None \<Rightarrow> True),
     m_openedClass = mo_openedClass opts, m_windowTopClass = mo_windowTopClass opts,
     m_animation = (case mo_animation opts of Some b \<Rightarrow> b | None \<Rightarrow> True),
     m_appendTo = (case mo_appendTo opts of Some a \<Rightarrow> a | None \<Rightarrow> Some body)\<rparr>"

record modal_request =
  o_mid :: mid
  o_modal :: modal
  o_tpl :: tpl_status

record svc =
  stack :: mst
  chain :: "modal_request list"
  opened_res :: "mid \<Rightarrow> m_outcome option"

definition svc_init :: "eid \<Rightarrow> svc" where
  "svc_init e = \<lparr>stack = m_init e, chain = [], opened_res = Map.empty\<rparr>"

definition resolveSuccess :: "(mid \<Rightarrow> bool) \<Rightarrow> modal_request \<Rightarrow> svc \<Rightarrow> svc" where
  "resolveSuccess ctl op s =
     (if ctl (o_mid op) then
        (let st = m_open (o_mid op) (o_modal op) (stack s) in
         if length (m_errors st) = length (m_errors (stack s))
         then s\<lparr>stack := st, opened_res := (opened_res s)(o_mid op \<mapsto> Resolved (JBool True))\<rparr>
         else s\<lparr>stack := st\<rparr>)
      else s)"

definition resolveError :: "modal_request \<Rightarrow> jsval \<Rightarrow> svc \<Rightarrow> svc" where
  "resolveError op reason s = s\<lparr>opened_res := (opened_res s)(o_mid op \<mapsto> Rejected reason),
     stack := settle_result (o_mid op) (Rejected reason) (stack s)\<rparr>"

fun run_chain :: "(mid \<Rightarrow> bool) \<Rightarrow> modal_request list \<Rightarrow> svc \<Rightarrow> svc" where
  "run_chain ctl [] s = s\<lparr>chain := []\<rparr>"
| "run_chain ctl (op # ops) s = (case o_tpl op of
     TplWait \<Rightarrow> s\<lparr>chain := op # ops\<rparr>
   | TplOk \<Rightarrow> run_chain ctl ops (resolveSuccess ctl op s)
   | TplFail reason \<Rightarrow> run_chain ctl ops (resolveError op reason s))"

text \<open>A call without a template throws and leaves the chain as it is.\<close>

definition uib_open :: "eid \<Rightarrow> mid \<Rightarrow> modal_options \<Rightarrow> svc \<Rightarrow> string + svc" where
  "uib_open body m opts s =
     (if \<not> mo_template opts then Inl ''One of template or templateUrl options is required.''
      else Inr (s\<lparr>chain := chain s @ [\<lparr>o_mid = m, o_modal = merge_options body opts, o_tpl = TplWait\<rparr>]\<rparr>))"

definition set_tpl :: "mid \<Rightarrow> tpl_status \<Rightarrow> modal_request \<Rightarrow> modal_request" where
  "set_tpl m t op = (if o_mid op = m \<and> o_tpl op = TplWait then op\<lparr>o_tpl := t\<rparr> else op)"

datatype svc_event = SvOpen mid modal_options | SvTemplate mid tpl_status | SvStack m_event

fun svc_step :: "preventer \<Rightarrow> (eid \<Rightarrow> eid list) \<Rightarrow> (mid \<Rightarrow> bool) \<Rightarrow> eid \<Rightarrow> svc_event \<Rightarrow> svc \<Rightarrow> svc" where
  "svc_step prevent query ctl body (SvOpen m opts) s = (case uib_open body m opts s of Inl e \<Rightarrow> s | Inr s' \<Rightarrow> s')"
| "svc_step prevent query ctl body (SvTemplate m t) s = run_chain ctl (map (set_tpl m t) (chain s)) s"
| "svc_step prevent query ctl body (SvStack ev) s = s\<lparr>stack := m_step prevent query ev (stack s)\<rparr>"

subsection \<open>The order of the chain\<close>

lemma m_open_plain:
  assumes "m_appendTo mo = Some body" "body_class (m_openedClass mo) \<notin> set object_proto"
  shows "m_errors (m_open m mo st) = m_errors st" "sm_keys (openedWindows (m_open m mo st)) = sm_keys (openedWindows st) @ [m]"
proof -
  have e: "m_errors (toggleTopWindowClass False st) = m_errors st"
    by (simp add: toggleTopWindowClass_def toggleClass_def split: option.splits)
  show "m_errors (m_open m mo st) = m_errors st" "sm_keys (openedWindows (m_open m mo st)) = sm_keys (openedWindows st) @ [m]"
    using assms e by (simp_all add: m_open_def Let_def mm_put_def mm_inherits_def show_backdrop_def clearFocusListCache_def
        sm_add_def sm_keys_def)
qed

definition req_ok :: "modal_request \<Rightarrow> bool" where
  "req_ok op = (m_appendTo (o_modal op) \<noteq> None \<and> body_class (m_openedClass (o_modal op)) \<notin> set object_proto)"

definition is_opened :: "svc \<Rightarrow> mid \<Rightarrow> bool" where
  "is_opened s m = (opened_res s m = Some (Resolved (JBool True)))"

definition open_keys :: "svc \<Rightarrow> mid list" where
  "open_keys s = sm_keys (openedWindows (stack s))"

lemma request_step:
  assumes "req_ok op" "opened_res s (o_mid op) = None" "s' = resolveSuccess ctl op s \<or> s' = resolveError op r s"
  shows "open_keys s' = open_keys s @ filter (is_opened s') [o_mid op]" "\<And>m. m \<noteq> o_mid op \<Longrightarrow> opened_res s' m = opened_res s m"
proof -
  obtain body where "m_appendTo (o_modal op) = Some body" using assms(1) by (auto simp: req_ok_def)
  from m_open_plain [OF this] assms(1)
  have "m_errors (m_open m (o_modal op) st) = m_errors st" "sm_keys (openedWindows (m_open m (o_modal op) st)) = sm_keys (openedWindows st) @ [m]" for m st
    by (auto simp: req_ok_def)
  then have "resolveSuccess ctl op s = (if ctl (o_mid op) then
      s\<lparr>stack := m_open (o_mid op) (o_modal op) (stack s), opened_res := (opened_res s)(o_mid op \<mapsto> Resolved (JBool True))\<rparr> else s)"
      "sm_keys (openedWindows (m_open (o_mid op) (o_modal op) (stack s))) = open_keys s @ [o_mid op]"
    by (simp_all add: resolveSuccess_def Let_def open_keys_def)
  with assms(2,3) show "open_keys s' = open_keys s @ filter (is_opened s') [o_mid op]" "\<And>m. m \<noteq> o_mid op \<Longrightarrow> opened_res s' m = opened_res s m"
    by (auto simp: resolveError_def is_opened_def open_keys_def split: if_splits)
qed

lemma run_chain_spec:
  assumes "\<forall>op\<in>set ops. req_ok op \<and> opened_res s (o_mid op) = None" "distinct (map o_mid ops)"
  shows "\<exists>pre post. ops = pre @ post \<and> chain (run_chain ctl ops s) = post \<and> (post \<noteq> [] \<longrightarrow> o_tpl (hd post) = TplWait) \<and>
    open_keys (run_chain ctl ops s) = open_keys s @ filter (is_opened (run_chain ctl ops s)) (map o_mid pre) \<and>
    (\<forall>m. m \<notin> o_mid ` set pre \<longrightarrow> opened_res (run_chain ctl ops s) m = opened_res s m)"
  using assms
proof (induction ops arbitrary: s)
  case Nil
  then show ?case by (intro exI [of _ "[]"]) (simp add: open_keys_def)
next
  case (Cons op ops)
  show ?case
  proof (cases "o_tpl op = TplWait")
    case True
    then show ?thesis by (intro exI [of _ "[]"] exI [of _ "op # ops"]) (simp add: open_keys_def)
  next
    case False
    define s' where "s' = (case o_tpl op of TplFail r \<Rightarrow> resolveError op r s | _ \<Rightarrow> resolveSuccess ctl op s)"
    have run: "run_chain ctl (op # ops) s = run_chain ctl ops s'"
      using False by (cases "o_tpl op") (simp_all add: s'_def)
    have s': "s' = resolveSuccess ctl op s \<or> s' = resolveError op (case o_tpl op of TplFail r \<Rightarrow> r | _ \<Rightarrow> JUndef) s"
      by (simp add: s'_def split: tpl_status.splits)
    have ok: "req_ok op" "opened_res s (o_mid op) = None" using Cons.prems by auto
    note st = request_step [OF ok s']
    have "\<forall>op'\<in>set ops. req_ok op' \<and> opened_res s' (o_mid op') = None"
    proof
      fix op' assume "op' \<in> set ops"
      with Cons.prems have "req_ok op'" "opened_res s (o_mid op') = None" "o_mid op' \<noteq> o_mid op"
        using \<open>op' \<in> set ops\<close> by (auto simp: image_iff)
      then show "req_ok op' \<and> opened_res s' (o_mid op') = None" using st(2) [of "o_mid op'"] by simp
    qed
    note IH = Cons.IH [OF this]
    have "distinct (map o_mid ops)" using Cons.prems(2) by simp
    from IH [OF this] obtain pre post where pp: "ops = pre @ post" "chain (run_chain ctl ops s') = post"
        "post \<noteq> [] \<longrightarrow> o_tpl (hd post) = TplWait"
        "open_keys (run_chain ctl ops s') = open_keys s' @ filter (is_opened (run_chain ctl ops s')) (map o_mid pre)"
        "\<forall>m. m \<notin> o_mid ` set pre \<longrightarrow> opened_res (run_chain ctl ops s') m = opened_res s' m" by blast
    have "o_mid op \<notin> o_mid ` set pre" using Cons.prems(2) pp(1) by auto
    then have "is_opened (run_chain ctl ops s') (o_mid op) = is_opened s' (o_mid op)" using pp(5) by (simp add: is_opened_def)
    then have "open_keys (run_chain ctl ops s') = open_keys s @ filter (is_opened (run_chain ctl ops s')) (map o_mid (op # pre))"
      using pp(4) st(1) by simp
    moreover have "\<forall>m. m \<notin> o_mid ` set (op # pre) \<longrightarrow> opened_res (run_chain ctl ops s') m = opened_res s m"
      using pp(5) st(2) by simp
    ultimately show ?thesis unfolding run using pp(1-3) by (intro exI [of _ "op # pre"] exI [of _ post]) simp
  qed
qed

fun call_of :: "svc_event \<Rightarrow> mid list" where
  "call_of (SvOpen m opts) = (if mo_template opts then [m] else [])"
| "call_of _ = []"

definition chain_event :: "eid \<Rightarrow> svc_event \<Rightarrow> bool" where
  "chain_event body ev = (case ev of
     SvOpen m opts \<Rightarrow> mo_appendTo opts \<noteq> Some None \<and> body_class (mo_openedClass opts) \<notin> set object_proto
   | SvTemplate m t \<Rightarrow> True
   | SvStack _ \<Rightarrow> False)"

definition chain_inv :: "mid list \<Rightarrow> svc \<Rightarrow> bool" where
  "chain_inv ms s = (\<exists>k. map o_mid (chain s) = drop k ms \<and> open_keys s = filter (is_opened s) (take k ms) \<and>
     (chain s \<noteq> [] \<longrightarrow> o_tpl (hd (chain s)) = TplWait) \<and> (\<forall>op\<in>set (chain s). req_ok op) \<and>
     (\<forall>m. m \<notin> set (take k ms) \<longrightarrow> opened_res s m = None))"

lemma chain_inv_template:
  assumes "chain_inv ms s" "distinct ms"
  shows "chain_inv ms (run_chain ctl (map (set_tpl m t) (chain s)) s)"
proof -
  let ?ops = "map (set_tpl m t) (chain s)"
  let ?s = "run_chain ctl ?ops s"
  obtain k where k: "map o_mid (chain s) = drop k ms" "open_keys s = filter (is_opened s) (take k ms)"
      "\<forall>op\<in>set (chain s). req_ok op" "\<forall>m. m \<notin> set (take k ms) \<longrightarrow> opened_res s m = None"
    using assms(1) by (auto simp: chain_inv_def)
  have "o_mid (set_tpl m t op) = o_mid op" for op by (simp add: set_tpl_def)
  then have ids: "map o_mid ?ops = drop k ms" using k(1) by (simp add: comp_def)
  have dis: "distinct (map o_mid ?ops)" using ids assms(2) by simp
  have new: "set (drop k ms) \<inter> set (take k ms) = {}" using assms(2) by (metis append_take_drop_id distinct_append inf_commute)
  have "\<forall>op\<in>set ?ops. req_ok op \<and> opened_res s (o_mid op) = None"
  proof
    fix op assume op: "op \<in> set ?ops"
    then have "o_mid op \<in> set (map o_mid ?ops)" by (simp only: set_map [of o_mid] image_eqI)
    then have "o_mid op \<in> set (drop k ms)" by (simp only: ids)
    then have "opened_res s (o_mid op) = None" using new k(4) by blast
    moreover have "req_ok op" using op k(3) by (auto simp: set_tpl_def req_ok_def)
    ultimately show "req_ok op \<and> opened_res s (o_mid op) = None" by simp
  qed
  from run_chain_spec [OF this dis, of ctl] obtain pre post where p: "?ops = pre @ post" "chain ?s = post"
      "post \<noteq> [] \<longrightarrow> o_tpl (hd post) = TplWait" "open_keys ?s = open_keys s @ filter (is_opened ?s) (map o_mid pre)"
      "\<forall>m. m \<notin> o_mid ` set pre \<longrightarrow> opened_res ?s m = opened_res s m" by blast
  let ?k = "k + length pre"
  have d: "map o_mid pre @ map o_mid post = drop k ms" using ids p(1) by simp
  have "map o_mid post = drop (length pre) (drop k ms)" by (simp flip: d)
  then have post: "map o_mid post = drop ?k ms" by (simp add: add.commute)
  have "take ?k ms = take k ms @ take (length pre) (drop k ms)" by (simp add: take_add)
  also have "take (length pre) (drop k ms) = map o_mid pre" by (simp flip: d)
  finally have tk: "take ?k ms = take k ms @ map o_mid pre" .
  have "o_mid ` set pre \<inter> set (take k ms) = {}"
  proof -
    have "o_mid ` set pre \<subseteq> set (drop k ms)" by (simp flip: d)
    with new show ?thesis by blast
  qed
  then have "is_opened ?s x = is_opened s x" if "x \<in> set (take k ms)" for x
  proof -
    have "x \<notin> o_mid ` set pre" using that \<open>o_mid ` set pre \<inter> set (take k ms) = {}\<close> by blast
    then show ?thesis using p(5) by (simp add: is_opened_def)
  qed
  then have "filter (is_opened s) (take k ms) = filter (is_opened ?s) (take k ms)"
    by (intro filter_cong) auto
  then have "open_keys ?s = filter (is_opened ?s) (take ?k ms)" by (simp add: p(4) k(2) tk)
  moreover have "\<forall>op\<in>set post. req_ok op"
  proof
    fix op assume "op \<in> set post"
    then have "op \<in> set ?ops" using p(1) by simp
    then show "req_ok op" using k(3) by (auto simp: set_tpl_def req_ok_def)
  qed
  moreover have "\<forall>m. m \<notin> set (take ?k ms) \<longrightarrow> opened_res ?s m = None" using k(4) p(5) by (simp add: tk)
  ultimately show ?thesis using p(2,3) post unfolding chain_inv_def by blast
qed

lemma chain_inv_open:
  assumes "chain_inv ms s" "chain_event body (SvOpen m opts)" "m \<notin> set ms"
  shows "chain_inv (ms @ call_of (SvOpen m opts)) (svc_step prevent query ctl body (SvOpen m opts) s)"
proof (cases "mo_template opts")
  case True
  let ?op = "\<lparr>o_mid = m, o_modal = merge_options body opts, o_tpl = TplWait\<rparr>"
  obtain k where k: "map o_mid (chain s) = drop k ms" "open_keys s = filter (is_opened s) (take k ms)"
      "chain s \<noteq> [] \<longrightarrow> o_tpl (hd (chain s)) = TplWait"
      "\<forall>op\<in>set (chain s). req_ok op" "\<forall>m. m \<notin> set (take k ms) \<longrightarrow> opened_res s m = None"
    using assms(1) by (auto simp: chain_inv_def)
  let ?k = "min k (length ms)"
  have "req_ok ?op" using assms(2) by (auto simp: req_ok_def chain_event_def merge_options_def split: option.splits)
  moreover have "take ?k (ms @ [m]) = take k ms" "drop ?k (ms @ [m]) = drop k ms @ [m]"
    by (auto simp: min_def)
  moreover have "is_opened (s\<lparr>chain := c\<rparr>) = is_opened s" "open_keys (s\<lparr>chain := c\<rparr>) = open_keys s" for c
    by (auto simp: is_opened_def open_keys_def)
  moreover have "o_tpl (hd (chain s @ [?op])) = TplWait" using k(3) by (cases "chain s") auto
  ultimately show ?thesis
    using True k unfolding chain_inv_def
    by (intro exI [of _ ?k]) (simp add: uib_open_def)
qed (use assms in \<open>simp add: uib_open_def\<close>)

lemma chain_inv_run:
  assumes "\<forall>ev\<in>set evs. chain_event body ev" "distinct (concat (map call_of evs))"
  shows "chain_inv (concat (map call_of evs)) (fold (svc_step prevent query ctl body) evs (svc_init e))"
  using assms
proof (induction evs rule: rev_induct)
  case Nil
  then show ?case by (simp add: chain_inv_def svc_init_def m_init_def open_keys_def sm_keys_def)
next
  case (snoc ev evs)
  then have IH: "chain_inv (concat (map call_of evs)) (fold (svc_step prevent query ctl body) evs (svc_init e))"
      "distinct (concat (map call_of evs))" by simp_all
  show ?case
  proof (cases ev)
    case (SvOpen m opts)
    show ?thesis
    proof (cases "mo_template opts")
      case True
      then have "m \<notin> set (concat (map call_of evs))" using snoc.prems(2) SvOpen by simp
      from chain_inv_open [OF IH(1) _ this, of body opts prevent query ctl] snoc.prems(1) SvOpen show ?thesis by simp
    next
      case False
      with IH SvOpen show ?thesis by (simp add: uib_open_def)
    qed
  next
    case (SvTemplate m t)
    with chain_inv_template [OF IH] show ?thesis by simp
  qed (use snoc.prems(1) in \<open>simp add: chain_event_def\<close>)
qed

section \<open>Properties\<close>


definition demo_options :: modal_options where
  "demo_options = \<lparr>mo_template = True, mo_scope = 5, mo_animation = None, mo_backdrop = None,
     mo_keyboard = None, mo_openedClass = [], mo_windowTopClass = [], mo_appendTo = None\<rparr>"

definition demo_modal :: modal where
  "demo_modal = merge_options 0 demo_options"

lemma demo_modal_simps: "m_appendTo demo_modal = Some 0" "body_class (m_openedClass demo_modal) \<notin> set object_proto"
  "m_keyboard demo_modal" "m_backdrop demo_modal = Backdrop"
  by (simp_all add: demo_modal_def demo_options_def merge_options_def body_class_def OPENED_MODAL_CLASS_def object_proto_def)


text \<open>\<open>dismissAll\<close> dismisses from the top down and stops at the first dialog whose listener
  refuses: it keeps a lower part of the stack whose top refuses, every dialog above it is
  dismissed with the reason, top first, and no other outcome changes.\<close>

lemma dismiss_all_from_the_top:
  assumes "events_ok prevent query evs (m_init e)"
  defines "st \<equiv> fold (m_step prevent query) evs (m_init e)"
  shows "\<exists>kept out. openedWindows st = kept @ out \<and> openedWindows (dismissAll prevent v st) = kept \<and>
    (\<forall>(k, w)\<in>set out. \<not> prevent k v False) \<and> (kept \<noteq> [] \<longrightarrow> prevent (fst (last kept)) v False) \<and>
    pend_wins (removing (dismissAll prevent v st)) = pend_wins (removing st) @ rev out \<and>
    (\<forall>m. results (dismissAll prevent v st) m = (if m \<in> fst ` set out then Some (Rejected v) else results st m))"
  unfolding st_def by (rule dismissAll_spec [OF modal_ok_run [OF modal_ok_init assms(1)]])

lemma dismiss_all_from_the_top_witness:
  "let prevent = (\<lambda>m _ _. m = 0); st = fold (m_step prevent (\<lambda>_. [])) [OpenDialog 0 demo_modal] (m_init 1) in
     \<exists>kept out. openedWindows st = kept @ out \<and> openedWindows (dismissAll prevent JNull st) = kept"
proof -
  let ?p = "\<lambda>m _ _. m = (0::nat)"
  have "events_ok ?p (\<lambda>_. []) [OpenDialog 0 demo_modal] (m_init 1)"
    by (simp add: event_ok_def all_wins_def m_init_def demo_modal_simps)
  from dismiss_all_from_the_top [OF this, of JNull] show ?thesis unfolding Let_def by blast
qed

text \<open>A dialog has one outcome: once it is closed or dismissed, no later event changes it.\<close>

lemma modal_outcome_final:
  assumes "results (fold (m_step prevent query) evs (m_init e)) m = Some out"
  shows "results (fold (m_step prevent query) (evs @ later) (m_init e)) m = Some out"
proof -
  have "outcome_is (fold (m_step prevent query) evs (m_init e)) m out" using assms by (simp add: outcome_is_def)
  from dialog.first_value_wins [OF this, of later out] show ?thesis by (simp add: outcome_is_def)
qed

lemma modal_outcome_final_witness:
  "results (fold (m_step (\<lambda>_ _ _. False) (\<lambda>_. [])) ([OpenDialog 0 demo_modal, CloseDialog 0 JNull] @ [DismissDialog 0 (JNum 1)]) (m_init 1)) 0 = Some (Resolved JNull)"
proof (rule modal_outcome_final)
  have "openedWindows (m_open 0 demo_modal (m_init 1)) \<noteq> [] \<and> fst (hd (openedWindows (m_open 0 demo_modal (m_init 1)))) = 0"
    using m_open_plain(2) [OF demo_modal_simps(1,2), of 0 "m_init 1"] by (auto simp: sm_keys_def m_init_def)
  then obtain w ws where w: "openedWindows (m_open 0 demo_modal (m_init 1)) = (0, w) # ws"
    by (cases "openedWindows (m_open 0 demo_modal (m_init 1))") auto
  then show "results (fold (m_step (\<lambda>_ _ _. False) (\<lambda>_. [])) [OpenDialog 0 demo_modal, CloseDialog 0 JNull] (m_init 1)) 0 = Some (Resolved JNull)"
    by (simp add: m_close_def broadcastClosing_def settle_result_def) (simp add: m_init_def)
qed



text \<open>Removing a key that the stacked map does not have removes its last entry: the index
  stays -1 and \<open>splice(-1, 1)\<close> counts from the end. Keys that are present are removed alone.\<close>

lemma stacked_remove:
  "k \<notin> fst ` set s \<Longrightarrow> s \<noteq> [] \<Longrightarrow> sm_remove k s = (Some (last s), butlast s)"
  by (cases s) (auto simp: sm_remove_Cons)

lemma stacked_remove_witness: "sm_remove CHR ''c'' [(CHR ''a'', True), (CHR ''b'', False)] = (Some (CHR ''b'', False), [(CHR ''a'', True)])"
  using stacked_remove [of "CHR ''c''" "[(CHR ''a'', True), (CHR ''b'', False)]"] by simp

end
