(* ===== verification/Ng_Scope.thy ===== *)
theory Ng_Scope
  imports Js
begin

text \<open>
  The scopes of angular 1.2.29 (\<open>angular.js\<close>, \<open>$RootScopeProvider\<close>): the linked tree of
  scopes and its depth-first walk, watches and the digest loop, the asynchronous queue,
  collection watches and events. The application is a state of type \<open>'m\<close>; a watch reads it
  through its getter and changes it through its listener, an asynchronous task changes it
  too. Watches, listeners and scopes that come and go while a digest or an event runs are
  not modelled; \<open>same eq v w\<close> is the comparison of the digest (identity, or deep equality
  for \<open>eq\<close>), a parameter.
\<close>

section \<open>The tree of scopes\<close>

record scope =
  sc_parent :: "nat option"
  sc_nextSibling :: "nat option"
  sc_prevSibling :: "nat option"
  sc_childHead :: "nat option"
  sc_childTail :: "nat option"

definition new_scope :: scope where
  "new_scope = \<lparr>sc_parent = None, sc_nextSibling = None, sc_prevSibling = None, sc_childHead = None, sc_childTail = None\<rparr>"

text \<open>\<open>$new\<close>: the child \<open>c\<close> becomes the last child of the scope \<open>i\<close>.\<close>

definition scope_new :: "nat \<Rightarrow> nat \<Rightarrow> (nat \<Rightarrow> scope) \<Rightarrow> nat \<Rightarrow> scope" where
  "scope_new i c h =
     (let child = new_scope\<lparr>sc_parent := Some i, sc_prevSibling := sc_childTail (h i)\<rparr>;
          h1 = h(c := child)
      in case sc_childHead (h i) of
           Some _ \<Rightarrow> (let h2 = (case sc_childTail (h i) of
                Some t \<Rightarrow> h1(t := (h1 t)\<lparr>sc_nextSibling := Some c\<rparr>) | None \<Rightarrow> h1)
             in h2(i := (h2 i)\<lparr>sc_childTail := Some c\<rparr>))
         | None \<Rightarrow> h1(i := (h1 i)\<lparr>sc_childHead := Some c, sc_childTail := Some c\<rparr>))"

text \<open>The links that \<open>$destroy\<close> cuts.\<close>

definition scope_unlink :: "nat \<Rightarrow> (nat \<Rightarrow> scope) \<Rightarrow> nat \<Rightarrow> scope" where
  "scope_unlink s h =
     (let h1 = (case sc_parent (h s) of
            Some p \<Rightarrow> h(p := (h p)\<lparr>sc_childHead := (if sc_childHead (h p) = Some s then sc_nextSibling (h s) else sc_childHead (h p)),
                              sc_childTail := (if sc_childTail (h p) = Some s then sc_prevSibling (h s) else sc_childTail (h p))\<rparr>)
          | None \<Rightarrow> h);
          h2 = (case sc_prevSibling (h1 s) of
            Some q \<Rightarrow> h1(q := (h1 q)\<lparr>sc_nextSibling := sc_nextSibling (h1 s)\<rparr>) | None \<Rightarrow> h1);
          h3 = (case sc_nextSibling (h2 s) of
            Some q \<Rightarrow> h2(q := (h2 q)\<lparr>sc_prevSibling := sc_prevSibling (h2 s)\<rparr>) | None \<Rightarrow> h2)
      in h3(s := new_scope))"

text \<open>The walk goes down while it can and may (\<open>descend\<close>), then up to the next sibling, until it is
  back at its target. Following a missing parent is an error (None).\<close>

partial_function (option) climb :: "(nat \<Rightarrow> scope) \<Rightarrow> nat \<Rightarrow> nat \<Rightarrow> nat option option" where
  "climb h target current =
     (if current = target then Some None
      else case sc_nextSibling (h current) of
        Some n \<Rightarrow> Some (Some n)
      | None \<Rightarrow> (case sc_parent (h current) of None \<Rightarrow> None | Some p \<Rightarrow> climb h target p))"

definition scope_next :: "(nat \<Rightarrow> bool) \<Rightarrow> (nat \<Rightarrow> scope) \<Rightarrow> nat \<Rightarrow> nat \<Rightarrow> nat option option" where
  "scope_next descend h target current =
     (case (if descend current then sc_childHead (h current) else None) of
        Some c \<Rightarrow> Some (Some c)
      | None \<Rightarrow> climb h target current)"

partial_function (option) scope_walk :: "(nat \<Rightarrow> bool) \<Rightarrow> (nat \<Rightarrow> scope) \<Rightarrow> nat \<Rightarrow> nat \<Rightarrow> nat list option" where
  "scope_walk descend h target current =
     Option.bind (scope_next descend h target current) (\<lambda>nx. case nx of
        None \<Rightarrow> Some [current]
      | Some c \<Rightarrow> Option.bind (scope_walk descend h target c) (\<lambda>cs. Some (current # cs)))"

section \<open>Digest\<close>

record ('m, 'v) watch =
  w_id :: nat
  w_get :: "'m \<Rightarrow> 'v option"
  w_fn :: "'v \<Rightarrow> 'v \<Rightarrow> 'm \<Rightarrow> 'm \<times> nat list \<times> bool"
  w_eq :: bool

record ('m, 'v) dst =
  d_model :: 'm
  d_last :: "nat \<Rightarrow> 'v option"
  d_async :: "nat list"
  d_post :: "nat list"
  d_lastDirty :: "nat option"
  d_dirty :: bool
  d_phase :: "string option"
  d_errors :: nat
  d_fired :: "nat list"

type_synonym 'm tasks = "nat \<Rightarrow> 'm \<Rightarrow> 'm \<times> nat list \<times> bool"

definition beginPhase :: "string \<Rightarrow> ('m, 'v) dst \<Rightarrow> ('m, 'v) dst option" where
  "beginPhase p st = (if d_phase st \<noteq> None then None else Some (st\<lparr>d_phase := Some p\<rparr>))"

definition clearPhase :: "('m, 'v) dst \<Rightarrow> ('m, 'v) dst" where
  "clearPhase st = st\<lparr>d_phase := None\<rparr>"

definition caught :: "bool \<Rightarrow> ('m, 'v) dst \<Rightarrow> ('m, 'v) dst" where
  "caught threw st = (if threw then (clearPhase st)\<lparr>d_errors := Suc (d_errors st)\<rparr> else st)"

definition scope_watch :: "('m, 'v) watch \<Rightarrow> ('m, 'v) watch list \<Rightarrow> ('m, 'v) dst \<Rightarrow> ('m, 'v) watch list \<times> ('m, 'v) dst" where
  "scope_watch w watchers st = (w # watchers, st\<lparr>d_lastDirty := None, d_last := (d_last st)(w_id w := None)\<rparr>)"

definition deregisterWatch :: "nat \<Rightarrow> ('m, 'v) watch list \<Rightarrow> ('m, 'v) dst \<Rightarrow> ('m, 'v) watch list \<times> ('m, 'v) dst" where
  "deregisterWatch i watchers st = (filter (\<lambda>w. w_id w \<noteq> i) watchers, st\<lparr>d_lastDirty := None\<rparr>)"

partial_function (option) drain :: "'m tasks \<Rightarrow> ('m, 'v) dst \<Rightarrow> ('m, 'v) dst option" where
  "drain run st = (case d_async st of
     [] \<Rightarrow> Some st
   | t # ts \<Rightarrow> (case run t (d_model st) of (m, new, threw) \<Rightarrow>
       drain run ((caught threw (st\<lparr>d_model := m, d_async := ts @ new\<rparr>))\<lparr>d_lastDirty := None\<rparr>)))"

text \<open>One watch: it fires, or it ends the pass because it was the last one to fire, or nothing.\<close>

definition visit :: "(bool \<Rightarrow> 'v \<Rightarrow> 'v \<Rightarrow> bool) \<Rightarrow> ('m, 'v) watch \<Rightarrow> ('m, 'v) dst \<Rightarrow> bool \<times> ('m, 'v) dst" where
  "visit same w st = (case w_get w (d_model st) of
     None \<Rightarrow> (False, caught True st)
   | Some v \<Rightarrow>
       if (case d_last st (w_id w) of None \<Rightarrow> True | Some l \<Rightarrow> \<not> same (w_eq w) v l) then
         (case w_fn w v (case d_last st (w_id w) of None \<Rightarrow> v | Some l \<Rightarrow> l) (d_model st) of (m, new, threw) \<Rightarrow>
           (False, caught threw (st\<lparr>d_dirty := True, d_lastDirty := Some (w_id w), d_last := (d_last st)(w_id w \<mapsto> v),
                     d_model := m, d_async := d_async st @ new, d_fired := d_fired st @ [w_id w]\<rparr>)))
       else if d_lastDirty st = Some (w_id w) then (True, st\<lparr>d_dirty := False\<rparr>)
       else (False, st))"

fun traverse :: "(bool \<Rightarrow> 'v \<Rightarrow> 'v \<Rightarrow> bool) \<Rightarrow> ('m, 'v) watch list \<Rightarrow> ('m, 'v) dst \<Rightarrow> ('m, 'v) dst" where
  "traverse same [] st = st"
| "traverse same (w # ws) st = (case visit same w st of (stop, st1) \<Rightarrow> if stop then st1 else traverse same ws st1)"

text \<open>The watches in the order of a pass: the scopes of the walk, each from the end of its array.\<close>

definition pass_watches :: "(nat \<Rightarrow> scope) \<Rightarrow> (nat \<Rightarrow> ('m, 'v) watch list) \<Rightarrow> nat \<Rightarrow> ('m, 'v) watch list option" where
  "pass_watches h watchers target =
     map_option (\<lambda>scopes. concat (map (\<lambda>s. rev (watchers s)) scopes)) (scope_walk (\<lambda>_. True) h target target)"

datatype 'a digest_result = Done 'a | Infdig 'a | InProgress

fun digest_loop :: "(bool \<Rightarrow> 'v \<Rightarrow> 'v \<Rightarrow> bool) \<Rightarrow> 'm tasks \<Rightarrow> ('m, 'v) watch list \<Rightarrow> nat \<Rightarrow> ('m, 'v) dst \<Rightarrow>
    ('m, 'v) dst digest_result option" where
  "digest_loop same run ws ttl st = (case drain run (st\<lparr>d_dirty := False\<rparr>) of
     None \<Rightarrow> None
   | Some st1 \<Rightarrow> (let st2 = traverse same ws st1 in
       if d_dirty st2 \<or> d_async st2 \<noteq> [] then
         (case ttl of 0 \<Rightarrow> Some (Infdig (clearPhase st2)) | Suc n \<Rightarrow> digest_loop same run ws n st2)
       else Some (Done st2)))"

partial_function (option) drain_post :: "'m tasks \<Rightarrow> ('m, 'v) dst \<Rightarrow> ('m, 'v) dst option" where
  "drain_post run st = (case d_post st of
     [] \<Rightarrow> Some st
   | t # ts \<Rightarrow> (case run t (d_model st) of (m, new, threw) \<Rightarrow>
       drain_post run (st\<lparr>d_model := m, d_post := ts @ new, d_errors := d_errors st + of_bool threw\<rparr>)))"

definition TTL :: nat where
  "TTL = 10"

definition digest :: "(bool \<Rightarrow> 'v \<Rightarrow> 'v \<Rightarrow> bool) \<Rightarrow> 'm tasks \<Rightarrow> ('m, 'v) watch list \<Rightarrow> ('m, 'v) dst \<Rightarrow>
    ('m, 'v) dst digest_result option" where
  "digest same run ws st = (case beginPhase ''$digest'' st of
     None \<Rightarrow> Some InProgress
   | Some st1 \<Rightarrow> (case digest_loop same run ws TTL (st1\<lparr>d_lastDirty := None\<rparr>) of
       Some (Done st2) \<Rightarrow> map_option Done (drain_post run (clearPhase st2))
     | r \<Rightarrow> r))"

definition evalAsync :: "nat \<Rightarrow> ('m, 'v) dst \<Rightarrow> bool \<times> ('m, 'v) dst" where
  "evalAsync t st = (d_phase st = None \<and> d_async st = [], st\<lparr>d_async := d_async st @ [t]\<rparr>)"

definition scope_apply :: "(bool \<Rightarrow> 'v \<Rightarrow> 'v \<Rightarrow> bool) \<Rightarrow> 'm tasks \<Rightarrow> ('m, 'v) watch list \<Rightarrow> nat \<Rightarrow> ('m, 'v) dst \<Rightarrow>
    ('m, 'v) dst digest_result option" where
  "scope_apply same run ws f st = (case beginPhase ''$apply'' st of
     None \<Rightarrow> digest same run ws (clearPhase (st\<lparr>d_errors := Suc (d_errors st)\<rparr>))
   | Some st1 \<Rightarrow> (case run f (d_model st1) of (m, new, threw) \<Rightarrow>
       digest same run ws (clearPhase (caught threw (st1\<lparr>d_model := m, d_async := d_async st1 @ new\<rparr>)))))"

section \<open>The walk is the preorder\<close>

datatype tree = Node nat "tree list"

fun root_of :: "tree \<Rightarrow> nat" where
  "root_of (Node i ts) = i"

definition first_of :: "tree list \<Rightarrow> nat option" where
  "first_of ts = (case ts of [] \<Rightarrow> None | t # _ \<Rightarrow> Some (root_of t))"

definition last_of :: "tree list \<Rightarrow> nat option" where
  "last_of ts = (if ts = [] then None else Some (root_of (last ts)))"

fun scope_ids :: "tree \<Rightarrow> nat list" where
  "scope_ids (Node i ts) = i # concat (map scope_ids ts)"

fun preorder :: "(nat \<Rightarrow> bool) \<Rightarrow> tree \<Rightarrow> nat list" where
  "preorder descend (Node i ts) = i # (if descend i then concat (map (preorder descend) ts) else [])"

fun links :: "(nat \<Rightarrow> scope) \<Rightarrow> nat option \<Rightarrow> tree \<Rightarrow> bool" and
    links_list :: "(nat \<Rightarrow> scope) \<Rightarrow> nat option \<Rightarrow> nat option \<Rightarrow> tree list \<Rightarrow> bool" where
  "links h p (Node i ts) = (sc_parent (h i) = p \<and> sc_childHead (h i) = first_of ts \<and> sc_childTail (h i) = last_of ts \<and>
     links_list h (Some i) None ts)"
| "links_list h p prev [] = True"
| "links_list h p prev (t # ts) = (sc_prevSibling (h (root_of t)) = prev \<and> sc_nextSibling (h (root_of t)) = first_of ts \<and>
     links h p t \<and> links_list h p (Some (root_of t)) ts)"

definition walk_on :: "(nat \<Rightarrow> bool) \<Rightarrow> (nat \<Rightarrow> scope) \<Rightarrow> nat \<Rightarrow> nat list \<Rightarrow> nat option option \<Rightarrow> nat list option" where
  "walk_on descend h target xs nx = (case nx of None \<Rightarrow> None | Some None \<Rightarrow> Some xs
     | Some (Some c) \<Rightarrow> map_option ((@) xs) (scope_walk descend h target c))"

lemma walk_on_append: "map_option ((@) ys) (walk_on descend h target xs nx) = walk_on descend h target (ys @ xs) nx"
  by (auto simp: walk_on_def map_option_case split: option.splits)

lemma scope_walk_eq: "scope_walk descend h target i = walk_on descend h target [i] (scope_next descend h target i)"
  by (subst scope_walk.simps) (auto simp: walk_on_def split: option.splits Option.bind_splits)

lemma walk_links:
  "links h p t \<Longrightarrow> target \<notin> set (scope_ids t) \<Longrightarrow>
    scope_walk descend h target (root_of t) = walk_on descend h target (preorder descend t) (climb h target (root_of t))"
  "links_list h (Some i) prev ts \<Longrightarrow> ts \<noteq> [] \<Longrightarrow> target \<notin> (\<Union>t\<in>set ts. set (scope_ids t)) \<Longrightarrow>
    scope_walk descend h target (root_of (hd ts)) =
      walk_on descend h target (concat (map (preorder descend) ts)) (climb h target i)"
proof (induction h p t and h "Some i" prev ts arbitrary: and i rule: links_links_list.induct)
  case (1 h p i ts)
  show ?case
  proof (cases "descend i \<and> ts \<noteq> []")
    case True
    then have "scope_next descend h target i = Some (Some (root_of (hd ts)))"
      using 1(2) by (cases ts) (simp_all add: scope_next_def first_of_def)
    then have "scope_walk descend h target i = map_option ((@) [i]) (scope_walk descend h target (root_of (hd ts)))"
      by (subst scope_walk_eq) (simp add: walk_on_def)
    with 1 True show ?thesis by (simp add: walk_on_append)
  next
    case False
    then have "scope_next descend h target i = climb h target i"
      using 1(2) by (auto simp: scope_next_def first_of_def)
    then have "scope_walk descend h target i = walk_on descend h target [i] (climb h target i)"
      by (subst scope_walk_eq) simp
    with False show ?thesis by auto
  qed
next
  case (3 h prev t ts)
  have w: "scope_walk descend h target (root_of t) = walk_on descend h target (preorder descend t) (climb h target (root_of t))"
    using 3 by simp
  have nt: "root_of t \<noteq> target" using 3 by (cases t) auto
  have lt: "links h (Some i) t" "sc_nextSibling (h (root_of t)) = first_of ts" using 3 by auto
  show ?case
  proof (cases ts)
    case Nil
    then have "climb h target (root_of t) = climb h target i"
      using lt nt by (subst climb.simps) (cases t, simp add: first_of_def)
    with w Nil show ?thesis by simp
  next
    case (Cons t' ts')
    then have "climb h target (root_of t) = Some (Some (root_of t'))"
      using lt nt by (subst climb.simps) (simp add: first_of_def)
    then have "scope_walk descend h target (root_of t) = map_option ((@) (preorder descend t)) (scope_walk descend h target (root_of t'))"
      using w by (simp add: walk_on_def)
    with 3 Cons show ?thesis by (simp add: walk_on_append)
  qed
qed auto

lemma walk_target:
  assumes "links h p (Node target ts)" "target \<notin> (\<Union>t\<in>set ts. set (scope_ids t))"
  shows "scope_walk descend h target target = Some (preorder descend (Node target ts))"
proof -
  have c: "climb h target target = Some None" by (subst climb.simps) simp
  show ?thesis
  proof (cases "descend target \<and> ts \<noteq> []")
    case True
    then have "scope_next descend h target target = Some (Some (root_of (hd ts)))"
      using assms(1) by (cases ts) (simp_all add: scope_next_def first_of_def)
    moreover have "scope_walk descend h target (root_of (hd ts)) = Some (concat (map (preorder descend) ts))"
      using walk_links(2) [of h target None ts target] assms True c by (simp add: walk_on_def)
    ultimately show ?thesis using True by (subst scope_walk_eq) (simp add: walk_on_def)
  next
    case False
    then have "scope_next descend h target target = Some None"
      using assms(1) c by (auto simp: scope_next_def first_of_def)
    with False show ?thesis by (subst scope_walk_eq) (auto simp: walk_on_def)
  qed
qed

section \<open>A digest that ends is stable\<close>

lemma split_unique: "x \<notin> set a \<Longrightarrow> x \<notin> set c \<Longrightarrow> a @ x # b = c @ x # d \<Longrightarrow> a = c"
proof (induction a arbitrary: c)
  case Nil
  then show ?case by (cases c) auto
next
  case (Cons y a)
  then show ?case by (cases c) auto
qed

definition stable :: "(bool \<Rightarrow> 'v \<Rightarrow> 'v \<Rightarrow> bool) \<Rightarrow> ('m, 'v) dst \<Rightarrow> ('m, 'v) watch \<Rightarrow> bool" where
  "stable same st w = (case w_get w (d_model st) of None \<Rightarrow> True
     | Some v \<Rightarrow> (case d_last st (w_id w) of None \<Rightarrow> False | Some l \<Rightarrow> same (w_eq w) v l))"

lemma stable_cong: "d_model st = d_model st' \<Longrightarrow> d_last st = d_last st' \<Longrightarrow> stable same st w = stable same st' w"
  by (simp add: stable_def cong: option.case_cong)

lemma visit_stable:
  assumes "stable same st w"
  shows "\<exists>st'. visit same w st = (w_get w (d_model st) \<noteq> None \<and> d_lastDirty st = Some (w_id w), st') \<and>
    d_model st' = d_model st \<and> d_last st' = d_last st \<and> d_async st' = d_async st \<and> d_lastDirty st' = d_lastDirty st \<and>
    d_fired st' = d_fired st \<and>
    d_dirty st' = (if w_get w (d_model st) \<noteq> None \<and> d_lastDirty st = Some (w_id w) then False else d_dirty st)"
  using assms by (auto simp: visit_def stable_def caught_def clearPhase_def split: option.splits)

lemma visit_fires:
  assumes "\<not> stable same st w"
  shows "\<exists>st'. visit same w st = (False, st') \<and> d_dirty st' \<and> d_lastDirty st' = Some (w_id w) \<and>
    d_fired st' = d_fired st @ [w_id w]"
  using assms by (auto simp: visit_def stable_def caught_def clearPhase_def split: option.splits prod.splits)

text \<open>After \<open>k\<close> fired, the watches \<open>b\<close> behind it are stable.\<close>

definition tail_stable :: "(bool \<Rightarrow> 'v \<Rightarrow> 'v \<Rightarrow> bool) \<Rightarrow> ('m, 'v) watch list \<Rightarrow> ('m, 'v) dst \<Rightarrow> bool" where
  "tail_stable same ws st = (\<forall>k. d_lastDirty st = Some k \<longrightarrow>
     (\<exists>a w b. ws = a @ w # b \<and> w_id w = k \<and> list_all (stable same st) b))"

text \<open>The state of a pass after the watches \<open>seen\<close>, with \<open>rest\<close> to come.\<close>

definition pass_inv :: "(bool \<Rightarrow> 'v \<Rightarrow> 'v \<Rightarrow> bool) \<Rightarrow> ('m, 'v) watch list \<Rightarrow> ('m, 'v) watch list \<Rightarrow> ('m, 'v) dst \<Rightarrow> bool" where
  "pass_inv same seen rest st = (if d_dirty st then d_lastDirty st \<noteq> None \<and> tail_stable same seen st
     else list_all (stable same st) seen \<and> tail_stable same (seen @ rest) st \<and> d_async st = [])"

lemma tail_stable_cong:
  "d_model st = d_model st' \<Longrightarrow> d_last st = d_last st' \<Longrightarrow> d_lastDirty st = d_lastDirty st' \<Longrightarrow>
    tail_stable same ws st = tail_stable same ws st'"
proof -
  assume a: "d_model st = d_model st'" "d_last st = d_last st'" "d_lastDirty st = d_lastDirty st'"
  then have "stable same st = stable same st'" by (intro ext) (rule stable_cong; simp)
  with a show ?thesis by (simp add: tail_stable_def)
qed

lemma traverse_stable:
  assumes "pass_inv same seen ws st" "distinct (map w_id (seen @ ws))" "st' = traverse same ws st"
  shows "(\<not> d_dirty st' \<longrightarrow> d_async st' = [] \<and> list_all (stable same st') (seen @ ws)) \<and>
    (d_dirty st' \<longrightarrow> tail_stable same (seen @ ws) st')"
  using assms
proof (induction ws arbitrary: seen st)
  case Nil
  then show ?case by (auto simp: pass_inv_def split: if_splits)
next
  case (Cons w ws)
  show ?case
  proof (cases "stable same st w")
    case False
    then obtain st1 where st1: "visit same w st = (False, st1)" "d_dirty st1" "d_lastDirty st1 = Some (w_id w)"
      using visit_fires by blast
    then have "tail_stable same (seen @ [w]) st1" by (fastforce simp: tail_stable_def)
    with st1 have "pass_inv same (seen @ [w]) ws st1" by (simp add: pass_inv_def)
    from Cons.IH [OF this] Cons.prems(2,3) st1(1) show ?thesis by simp
  next
    case True
    then obtain st1 where st1: "visit same w st = (w_get w (d_model st) \<noteq> None \<and> d_lastDirty st = Some (w_id w), st1)"
        "d_model st1 = d_model st" "d_last st1 = d_last st" "d_async st1 = d_async st" "d_lastDirty st1 = d_lastDirty st"
        "d_dirty st1 = (if w_get w (d_model st) \<noteq> None \<and> d_lastDirty st = Some (w_id w) then False else d_dirty st)"
      using visit_stable by metis
    have sc: "stable same st1 = stable same st" by (rule ext) (rule stable_cong; simp add: st1)
    have tc: "tail_stable same xs st1 = tail_stable same xs st" for xs by (rule tail_stable_cong) (simp_all add: st1)
    show ?thesis
    proof (cases "w_get w (d_model st) \<noteq> None \<and> d_lastDirty st = Some (w_id w)")
      case stop: True
      have nd: "\<not> d_dirty st"
      proof
        assume "d_dirty st"
        with Cons.prems(1) stop obtain a x b where "seen = a @ x # b" "w_id x = w_id w"
          by (auto simp: pass_inv_def tail_stable_def)
        with Cons.prems(2) show False by auto
      qed
      with Cons.prems(1) have p: "list_all (stable same st) seen" "tail_stable same (seen @ w # ws) st" "d_async st = []"
        by (auto simp: pass_inv_def)
      from p(2) stop obtain a x b where abx: "seen @ w # ws = a @ x # b" "w_id x = w_id w" "list_all (stable same st) b"
        by (auto simp: tail_stable_def)
      have "b = ws"
      proof -
        have d: "distinct (map w_id seen @ w_id w # map w_id ws)" using Cons.prems(2) by simp
        have e: "map w_id seen @ w_id w # map w_id ws = map w_id a @ w_id w # map w_id b"
          using arg_cong [OF abx(1), of "map w_id"] abx(2) by simp
        have "w_id w \<notin> set (map w_id seen)" using d by simp
        moreover have "w_id w \<notin> set (map w_id a)" using d unfolding e by simp
        ultimately have "map w_id seen = map w_id a" using split_unique [OF _ _ e] by blast
        then have "length seen = length a" by (metis length_map)
        with abx(1) show ?thesis by simp
      qed
      with p(1,3) abx(3) True st1 stop Cons.prems(3) show ?thesis by (simp add: sc)
    next
      case go: False
      then have d: "d_dirty st1 = d_dirty st" "fst (visit same w st) = False" using st1 by auto
      have "pass_inv same (seen @ [w]) ws st1"
      proof (cases "d_dirty st")
        case True
        with Cons.prems(1) have "tail_stable same seen st" "d_lastDirty st \<noteq> None" by (auto simp: pass_inv_def)
        then have "tail_stable same (seen @ [w]) st"
          using \<open>stable same st w\<close> by (fastforce simp: tail_stable_def)
        with \<open>d_lastDirty st \<noteq> None\<close> True d(1) show ?thesis by (simp add: pass_inv_def tc st1(5))
      next
        case False
        with Cons.prems(1) d(1) \<open>stable same st w\<close> show ?thesis by (simp add: pass_inv_def tc sc st1(4))
      qed
      note IH = Cons.IH [OF this]
      have "traverse same (w # ws) st = traverse same ws st1"
        using d(2) arg_cong [OF st1(1), of snd] by (simp add: case_prod_beta)
      with IH Cons.prems(2,3) show ?thesis by simp
    qed
  qed
qed

lemma drain_result:
  assumes "drain run st = Some st'"
  shows "d_async st' = [] \<and> d_dirty st' = d_dirty st \<and> d_fired st' = d_fired st \<and> (d_async st = [] \<longrightarrow> st' = st) \<and>
    (d_async st \<noteq> [] \<longrightarrow> d_lastDirty st' = None)"
proof (rule drain.raw_induct [OF _ assms, where P = "\<lambda>run st st'. d_async st' = [] \<and> d_dirty st' = d_dirty st \<and> d_fired st' = d_fired st \<and>
    (d_async st = [] \<longrightarrow> st' = st) \<and> (d_async st \<noteq> [] \<longrightarrow> d_lastDirty st' = None)"], goal_cases)
  case (1 f run st st')
  show ?case
  proof (cases "d_async st")
    case Nil
    with 1(2) show ?thesis by simp
  next
    case (Cons t ts)
    obtain m new threw where r: "run t (d_model st) = (m, new, threw)" by (cases "run t (d_model st)")
    let ?st1 = "(caught threw (st\<lparr>d_model := m, d_async := ts @ new\<rparr>))\<lparr>d_lastDirty := None\<rparr>"
    have f: "f run ?st1 = Some st'" using 1(2) by (simp add: Cons r)
    have "d_dirty ?st1 = d_dirty st" "d_lastDirty ?st1 = None" "d_fired ?st1 = d_fired st" by (simp_all add: caught_def clearPhase_def)
    with 1(1) [OF f] Cons show ?thesis by (cases "d_async ?st1 = []") auto
  qed
qed

lemma digest_loop_stable:
  assumes "digest_loop same run ws ttl st = Some (Done st')" "distinct (map w_id ws)"
    "d_async st = [] \<longrightarrow> tail_stable same ws st"
  shows "d_async st' = [] \<and> list_all (stable same st') ws"
  using assms(1,3)
proof (induction ttl arbitrary: st)
  case (0 st)
  then obtain st1 where st1: "drain run (st\<lparr>d_dirty := False\<rparr>) = Some st1" by (auto split: option.splits)
  note d = drain_result [OF st1]
  have "tail_stable same ws (st\<lparr>d_dirty := False\<rparr>) = tail_stable same ws st" by (rule tail_stable_cong) simp_all
  then have "tail_stable same ws st1" using d 0(2) by (cases "d_async st = []") (auto simp: tail_stable_def)
  then have "pass_inv same [] ws st1" using d by (simp add: pass_inv_def)
  from traverse_stable [OF this _ refl] assms(2) 0(1) st1 show ?case by (auto simp: Let_def split: if_splits)
next
  case (Suc n st)
  then obtain st1 where st1: "drain run (st\<lparr>d_dirty := False\<rparr>) = Some st1" by (auto split: option.splits)
  note d = drain_result [OF st1]
  have "tail_stable same ws (st\<lparr>d_dirty := False\<rparr>) = tail_stable same ws st" by (rule tail_stable_cong) simp_all
  then have "tail_stable same ws st1" using d Suc(3) by (cases "d_async st = []") (auto simp: tail_stable_def)
  then have "pass_inv same [] ws st1" using d by (simp add: pass_inv_def)
  note t = traverse_stable [OF this _ refl]
  show ?case
  proof (cases "d_dirty (traverse same ws st1) \<or> d_async (traverse same ws st1) \<noteq> []")
    case True
    then have "digest_loop same run ws n (traverse same ws st1) = Some (Done st')" using Suc(2) st1 by simp
    from Suc.IH [OF this] t assms(2) True show ?thesis by auto
  next
    case False
    with t assms(2) Suc(2) st1 show ?thesis by auto
  qed
qed

section \<open>A digest returns\<close>

lemma drain_returns:
  assumes "\<And>t m. fst (snd (run t m)) = []"
  shows "\<exists>st'. drain run st = Some st'"
proof (induction "length (d_async st)" arbitrary: st)
  case 0
  then show ?case by (subst drain.simps) simp
next
  case (Suc n)
  then obtain t ts where a: "d_async st = t # ts" by (cases "d_async st") auto
  obtain m threw where r: "run t (d_model st) = (m, [], threw)" using assms [of t "d_model st"] by (cases "run t (d_model st)") auto
  let ?st1 = "(caught threw (st\<lparr>d_model := m, d_async := ts\<rparr>))\<lparr>d_lastDirty := None\<rparr>"
  have "n = length (d_async ?st1)" using Suc(2) a by (simp add: caught_def clearPhase_def)
  from Suc(1) [OF this] show ?case by (subst drain.simps) (simp add: a r)
qed

lemma traverse_fired:
  "\<exists>more. d_fired (traverse same ws st) = d_fired st @ more \<and> length more \<le> length ws"
proof (induction ws arbitrary: st)
  case (Cons w ws)
  obtain stop st1 where v: "visit same w st = (stop, st1)" by force
  obtain m1 where m1: "d_fired st1 = d_fired st @ m1" "length m1 \<le> 1"
    using v by (cases "stable same st w") (auto dest: visit_stable visit_fires)
  obtain m2 where m2: "d_fired (traverse same ws st1) = d_fired st1 @ m2" "length m2 \<le> length ws"
    using Cons by blast
  show ?case using v m1 m2 by (cases stop) auto
qed simp

lemma digest_loop_returns:
  assumes "\<And>t m. fst (snd (run t m)) = []"
  shows "\<exists>r. digest_loop same run ws ttl st = Some r \<and> (\<forall>st'. r = Done st' \<or> r = Infdig st' \<longrightarrow>
    (\<exists>more. d_fired st' = d_fired st @ more \<and> length more \<le> Suc ttl * length ws))"
proof (induction ttl arbitrary: st)
  case (0 st)
  obtain st1 where st1: "drain run (st\<lparr>d_dirty := False\<rparr>) = Some st1" using drain_returns [of run] assms by blast
  then have "d_fired st1 = d_fired st" using drain_result [OF st1] by simp
  with traverse_fired [of same ws st1] st1 show ?case by (auto simp: Let_def clearPhase_def)
next
  case (Suc n st)
  obtain st1 where st1: "drain run (st\<lparr>d_dirty := False\<rparr>) = Some st1" using drain_returns [of run] assms by blast
  then have f1: "d_fired st1 = d_fired st" using drain_result [OF st1] by simp
  let ?st2 = "traverse same ws st1"
  obtain m1 where m1: "d_fired ?st2 = d_fired st @ m1" "length m1 \<le> length ws" using traverse_fired [of same ws st1] f1 by auto
  show ?case
  proof (cases "d_dirty ?st2 \<or> d_async ?st2 \<noteq> []")
    case True
    obtain r where r: "digest_loop same run ws n ?st2 = Some r" and
        b: "\<And>st'. r = Done st' \<or> r = Infdig st' \<Longrightarrow> \<exists>more. d_fired st' = d_fired ?st2 @ more \<and> length more \<le> Suc n * length ws"
      using Suc [of ?st2] by blast
    have "\<exists>more. d_fired st' = d_fired st @ more \<and> length more \<le> Suc (Suc n) * length ws" if "r = Done st' \<or> r = Infdig st'" for st'
      using b [OF that] m1 by auto
    moreover have "digest_loop same run ws (Suc n) st = Some r" using st1 True r by simp
    ultimately show ?thesis by blast
  next
    case False
    then have "digest_loop same run ws (Suc n) st = Some (Done ?st2)" using st1 by simp
    moreover have "length m1 \<le> Suc (Suc n) * length ws" using m1(2) by simp
    ultimately show ?thesis using m1(1) by blast
  qed
qed

section \<open>Events\<close>

record events =
  ev_listeners :: "nat \<Rightarrow> string \<Rightarrow> nat option list"
  ev_count :: "nat \<Rightarrow> string \<Rightarrow> nat"

definition ev_init :: events where
  "ev_init = \<lparr>ev_listeners = (\<lambda>_ _. []), ev_count = (\<lambda>_ _. 0)\<rparr>"

partial_function (option) ancestors :: "(nat \<Rightarrow> scope) \<Rightarrow> nat \<Rightarrow> nat list option" where
  "ancestors h s = (case sc_parent (h s) of
     None \<Rightarrow> Some [s]
   | Some p \<Rightarrow> Option.bind (ancestors h p) (\<lambda>ps. Some (s # ps)))"

definition set_listeners :: "nat \<Rightarrow> string \<Rightarrow> nat option list \<Rightarrow> events \<Rightarrow> events" where
  "set_listeners s name ls ev = ev\<lparr>ev_listeners := (ev_listeners ev)(s := (ev_listeners ev s)(name := ls))\<rparr>"

definition incrementListenerCount :: "string \<Rightarrow> nat list \<Rightarrow> events \<Rightarrow> events" where
  "incrementListenerCount name = fold (\<lambda>c ev. ev\<lparr>ev_count := (ev_count ev)(c := (ev_count ev c)(name := Suc (ev_count ev c name)))\<rparr>)"

definition decrementListenerCount :: "string \<Rightarrow> nat list \<Rightarrow> events \<Rightarrow> events" where
  "decrementListenerCount name = fold (\<lambda>c ev. ev\<lparr>ev_count := (ev_count ev)(c := (ev_count ev c)(name := ev_count ev c name - 1))\<rparr>)"

definition scope_on :: "(nat \<Rightarrow> scope) \<Rightarrow> nat \<Rightarrow> string \<Rightarrow> nat \<Rightarrow> events \<Rightarrow> events option" where
  "scope_on h s name l ev = map_option (\<lambda>as. incrementListenerCount name as
     (set_listeners s name (ev_listeners ev s name @ [Some l]) ev)) (ancestors h s)"

text \<open>The function that \<open>$on\<close> returns.\<close>

definition deregister :: "(nat \<Rightarrow> scope) \<Rightarrow> nat \<Rightarrow> string \<Rightarrow> nat \<Rightarrow> events \<Rightarrow> events option" where
  "deregister h s name l ev =
     (case index_of (Some l) (ev_listeners ev s name) of
        None \<Rightarrow> Some ev
      | Some i \<Rightarrow> map_option (\<lambda>as. decrementListenerCount name as
          (set_listeners s name ((ev_listeners ev s name)[i := None]) ev)) (ancestors h s))"

text \<open>The loop over the listeners of a scope: the calls made and the defragmented array.\<close>

fun run_listeners :: "nat option list \<Rightarrow> nat list \<times> nat option list" where
  "run_listeners [] = ([], [])"
| "run_listeners (None # ls) = run_listeners ls"
| "run_listeners (Some l # ls) = (case run_listeners ls of (called, kept) \<Rightarrow> (l # called, Some l # kept))"

text \<open>\<open>stops l\<close>: the listener \<open>l\<close> stops the propagation.\<close>

fun emit_up :: "(nat \<Rightarrow> bool) \<Rightarrow> string \<Rightarrow> nat list \<Rightarrow> events \<Rightarrow> nat list \<times> events" where
  "emit_up stops name [] ev = ([], ev)"
| "emit_up stops name (s # ss) ev = (case run_listeners (ev_listeners ev s name) of (called, kept) \<Rightarrow>
     (let ev1 = set_listeners s name kept ev in
      if list_ex stops called then (called, ev1)
      else (case emit_up stops name ss ev1 of (others, ev2) \<Rightarrow> (called @ others, ev2))))"

definition scope_emit :: "(nat \<Rightarrow> scope) \<Rightarrow> (nat \<Rightarrow> bool) \<Rightarrow> nat \<Rightarrow> string \<Rightarrow> events \<Rightarrow> (nat list \<times> events) option" where
  "scope_emit h stops s name ev = map_option (\<lambda>as. emit_up stops name as ev) (ancestors h s)"

fun broadcast_over :: "string \<Rightarrow> nat list \<Rightarrow> events \<Rightarrow> nat list \<times> events" where
  "broadcast_over name [] ev = ([], ev)"
| "broadcast_over name (s # ss) ev = (case run_listeners (ev_listeners ev s name) of (called, kept) \<Rightarrow>
     (case broadcast_over name ss (set_listeners s name kept ev) of (others, ev2) \<Rightarrow> (called @ others, ev2)))"

definition scope_broadcast :: "(nat \<Rightarrow> scope) \<Rightarrow> nat \<Rightarrow> string \<Rightarrow> events \<Rightarrow> (nat list \<times> events) option" where
  "scope_broadcast h target name ev =
     map_option (\<lambda>ss. broadcast_over name ss ev) (scope_walk (\<lambda>i. ev_count ev i name \<noteq> 0) h target target)"

subsection \<open>The counts\<close>

definition live :: "events \<Rightarrow> string \<Rightarrow> nat \<Rightarrow> nat list" where
  "live ev name i = fst (run_listeners (ev_listeners ev i name))"

fun live_in :: "events \<Rightarrow> string \<Rightarrow> tree \<Rightarrow> nat" where
  "live_in ev name (Node i ts) = length (live ev name i) + sum_list (map (live_in ev name) ts)"

fun counts_ok :: "events \<Rightarrow> string \<Rightarrow> tree \<Rightarrow> bool" where
  "counts_ok ev name (Node i ts) = (ev_count ev i name = live_in ev name (Node i ts) \<and> list_all (counts_ok ev name) ts)"

fun path_in :: "nat \<Rightarrow> tree \<Rightarrow> nat list" where
  "path_in s (Node i ts) = (if s = i then [i]
     else concat (map (path_in s) ts) @ (if concat (map (path_in s) ts) = [] then [] else [i]))"

lemma path_in_set: "set (path_in s t) \<subseteq> set (scope_ids t)"
proof (induction s t rule: path_in.induct)
  case (1 s i ts)
  show ?case
  proof (cases "s = i")
    case False
    then have "\<forall>t\<in>set ts. set (path_in s t) \<subseteq> set (scope_ids t)" using 1 by blast
    then have "(\<Union>t\<in>set ts. set (path_in s t)) \<subseteq> (\<Union>t\<in>set ts. set (scope_ids t))" by blast
    with False show ?thesis by auto
  qed simp
qed

lemma path_in_iff: "path_in s t \<noteq> [] \<longleftrightarrow> s \<in> set (scope_ids t)"
proof (induction s t rule: path_in.induct)
  case (1 s i ts)
  have "concat (map (path_in s) ts) = [] \<longleftrightarrow> (\<forall>t\<in>set ts. path_in s t = [])" by auto
  with 1 show ?case by auto
qed

lemma links_list_mem: "links_list h p prev ts \<Longrightarrow> t \<in> set ts \<Longrightarrow> links h p t"
  by (induction ts arbitrary: prev) auto

lemma ids_unique:
  "distinct (concat (map scope_ids ts)) \<Longrightarrow> t \<in> set ts \<Longrightarrow> u \<in> set ts \<Longrightarrow>
    x \<in> set (scope_ids t) \<Longrightarrow> x \<in> set (scope_ids u) \<Longrightarrow> t = u"
proof (induction ts)
  case (Cons v ts)
  have "set (scope_ids v) \<inter> (\<Union>w\<in>set ts. set (scope_ids w)) = {}" using Cons.prems(1) by simp
  with Cons show ?case by auto
qed simp

lemma concat_single:
  "t \<in> set ts \<Longrightarrow> distinct (concat (map scope_ids ts)) \<Longrightarrow> s \<in> set (scope_ids t) \<Longrightarrow>
    concat (map (path_in s) ts) = path_in s t"
proof (induction ts)
  case (Cons u ts)
  show ?case
  proof (cases "s \<in> set (scope_ids u)")
    case True
    then have "\<forall>v\<in>set ts. s \<notin> set (scope_ids v)" using Cons.prems(2) by auto
    then have "\<forall>v\<in>set ts. path_in s v = []" using path_in_iff by blast
    then have "concat (map (path_in s) ts) = []" by simp
    moreover have "t = u" using Cons.prems True \<open>\<forall>v\<in>set ts. s \<notin> set (scope_ids v)\<close> by auto
    ultimately show ?thesis by simp
  next
    case False
    then have "path_in s u = []" using path_in_iff by blast
    with Cons False show ?thesis by auto
  qed
qed simp

definition ancestors_opt :: "(nat \<Rightarrow> scope) \<Rightarrow> nat option \<Rightarrow> nat list option" where
  "ancestors_opt h p = (case p of None \<Rightarrow> Some [] | Some q \<Rightarrow> ancestors h q)"

lemma ancestors_step: "ancestors h s = map_option (Cons s) (ancestors_opt h (sc_parent (h s)))"
  by (subst ancestors.simps) (auto simp: ancestors_opt_def split: option.splits Option.bind_splits)

lemma ancestors_path:
  "links h p t \<Longrightarrow> distinct (scope_ids t) \<Longrightarrow> s \<in> set (scope_ids t) \<Longrightarrow>
    ancestors h s = map_option ((@) (path_in s t)) (ancestors_opt h p)"
proof (induction s t arbitrary: p rule: path_in.induct)
  case (1 s i ts)
  have i: "ancestors h i = map_option (Cons i) (ancestors_opt h p)" using "1.prems"(1) ancestors_step [of h i] by simp
  show ?case
  proof (cases "s = i")
    case False
    then obtain t where t: "t \<in> set ts" "s \<in> set (scope_ids t)" using "1.prems"(3) by auto
    then have "links h (Some i) t" using "1.prems"(1) links_list_mem by auto
    moreover have "distinct (scope_ids t)" using "1.prems"(2) t(1) by (auto simp: distinct_concat_iff)
    ultimately have "ancestors h s = map_option ((@) (path_in s t)) (ancestors h i)"
      using 1(1) [OF False t(1), of "Some i"] t(2) by (simp add: ancestors_opt_def)
    moreover have "concat (map (path_in s) ts) = path_in s t" using concat_single [OF t(1) _ t(2)] "1.prems"(2) by simp
    moreover have "path_in s t \<noteq> []" using path_in_iff t(2) by blast
    ultimately show ?thesis using False i by (auto simp: map_option_case split: option.splits)
  qed (simp add: i map_option_case)
qed

subsection \<open>Registration keeps the counts\<close>

lemma count_increment:
  "ev_count (incrementListenerCount name as ev) i n = ev_count ev i n + (if n = name then count_list as i else 0)"
  "ev_listeners (incrementListenerCount name as ev) = ev_listeners ev"
  by (induction as arbitrary: ev) (auto simp: incrementListenerCount_def)

lemma count_decrement:
  "ev_count (decrementListenerCount name as ev) i n = ev_count ev i n - (if n = name then count_list as i else 0)"
  "ev_listeners (decrementListenerCount name as ev) = ev_listeners ev"
  by (induction as arbitrary: ev) (auto simp: decrementListenerCount_def)

lemma path_count:
  "distinct (scope_ids t) \<Longrightarrow> count_list (path_in s t) (root_of t) = (if s \<in> set (scope_ids t) then 1 else 0)"
proof (cases t)
  case (Node i ts)
  assume d: "distinct (scope_ids t)"
  have "i \<notin> set (concat (map (path_in s) ts))"
  proof
    assume "i \<in> set (concat (map (path_in s) ts))"
    then obtain u where "u \<in> set ts" "i \<in> set (path_in s u)" by auto
    then have "i \<in> set (concat (map scope_ids ts))" using path_in_set by fastforce
    with d Node show False by simp
  qed
  then have "count_list (concat (map (path_in s) ts)) i = 0" by simp
  moreover have "concat (map (path_in s) ts) = [] \<longleftrightarrow> s \<notin> set (concat (map scope_ids ts))"
    using path_in_iff by fastforce
  ultimately show ?thesis using Node d by (auto simp: count_list_append)
qed

lemma path_count_child:
  assumes "distinct (scope_ids (Node i ts))" "u \<in> set ts" "j \<in> set (scope_ids u)"
  shows "count_list (path_in s (Node i ts)) j = count_list (path_in s u) j"
proof (cases "s \<in> set (concat (map scope_ids ts))")
  case True
  then obtain t where t: "t \<in> set ts" "s \<in> set (scope_ids t)" by auto
  have c: "concat (map (path_in s) ts) = path_in s t" using concat_single [OF t(1) _ t(2)] assms(1) by simp
  have ij: "s \<noteq> i" "j \<noteq> i" using assms True by auto
  have "count_list (path_in s t) j = count_list (path_in s u) j"
  proof (cases "u = t")
    case False
    have "set (scope_ids u) \<inter> set (scope_ids t) = {}"
      using ids_unique [of ts u t] assms(1,2) t(1) False by auto
    then have "j \<notin> set (path_in s t)" "s \<notin> set (scope_ids u)" using path_in_set assms(3) t(2) by blast+
    moreover from this(2) have "path_in s u = []" using path_in_iff by blast
    ultimately show ?thesis by simp
  qed simp
  with c ij show ?thesis by (auto simp: count_list_append)
next
  case False
  then have "\<forall>t\<in>set ts. path_in s t = []" using path_in_iff by auto
  moreover have "j \<noteq> i" using assms by auto
  ultimately show ?thesis using assms(2) by auto
qed

lemma int_sum: "int (sum_list (map f xs)) = (\<Sum>x\<leftarrow>xs. int (f x))"
  by (induction xs) auto

text \<open>When the live listeners of \<open>s\<close> change by a number and the counts on its path do too, the
  counts stay right.\<close>

lemma counts_ok_change:
  assumes "counts_ok ev name t" "distinct (scope_ids t)"
    and "\<And>i. i \<noteq> s \<Longrightarrow> live ev' name i = live ev name i"
    and "int (length (live ev' name s)) = int (length (live ev name s)) + k"
    and "\<And>i. i \<in> set (scope_ids t) \<Longrightarrow> int (ev_count ev' i name) = int (ev_count ev i name) + k * int (count_list (path_in s t) i)"
  shows "counts_ok ev' name t \<and> int (live_in ev' name t) = int (live_in ev name t) + (if s \<in> set (scope_ids t) then k else 0)"
  using assms(1,2,5)
proof (induction t)
  case (Node i ts)
  let ?d = "if s \<in> set (scope_ids (Node i ts)) then k else 0"
  have sub: "counts_ok ev' name u \<and> int (live_in ev' name u) = int (live_in ev name u) + (if s \<in> set (scope_ids u) then k else 0)"
    if u: "u \<in> set ts" for u
  proof (rule Node.IH [OF u])
    show "counts_ok ev name u" using Node.prems(1) u by (simp add: list_all_iff)
    show "distinct (scope_ids u)" using Node.prems(2) u by (auto simp: distinct_concat_iff)
    fix j assume j: "j \<in> set (scope_ids u)"
    then have "j \<in> set (scope_ids (Node i ts))" using u by auto
    from Node.prems(3) [OF this] path_count_child [OF Node.prems(2) u j]
    show "int (ev_count ev' j name) = int (ev_count ev j name) + k * int (count_list (path_in s u) j)" by simp
  qed
  have sum: "(\<Sum>u\<leftarrow>us. int (live_in ev' name u)) = (\<Sum>u\<leftarrow>us. int (live_in ev name u)) +
      (if s \<in> set (concat (map scope_ids us)) then k else 0)"
    if "set us \<subseteq> set ts" "distinct (concat (map scope_ids us))" for us
    using that
  proof (induction us)
    case (Cons u us)
    have "\<not> (s \<in> set (scope_ids u) \<and> s \<in> set (concat (map scope_ids us)))" using Cons.prems(2) by auto
    with Cons sub [of u] show ?case by auto
  qed simp
  have di: "distinct (concat (map scope_ids ts))" "i \<notin> set (concat (map scope_ids ts))" using Node.prems(2) by auto
  have own: "int (length (live ev' name i)) = int (length (live ev name i)) + (if s = i then k else 0)"
    using assms(3) [of i] assms(4) by auto
  have tot: "int (live_in ev' name (Node i ts)) = int (live_in ev name (Node i ts)) + ?d"
    using sum [OF subset_refl di(1)] own di(2) by (auto simp: int_sum)
  have "int (ev_count ev' i name) = int (ev_count ev i name) + ?d"
    using Node.prems(3) [of i] path_count [OF Node.prems(2), of s] by auto
  then have "ev_count ev' i name = live_in ev' name (Node i ts)"
    using tot Node.prems(1) by (simp del: live_in.simps)
  with tot sub show ?case by (simp add: list_all_iff del: live_in.simps)
qed

lemma run_listeners_eq: "run_listeners ls = (map the (filter (\<lambda>x. x \<noteq> None) ls), filter (\<lambda>x. x \<noteq> None) ls)"
  by (induction ls rule: run_listeners.induct) auto

lemma live_eq: "live ev name i = map the (filter (\<lambda>x. x \<noteq> None) (ev_listeners ev i name))"
  by (simp add: live_def run_listeners_eq)

lemma live_set_listeners: "live (set_listeners s name ls ev) n i = (if i = s \<and> n = name then map the (filter (\<lambda>x. x \<noteq> None) ls) else live ev n i)"
  by (simp add: live_eq set_listeners_def)

lemma live_counts [simp]:
  "live (incrementListenerCount name as ev) = live ev" "live (decrementListenerCount name as ev) = live ev"
  by (intro ext, simp add: live_eq count_increment count_decrement)+

lemma count_set_listeners [simp]: "ev_count (set_listeners s name ls ev) = ev_count ev"
  by (simp add: set_listeners_def)

lemma path_count_le:
  assumes "counts_ok ev name t" "distinct (scope_ids t)" "l \<in> set (live ev name s)" "i \<in> set (scope_ids t)"
  shows "count_list (path_in s t) i \<le> ev_count ev i name"
  using assms
proof (induction t arbitrary: i)
  case (Node j ts)
  have live1: "Suc 0 \<le> live_in ev name u" if "s \<in> set (scope_ids u)" for u
    using that
  proof (induction u)
    case (Node k us)
    show ?case
    proof (cases "s = k")
      case True
      then have "0 < length (live ev name k)" using length_pos_if_in_set [OF assms(3)] by simp
      then show ?thesis unfolding live_in.simps by linarith
    next
      case False
      then obtain u where u: "u \<in> set us" "s \<in> set (scope_ids u)" using Node.prems by auto
      then have "live_in ev name u \<le> sum_list (map (live_in ev name) us)" by (intro member_le_sum_list) auto
      with Node.IH [OF u] show ?thesis by simp
    qed
  qed
  show ?case
  proof (cases "i = j")
    case True
    have "count_list (path_in s (Node j ts)) j = (if s \<in> set (scope_ids (Node j ts)) then 1 else 0)"
      using path_count [OF Node.prems(2), of s] by simp
    with live1 [of "Node j ts"] Node.prems(1) True show ?thesis by (simp del: live_in.simps path_in.simps)
  next
    case False
    then obtain u where u: "u \<in> set ts" "i \<in> set (scope_ids u)" using Node.prems(4) by auto
    then have "counts_ok ev name u" "distinct (scope_ids u)"
      using Node.prems(1,2) by (auto simp: list_all_iff distinct_concat_iff)
    with Node.IH [OF u(1) this assms(3) u(2)] path_count_child [OF Node.prems(2) u] show ?thesis by simp
  qed
qed

definition scopes_ok :: "(nat \<Rightarrow> scope) \<Rightarrow> tree \<Rightarrow> events \<Rightarrow> bool" where
  "scopes_ok h t ev = (links h None t \<and> distinct (scope_ids t) \<and> (\<forall>name. counts_ok ev name t))"

lemma counts_ok_other:
  assumes "counts_ok ev n t" "\<And>i. live ev' n i = live ev n i" "\<And>i. ev_count ev' i n = ev_count ev i n"
  shows "counts_ok ev' n t"
proof -
  have "live_in ev' n u = live_in ev n u" for u
    by (induction u) (simp add: assms(2) cong: map_cong)
  with assms(1,3) show ?thesis by (induction t) (auto simp: list_all_iff simp del: live_in.simps)
qed

lemma on_ok:
  assumes "scopes_ok h t ev" "s \<in> set (scope_ids t)"
  obtains ev' where "scope_on h s name l ev = Some ev'" "scopes_ok h t ev'"
    "\<And>i n. live ev' n i = (if i = s \<and> n = name then live ev n i @ [l] else live ev n i)"
proof -
  have a: "ancestors h s = Some (path_in s t)"
    using ancestors_path [of h None t s] assms by (simp add: scopes_ok_def ancestors_opt_def)
  let ?ev = "incrementListenerCount name (path_in s t) (set_listeners s name (ev_listeners ev s name @ [Some l]) ev)"
  have l: "live ?ev n i = (if i = s \<and> n = name then live ev n i @ [l] else live ev n i)" for n i
    by (simp add: live_set_listeners) (simp add: live_eq)
  have "counts_ok ?ev n t" for n
  proof (cases "n = name")
    case True
    with counts_ok_change [of ev name t s ?ev 1] assms l show ?thesis by (simp add: scopes_ok_def count_increment)
  next
    case False
    with counts_ok_other [of ev n t ?ev] assms l show ?thesis by (simp add: scopes_ok_def count_increment)
  qed
  with assms(1) have "scopes_ok h t ?ev" by (simp add: scopes_ok_def)
  with a l that show ?thesis by (simp add: scope_on_def)
qed

lemma off_ok:
  assumes "scopes_ok h t ev" "s \<in> set (scope_ids t)"
  obtains ev' where "deregister h s name l ev = Some ev'" "scopes_ok h t ev'"
    "\<And>i n. live ev' n i = (if i = s \<and> n = name then remove1 l (live ev n i) else live ev n i)"
proof (cases "index_of (Some l) (ev_listeners ev s name)")
  case None
  then have "l \<notin> set (live ev name s)" by (auto simp: index_of_None live_eq)
  with None assms that [of ev] show ?thesis by (simp add: deregister_def remove1_idem)
next
  case (Some k)
  let ?ls = "ev_listeners ev s name"
  have a: "ancestors h s = Some (path_in s t)"
    using ancestors_path [of h None t s] assms by (simp add: scopes_ok_def ancestors_opt_def)
  let ?ev = "decrementListenerCount name (path_in s t) (set_listeners s name (?ls[k := None]) ev)"
  have r: "map the (filter (\<lambda>x. x \<noteq> None) (xs[k := None])) = remove1 l (map the (filter (\<lambda>x. x \<noteq> None) xs)) \<and>
      l \<in> set (map the (filter (\<lambda>x. x \<noteq> None) xs))" if "index_of (Some l) xs = Some k" for xs k
    using that
  proof (induction xs arbitrary: k)
    case (Cons x xs)
    then show ?case by (cases x; cases k) (auto split: if_splits)
  qed simp
  have l: "live ?ev n i = (if i = s \<and> n = name then remove1 l (live ev n i) else live ev n i)" for n i
    using r [OF Some] by (simp add: live_set_listeners) (simp add: live_eq)
  have m: "l \<in> set (live ev name s)" using r [OF Some] by (simp add: live_eq)
  then have len: "int (length (live ?ev name s)) = int (length (live ev name s)) + (- 1)"
    using l [of name s] length_pos_if_in_set [OF m] by (simp add: length_remove1 of_nat_diff Suc_le_eq)
  have pos: "count_list (path_in s t) i \<le> ev_count ev i name" if "i \<in> set (scope_ids t)" for i
    using that assms path_count_le [OF _ _ m] by (auto simp: scopes_ok_def)
  have "counts_ok ?ev n t" for n
  proof (cases "n = name")
    case True
    with counts_ok_change [of ev name t s ?ev "- 1"] assms l len pos show ?thesis
      by (simp add: scopes_ok_def count_decrement of_nat_diff)
  next
    case False
    with counts_ok_other [of ev n t ?ev] assms l show ?thesis by (simp add: scopes_ok_def count_decrement)
  qed
  with assms(1) have "scopes_ok h t ?ev" by (simp add: scopes_ok_def)
  with a l Some that show ?thesis by (simp add: deregister_def)
qed

subsection \<open>Broadcasting\<close>

datatype listener_op = On nat string nat | Off nat string nat

definition op_scope :: "listener_op \<Rightarrow> nat" where
  "op_scope op = (case op of On s name l \<Rightarrow> s | Off s name l \<Rightarrow> s)"

fun listener_step :: "(nat \<Rightarrow> scope) \<Rightarrow> listener_op \<Rightarrow> events \<Rightarrow> events option" where
  "listener_step h (On s name l) ev = scope_on h s name l ev"
| "listener_step h (Off s name l) ev = deregister h s name l ev"

fun listener_run :: "(nat \<Rightarrow> scope) \<Rightarrow> listener_op list \<Rightarrow> events \<Rightarrow> events option" where
  "listener_run h [] ev = Some ev"
| "listener_run h (op # ops) ev = Option.bind (listener_step h op ev) (listener_run h ops)"

text \<open>The listeners that are registered after a run, for a scope and a name, in order.\<close>

fun registered :: "listener_op list \<Rightarrow> string \<Rightarrow> nat \<Rightarrow> nat list \<Rightarrow> nat list" where
  "registered [] n i ls = ls"
| "registered (On s name l # ops) n i ls = registered ops n i (if i = s \<and> n = name then ls @ [l] else ls)"
| "registered (Off s name l # ops) n i ls = registered ops n i (if i = s \<and> n = name then remove1 l ls else ls)"

lemma listener_run_ok:
  "scopes_ok h t ev \<Longrightarrow> \<forall>op\<in>set ops. op_scope op \<in> set (scope_ids t) \<Longrightarrow>
    \<exists>ev'. listener_run h ops ev = Some ev' \<and> scopes_ok h t ev' \<and> (\<forall>n i. live ev' n i = registered ops n i (live ev n i))"
proof (induction ops arbitrary: ev)
  case (Cons op ops)
  show ?case
  proof (cases op)
    case (On s name l)
    with Cons.prems have "s \<in> set (scope_ids t)" by (simp add: op_scope_def)
    from on_ok [OF Cons.prems(1) this, of name l] obtain ev1 where e: "scope_on h s name l ev = Some ev1" "scopes_ok h t ev1"
      "\<And>i n. live ev1 n i = (if i = s \<and> n = name then live ev n i @ [l] else live ev n i)" by blast
    with Cons.IH [OF e(2)] Cons.prems(2) On show ?thesis by auto
  next
    case (Off s name l)
    with Cons.prems have "s \<in> set (scope_ids t)" by (simp add: op_scope_def)
    from off_ok [OF Cons.prems(1) this, of name l] obtain ev1 where e: "deregister h s name l ev = Some ev1" "scopes_ok h t ev1"
      "\<And>i n. live ev1 n i = (if i = s \<and> n = name then remove1 l (live ev n i) else live ev n i)" by blast
    with Cons.IH [OF e(2)] Cons.prems(2) Off show ?thesis by auto
  qed
qed simp

lemma counts_ok_init: "counts_ok ev_init name t"
proof -
  have "live_in ev_init name u = 0" for u
    by (induction u) (simp add: live_eq ev_init_def cong: map_cong)
  then show ?thesis by (induction t) (auto simp: list_all_iff ev_init_def simp del: live_in.simps)
qed

lemma broadcast_over_live:
  "distinct ss \<Longrightarrow> fst (broadcast_over name ss ev) = concat (map (live ev name) ss)"
proof (induction ss arbitrary: ev)
  case (Cons s ss)
  let ?ev = "set_listeners s name (snd (run_listeners (ev_listeners ev s name))) ev"
  have m: "map (live ?ev name) ss = map (live ev name) ss" using Cons.prems by (auto simp: live_set_listeners)
  have "fst (broadcast_over name (s # ss) ev) = live ev name s @ fst (broadcast_over name ss ?ev)"
    by (simp add: case_prod_beta live_def)
  also have "fst (broadcast_over name ss ?ev) = concat (map (live ev name) ss)"
    using Cons.IH [of ?ev] Cons.prems m by (metis distinct.simps(2))
  finally show ?case by simp
qed simp

lemma live_in_0: "live_in ev name t = 0 \<Longrightarrow> concat (map (live ev name) (scope_ids t)) = []"
  by (induction t) (auto simp: concat_eq_Nil_conv)

lemma pruned_preorder:
  "counts_ok ev name t \<Longrightarrow>
    concat (map (live ev name) (preorder (\<lambda>i. ev_count ev i name \<noteq> 0) t)) = concat (map (live ev name) (scope_ids t))"
proof (induction t)
  case (Node i ts)
  have sub: "concat (map (live ev name) (concat (map (preorder (\<lambda>i. ev_count ev i name \<noteq> 0)) us))) =
      concat (map (live ev name) (concat (map scope_ids us)))" if "set us \<subseteq> set ts" for us
    using that Node by (induction us) (auto simp: list_all_iff)
  show ?case
  proof (cases "ev_count ev i name = 0")
    case True
    then have "live_in ev name (Node i ts) = 0" using Node.prems by simp
    then have "concat (map (live ev name) (concat (map scope_ids ts))) = []"
      using live_in_0 [of ev name "Node i ts"] by simp
    with True show ?thesis by simp
  next
    case False
    with sub [OF subset_refl] show ?thesis by simp
  qed
qed

lemma preorder_distinct: "distinct (scope_ids t) \<Longrightarrow> set (preorder d t) \<subseteq> set (scope_ids t) \<and> distinct (preorder d t)"
proof (induction t)
  case (Node i ts)
  have "set us \<subseteq> set ts \<Longrightarrow> distinct (concat (map scope_ids us)) \<Longrightarrow>
      set (concat (map (preorder d) us)) \<subseteq> set (concat (map scope_ids us)) \<and> distinct (concat (map (preorder d) us))" for us
  proof (induction us)
    case (Cons u us)
    then have u: "set (preorder d u) \<subseteq> set (scope_ids u)" "distinct (preorder d u)" using Node.IH [of u] by auto
    have us: "set (concat (map (preorder d) us)) \<subseteq> set (concat (map scope_ids us))" "distinct (concat (map (preorder d) us))"
      using Cons by auto
    have "set (scope_ids u) \<inter> set (concat (map scope_ids us)) = {}" using Cons.prems(2) by simp
    then have "set (preorder d u) \<inter> set (concat (map (preorder d) us)) = {}" using u(1) us(1) by blast
    with u us show ?case by auto
  qed simp
  from this [of ts] Node.prems show ?case by auto
qed

section \<open>Properties\<close>

text \<open>C7: A digest that ends has settled: when the dirty-checking loop returns normally, no
  asynchronous task is left and every watch, read in the final model, compares equal to
  the value its listener was last told, although the loop skips the end of its last pass
  by the last-dirty-watch shortcut.\<close>

theorem digest_settles:
  assumes "digest_loop same run ws TTL (st\<lparr>d_lastDirty := None\<rparr>) = Some (Done st')" "distinct (map w_id ws)"
  shows "d_async st' = [] \<and> (\<forall>w\<in>set ws. \<forall>v. w_get w (d_model st') = Some v \<longrightarrow>
    (\<exists>l. d_last st' (w_id w) = Some l \<and> same (w_eq w) v l))"
  using digest_loop_stable [OF assms] by (fastforce simp: tail_stable_def list_all_iff stable_def split: option.splits)

definition demo_watch :: "(int, int) watch" where
  "demo_watch = \<lparr>w_id = 1, w_get = (\<lambda>m. Some m), w_fn = (\<lambda>new old m. (min 3 (m + 1), [], False)), w_eq = False\<rparr>"

definition demo_dst :: "(int, int) dst" where
  "demo_dst = \<lparr>d_model = 0, d_last = Map.empty, d_async = [], d_post = [], d_lastDirty = None, d_dirty = False,
     d_phase = None, d_errors = 0, d_fired = []\<rparr>"

lemma demo_drain: "drain run (demo_dst\<lparr>d_model := m, d_last := l, d_lastDirty := k, d_dirty := b, d_fired := f\<rparr>) =
    Some (demo_dst\<lparr>d_model := m, d_last := l, d_lastDirty := k, d_dirty := b, d_fired := f\<rparr>)"
  by (subst drain.simps) (simp add: demo_dst_def)

theorem digest_settles_witness:
  "\<exists>st'. digest_loop (\<lambda>_ v l. v = l) (\<lambda>t m. (m, [], False)) [demo_watch] TTL (demo_dst\<lparr>d_lastDirty := None\<rparr>) = Some (Done st') \<and>
    d_last st' 1 = Some (d_model st')"
proof -
  have "\<exists>st'. digest_loop (\<lambda>_ v l. v = l) (\<lambda>t m. (m, [], False)) [demo_watch] TTL (demo_dst\<lparr>d_lastDirty := None\<rparr>) = Some (Done st')"
    using demo_drain [of "\<lambda>t m. (m, [], False)"]
    by (simp add: TTL_def numeral_eq_Suc visit_def demo_watch_def demo_dst_def caught_def Let_def drain.simps)
  then obtain st' where d: "digest_loop (\<lambda>_ v l. v = l) (\<lambda>t m. (m, [], False)) [demo_watch] TTL (demo_dst\<lparr>d_lastDirty := None\<rparr>) = Some (Done st')"
    by blast
  from digest_settles [OF d] d show ?thesis by (auto simp: demo_watch_def)
qed



text \<open>An event broadcast on the root reaches every listener exactly once: after any
  registrations and deregistrations on the scopes of a linked tree, the walk that the
  counts prune calls the registered listeners of all scopes, in preorder and, on each
  scope, in the order of registration.\<close>

lemma broadcast_reaches_all:
  assumes "links h None t" "distinct (scope_ids t)" "\<forall>op\<in>set ops. op_scope op \<in> set (scope_ids t)"
  shows "\<exists>ev. listener_run h ops ev_init = Some ev \<and> (\<exists>ev'. scope_broadcast h (root_of t) name ev =
    Some (concat (map (\<lambda>i. registered ops name i []) (scope_ids t)), ev'))"
proof -
  have "scopes_ok h t ev_init" using assms counts_ok_init by (simp add: scopes_ok_def)
  from listener_run_ok [OF this assms(3)] obtain ev where ev: "listener_run h ops ev_init = Some ev" "scopes_ok h t ev"
      "\<And>n i. live ev n i = registered ops n i []" by (auto simp: live_eq ev_init_def)
  let ?d = "\<lambda>i. ev_count ev i name \<noteq> 0"
  obtain i ts where t: "t = Node i ts" by (cases t)
  have "scope_walk ?d h i i = Some (preorder ?d t)"
    using walk_target [of h None i ts ?d] assms(1,2) t by auto
  moreover have "fst (broadcast_over name (preorder ?d t) ev) = concat (map (live ev name) (scope_ids t))"
    using broadcast_over_live [of "preorder ?d t" name ev] preorder_distinct [OF assms(2), of ?d]
      pruned_preorder [of ev name t] ev(2) by (simp add: scopes_ok_def)
  moreover have "live ev name = (\<lambda>i. registered ops name i [])" using ev(3) by blast
  ultimately have "fst (the (scope_broadcast h (root_of t) name ev)) = concat (map (\<lambda>i. registered ops name i []) (scope_ids t))"
      "scope_broadcast h (root_of t) name ev \<noteq> None"
    by (simp_all add: scope_broadcast_def t)
  then have "\<exists>ev'. scope_broadcast h (root_of t) name ev =
      Some (concat (map (\<lambda>i. registered ops name i []) (scope_ids t)), ev')"
    by (metis not_None_eq option.sel prod.collapse)
  with ev(1) show ?thesis by blast
qed

definition demo_heap :: "nat \<Rightarrow> scope" where
  "demo_heap = scope_new 0 2 (scope_new 0 1 (\<lambda>_. new_scope))"

lemma broadcast_reaches_all_witness:
  "\<exists>ev. listener_run demo_heap [On 2 ''modal.closing'' 7, On 1 ''modal.closing'' 8, On 2 ''modal.closing'' 9, Off 2 ''modal.closing'' 7] ev_init = Some ev \<and>
    (\<exists>ev'. scope_broadcast demo_heap 0 ''modal.closing'' ev = Some ([8, 9], ev'))"
proof -
  let ?t = "Node 0 [Node 1 [], Node 2 []]"
  have l: "links demo_heap None ?t" "distinct (scope_ids ?t)"
    by (simp_all add: demo_heap_def scope_new_def new_scope_def first_of_def last_of_def Let_def)
  from broadcast_reaches_all [OF l, of "[On 2 ''modal.closing'' 7, On 1 ''modal.closing'' 8, On 2 ''modal.closing'' 9, Off 2 ''modal.closing'' 7]" "''modal.closing''"]
  show ?thesis by (simp add: op_scope_def)
qed

end
