(* ===== verification/Ng_Collection.thy ===== *)
theory Ng_Collection
  imports Prelude
begin

text \<open>
  Collection watches of angular 1.2.29 (\<open>angular.js\<close>, \<open>$watchCollection\<close>), on which the tables
  of rooms and peers of the console rest. Elements are of a type \<open>'e\<close> whose equality is
  the identity of JavaScript, except that \<open>nan\<close> says which of them differ from themselves;
  \<open>undef\<close> is \<open>undefined\<close>. The own properties of an object come with distinct names, none
  of which is \<open>hasOwnProperty\<close>.
\<close>

datatype 'e cval = CPrim 'e | CArr "'e list" | CObj "(string \<times> 'e) list"

text \<open>What the watch last saw; arrays and objects are its own copies.\<close>

datatype 'e seen = SPrim 'e | SArr "'e list" | SObj "(string \<times> 'e) list"

record 'e wc =
  wc_old :: "'e seen"
  wc_oldLength :: nat
  wc_changes :: nat

definition wc_init :: "'e \<Rightarrow> 'e wc" where
  "wc_init undef = \<lparr>wc_old = SPrim undef, wc_oldLength = 0, wc_changes = 0\<rparr>"

text \<open>\<open>!==\<close> and the test of the loops, which takes two NaN for equal.\<close>

definition strict_neq :: "('e \<Rightarrow> bool) \<Rightarrow> 'e \<Rightarrow> 'e \<Rightarrow> bool" where
  "strict_neq nan a b = (a \<noteq> b \<or> nan a \<or> nan b)"

definition elt_changed :: "('e \<Rightarrow> bool) \<Rightarrow> 'e \<Rightarrow> 'e \<Rightarrow> bool" where
  "elt_changed nan a b = (\<not> (strict_neq nan a a \<and> strict_neq nan b b) \<and> strict_neq nan a b)"

definition wc_prim :: "('e \<Rightarrow> bool) \<Rightarrow> 'e \<Rightarrow> 'e wc \<Rightarrow> 'e wc" where
  "wc_prim nan v st =
     (if (case wc_old st of SPrim o' \<Rightarrow> strict_neq nan o' v | _ \<Rightarrow> True)
      then st\<lparr>wc_old := SPrim v, wc_changes := Suc (wc_changes st)\<rparr> else st)"

fun arr_loop :: "('e \<Rightarrow> bool) \<Rightarrow> 'e list \<Rightarrow> 'e list \<Rightarrow> 'e list \<times> nat" where
  "arr_loop nan (o' # os) (v # vs) = (case arr_loop nan os vs of (os', n) \<Rightarrow>
     if elt_changed nan o' v then (v # os', Suc n) else (o' # os', n))"
| "arr_loop nan os vs = (os, 0)"

text \<open>Setting the length of an array cuts it or fills it with holes, which read \<open>undefined\<close>.\<close>

definition set_length :: "'e \<Rightarrow> nat \<Rightarrow> 'e list \<Rightarrow> 'e list" where
  "set_length undef n xs = take n xs @ replicate (n - length xs) undef"

definition wc_array :: "('e \<Rightarrow> bool) \<Rightarrow> 'e \<Rightarrow> 'e list \<Rightarrow> 'e wc \<Rightarrow> 'e wc" where
  "wc_array nan undef vs st =
     (let st1 = (case wc_old st of SArr _ \<Rightarrow> st
            | _ \<Rightarrow> st\<lparr>wc_old := SArr [], wc_oldLength := 0, wc_changes := Suc (wc_changes st)\<rparr>);
          n = length vs;
          os = (case wc_old st1 of SArr os \<Rightarrow> os | _ \<Rightarrow> []);
          st2 = (if wc_oldLength st1 \<noteq> n
                 then st1\<lparr>wc_old := SArr (set_length undef n os), wc_oldLength := n, wc_changes := Suc (wc_changes st1)\<rparr> else st1);
          os2 = (case wc_old st2 of SArr os \<Rightarrow> os | _ \<Rightarrow> []);
          (os3, k) = arr_loop nan os2 vs
      in st2\<lparr>wc_old := SArr os3, wc_changes := wc_changes st2 + k\<rparr>)"

fun own_put :: "string \<Rightarrow> 'e \<Rightarrow> (string \<times> 'e) list \<Rightarrow> (string \<times> 'e) list" where
  "own_put k v [] = [(k, v)]"
| "own_put k v ((j, w) # ob) = (if j = k then (j, v) # ob else (j, w) # own_put k v ob)"

definition obj_step :: "('e \<Rightarrow> bool) \<Rightarrow> string \<times> 'e \<Rightarrow> (string \<times> 'e) list \<times> nat \<times> nat \<Rightarrow> (string \<times> 'e) list \<times> nat \<times> nat" where
  "obj_step nan kv acc = (case kv of (key, v) \<Rightarrow> case acc of (old, oldLength, changes) \<Rightarrow>
     (case map_of old key of
        Some o' \<Rightarrow> if elt_changed nan o' v then (own_put key v old, oldLength, Suc changes) else acc
      | None \<Rightarrow> (own_put key v old, Suc oldLength, Suc changes)))"

definition obj_prune :: "(string \<times> 'e) list \<Rightarrow> (string \<times> 'e) list \<Rightarrow> (string \<times> 'e) list" where
  "obj_prune new old = filter (\<lambda>p. fst p \<in> fst ` set new) old"

definition wc_object :: "('e \<Rightarrow> bool) \<Rightarrow> (string \<times> 'e) list \<Rightarrow> 'e wc \<Rightarrow> 'e wc" where
  "wc_object nan new st =
     (let st1 = (case wc_old st of SObj _ \<Rightarrow> st
            | _ \<Rightarrow> st\<lparr>wc_old := SObj [], wc_oldLength := 0, wc_changes := Suc (wc_changes st)\<rparr>);
          old = (case wc_old st1 of SObj old \<Rightarrow> old | _ \<Rightarrow> []);
          (old2, len2, ch2) = fold (obj_step nan) new (old, wc_oldLength st1, wc_changes st1);
          newLength = length new
      in if len2 > newLength
         then (let old3 = obj_prune new old2 in
               st1\<lparr>wc_old := SObj old3, wc_oldLength := len2 - (length old2 - length old3), wc_changes := Suc ch2\<rparr>)
         else st1\<lparr>wc_old := SObj old2, wc_oldLength := len2, wc_changes := ch2\<rparr>)"

fun wc_watch :: "('e \<Rightarrow> bool) \<Rightarrow> 'e \<Rightarrow> 'e cval \<Rightarrow> 'e wc \<Rightarrow> 'e wc" where
  "wc_watch nan undef (CPrim v) st = wc_prim nan v st"
| "wc_watch nan undef (CArr vs) st = wc_array nan undef vs st"
| "wc_watch nan undef (CObj new) st = wc_object nan new st"

text \<open>The action: the listener gets the new value and, except the first time, the copy of the
  value before.\<close>

record 'e wc_action =
  wa_initRun :: bool
  wa_veryOld :: "'e cval option"

definition wc_act :: "bool \<Rightarrow> 'e cval \<Rightarrow> 'e wc_action \<Rightarrow> ('e cval \<times> 'e cval option) \<times> 'e wc_action" where
  "wc_act trackVeryOldValue new a =
     (let args = (new, if wa_initRun a then Some new else wa_veryOld a)
      in (args, a\<lparr>wa_initRun := False, wa_veryOld := (if trackVeryOldValue then Some new else wa_veryOld a)\<rparr>))"

section \<open>Facts\<close>

definition eqv :: "('e \<Rightarrow> bool) \<Rightarrow> 'e \<Rightarrow> 'e \<Rightarrow> bool" where
  "eqv nan a b = (a = b \<or> nan a \<and> nan b)"

lemma elt_changed_iff: "elt_changed nan a b \<longleftrightarrow> \<not> eqv nan a b"
  by (auto simp: elt_changed_def strict_neq_def eqv_def)

lemma eqv_refl [simp]: "eqv nan a a"
  by (simp add: eqv_def)

definition hit :: "('e \<Rightarrow> bool) \<Rightarrow> (string \<times> 'e) list \<Rightarrow> string \<Rightarrow> 'e \<Rightarrow> bool" where
  "hit nan old k v = (case map_of old k of Some w \<Rightarrow> eqv nan w v | None \<Rightarrow> False)"

definition covers :: "('e \<Rightarrow> bool) \<Rightarrow> (string \<times> 'e) list \<Rightarrow> (string \<times> 'e) list \<Rightarrow> bool" where
  "covers nan old new = list_all (\<lambda>(k, v). hit nan old k v) new"

lemma covers_simps [simp]:
  "covers nan old []" "covers nan old ((k, v) # new) \<longleftrightarrow> hit nan old k v \<and> covers nan old new"
  by (simp_all add: covers_def)

lemma covers_cong: "(\<And>j. j \<in> fst ` set new \<Longrightarrow> map_of old j = map_of old' j) \<Longrightarrow> covers nan old new = covers nan old' new"
  by (induction new) (auto simp: hit_def)

lemma hit_key: "hit nan old k v \<Longrightarrow> k \<in> fst ` set old"
  by (auto simp: hit_def dest!: map_of_SomeD intro: rev_image_eqI split: option.splits)

lemma covers_keys: "covers nan old new \<Longrightarrow> fst ` set new \<subseteq> fst ` set old"
proof (induction new)
  case (Cons kv new)
  then show ?case using hit_key [of nan old "fst kv" "snd kv"] by (cases kv) simp
qed simp

definition obj_eqv :: "('e \<Rightarrow> bool) \<Rightarrow> (string \<times> 'e) list \<Rightarrow> (string \<times> 'e) list \<Rightarrow> bool" where
  "obj_eqv nan old new = (fst ` set old = fst ` set new \<and>
     covers nan old new)"

fun matches :: "('e \<Rightarrow> bool) \<Rightarrow> 'e seen \<Rightarrow> 'e cval \<Rightarrow> bool" where
  "matches nan (SPrim o') (CPrim v) = (o' = v)"
| "matches nan (SArr os) (CArr vs) = list_all2 (eqv nan) os vs"
| "matches nan (SObj old) (CObj new) = obj_eqv nan old new"
| "matches nan _ _ = False"

definition wc_ok :: "'e wc \<Rightarrow> bool" where
  "wc_ok st = (case wc_old st of SPrim _ \<Rightarrow> True | SArr os \<Rightarrow> wc_oldLength st = length os
     | SObj old \<Rightarrow> wc_oldLength st = length old \<and> distinct (map fst old))"

lemma arr_loop_spec:
  "length os = length vs \<Longrightarrow> arr_loop nan os vs = (os', n) \<Longrightarrow>
    length os' = length os \<and> list_all2 (eqv nan) os' vs \<and> (n = 0 \<longleftrightarrow> list_all2 (eqv nan) os vs)"
proof (induction os vs arbitrary: os' n rule: list_induct2)
  case (Cons o' os v vs)
  obtain os1 n1 where "arr_loop nan os vs = (os1, n1)" by force
  with Cons.IH [OF this] Cons.prems show ?case by (auto simp: elt_changed_iff split: if_splits)
qed simp

lemma own_put_spec:
  "map_of (own_put k v ob) = (map_of ob)(k \<mapsto> v)"
  "map fst (own_put k v ob) = (if k \<in> fst ` set ob then map fst ob else map fst ob @ [k])"
  by (induction ob) (auto, force)

lemma own_put_keys:
  "fst ` set (own_put k v ob) = insert k (fst ` set ob)"
  "distinct (map fst ob) \<Longrightarrow> distinct (map fst (own_put k v ob))"
  "length (own_put k v ob) = (if k \<in> fst ` set ob then length ob else Suc (length ob))"
proof -
  note m = own_put_spec(2) [of k v ob]
  from arg_cong [OF m, of set] show "fst ` set (own_put k v ob) = insert k (fst ` set ob)" by (auto split: if_splits)
  show "distinct (map fst ob) \<Longrightarrow> distinct (map fst (own_put k v ob))" by (simp add: m)
  from arg_cong [OF m, of length] show "length (own_put k v ob) = (if k \<in> fst ` set ob then length ob else Suc (length ob))"
    by (simp split: if_splits)
qed

lemma obj_loop_spec:
  assumes "distinct (map fst new)" "distinct (map fst old)" "len = length old"
    and "fold (obj_step nan) new (old, len, ch) = (old', len', ch')"
  shows "distinct (map fst old') \<and> len' = length old' \<and> fst ` set old' = fst ` set old \<union> fst ` set new \<and>
    covers nan old' new \<and> ch \<le> ch' \<and>
    (\<forall>k. k \<notin> fst ` set new \<longrightarrow> map_of old' k = map_of old k) \<and>
    (ch' = ch \<longleftrightarrow> covers nan old new) \<and> (ch' = ch \<longrightarrow> old' = old)"
  using assms
proof (induction new arbitrary: old len ch)
  case (Cons kv new)
  obtain k v where kv: "kv = (k, v)" by force
  let ?old1 = "if hit nan old k v then old else own_put k v old"
  have keys: "fst ` set ?old1 = insert k (fst ` set old)" "distinct (map fst ?old1)"
    using Cons.prems(2) own_put_keys [where k = k and v = v and ob = old] hit_key [of nan old k v] by auto
  have "map_of old k = None \<longleftrightarrow> k \<notin> fst ` set old" by (rule map_of_eq_None_iff)
  then have len1: "length ?old1 = (if map_of old k = None then Suc len else len)"
    using own_put_keys(3) [where k = k and v = v and ob = old] Cons.prems(3) hit_key [of nan old k v] by auto
  have step: "obj_step nan kv (old, len, ch) =
      (?old1, if map_of old k = None then Suc len else len,
        if hit nan old k v then ch else Suc ch)"
    by (simp add: obj_step_def hit_def kv elt_changed_iff split: option.splits)
  have m1: "hit nan ?old1 k v" "\<And>j. j \<noteq> k \<Longrightarrow> map_of ?old1 j = map_of old j"
    by (auto simp: own_put_spec(1) hit_def split: option.splits)
  have "distinct (map fst new)" "k \<notin> fst ` set new" using Cons.prems(1) kv by auto
  note IH = Cons.IH [OF this(1) keys(2) len1 [symmetric] Cons.prems(4) [unfolded fold_simps comp_def step]]
  have k: "hit nan old' k v" using IH m1(1) \<open>k \<notin> fst ` set new\<close> by (auto simp: hit_def)
  have tl: "covers nan ?old1 new = covers nan old new"
    by (rule covers_cong) (metis m1(2) \<open>k \<notin> fst ` set new\<close>)
  show ?case
  proof (cases "hit nan old k v")
    case True
    then have "k \<in> fst ` set old" by (rule hit_key)
    with True IH k tl kv show ?thesis by auto
  next
    case False
    then have "ch < ch'" using IH by auto
    moreover have "\<not> covers nan old (kv # new)" using False kv by simp
    moreover have "\<forall>j. j \<notin> fst ` set (kv # new) \<longrightarrow> map_of old' j = map_of old j" using IH m1(2) kv by auto
    moreover have "covers nan old' (kv # new)" using IH k kv by simp
    moreover have "fst ` set old' = fst ` set old \<union> fst ` set (kv # new)" using IH keys(1) kv by auto
    ultimately show ?thesis using IH by auto
  qed
qed simp

lemma obj_key_length:
  assumes "distinct (map fst old)" "distinct (map fst new)" "fst ` set new \<subseteq> fst ` set old"
  shows "length new \<le> length old" "length old \<le> length new \<Longrightarrow> fst ` set old = fst ` set new"
proof -
  have c: "card (fst ` set old) = length old" "card (fst ` set new) = length new"
    using assms(1,2) distinct_card [of "map fst old"] distinct_card [of "map fst new"] by simp_all
  then show "length new \<le> length old" using card_mono [OF _ assms(3)] by simp
  show "length old \<le> length new \<Longrightarrow> fst ` set old = fst ` set new"
    using card_seteq [OF _ assms(3)] c by simp
qed

lemma map_of_filter_in: "j \<in> K \<Longrightarrow> map_of (filter (\<lambda>p. fst p \<in> K) xs) j = map_of xs j"
  by (induction xs) auto

lemma obj_prune_spec:
  assumes "distinct (map fst old)" "fst ` set new \<subseteq> fst ` set old"
  shows "fst ` set (obj_prune new old) = fst ` set new" "distinct (map fst (obj_prune new old))"
    "covers nan (obj_prune new old) new = covers nan old new"
proof -
  show "fst ` set (obj_prune new old) = fst ` set new" unfolding obj_prune_def
  proof (intro equalityI subsetI)
    fix k assume "k \<in> fst ` set new"
    then have "k \<in> fst ` set old" using assms(2) by blast
    then obtain v where "(k, v) \<in> set old" by auto
    with \<open>k \<in> fst ` set new\<close> show "k \<in> fst ` set (filter (\<lambda>p. fst p \<in> fst ` set new) old)"
      by (intro image_eqI [of _ _ "(k, v)"]) auto
  qed auto
  show "distinct (map fst (obj_prune new old))" using assms(1) by (simp add: obj_prune_def distinct_map_filter)
  have "map_of (obj_prune new old) j = map_of old j" if "j \<in> fst ` set new" for j
    unfolding obj_prune_def by (rule map_of_filter_in [OF that])
  then show "covers nan (obj_prune new old) new = covers nan old new" by (rule covers_cong)
qed

lemma wc_object_spec:
  assumes "wc_ok st" "distinct (map fst new)"
  shows "wc_ok (wc_object nan new st) \<and> matches nan (wc_old (wc_object nan new st)) (CObj new) \<and>
    wc_changes st \<le> wc_changes (wc_object nan new st) \<and>
    (wc_changes (wc_object nan new st) = wc_changes st \<longleftrightarrow> matches nan (wc_old st) (CObj new))"
proof -
  define st1 where "st1 = (case wc_old st of SObj _ \<Rightarrow> st
            | _ \<Rightarrow> st\<lparr>wc_old := SObj [], wc_oldLength := 0, wc_changes := Suc (wc_changes st)\<rparr>)"
  obtain old where o1: "wc_old st1 = SObj old" "wc_oldLength st1 = length old" "distinct (map fst old)"
    using assms(1) by (cases "wc_old st") (auto simp: st1_def wc_ok_def)
  obtain old2 len2 ch2 where f: "fold (obj_step nan) new (old, length old, wc_changes st1) = (old2, len2, ch2)"
    by (metis prod_cases3)
  note F = obj_loop_spec [OF assms(2) o1(3) refl f]
  have sub: "fst ` set new \<subseteq> fst ` set old2" using F by blast
  have st1c: "wc_changes st \<le> wc_changes st1" "wc_changes st1 = wc_changes st \<longleftrightarrow> wc_old st = SObj old"
    using o1(1) by (auto simp: st1_def split: seen.splits)
  show ?thesis
  proof (cases "len2 > length new")
    case True
    let ?old3 = "obj_prune new old2"
    have w: "wc_object nan new st = st1\<lparr>wc_old := SObj ?old3, wc_oldLength := len2 - (length old2 - length ?old3), wc_changes := Suc ch2\<rparr>"
      using True f o1 by (simp add: wc_object_def st1_def [symmetric] Let_def)
    have d2: "distinct (map fst old2)" using F by simp
    note P = obj_prune_spec(1,2) [OF d2 sub] obj_prune_spec(3) [OF d2 sub, of nan]
    have "length ?old3 \<le> length old2" by (simp add: obj_prune_def)
    moreover have "\<not> matches nan (wc_old st) (CObj new)" if "ch2 = wc_changes st1"
    proof
      assume m: "matches nan (wc_old st) (CObj new)"
      then obtain os where os: "wc_old st = SObj os" by (cases "wc_old st") auto
      then have "os = old" using o1(1) by (simp add: st1_def)
      then have "fst ` set old = fst ` set new" using m os by (simp add: obj_eqv_def)
      then have "length old \<le> length new" using obj_key_length(1) [OF assms(2) o1(3)] by simp
      moreover have "len2 = length old" using F that by auto
      ultimately show False using True by simp
    qed
    moreover have "matches nan (wc_old st) (CObj new) \<Longrightarrow> ch2 = wc_changes st1"
      using F o1(1) st1c by (cases "wc_old st") (auto simp: st1_def obj_eqv_def)
    ultimately show ?thesis using P F st1c unfolding w by (auto simp: wc_ok_def obj_eqv_def)
  next
    case False
    have w: "wc_object nan new st = st1\<lparr>wc_old := SObj old2, wc_oldLength := len2, wc_changes := ch2\<rparr>"
      using False f o1 by (simp add: wc_object_def st1_def [symmetric] Let_def)
    have eq: "fst ` set old2 = fst ` set new" using obj_key_length(2) [OF _ assms(2) sub] F False by auto
    have "ch2 = wc_changes st \<longleftrightarrow> matches nan (wc_old st) (CObj new)"
    proof
      assume "ch2 = wc_changes st"
      then have c: "ch2 = wc_changes st1" "wc_changes st1 = wc_changes st" using F st1c by auto
      then have "wc_old st = SObj old" "old2 = old" "covers nan old new" using F st1c by auto
      with eq show "matches nan (wc_old st) (CObj new)" by (simp add: obj_eqv_def)
    next
      assume m: "matches nan (wc_old st) (CObj new)"
      then have "wc_old st = SObj old" using o1(1) by (cases "wc_old st") (auto simp: st1_def)
      with m F st1c show "ch2 = wc_changes st" by (simp add: obj_eqv_def)
    qed
    with F eq st1c show ?thesis unfolding w by (auto simp: wc_ok_def obj_eqv_def)
  qed
qed

lemma set_length_length [simp]: "length (set_length undef n xs) = n"
  by (simp add: set_length_def)

lemma wc_array_spec:
  assumes "wc_ok st"
  shows "wc_ok (wc_array nan undef vs st) \<and> matches nan (wc_old (wc_array nan undef vs st)) (CArr vs) \<and>
    wc_changes st \<le> wc_changes (wc_array nan undef vs st) \<and>
    (wc_changes (wc_array nan undef vs st) = wc_changes st \<longleftrightarrow> matches nan (wc_old st) (CArr vs))"
proof -
  define st1 where "st1 = (case wc_old st of SArr _ \<Rightarrow> st
            | _ \<Rightarrow> st\<lparr>wc_old := SArr [], wc_oldLength := 0, wc_changes := Suc (wc_changes st)\<rparr>)"
  obtain os where o1: "wc_old st1 = SArr os" "wc_oldLength st1 = length os"
    using assms by (cases "wc_old st") (auto simp: st1_def wc_ok_def)
  have st1c: "wc_changes st \<le> wc_changes st1" "wc_changes st1 = wc_changes st \<longleftrightarrow> wc_old st = SArr os"
    using o1(1) by (auto simp: st1_def split: seen.splits)
  let ?os2 = "if length os \<noteq> length vs then set_length undef (length vs) os else os"
  obtain os3 k where l: "arr_loop nan ?os2 vs = (os3, k)" by force
  have "length ?os2 = length vs" by simp
  note L = arr_loop_spec [OF this l]
  have w: "wc_old (wc_array nan undef vs st) = SArr os3" "wc_oldLength (wc_array nan undef vs st) = length vs"
      "wc_changes (wc_array nan undef vs st) = wc_changes st1 + of_bool (length os \<noteq> length vs) + k"
    using l o1 by (auto simp: wc_array_def st1_def [symmetric] Let_def)
  have "wc_changes (wc_array nan undef vs st) = wc_changes st \<longleftrightarrow> matches nan (wc_old st) (CArr vs)"
  proof
    assume "wc_changes (wc_array nan undef vs st) = wc_changes st"
    then have "wc_old st = SArr os" "length os = length vs" "k = 0" using w(3) st1c by (auto simp: of_bool_def split: if_splits)
    with L show "matches nan (wc_old st) (CArr vs)" by simp
  next
    assume m: "matches nan (wc_old st) (CArr vs)"
    then have "wc_old st = SArr os" using o1(1) by (cases "wc_old st") (auto simp: st1_def)
    moreover from this m have "list_all2 (eqv nan) os vs" by simp
    moreover from this have "length os = length vs" by (rule list_all2_lengthD)
    ultimately show "wc_changes (wc_array nan undef vs st) = wc_changes st" using w(3) st1c L by simp
  qed
  with L w st1c show ?thesis by (simp add: wc_ok_def)
qed

section \<open>Properties\<close>

text \<open>C39: A collection watch fires exactly on shallow changes: for arrays, objects and
  primitive values other than NaN, its counter stays iff the collection equals, element by
  element, what it saw last, and afterwards it has seen the collection, so that watching it
  again unchanged does not count.\<close>

theorem watch_collection_detects:
  assumes "wc_ok st" "\<And>v. c = CPrim v \<Longrightarrow> \<not> nan v" "\<And>new. c = CObj new \<Longrightarrow> distinct (map fst new)"
  shows "let st' = wc_watch nan undef c st in (wc_changes st' = wc_changes st \<longleftrightarrow> matches nan (wc_old st) c) \<and> matches nan (wc_old st') c \<and>
    wc_changes (wc_watch nan undef c st') = wc_changes st' \<and> wc_ok st'"
proof -
  have one: "wc_ok (wc_watch nan undef c s) \<and> matches nan (wc_old (wc_watch nan undef c s)) c \<and>
      (wc_changes (wc_watch nan undef c s) = wc_changes s \<longleftrightarrow> matches nan (wc_old s) c)" if "wc_ok s" for s
  proof (cases c)
    case (CPrim v)
    with assms(2) that show ?thesis
      by (cases "wc_old s") (auto simp: wc_prim_def strict_neq_def wc_ok_def)
  next
    case (CArr vs)
    with wc_array_spec [OF that, of nan undef vs] show ?thesis by simp
  next
    case (CObj new)
    with wc_object_spec [OF that assms(3) [OF CObj], of nan] show ?thesis by simp
  qed
  show ?thesis using one [OF assms(1)] one unfolding Let_def by blast
qed

theorem watch_collection_detects_witness:
  "wc_changes (wc_watch (\<lambda>_. False) 0 (CObj [(''a'', 1)]) (wc_init (0::int))) \<noteq> wc_changes (wc_init (0::int))"
proof -
  have "wc_ok (wc_init (0::int))" by (simp add: wc_ok_def wc_init_def)
  from watch_collection_detects [OF this, of "CObj [(''a'', 1)]" "\<lambda>_. False" 0]
  have "wc_changes (wc_watch (\<lambda>_. False) 0 (CObj [(''a'', 1)]) (wc_init (0::int))) = wc_changes (wc_init (0::int)) \<longleftrightarrow>
      matches (\<lambda>_. False) (wc_old (wc_init (0::int))) (CObj [(''a'', 1)])"
    unfolding Let_def by simp
  then show ?thesis by (simp add: wc_init_def)
qed

text \<open>A primitive NaN counts as a change at every look: the watch of a collection whose value is
  NaN keeps the digest dirty until it gives up.\<close>

lemma watch_collection_nan:
  "nan v \<Longrightarrow> wc_changes (wc_watch nan undef (CPrim v) st) = Suc (wc_changes st)"
  by (auto simp: wc_prim_def strict_neq_def split: seen.splits)

end
