(* ===== verification/Highcharts_Ng.thy ===== *)
theory Highcharts_Ng
  imports Console
begin

text \<open>
  The chart of the overview page: \<open>highcharts-ng.js\<close>, its utilities, the merged options of a
  chart and the function that keeps the series of a chart equal to those of the scope; the
  deep comparison of angular; and of Highcharts itself the operations that function uses,
  on the options, the data and the visibility of each series. Charts whose axes or points
  share an id with a series are not covered.
\<close>

section \<open>Utilities\<close>

text \<open>\<open>indexOf\<close> with its start, which counts from the end when negative.\<close>

definition hc_indexOf :: "'a list \<Rightarrow> 'a \<Rightarrow> int \<Rightarrow> int" where
  "hc_indexOf arr x i =
     (let i1 = (if i < 0 then i + int (length arr) else i); i2 = nat (if i1 < 0 then 0 else i1)
      in case index_of x (drop i2 arr) of Some k \<Rightarrow> int (i2 + k) | None \<Rightarrow> -1)"

definition or_empty :: "jsval \<Rightarrow> jsval" where
  "or_empty d = (if truthy d then d else JObj [])"

definition arr_items :: "jsval \<Rightarrow> jsval list" where
  "arr_items d = (case d of JArr xs \<Rightarrow> xs | _ \<Rightarrow> [])"

text \<open>An array that gets named properties is read as an object with its indices as names.\<close>

definition obj_items :: "jsval \<Rightarrow> jsobj" where
  "obj_items d = (case d of JObj ob \<Rightarrow> ob | JArr xs \<Rightarrow> zip (map (\<lambda>i. itoa (int i)) [0..<length xs]) xs | _ \<Rightarrow> [])"

fun deepExtend :: "jsval \<Rightarrow> jsval \<Rightarrow> jsval" and ext_list :: "jsval list \<Rightarrow> jsval list \<Rightarrow> jsval list"
  and ext_fields :: "jsobj \<Rightarrow> jsobj \<Rightarrow> jsobj" where
  "deepExtend d (JArr xs) = JArr (ext_list (arr_items d) xs)"
| "deepExtend d (JObj fs) = JObj (ext_fields (obj_items d) fs)"
| "deepExtend d v = v"
| "ext_list ds [] = ds"
| "ext_list ds (x # xs) = deepExtend (case ds of [] \<Rightarrow> JObj [] | d # _ \<Rightarrow> or_empty d) x # ext_list (tl ds) xs"
| "ext_fields ob [] = ob"
| "ext_fields ob ((k, v) # fs) = ext_fields (obj_put k (deepExtend (or_empty (js_prop (JObj ob) k)) v) ob) fs"

text \<open>\<open>angular.equals\<close>: names that start with a dollar sign and functions do not count.\<close>

definition eq_skips :: "string \<Rightarrow> jsval \<Rightarrow> bool" where
  "eq_skips k v = (k \<noteq> [] \<and> hd k = CHR ''$'' \<or> isFunction v)"

fun ng_equals :: "jsval \<Rightarrow> jsval \<Rightarrow> bool" and eq_list :: "jsval list \<Rightarrow> jsval list \<Rightarrow> bool"
  and eq_fields :: "jsobj \<Rightarrow> jsobj \<Rightarrow> bool" where
  "ng_equals (JArr xs) b = (case b of JArr ys \<Rightarrow> eq_list xs ys | _ \<Rightarrow> False)"
| "ng_equals (JObj o1) b = (case b of
     JObj o2 \<Rightarrow> eq_fields o1 o2 \<and>
       list_all (\<lambda>(k, v). list_ex (\<lambda>(j, w). j = k \<and> \<not> eq_skips j w) o1 \<or> eq_skips k v \<or> v = JUndef) o2
   | _ \<Rightarrow> False)"
| "ng_equals a b = (a = b)"
| "eq_list [] ys = (ys = [])"
| "eq_list (x # xs) ys = (case ys of [] \<Rightarrow> False | y # ys' \<Rightarrow> ng_equals x y \<and> eq_list xs ys')"
| "eq_fields [] o2 = True"
| "eq_fields ((k, v) # fs) o2 = ((eq_skips k v \<or> ng_equals v (js_prop (JObj o2) k)) \<and> eq_fields fs o2)"

section \<open>Loading\<close>

text \<open>\<open>ready\<close>: with lazy loading and without Highcharts the callbacks wait until the modules are
  loaded, one after the other.\<close>

record ready_queue =
  rq_waiting :: "nat list"
  rq_loading :: bool
  rq_modules :: "string list"
  rq_called :: "nat list"

fun rq_doWork :: "ready_queue \<Rightarrow> ready_queue" where
  "rq_doWork q = (case rq_modules q of
     [] \<Rightarrow> q\<lparr>rq_loading := False, rq_called := rq_called q @ rq_waiting q\<rparr>
   | s # ms \<Rightarrow> q\<lparr>rq_modules := ms\<rparr>)"

definition rq_ready :: "bool \<Rightarrow> bool \<Rightarrow> bool \<Rightarrow> nat \<Rightarrow> ready_queue \<Rightarrow> ready_queue" where
  "rq_ready present lazyload jquery callback q =
     (if present \<or> \<not> lazyload then q\<lparr>rq_called := rq_called q @ [callback]\<rparr>
      else (let q1 = q\<lparr>rq_waiting := rq_waiting q @ [callback]\<rparr> in
        if rq_loading q then q1
        else rq_doWork (q1\<lparr>rq_loading := True, rq_modules := (if jquery then rq_modules q1
               else ''adapters/standalone-framework.js'' # rq_modules q1)\<rparr>)))"

section \<open>Merged options\<close>

definition axisNames :: "string list" where
  "axisNames = [''xAxis'', ''yAxis'']"

definition defaultOptions :: jsobj where
  "defaultOptions = [(''chart'', JObj [(''events'', JObj [])]), (''title'', JObj []), (''subtitle'', JObj []),
     (''series'', JArr []), (''credits'', JObj []), (''plotOptions'', JObj []),
     (''navigator'', JObj [(''enabled'', JBool False)]), (''xAxis'', JObj [(''events'', JObj [])]),
     (''yAxis'', JObj [(''events'', JObj [])])]"

text \<open>The handlers that the function installs: the event and the axis.\<close>

type_synonym handlers = "(string \<times> string) list"

definition set_in :: "string \<Rightarrow> string \<Rightarrow> jsval \<Rightarrow> jsobj \<Rightarrow> jsobj" where
  "set_in k j v ob = obj_put k (JObj (obj_put j v (obj_items (js_prop (JObj ob) k)))) ob"

definition merge_axis :: "jsobj \<Rightarrow> string \<Rightarrow> jsobj \<times> handlers \<Rightarrow> jsobj \<times> handlers" where
  "merge_axis config axisName oh = (case oh of (opts, hs) \<Rightarrow>
     (let ax = js_prop (JObj config) axisName in
      if isDefined ax then
        (obj_put axisName (deepExtend (or_empty (js_prop (JObj opts) axisName)) ax) opts,
         if isDefined (js_prop ax ''currentMin'') \<or> isDefined (js_prop ax ''currentMax'')
         then hs @ [(''selection'', axisName), (''addSeries'', axisName), (''setExtremes'', axisName)] else hs)
      else (opts, hs)))"

definition override :: "string \<Rightarrow> jsobj \<Rightarrow> jsobj \<Rightarrow> jsobj" where
  "override k config opts = (let v = js_prop (JObj config) k in if truthy v then obj_put k v opts else opts)"

definition set_size :: "jsobj \<Rightarrow> jsobj \<Rightarrow> jsobj" where
  "set_size config opts = (let sz = js_prop (JObj config) ''size'' in
     if truthy sz then
       (let opts1 = (if truthy (js_prop sz ''width'') then set_in ''chart'' ''width'' (js_prop sz ''width'') opts else opts)
        in if truthy (js_prop sz ''height'') then set_in ''chart'' ''height'' (js_prop sz ''height'') opts1 else opts1)
     else opts)"

definition getMergedOptions :: "jsval \<Rightarrow> jsobj \<Rightarrow> jsobj \<times> handlers" where
  "getMergedOptions element config =
     (let merged = (if truthy (js_prop (JObj config) ''options'')
            then obj_items (deepExtend (JObj defaultOptions) (js_prop (JObj config) ''options'')) else defaultOptions);
          (opts, hs) = fold (merge_axis config) axisNames (set_in ''chart'' ''renderTo'' element merged, [])
      in (set_size config (override ''credits'' config (override ''subtitle'' config (override ''title'' config opts))), hs))"

text \<open>What the selection handler writes back to the axis of the scope: the selected range, or
  the whole range of the data after a reset.\<close>

definition on_selection :: "(jsval \<times> jsval) option \<Rightarrow> jsval \<times> jsval \<Rightarrow> jsobj \<Rightarrow> jsobj" where
  "on_selection selected dataRange axis = (case (case selected of Some r \<Rightarrow> r | None \<Rightarrow> dataRange) of
     (lo, hi) \<Rightarrow> obj_put ''currentMax'' hi (obj_put ''currentMin'' lo axis))"

definition on_addSeries :: "jsval \<Rightarrow> jsval \<Rightarrow> jsobj \<Rightarrow> jsobj" where
  "on_addSeries lo hi axis =
     (let axis1 = obj_put ''currentMin'' (if truthy lo then lo else js_prop (JObj axis) ''currentMin'') axis
      in obj_put ''currentMax'' (if truthy hi then hi else js_prop (JObj axis1) ''currentMax'') axis1)"

definition on_setExtremes :: "jsval \<Rightarrow> jsval \<Rightarrow> jsval \<Rightarrow> jsobj \<Rightarrow> jsobj" where
  "on_setExtremes trigger lo hi axis = (if truthy trigger \<and> trigger \<noteq> JStr ''zoom''
     then obj_put ''max'' hi (obj_put ''min'' lo (obj_put ''currentMax'' hi (obj_put ''currentMin'' lo axis))) else axis)"

definition getChartType :: "jsval \<Rightarrow> string" where
  "getChartType config = (if config = JUndef then ''Chart''
     else (let t = map to_lower (js_string (js_prop config ''chartType'')) in
       if t = ''stock'' then ''StockChart'' else if t = ''map'' then ''Map'' else if t = ''chart'' then ''Chart''
       else if truthy (js_prop config ''useHighStocks'') then ''StockChart'' else ''Chart''))"

definition chartOptionsWithoutEasyOptions :: "jsobj \<Rightarrow> jsobj" where
  "chartOptionsWithoutEasyOptions options =
     extend1 (obj_items (deepExtend (JObj []) (JObj options))) [(''data'', JNull), (''visible'', JNull)]"

section \<open>The series of a chart\<close>

record hseries =
  h_user :: jsobj
  h_data :: jsval
  h_visible :: bool

definition data_of :: "jsval \<Rightarrow> jsval" where
  "data_of d = (if truthy d then d else JArr [])"

definition visible_of :: "jsobj \<Rightarrow> bool" where
  "visible_of options = (js_prop (JObj options) ''visible'' \<noteq> JBool False)"

text \<open>\<open>merge\<close> of Highcharts: objects are copied key by key, arrays and primitives taken over.\<close>

fun doCopy :: "jsobj \<Rightarrow> jsobj \<Rightarrow> jsobj" and copy_value :: "string \<Rightarrow> jsval \<Rightarrow> jsval \<Rightarrow> jsval" where
  "doCopy c [] = c"
| "doCopy c ((k, v) # fs) = doCopy (obj_put k (copy_value k (js_prop (JObj c) k) v) c) fs"
| "copy_value k d (JObj fs) = (if k \<noteq> ''renderTo'' then JObj (doCopy (obj_items (or_empty d)) fs) else JObj fs)"
| "copy_value k d v = v"

definition hc_id :: "hseries \<Rightarrow> jsval" where
  "hc_id cs = js_prop (JObj (h_user cs)) ''id''"

definition hc_get :: "jsval \<Rightarrow> hseries list \<Rightarrow> hseries option" where
  "hc_get i chart = find (\<lambda>cs. hc_id cs = i) chart"

definition hc_addSeries :: "jsobj \<Rightarrow> hseries list \<Rightarrow> hseries list" where
  "hc_addSeries options chart = chart @ [\<lparr>h_user = options, h_data = data_of (js_prop (JObj options) ''data''),
     h_visible = visible_of options\<rparr>]"

text \<open>The forced options \<open>animation\<close>, \<open>index\<close> and \<open>pointStart\<close> of an update only keep the place and the
  drawing of the series and are left out.\<close>

definition hc_update :: "jsobj \<Rightarrow> hseries \<Rightarrow> hseries" where
  "hc_update new cs = (let merged = doCopy (obj_put ''data'' (h_data cs) (h_user cs)) new in
     \<lparr>h_user = merged, h_data = data_of (js_prop (JObj merged) ''data''), h_visible = visible_of merged\<rparr>)"

definition hc_setVisible :: "jsval \<Rightarrow> hseries \<Rightarrow> hseries" where
  "hc_setVisible v cs = (let vis = (if v = JUndef then JBool (\<not> h_visible cs) else v) in
     cs\<lparr>h_visible := truthy vis, h_user := obj_put ''visible'' vis (h_user cs)\<rparr>)"

definition hc_setData :: "jsval \<Rightarrow> hseries \<Rightarrow> hseries" where
  "hc_setData d cs = cs\<lparr>h_data := data_of d\<rparr>"

fun map_first :: "('a \<Rightarrow> bool) \<Rightarrow> ('a \<Rightarrow> 'a) \<Rightarrow> 'a list \<Rightarrow> 'a list" where
  "map_first p f [] = []"
| "map_first p f (x # xs) = (if p x then f x # xs else x # map_first p f xs)"

section \<open>Processing the series\<close>

record hc_state =
  hc_series :: "jsobj list"
  seriesId :: nat
  prevSeriesOptions :: "string \<Rightarrow> jsobj option"
  hc_chart :: "hseries list"
  hc_loading :: "jsval option"

definition ensure_id :: "jsobj \<Rightarrow> jsobj list \<times> nat \<times> bool \<Rightarrow> jsobj list \<times> nat \<times> bool" where
  "ensure_id s acc = (case acc of (done_, n, changed) \<Rightarrow>
     if isDefined (js_prop (JObj s) ''id'') then (done_ @ [s], n, changed)
     else (done_ @ [obj_put ''id'' (JStr (''series-'' @ itoa (int n))) s], Suc n, True))"

definition ensureIds :: "jsobj list \<Rightarrow> nat \<Rightarrow> jsobj list \<times> nat \<times> bool" where
  "ensureIds series n = fold ensure_id series ([], n, False)"

definition update_series :: "(string \<Rightarrow> jsobj option) \<Rightarrow> jsobj \<Rightarrow> hseries \<Rightarrow> hseries" where
  "update_series prev s cs =
     (let old = (case prev (js_string (js_prop (JObj s) ''id'')) of Some ob \<Rightarrow> JObj ob | None \<Rightarrow> JUndef) in
      if \<not> ng_equals old (JObj (chartOptionsWithoutEasyOptions s)) then hc_update s cs
      else (let v = js_prop (JObj s) ''visible'';
                cs1 = (if v \<noteq> JUndef \<and> JBool (h_visible cs) \<noteq> v then hc_setVisible v cs else cs)
            in hc_setData (js_prop (JObj s) ''data'') cs1))"

definition series_step :: "jsobj \<Rightarrow> (string \<Rightarrow> jsobj option) \<times> hseries list \<Rightarrow> (string \<Rightarrow> jsobj option) \<times> hseries list" where
  "series_step s acc = (case acc of (prev, chart) \<Rightarrow>
     (let i = js_prop (JObj s) ''id'';
          chart' = (case hc_get i chart of
              Some _ \<Rightarrow> map_first (\<lambda>cs. hc_id cs = i) (update_series prev s) chart
            | None \<Rightarrow> hc_addSeries s chart)
      in (prev(js_string i \<mapsto> chartOptionsWithoutEasyOptions s), chart')))"

definition has_data :: "jsobj list \<Rightarrow> bool" where
  "has_data series = list_ex (\<lambda>s. let d = js_prop (JObj s) ''data'' in truthy d \<and> ge0 (\<lambda>_. None) (js_prop d ''length'') \<and>
     js_prop d ''length'' \<noteq> JNum 0) series"

definition remove_missing :: "jsval list \<Rightarrow> hseries list \<Rightarrow> hseries list" where
  "remove_missing ids chart = filter (\<lambda>cs. hc_id cs = JStr ''highcharts-navigator-series'' \<or> hc_indexOf ids (hc_id cs) 0 \<ge> 0) chart"

definition processSeries :: "bool \<Rightarrow> jsval \<Rightarrow> hc_state \<Rightarrow> bool \<times> hc_state" where
  "processSeries disableDataWatch noData st =
     (let (series, n, changed) = ensureIds (hc_series st) (seriesId st);
          st1 = st\<lparr>hc_series := series, seriesId := n\<rparr>
      in if changed \<and> \<not> disableDataWatch then (False, st1)
         else (let (prev, chart) = fold series_step series (prevSeriesOptions st1, hc_chart st1);
                   loading = (if truthy noData then (if has_data series then None else Some noData) else hc_loading st1);
                   ids = map (\<lambda>s. js_prop (JObj s) ''id'') series
               in (True, st1\<lparr>prevSeriesOptions := prev, hc_chart := remove_missing ids chart, hc_loading := loading\<rparr>)))"

text \<open>The watch of the series redraws when the series were processed.\<close>

definition watch_series :: "bool \<Rightarrow> jsval \<Rightarrow> jsobj list \<Rightarrow> hc_state \<Rightarrow> bool \<times> hc_state" where
  "watch_series disableDataWatch noData newSeries st =
     (case processSeries disableDataWatch noData (st\<lparr>hc_series := newSeries\<rparr>) of
        (ok, st') \<Rightarrow> (disableDataWatch \<or> ok, st'))"

section \<open>Facts\<close>

lemma js_prop_get: "obj_get ob k = Some v \<Longrightarrow> js_prop (JObj ob) k = v"
  by (simp add: js_prop_def)

lemma copy_value_plain: "(\<And>fs. v \<noteq> JObj fs) \<Longrightarrow> copy_value k d v = v"
  by (cases v) auto

lemma doCopy_get:
  "distinct (map fst fs) \<Longrightarrow> obj_get (doCopy c fs) k =
    (case obj_get fs k of Some v \<Rightarrow> Some (copy_value k (js_prop (JObj c) k) v) | None \<Rightarrow> obj_get c k)"
proof (induction fs arbitrary: c)
  case (Cons f fs)
  obtain j v where f: "f = (j, v)" by force
  have none: "obj_get fs j = None" using Cons.prems f by (simp add: obj_get_def map_of_eq_None_iff)
  have d: "distinct (map fst fs)" using Cons.prems by simp
  have p: "js_prop (JObj (obj_put j w c)) k = (if k = j then w else js_prop (JObj c) k)" for w
    by (simp add: js_prop_def)
  have cons: "obj_get ((j, v) # fs) k = (if k = j then Some v else obj_get fs k)" by (simp add: obj_get_def)
  show ?case using Cons.IH [OF d, of "obj_put j (copy_value j (js_prop (JObj c) j) v) c"] none
    by (auto simp: f cons p split: option.splits)
qed (simp add: obj_get_def)

lemma doCopy_plain:
  assumes "distinct (map fst fs)" "obj_get fs k = Some v" "\<And>gs. v \<noteq> JObj gs"
  shows "js_prop (JObj (doCopy c fs)) k = v"
  using assms copy_value_plain [of v k] by (simp add: js_prop_def doCopy_get)

text \<open>A series of the scope that has its own id and an array of data.\<close>

definition good_series :: "jsobj \<Rightarrow> bool" where
  "good_series s = (distinct (map fst s) \<and>
     (\<exists>i. obj_get s ''id'' = Some (JStr i) \<and> i \<noteq> ''highcharts-navigator-series'') \<and>
     (\<exists>d. obj_get s ''data'' = Some (JArr d)))"

definition sid :: "jsobj \<Rightarrow> jsval" where
  "sid s = js_prop (JObj s) ''id''"

definition in_sync :: "jsobj \<Rightarrow> hseries \<Rightarrow> bool" where
  "in_sync s cs = (hc_id cs = sid s \<and> h_data cs = js_prop (JObj s) ''data'')"

lemma update_series_sync:
  assumes "good_series s" "hc_id cs = sid s"
  shows "in_sync s (update_series prev s cs)"
proof -
  obtain i d where s: "distinct (map fst s)" "obj_get s ''id'' = Some (JStr i)" "obj_get s ''data'' = Some (JArr d)"
    using assms(1) by (auto simp: good_series_def)
  have p: "sid s = JStr i" "js_prop (JObj s) ''data'' = JArr d" using s by (simp_all add: sid_def js_prop_get)
  have upd: "in_sync s (hc_update s cs)"
    using doCopy_plain [OF s(1,2), of "obj_put ''data'' (h_data cs) (h_user cs)"]
      doCopy_plain [OF s(1,3), of "obj_put ''data'' (h_data cs) (h_user cs)"] p
    by (simp add: in_sync_def hc_update_def hc_id_def Let_def data_of_def truthy_def)
  have vis: "hc_id (hc_setVisible v cs) = hc_id cs" for v
    by (simp add: hc_setVisible_def hc_id_def js_prop_def Let_def)
  have "in_sync s (hc_setData (js_prop (JObj s) ''data'') cs')" if "hc_id cs' = sid s" for cs'
    using that p by (simp add: in_sync_def hc_setData_def hc_id_def data_of_def truthy_def)
  with upd vis assms(2) show ?thesis by (simp add: update_series_def Let_def)
qed

lemma add_series_sync:
  assumes "good_series s"
  shows "\<exists>cs. hc_addSeries s chart = chart @ [cs] \<and> in_sync s cs"
  using assms by (auto simp: hc_addSeries_def in_sync_def hc_id_def sid_def good_series_def js_prop_get data_of_def truthy_def)

lemma map_first_ids:
  assumes "\<And>x. p x \<Longrightarrow> g (f x) = g x"
  shows "map g (map_first p f xs) = map g xs"
  using assms by (induction xs) auto

lemma map_first_mem:
  "(x \<in> set xs \<and> \<not> p x \<longrightarrow> x \<in> set (map_first p f xs)) \<and> (find p xs = Some y \<longrightarrow> f y \<in> set (map_first p f xs) \<and> p y)"
  by (induction xs) auto

lemma series_step_sync:
  assumes "good_series s" "distinct (map hc_id chart)"
  shows "\<exists>prev' chart'. series_step s (prev, chart) = (prev', chart') \<and> distinct (map hc_id chart') \<and>
    set (map hc_id chart') = insert (sid s) (set (map hc_id chart)) \<and> (\<exists>cs\<in>set chart'. in_sync s cs) \<and>
    (\<forall>cs\<in>set chart. hc_id cs \<noteq> sid s \<longrightarrow> cs \<in> set chart')"
proof (cases "hc_get (sid s) chart")
  case (Some cs)
  then have g: "find (\<lambda>cs. hc_id cs = sid s) chart = Some cs" by (simp add: hc_get_def)
  let ?chart = "map_first (\<lambda>cs. hc_id cs = sid s) (update_series prev s) chart"
  have m: "update_series prev s cs \<in> set ?chart" "hc_id cs = sid s"
    using map_first_mem [of undefined chart "\<lambda>cs. hc_id cs = sid s" "update_series prev s" cs] g by auto
  have keep: "x \<in> set ?chart" if "x \<in> set chart" "hc_id x \<noteq> sid s" for x
    using map_first_mem [of x chart "\<lambda>cs. hc_id cs = sid s" "update_series prev s" cs] that by auto
  have sync: "hc_id c = sid s \<Longrightarrow> in_sync s (update_series prev s c)" for c
    by (rule update_series_sync [OF assms(1)])
  then have ids: "map hc_id ?chart = map hc_id chart"
    by (intro map_first_ids) (simp add: in_sync_def)
  have "cs \<in> set chart" using g by (auto simp: find_Some_iff)
  then have "sid s \<in> set (map hc_id chart)" using m(2) by force
  then have "set (map hc_id ?chart) = insert (sid s) (set (map hc_id chart))" using ids by (simp only: insert_absorb)
  moreover have "distinct (map hc_id ?chart)" using ids assms(2) by simp
  moreover have "series_step s (prev, chart) = (prev(js_string (sid s) \<mapsto> chartOptionsWithoutEasyOptions s), ?chart)"
    using Some by (simp add: series_step_def sid_def Let_def)
  ultimately show ?thesis using m(1) sync [OF m(2)] keep by blast
next
  case None
  obtain cs where cs: "hc_addSeries s chart = chart @ [cs]" "in_sync s cs" using add_series_sync [OF assms(1)] by blast
  have "sid s \<notin> set (map hc_id chart)" using None by (auto simp: hc_get_def find_None_iff)
  moreover have "hc_id cs = sid s" using cs(2) by (simp add: in_sync_def)
  moreover have "series_step s (prev, chart) = (prev(js_string (sid s) \<mapsto> chartOptionsWithoutEasyOptions s), chart @ [cs])"
    using None cs(1) by (simp add: series_step_def sid_def Let_def)
  ultimately show ?thesis using assms(2) cs(2) by auto
qed

lemma series_loop_sync:
  "\<forall>s\<in>set series. good_series s \<Longrightarrow> distinct (map sid series) \<Longrightarrow> distinct (map hc_id chart) \<Longrightarrow>
    \<exists>prev' chart'. fold series_step series (prev, chart) = (prev', chart') \<and> distinct (map hc_id chart') \<and>
    set (map hc_id chart') = set (map sid series) \<union> set (map hc_id chart) \<and>
    (\<forall>s\<in>set series. \<exists>cs\<in>set chart'. in_sync s cs)"
proof (induction series rule: rev_induct)
  case (snoc s series)
  have "\<forall>s\<in>set series. good_series s" "distinct (map sid series)" using snoc.prems(1,2) by simp_all
  from snoc.IH [OF this snoc.prems(3)] obtain prev1 chart1
    where 1: "fold series_step series (prev, chart) = (prev1, chart1)" "distinct (map hc_id chart1)"
      "set (map hc_id chart1) = set (map sid series) \<union> set (map hc_id chart)" "\<forall>s\<in>set series. \<exists>cs\<in>set chart1. in_sync s cs"
    by blast
  have "good_series s" using snoc.prems(1) by simp
  from series_step_sync [OF this 1(2), of prev1] obtain prev2 chart2 where 2: "series_step s (prev1, chart1) = (prev2, chart2)"
      "distinct (map hc_id chart2)" "set (map hc_id chart2) = insert (sid s) (set (map hc_id chart1))"
      "\<exists>cs\<in>set chart2. in_sync s cs" "\<forall>cs\<in>set chart1. hc_id cs \<noteq> sid s \<longrightarrow> cs \<in> set chart2" by blast
  have "\<exists>cs\<in>set chart2. in_sync t cs" if t: "t \<in> set series" for t
  proof -
    obtain cs where "cs \<in> set chart1" "in_sync t cs" using 1(4) t by blast
    moreover have "sid s \<notin> sid ` set series" using snoc.prems(2) by simp
    then have "sid t \<noteq> sid s" using t by (metis imageI)
    ultimately show ?thesis using 2(5) by (metis in_sync_def)
  qed
  then have "\<forall>t\<in>set (series @ [s]). \<exists>cs\<in>set chart2. in_sync t cs" using 2(4) by (simp only: set_append list.set) blast
  moreover have "fold series_step (series @ [s]) (prev, chart) = (prev2, chart2)" using 1(1) 2(1) by simp
  moreover have "set (map hc_id chart2) = set (map sid (series @ [s])) \<union> set (map hc_id chart)"
    using 1(3) 2(3) by simp
  ultimately show ?case using 2(2) by blast
qed auto

lemma ensureIds_good:
  assumes "\<forall>s\<in>set series. good_series s"
  shows "ensureIds series n = (series, n, False)"
proof -
  have "fold ensure_id series (pre, n, c) = (pre @ series, n, c)" for pre c
    using assms
  proof (induction series arbitrary: pre)
    case (Cons s series)
    then have "isDefined (js_prop (JObj s) ''id'')" by (auto simp: good_series_def js_prop_get isDefined_def)
    with Cons show ?case by (simp add: ensure_id_def)
  qed simp
  then show ?thesis by (simp add: ensureIds_def)
qed

lemma hc_indexOf_mem: "hc_indexOf xs x 0 \<ge> 0 \<longleftrightarrow> x \<in> set xs"
  by (auto simp: hc_indexOf_def index_of_None split: option.splits) (metis index_of_None option.distinct(1))

section \<open>Properties\<close>


definition demo_series :: jsobj where
  "demo_series = [(''id'', JStr ''series-0''), (''name'', JStr ''OP/s''), (''data'', JArr [JNum 1, JNum 2])]"


text \<open>The chart of the console is drawn as a spline of the operations per second: the options
  that are passed to Highcharts for \<open>$scope.chartOps\<close> are the defaults with the chart type
  and the element, the title and both axes of the console; no handler is installed, since
  no axis has a current range.\<close>

lemma console_chart_options:
  "getMergedOptions element (chart_ops overview_init) =
    ([(''chart'', JObj [(''events'', JObj []), (''useUTC'', JBool False), (''type'', JStr ''spline''), (''renderTo'', element)]),
      (''title'', JObj [(''text'', JStr ''OP/s'')]), (''subtitle'', JObj []), (''series'', JArr []),
      (''credits'', JObj []), (''plotOptions'', JObj []), (''navigator'', JObj [(''enabled'', JBool False)]),
      (''xAxis'', JObj [(''events'', JObj []), (''type'', JStr ''datetime''), (''title'', JObj [(''text'', JStr ''Time'')])]),
      (''yAxis'', JObj [(''events'', JObj []), (''title'', JObj [(''text'', JStr ''value'')])]),
      (''global'', JObj [(''useUTC'', JBool False)])], [])"
  by (simp add: getMergedOptions_def overview_init_def defaultOptions_def axisNames_def merge_axis_def override_def
      set_size_def set_in_def or_empty_def obj_items_def truthy_def isDefined_def js_prop_def obj_get_def
      inherited_def object_proto_def Let_def)

end
