(* ===== verification/Ng_Cache.thy ===== *)
theory Ng_Cache
  imports Js
begin

text \<open>
  The caches of angular (\<open>$cacheFactory\<close>), which hold templates and responses. A cache with
  a capacity keeps its entries in a doubly linked list from the most to the least recently
  used; the entries live in a heap of links indexed by addresses. The theory refines the
  cache to a list of its pairs in the order of use. Keys are not names that objects inherit
  and the capacity is a natural number.
\<close>

section \<open>The cache\<close>

datatype cache_error = IdTaken string | NullAccess

record cache =
  c_capacity :: "nat option"
  c_size :: int
  c_stats :: "jsobj option"
  c_data :: "(string \<rightharpoonup> jsval) option"
  lruHash :: "(string \<rightharpoonup> nat) option"
  freshEnd :: "nat option"
  staleEnd :: "nat option"
  ent_key :: "nat \<Rightarrow> string"
  ent_n :: "nat \<Rightarrow> nat option"
  ent_p :: "nat \<Rightarrow> nat option"
  ent_next :: nat

text \<open>A capacity of zero is falsy and means no bound, like a missing one.\<close>

definition capacity_of :: "jsobj \<Rightarrow> nat option" where
  "capacity_of options = (case js_prop (JObj options) ''capacity'' of JNum n \<Rightarrow> if n = 0 then None else Some (nat n) | _ \<Rightarrow> None)"

definition new_cache :: "string \<Rightarrow> jsobj \<Rightarrow> cache" where
  "new_cache cacheId options = \<lparr>c_capacity = capacity_of options, c_size = 0,
     c_stats = Some (extend1 options [(''id'', JStr cacheId)]), c_data = Some Map.empty, lruHash = Some Map.empty,
     freshEnd = None, staleEnd = None, ent_key = (\<lambda>_. []), ent_n = (\<lambda>_. None), ent_p = (\<lambda>_. None), ent_next = 0\<rparr>"

definition link :: "nat option \<Rightarrow> nat option \<Rightarrow> cache \<Rightarrow> cache" where
  "link nextEntry prevEntry c = (if nextEntry = prevEntry then c
     else (let c1 = (case nextEntry of Some a \<Rightarrow> c\<lparr>ent_p := (ent_p c)(a := prevEntry)\<rparr> | None \<Rightarrow> c)
       in case prevEntry of Some b \<Rightarrow> c1\<lparr>ent_n := (ent_n c1)(b := nextEntry)\<rparr> | None \<Rightarrow> c1))"

definition refresh :: "nat \<Rightarrow> cache \<Rightarrow> cache" where
  "refresh entry c = (if Some entry = freshEnd c then c
     else (let c1 = (case staleEnd c of None \<Rightarrow> c\<lparr>staleEnd := Some entry\<rparr>
               | Some s \<Rightarrow> if s = entry then c\<lparr>staleEnd := ent_n c entry\<rparr> else c);
             c2 = link (ent_n c1 entry) (ent_p c1 entry) c1;
             c3 = link (Some entry) (freshEnd c2) c2
       in c3\<lparr>freshEnd := Some entry, ent_n := (ent_n c3)(entry := None)\<rparr>))"

text \<open>\<open>lruHash[key] || (lruHash[key] = {key: key})\<close>\<close>

definition lru_entry :: "string \<Rightarrow> (string \<rightharpoonup> nat) \<Rightarrow> cache \<Rightarrow> nat \<times> cache" where
  "lru_entry key h c = (case h key of Some a \<Rightarrow> (a, c)
     | None \<Rightarrow> (let a = ent_next c in (a, c\<lparr>ent_next := Suc a, lruHash := Some (h(key \<mapsto> a)),
         ent_key := (ent_key c)(a := key), ent_n := (ent_n c)(a := None), ent_p := (ent_p c)(a := None)\<rparr>)))"

definition cache_delete :: "string \<Rightarrow> cache \<Rightarrow> cache_error + cache" where
  "cache_delete key c = (case c_data c of None \<Rightarrow> Inl NullAccess
     | Some d \<Rightarrow> Inr (c\<lparr>c_data := Some (d(key := None)), c_size := c_size c - 1\<rparr>))"

definition unlink :: "nat \<Rightarrow> cache \<Rightarrow> cache" where
  "unlink a c =
     (let c1 = (if Some a = freshEnd c then c\<lparr>freshEnd := ent_p c a\<rparr> else c);
          c2 = (if Some a = staleEnd c1 then c1\<lparr>staleEnd := ent_n c1 a\<rparr> else c1)
      in link (ent_n c2 a) (ent_p c2 a) c2)"

definition cache_remove :: "string \<Rightarrow> cache \<Rightarrow> cache_error + cache" where
  "cache_remove key c = (case c_capacity c of None \<Rightarrow> cache_delete key c
     | Some _ \<Rightarrow> (case lruHash c of None \<Rightarrow> Inl NullAccess
       | Some h \<Rightarrow> (case h key of None \<Rightarrow> Inr c
         | Some a \<Rightarrow> cache_delete key ((unlink a c)\<lparr>lruHash := Some (h(key := None))\<rparr>))))"

definition touch :: "string \<Rightarrow> cache \<Rightarrow> cache_error + cache" where
  "touch key c = (case c_capacity c of None \<Rightarrow> Inr c
     | Some _ \<Rightarrow> (case lruHash c of None \<Rightarrow> Inl NullAccess
       | Some h \<Rightarrow> (case lru_entry key h c of (a, c1) \<Rightarrow> Inr (refresh a c1))))"

definition over_capacity :: "cache \<Rightarrow> bool" where
  "over_capacity c = (case c_capacity c of None \<Rightarrow> False | Some cap \<Rightarrow> int cap < c_size c)"

text \<open>An undefined value is refused only after its key was moved to the front.\<close>

definition cache_put :: "string \<Rightarrow> jsval \<Rightarrow> cache \<Rightarrow> cache_error + cache \<times> jsval" where
  "cache_put key value c = (case touch key c of Inl e \<Rightarrow> Inl e
     | Inr c1 \<Rightarrow> (if value = JUndef then Inr (c1, JUndef)
       else (case c_data c1 of None \<Rightarrow> Inl NullAccess
         | Some d \<Rightarrow> (let c2 = c1\<lparr>c_size := (if d key = None then c_size c1 + 1 else c_size c1), c_data := Some (d(key \<mapsto> value))\<rparr>
           in if over_capacity c2
              then (case staleEnd c2 of None \<Rightarrow> Inl NullAccess
                | Some s \<Rightarrow> (case cache_remove (ent_key c2 s) c2 of Inl e \<Rightarrow> Inl e | Inr c3 \<Rightarrow> Inr (c3, value)))
              else Inr (c2, value)))))"

definition data_get :: "string \<Rightarrow> cache \<Rightarrow> cache_error + cache \<times> jsval" where
  "data_get key c = (case c_data c of None \<Rightarrow> Inl NullAccess
     | Some d \<Rightarrow> Inr (c, case d key of Some v \<Rightarrow> v | None \<Rightarrow> JUndef))"

definition cache_get :: "string \<Rightarrow> cache \<Rightarrow> cache_error + cache \<times> jsval" where
  "cache_get key c = (case c_capacity c of None \<Rightarrow> data_get key c
     | Some _ \<Rightarrow> (case lruHash c of None \<Rightarrow> Inl NullAccess
       | Some h \<Rightarrow> (case h key of None \<Rightarrow> Inr (c, JUndef) | Some a \<Rightarrow> data_get key (refresh a c))))"

definition cache_removeAll :: "cache \<Rightarrow> cache" where
  "cache_removeAll c = c\<lparr>c_data := Some Map.empty, c_size := 0, lruHash := Some Map.empty, freshEnd := None, staleEnd := None\<rparr>"

definition cache_destroy :: "cache \<Rightarrow> cache" where
  "cache_destroy c = c\<lparr>c_data := None, c_stats := None, lruHash := None\<rparr>"

definition cache_info :: "cache \<Rightarrow> jsobj" where
  "cache_info c = extend1 (extend1 [] (case c_stats c of Some s \<Rightarrow> s | None \<Rightarrow> [])) [(''size'', JNum (c_size c))]"

section \<open>The factory\<close>

text \<open>A destroyed cache leaves the registry but stays usable by those who hold it.\<close>

record cache_factory =
  f_store :: "cache list"
  f_caches :: "string \<rightharpoonup> nat"

definition cacheFactory :: "string \<Rightarrow> jsobj \<Rightarrow> cache_factory \<Rightarrow> cache_error + cache_factory \<times> nat" where
  "cacheFactory cacheId options f = (if cacheId \<in> dom (f_caches f) then Inl (IdTaken cacheId)
     else Inr (f\<lparr>f_store := f_store f @ [new_cache cacheId options],
       f_caches := (f_caches f)(cacheId \<mapsto> length (f_store f))\<rparr>, length (f_store f)))"

definition factory_get :: "string \<Rightarrow> cache_factory \<Rightarrow> nat option" where
  "factory_get cacheId f = f_caches f cacheId"

definition factory_destroy :: "string \<Rightarrow> nat \<Rightarrow> cache_factory \<Rightarrow> cache_factory" where
  "factory_destroy cacheId i f = f\<lparr>f_store := (f_store f)[i := cache_destroy (f_store f ! i)],
     f_caches := (f_caches f)(cacheId := None)\<rparr>"

definition factory_info :: "string list \<Rightarrow> cache_factory \<Rightarrow> jsobj" where
  "factory_info ids f = fold (\<lambda>i info. case f_caches f i of
     Some c \<Rightarrow> obj_put i (JObj (cache_info (f_store f ! c))) info | None \<Rightarrow> info) ids []"

section \<open>Operations\<close>

datatype cache_op = Put string jsval | Get string | Remove string | RemoveAll | Info

fun cache_step :: "cache_op \<Rightarrow> cache \<Rightarrow> cache_error + cache \<times> jsval" where
  "cache_step (Put k v) c = cache_put k v c"
| "cache_step (Get k) c = cache_get k c"
| "cache_step (Remove k) c = (case cache_remove k c of Inl e \<Rightarrow> Inl e | Inr c' \<Rightarrow> Inr (c', JUndef))"
| "cache_step RemoveAll c = Inr (cache_removeAll c, JUndef)"
| "cache_step Info c = Inr (c, JObj (cache_info c))"

fun cache_run :: "cache_op list \<Rightarrow> cache \<Rightarrow> cache_error + cache \<times> jsval list" where
  "cache_run [] c = Inr (c, [])"
| "cache_run (x # xs) c = (case cache_step x c of Inl e \<Rightarrow> Inl e
     | Inr (c1, r) \<Rightarrow> (case cache_run xs c1 of Inl e \<Rightarrow> Inl e | Inr (c2, rs) \<Rightarrow> Inr (c2, r # rs)))"

section \<open>The specification\<close>

text \<open>A cache of capacity \<open>cap\<close> is the list of its pairs, the most recently used first, at most
  \<open>cap\<close> of them.\<close>

definition drop_key :: "string \<Rightarrow> jsobj \<Rightarrow> jsobj" where
  "drop_key k l = filter (\<lambda>p. fst p \<noteq> k) l"

fun spec_step :: "nat \<Rightarrow> jsobj \<Rightarrow> cache_op \<Rightarrow> jsobj \<Rightarrow> jsobj \<times> jsval" where
  "spec_step cap stats (Put k v) l = (take cap ((k, v) # drop_key k l), v)"
| "spec_step cap stats (Get k) l = (case map_of l k of None \<Rightarrow> (l, JUndef) | Some v \<Rightarrow> ((k, v) # drop_key k l, v))"
| "spec_step cap stats (Remove k) l = (drop_key k l, JUndef)"
| "spec_step cap stats RemoveAll l = ([], JUndef)"
| "spec_step cap stats Info l = (l, JObj (extend1 (extend1 [] stats) [(''size'', JNum (int (length l)))]))"

fun spec_run :: "nat \<Rightarrow> jsobj \<Rightarrow> cache_op list \<Rightarrow> jsobj \<Rightarrow> jsobj \<times> jsval list" where
  "spec_run cap stats [] l = (l, [])"
| "spec_run cap stats (x # xs) l = (case spec_step cap stats x l of (l1, r) \<Rightarrow>
     (case spec_run cap stats xs l1 of (l2, rs) \<Rightarrow> (l2, r # rs)))"

definition sound_op :: "cache_op \<Rightarrow> bool" where
  "sound_op x = (case x of Put k v \<Rightarrow> v \<noteq> JUndef | _ \<Rightarrow> True)"

section \<open>The linked list\<close>

definition head_or :: "'a list \<Rightarrow> 'a option \<Rightarrow> 'a option" where
  "head_or as z = (case as of [] \<Rightarrow> z | a # _ \<Rightarrow> Some a)"

definition last_or :: "'a option \<Rightarrow> 'a list \<Rightarrow> 'a option" where
  "last_or w as = (if as = [] then w else Some (last as))"

lemma head_or_simps [simp]: "head_or [] z = z" "head_or (a # as) z = Some a"
  by (simp_all add: head_or_def)

lemma last_or_simps [simp]: "last_or w [] = w" "last_or w (a # as) = last_or (Some a) as" "last_or w (as @ [a]) = Some a"
  by (simp_all add: last_or_def)

lemma head_or_append: "head_or (xs @ ys) z = head_or xs (head_or ys z)"
  by (cases xs) auto

lemma last_or_append: "last_or w (xs @ ys) = last_or (last_or w xs) ys"
  by (induction xs arbitrary: w) auto

lemma last_or_mem: "as \<noteq> [] \<Longrightarrow> \<exists>b\<in>set as. last_or w as = Some b"
  by (auto simp: last_or_def)

fun dll :: "(nat \<Rightarrow> nat option) \<Rightarrow> (nat \<Rightarrow> nat option) \<Rightarrow> nat option \<Rightarrow> nat list \<Rightarrow> nat option \<Rightarrow> bool" where
  "dll n p w [] z = True"
| "dll n p w (a # as) z = (n a = w \<and> p a = head_or as z \<and> dll n p (Some a) as z)"

lemma dll_append: "dll n p w (xs @ ys) z \<longleftrightarrow> dll n p w xs (head_or ys z) \<and> dll n p (last_or w xs) ys z"
  by (induction xs arbitrary: w) (auto simp: head_or_append)

lemma dll_cong: "\<forall>a\<in>set as. n' a = n a \<and> p' a = p a \<Longrightarrow> dll n' p' w as z = dll n p w as z"
  by (induction as arbitrary: w) auto

lemma dll_set_head: "dll n p w (a # as) z \<Longrightarrow> a \<notin> set as \<Longrightarrow> dll (n(a := w')) p w' (a # as) z"
  using dll_cong [of as "n(a := w')" n p p "Some a" z] by auto

lemma dll_set_last: "dll n p w (as @ [a]) z \<Longrightarrow> a \<notin> set as \<Longrightarrow> dll n (p(a := z')) w (as @ [a]) z'"
  using dll_cong [of as n n "p(a := z')" p w "Some a"] by (auto simp: dll_append)

lemma link_fields:
  "ent_n (link x y c) = (if x = y then ent_n c else case y of None \<Rightarrow> ent_n c | Some b \<Rightarrow> (ent_n c)(b := x))"
  "ent_p (link x y c) = (if x = y then ent_p c else case x of None \<Rightarrow> ent_p c | Some a \<Rightarrow> (ent_p c)(a := y))"
  by (simp_all add: link_def Let_def split: option.splits)

lemma link_frame [simp]:
  "c_capacity (link x y c) = c_capacity c" "c_size (link x y c) = c_size c" "c_stats (link x y c) = c_stats c"
  "c_data (link x y c) = c_data c" "lruHash (link x y c) = lruHash c" "freshEnd (link x y c) = freshEnd c"
  "staleEnd (link x y c) = staleEnd c" "ent_key (link x y c) = ent_key c" "ent_next (link x y c) = ent_next c"
  by (simp_all add: link_def Let_def split: option.splits)

text \<open>Linking the end of one segment to the start of another joins them.\<close>

lemma link_joins:
  assumes d: "distinct (xs @ ys)" and x: "dll (ent_n c) (ent_p c) w xs z" and y: "dll (ent_n c) (ent_p c) v ys None"
    and w: "xs = [] \<Longrightarrow> w = None"
  shows "dll (ent_n (link (last_or None xs) (head_or ys None) c)) (ent_p (link (last_or None xs) (head_or ys None) c)) w (xs @ ys) None"
proof -
  let ?l = "last_or None xs" and ?h = "head_or ys None"
  let ?n = "ent_n (link ?l ?h c)" and ?p = "ent_p (link ?l ?h c)"
  have ne: "?l \<noteq> ?h" if "xs \<noteq> [] \<or> ys \<noteq> []"
    using that d last_or_mem [of xs None] by (cases ys; cases "xs = []") auto
  have "dll ?n ?p w xs ?h"
  proof (cases xs rule: rev_cases)
    case (snoc as a)
    then have eq: "?n b = ent_n c b \<and> ?p b = ((ent_p c)(a := ?h)) b" if "b \<in> set xs" for b
      using ne d that by (cases ys) (auto simp: link_fields)
    have "dll (ent_n c) ((ent_p c)(a := ?h)) w xs ?h"
      using x d snoc dll_set_last [of "ent_n c" "ent_p c" w as a z ?h] by simp
    then show ?thesis using dll_cong [of xs ?n "ent_n c" ?p "(ent_p c)(a := ?h)" w ?h] eq by blast
  qed simp
  moreover have "dll ?n ?p (last_or w xs) ys None"
  proof (cases ys)
    case (Cons b bs)
    then have eq: "?n a = ((ent_n c)(b := ?l)) a \<and> ?p a = ent_p c a" if "a \<in> set ys" for a
      using ne d that last_or_mem [of xs None] by (cases "xs = []") (auto simp: link_fields)
    have "dll ((ent_n c)(b := ?l)) (ent_p c) ?l ys None"
      using y d Cons dll_set_head [of "ent_n c" "ent_p c" v b bs None ?l] by simp
    then have "dll ?n ?p ?l ys None" using dll_cong [of ys ?n "(ent_n c)(b := ?l)" ?p "ent_p c" ?l None] eq by blast
    moreover have "last_or w xs = ?l" using w by (cases xs) auto
    ultimately show ?thesis by simp
  qed simp
  ultimately show ?thesis by (simp add: dll_append)
qed

definition lru_links :: "cache \<Rightarrow> nat list \<Rightarrow> bool" where
  "lru_links c as = (distinct as \<and> (\<forall>a\<in>set as. a < ent_next c) \<and> dll (ent_n c) (ent_p c) None as None \<and>
     freshEnd c = head_or as None \<and> staleEnd c = last_or None as)"

text \<open>Where an entry is in the list is where its links point to.\<close>

lemma lru_links_at:
  assumes "lru_links c (xs @ a # ys)"
  shows "ent_n c a = last_or None xs" "ent_p c a = head_or ys None"
    "Some a = freshEnd c \<longleftrightarrow> xs = []" "Some a = staleEnd c \<longleftrightarrow> ys = []"
proof -
  show "ent_n c a = last_or None xs" "ent_p c a = head_or ys None"
    using assms by (simp_all add: lru_links_def dll_append)
  show "Some a = freshEnd c \<longleftrightarrow> xs = []"
    using assms by (cases xs) (auto simp: lru_links_def)
  have "staleEnd c = last_or (Some a) ys" "a \<notin> set ys"
    using assms by (simp_all add: lru_links_def last_or_append)
  then show "Some a = staleEnd c \<longleftrightarrow> ys = []"
    using last_or_mem [of ys "Some a"] by (cases "ys = []") auto
qed

lemma unlink_links:
  assumes "lru_links c (xs @ a # ys)"
  shows "lru_links (unlink a c) (xs @ ys)"
proof -
  note at = lru_links_at [OF assms]
  let ?c1 = "if Some a = freshEnd c then c\<lparr>freshEnd := ent_p c a\<rparr> else c"
  let ?c2 = "if Some a = staleEnd ?c1 then ?c1\<lparr>staleEnd := ent_n ?c1 a\<rparr> else ?c1"
  have c2: "ent_n ?c2 = ent_n c" "ent_p ?c2 = ent_p c" "ent_next ?c2 = ent_next c" by simp_all
  have ends: "freshEnd ?c2 = head_or (xs @ ys) None" "staleEnd ?c2 = last_or None (xs @ ys)"
  proof -
    have f: "freshEnd ?c2 = (if Some a = freshEnd c then ent_p c a else freshEnd c)" by simp
    show "freshEnd ?c2 = head_or (xs @ ys) None"
      unfolding f at(3) using assms at(2) by (cases xs) (simp_all add: lru_links_def)
    have t: "staleEnd ?c2 = (if Some a = staleEnd c then ent_n c a else staleEnd c)" by simp
    show "staleEnd ?c2 = last_or None (xs @ ys)"
      unfolding t at(4) using assms at(1) by (cases ys) (simp_all add: lru_links_def last_or_append)
  qed
  have d: "dll (ent_n c) (ent_p c) None xs (Some a)" "dll (ent_n c) (ent_p c) (Some a) ys None" "distinct (xs @ ys)"
    using assms by (auto simp: lru_links_def dll_append)
  have "dll (ent_n (link (last_or None xs) (head_or ys None) ?c2)) (ent_p (link (last_or None xs) (head_or ys None) ?c2)) None (xs @ ys) None"
    by (rule link_joins [where z = "Some a" and v = "Some a"]) (use d c2 in simp_all)
  moreover have "unlink a c = link (last_or None xs) (head_or ys None) ?c2"
    using at(1,2) by (simp add: unlink_def Let_def)
  ultimately show ?thesis using assms ends by (auto simp: lru_links_def)
qed

text \<open>Moving an entry to the front: of the list it is in, or of a list it is not in.\<close>

lemma refresh_frame [simp]:
  "c_capacity (refresh a c) = c_capacity c" "c_size (refresh a c) = c_size c" "c_stats (refresh a c) = c_stats c"
  "c_data (refresh a c) = c_data c" "lruHash (refresh a c) = lruHash c" "ent_key (refresh a c) = ent_key c"
  "ent_next (refresh a c) = ent_next c"
  by (simp_all add: refresh_def Let_def split: option.splits)

lemma unlink_frame [simp]:
  "c_capacity (unlink a c) = c_capacity c" "c_size (unlink a c) = c_size c" "c_stats (unlink a c) = c_stats c"
  "c_data (unlink a c) = c_data c" "lruHash (unlink a c) = lruHash c" "ent_key (unlink a c) = ent_key c"
  "ent_next (unlink a c) = ent_next c"
  by (simp_all add: unlink_def Let_def)

lemma push_front:
  assumes l: "lru_links c as" "a \<notin> set as" "a < ent_next c" and e: "staleEnd c1 = last_or (Some a) as"
    and c1: "ent_n c1 = ent_n c" "ent_p c1 = ent_p c" "ent_next c1 = ent_next c" "freshEnd c1 = f" and f: "head_or as None = f"
  shows "lru_links ((link (Some a) f c1)\<lparr>freshEnd := Some a, ent_n := (ent_n (link (Some a) f c1))(a := None)\<rparr>) (a # as)"
proof -
  let ?c3 = "link (last_or None [a]) (head_or as None) c1"
  have "dll (ent_n ?c3) (ent_p ?c3) (ent_n c a) ([a] @ as) None"
    by (rule link_joins [where z = "ent_p c a" and v = None]) (use l c1 in \<open>simp_all add: lru_links_def head_or_def\<close>)
  then have "dll ((ent_n ?c3)(a := None)) (ent_p ?c3) None (a # as) None"
    using dll_set_head [of "ent_n ?c3" "ent_p ?c3" "ent_n c a" a as None None] l(2) by simp
  with l e c1 f show ?thesis by (simp add: lru_links_def)
qed

lemma refresh_links:
  assumes "lru_links c (xs @ a # ys)"
  shows "lru_links (refresh a c) (a # xs @ ys)"
proof (cases "xs = []")
  case True
  then have "refresh a c = c" using lru_links_at(3) [OF assms] by (simp add: refresh_def)
  with True assms show ?thesis by simp
next
  case False
  then have f: "Some a \<noteq> freshEnd c" using lru_links_at(3) [OF assms] by simp
  obtain s where s: "staleEnd c = Some s"
    using assms last_or_mem [of "xs @ a # ys" None] by (auto simp: lru_links_def)
  have r: "refresh a c = (let c2 = unlink a c; c3 = link (Some a) (freshEnd c2) c2
      in c3\<lparr>freshEnd := Some a, ent_n := (ent_n c3)(a := None)\<rparr>)"
    using f s by (simp add: refresh_def unlink_def Let_def)
  let ?c2 = "unlink a c"
  have l: "lru_links ?c2 (xs @ ys)" by (rule unlink_links [OF assms])
  have "staleEnd ?c2 = last_or (Some a) (xs @ ys)" using l False by (simp add: lru_links_def last_or_def)
  moreover have "a \<notin> set (xs @ ys)" "a < ent_next ?c2" using assms by (auto simp: lru_links_def)
  moreover have "head_or (xs @ ys) None = freshEnd ?c2" using l by (simp add: lru_links_def)
  ultimately show ?thesis using push_front [OF l] by (simp add: r Let_def)
qed

lemma refresh_new:
  assumes l: "lru_links c as" "a \<notin> set as" "a < ent_next c" and a: "ent_n c a = None" "ent_p c a = None"
  shows "lru_links (refresh a c) (a # as)"
proof -
  have f: "Some a \<noteq> freshEnd c" using l(1,2) by (cases as) (auto simp: lru_links_def)
  define c1 where "c1 = (case staleEnd c of None \<Rightarrow> c\<lparr>staleEnd := Some a\<rparr>
      | Some s \<Rightarrow> if s = a then c\<lparr>staleEnd := ent_n c a\<rparr> else c)"
  have stale: "staleEnd c = last_or None as" using l(1) by (simp add: lru_links_def)
  have "staleEnd c1 = last_or (Some a) as"
    using stale l(2) last_or_mem [of as None] by (cases "as = []") (auto simp: c1_def last_or_def)
  moreover have c1: "ent_n c1 = ent_n c" "ent_p c1 = ent_p c" "ent_next c1 = ent_next c" "freshEnd c1 = freshEnd c"
    by (simp_all add: c1_def split: option.splits)
  moreover have "refresh a c = (link (Some a) (freshEnd c) c1)\<lparr>freshEnd := Some a,
      ent_n := (ent_n (link (Some a) (freshEnd c) c1))(a := None)\<rparr>"
    using f a c1 by (simp add: refresh_def Let_def link_def [of None None] flip: c1_def)
  ultimately show ?thesis using push_front [OF l, of c1] l(1) by (simp add: lru_links_def)
qed

section \<open>Refinement\<close>

text \<open>The cache holds the pairs of \<open>l\<close>, their entries linked in the same order.\<close>

definition lru_holds :: "cache \<Rightarrow> nat list \<Rightarrow> jsobj \<Rightarrow> bool" where
  "lru_holds c as l = (lru_links c as \<and> map (ent_key c) as = map fst l \<and> distinct (map fst l) \<and>
     (\<exists>h. lruHash c = Some h \<and> dom h = fst ` set l \<and> (\<forall>a\<in>set as. h (ent_key c a) = Some a)) \<and> c_data c = Some (map_of l) \<and> c_size c = int (length l))"

definition lru_rep :: "nat \<Rightarrow> jsobj \<Rightarrow> cache \<Rightarrow> jsobj \<Rightarrow> bool" where
  "lru_rep cap stats c l = ((\<exists>as. lru_holds c as l) \<and> c_capacity c = Some cap \<and> c_stats c = Some stats \<and> length l \<le> cap)"

lemma lru_holds_length: "lru_holds c as l \<Longrightarrow> length as = length l"
  by (auto simp: lru_holds_def dest: map_eq_imp_length_eq)

text \<open>A list of pairs around one of its keys.\<close>

lemma split_key:
  assumes "map_of l k = Some v" "distinct (map fst l)"
  shows "\<exists>l1 l2. l = l1 @ (k, v) # l2 \<and> k \<notin> fst ` set l1 \<and> k \<notin> fst ` set l2"
proof -
  have "(k, v) \<in> set l" using assms(1) by (rule map_of_SomeD)
  then obtain l1 l2 where "l = l1 @ (k, v) # l2" by (auto dest: split_list)
  moreover from this assms(2) have "k \<notin> fst ` set l1" "k \<notin> fst ` set l2" by auto
  ultimately show ?thesis by blast
qed

lemma drop_key_absent: "k \<notin> fst ` set l \<Longrightarrow> drop_key k l = l"
  by (induction l) (auto simp: drop_key_def)

lemma drop_key_split: "k \<notin> fst ` set l1 \<Longrightarrow> k \<notin> fst ` set l2 \<Longrightarrow> drop_key k (l1 @ (k, v) # l2) = l1 @ l2"
  using drop_key_absent [of k l1] drop_key_absent [of k l2] by (simp add: drop_key_def)

text \<open>The entry of a key is at its place.\<close>

lemma lru_holds_split:
  assumes "lru_holds c as (l1 @ (k, v) # l2)"
  shows "\<exists>xs a ys. as = xs @ a # ys \<and> length xs = length l1 \<and> length ys = length l2 \<and> ent_key c a = k \<and>
    (\<exists>h. lruHash c = Some h \<and> h k = Some a)"
proof -
  have len: "length as = length (l1 @ (k, v) # l2)" by (rule lru_holds_length [OF assms])
  define xs a ys where "xs = take (length l1) as" "a = as ! length l1" "ys = drop (Suc (length l1)) as"
  have as: "as = xs @ a # ys" using len by (simp add: xs_a_ys_def id_take_nth_drop)
  have l: "length xs = length l1" "length ys = length l2" using len by (simp_all add: xs_a_ys_def)
  have k: "map (ent_key c) (xs @ a # ys) = map fst l1 @ k # map fst l2" using assms as by (simp add: lru_holds_def)
  then have "map (ent_key c) (a # ys) = k # map fst l2" using l by simp
  then have "ent_key c a = k" by simp
  with as l assms show ?thesis by (fastforce simp: lru_holds_def)
qed

text \<open>Touching a key that is in the list moves its pair to the front, a new key gets an entry there.\<close>

lemma refresh_holds:
  assumes "lru_holds c as l" "map_of l k = Some v"
  shows "\<exists>a as'. (\<exists>h. lruHash c = Some h \<and> h k = Some a) \<and> lru_holds (refresh a c) as' ((k, v) # drop_key k l)"
proof -
  obtain l1 l2 where l: "l = l1 @ (k, v) # l2" "k \<notin> fst ` set l1" "k \<notin> fst ` set l2"
    using split_key [OF assms(2)] assms(1) by (auto simp: lru_holds_def)
  with lru_holds_split [of c as l1 k v l2] assms(1) obtain xs a ys h
    where as: "as = xs @ a # ys" "length xs = length l1" "length ys = length l2" "ent_key c a = k" "lruHash c = Some h" "h k = Some a"
    by auto
  have "map (ent_key c) xs = map fst l1" "map (ent_key c) ys = map fst l2"
    using assms(1) l(1) as by (auto simp: lru_holds_def)
  moreover have "map_of l = map_of ((k, v) # l1 @ l2)"
  proof
    fix j
    have "map_of l1 k = None" using l(2) by (simp add: map_of_eq_None_iff)
    then show "map_of l j = map_of ((k, v) # l1 @ l2) j" by (auto simp: l(1) map_add_def split: option.splits)
  qed
  moreover have "lru_links (refresh a c) (a # xs @ ys)" using refresh_links assms(1) as(1) by (auto simp: lru_holds_def)
  ultimately have "lru_holds (refresh a c) (a # xs @ ys) ((k, v) # l1 @ l2)"
    using assms(1) as l by (auto simp: lru_holds_def)
  with as l drop_key_split [of k l1 l2 v] show ?thesis by auto
qed

lemma touch_new:
  assumes h: "lru_holds c as l" and k: "k \<notin> fst ` set l" and cap: "c_capacity c = Some cap"
  shows "\<exists>c1 as'. touch k c = Inr c1 \<and> c_data c1 = c_data c \<and> c_size c1 = c_size c \<and> c_capacity c1 = c_capacity c \<and>
    c_stats c1 = c_stats c \<and>
    lru_holds (c1\<lparr>c_size := c_size c + 1, c_data := Some ((map_of l)(k \<mapsto> v))\<rparr>) as' ((k, v) # l)"
proof -
  obtain m where m: "lruHash c = Some m" "dom m = fst ` set l" "\<forall>a\<in>set as. m (ent_key c a) = Some a"
    using h by (auto simp: lru_holds_def)
  let ?a = "ent_next c"
  let ?c1 = "c\<lparr>ent_next := Suc ?a, lruHash := Some (m(k \<mapsto> ?a)), ent_key := (ent_key c)(?a := k),
    ent_n := (ent_n c)(?a := None), ent_p := (ent_p c)(?a := None)\<rparr>"
  have mk: "m k = None" using k m(2) by blast
  have new: "?a \<notin> set as" using h by (auto simp: lru_holds_def lru_links_def)
  have "dll ((ent_n c)(?a := None)) ((ent_p c)(?a := None)) None as None"
    using dll_cong [of as "(ent_n c)(?a := None)" "ent_n c" "(ent_p c)(?a := None)" "ent_p c" None None] new h
    by (auto simp: lru_holds_def lru_links_def)
  with h have "lru_links ?c1 as" by (auto simp: lru_holds_def lru_links_def)
  with new have "lru_links (refresh ?a ?c1) (?a # as)" by (intro refresh_new) auto
  then have links: "lru_links ((refresh ?a ?c1)\<lparr>c_size := c_size c + 1, c_data := Some ((map_of l)(k \<mapsto> v))\<rparr>) (?a # as)"
    by (simp add: lru_links_def)
  have t: "touch k c = Inr (refresh ?a ?c1)" using m(1) mk cap by (simp add: touch_def lru_entry_def Let_def)
  have old: "ent_key c b \<noteq> k" if "b \<in> set as" for b
    using m(3) mk that by auto
  have keys: "map ((ent_key c)(?a := k)) as = map fst l" using h new by (auto simp: lru_holds_def)
  have "lru_holds ((refresh ?a ?c1)\<lparr>c_size := c_size c + 1, c_data := Some ((map_of l)(k \<mapsto> v))\<rparr>) (?a # as) ((k, v) # l)"
    using links keys h k m old new by (auto simp: lru_holds_def)
  with t show ?thesis by (intro exI [of _ "refresh ?a ?c1"] exI [of _ "?a # as"]) simp
qed

lemma remove_holds:
  assumes h: "lru_holds c as l" and cap: "c_capacity c = Some cap"
  shows "\<exists>c' as'. cache_remove k c = Inr c' \<and> c_capacity c' = c_capacity c \<and> c_stats c' = c_stats c \<and>
    lru_holds c' as' (drop_key k l)"
proof (cases "map_of l k")
  case None
  then have k: "k \<notin> fst ` set l" by (simp add: map_of_eq_None_iff)
  obtain m where "lruHash c = Some m" "dom m = fst ` set l" using h by (auto simp: lru_holds_def)
  moreover from this k have "m k = None" by blast
  ultimately have "cache_remove k c = Inr c" using cap by (simp add: cache_remove_def)
  with h show ?thesis by (auto simp: drop_key_absent [OF k])
next
  case (Some v)
  then obtain l1 l2 where l: "l = l1 @ (k, v) # l2" "k \<notin> fst ` set l1" "k \<notin> fst ` set l2"
    using split_key [OF Some] h by (auto simp: lru_holds_def)
  with lru_holds_split [of c as l1 k v l2] h obtain xs a ys m
    where as: "as = xs @ a # ys" "length xs = length l1" "length ys = length l2" "ent_key c a = k" "lruHash c = Some m" "m k = Some a"
    by auto
  have m: "dom m = fst ` set l" "\<forall>b\<in>set as. m (ent_key c b) = Some b" using h as(5) by (auto simp: lru_holds_def)
  let ?c = "(unlink a c)\<lparr>lruHash := Some (m(k := None))\<rparr>"
  let ?c' = "?c\<lparr>c_data := Some ((map_of l)(k := None)), c_size := c_size c - 1\<rparr>"
  have r: "cache_remove k c = Inr ?c'"
    using cap as(5,6) h by (simp add: cache_remove_def cache_delete_def lru_holds_def)
  have "map (ent_key c) xs = map fst l1" "map (ent_key c) ys = map fst l2"
    using h l(1) as by (auto simp: lru_holds_def)
  moreover have "(map_of l)(k := None) = map_of (l1 @ l2)"
    unfolding drop_key_split [OF l(2,3), of v, folded l(1), symmetric]
    by (simp add: fun_eq_iff map_of_filter_neq drop_key_def)
  moreover have "lru_links ?c' (xs @ ys)"
    using unlink_links [of c xs a ys] h as(1) by (simp add: lru_holds_def lru_links_def)
  moreover have "ent_key c b \<noteq> k" if "b \<in> set (xs @ ys)" for b
  proof -
    have "b \<noteq> a" using h as(1) that by (auto simp: lru_holds_def lru_links_def)
    moreover have "m (ent_key c b) = Some b" using m(2) as(1) that by auto
    ultimately show ?thesis using as(6) by auto
  qed
  moreover have "dom (m(k := None)) = fst ` set (l1 @ l2)" using m(1) l by auto
  ultimately have "lru_holds ?c' (xs @ ys) (l1 @ l2)"
    using h as l m by (auto simp: lru_holds_def)
  with r drop_key_split [OF l(2,3), of v] l(1) show ?thesis by (intro exI [of _ ?c'] exI [of _ "xs @ ys"]) simp
qed

lemma length_drop_key: "length (drop_key k l) \<le> length l"
  by (simp add: drop_key_def)

lemma drop_last_key:
  assumes "distinct (map fst (l @ [(k, v)]))"
  shows "drop_key k (l @ [(k, v)]) = l"
  using assms drop_key_split [of k l "[]" v] by simp

lemma put_old:
  assumes "lru_holds c as l" "map_of l k = Some u" "c_capacity c = Some cap"
  shows "\<exists>c1 as'. touch k c = Inr c1 \<and> c_data c1 = Some (map_of l) \<and> c_size c1 = c_size c \<and> c_capacity c1 = c_capacity c \<and>
    c_stats c1 = c_stats c \<and>
    lru_holds (c1\<lparr>c_size := c_size c, c_data := Some ((map_of l)(k \<mapsto> v))\<rparr>) as' ((k, v) # drop_key k l)"
proof -
  obtain a as' h where a: "lruHash c = Some h" "h k = Some a" "lru_holds (refresh a c) as' ((k, u) # drop_key k l)"
    using refresh_holds [OF assms(1,2)] by blast
  have t: "touch k c = Inr (refresh a c)" using a(1,2) assms(3) by (simp add: touch_def lru_entry_def)
  have "(map_of l)(k \<mapsto> v) = map_of ((k, v) # drop_key k l)"
    by (auto simp: fun_eq_iff drop_key_def map_of_filter_neq)
  with a(3) have "lru_holds ((refresh a c)\<lparr>c_size := c_size c, c_data := Some ((map_of l)(k \<mapsto> v))\<rparr>) as' ((k, v) # drop_key k l)"
    by (simp add: lru_holds_def lru_links_def)
  moreover have "c_data c = Some (map_of l)" using assms(1) by (simp add: lru_holds_def)
  ultimately show ?thesis using t by (intro exI [of _ "refresh a c"] exI [of _ as']) simp
qed

text \<open>The entry of the least recently used pair is the stale end, so a full cache drops it.\<close>

lemma evict:
  assumes h: "lru_holds c as l" and l: "length l = Suc cap" and cap: "c_capacity c = Some cap"
  shows "\<exists>s c'. staleEnd c = Some s \<and> cache_remove (ent_key c s) c = Inr c' \<and> c_capacity c' = c_capacity c \<and>
    c_stats c' = c_stats c \<and> (\<exists>as'. lru_holds c' as' (take cap l))"
proof -
  obtain l' k v where kv: "l = l' @ [(k, v)]" using l by (cases l rule: rev_cases) auto
  obtain as' s where as: "as = as' @ [s]" using lru_holds_length [OF h] l by (cases as rule: rev_cases) auto
  have "ent_key c s = k" using h as kv by (simp add: lru_holds_def)
  moreover have "staleEnd c = Some s" using h as by (simp add: lru_holds_def lru_links_def)
  moreover have "drop_key k l = take cap l" using drop_last_key [of l' k v] h kv l by (simp add: lru_holds_def)
  ultimately show ?thesis using remove_holds [OF h cap, of k] by auto
qed

lemma put_rep:
  assumes r: "lru_rep cap stats c l" and v: "v \<noteq> JUndef" and pos: "0 < cap"
  shows "\<exists>c'. cache_put k v c = Inr (c', v) \<and> lru_rep cap stats c' (take cap ((k, v) # drop_key k l))"
proof -
  obtain as where h: "lru_holds c as l" and c: "c_capacity c = Some cap" "c_stats c = Some stats" "length l \<le> cap"
    using r by (auto simp: lru_rep_def)
  obtain c1 as' where t: "touch k c = Inr c1" "c_data c1 = Some (map_of l)" "c_capacity c1 = Some cap" "c_stats c1 = Some stats"
      "c_size c1 = c_size c" and h2: "lru_holds (c1\<lparr>c_size := (if map_of l k = None then c_size c + 1 else c_size c),
        c_data := Some ((map_of l)(k \<mapsto> v))\<rparr>) as' ((k, v) # drop_key k l)"
  proof (cases "map_of l k")
    case None
    then have k: "k \<notin> fst ` set l" by (simp add: map_of_eq_None_iff)
    have d: "c_data c = Some (map_of l)" using h by (simp add: lru_holds_def)
    obtain c1 as' where "touch k c = Inr c1 \<and> c_data c1 = c_data c \<and> c_size c1 = c_size c \<and> c_capacity c1 = c_capacity c \<and>
        c_stats c1 = c_stats c \<and> lru_holds (c1\<lparr>c_size := c_size c + 1, c_data := Some ((map_of l)(k \<mapsto> v))\<rparr>) as' ((k, v) # l)"
      using touch_new [OF h k c(1), of v] by blast
    then show ?thesis using that [of c1 as'] None d c by (simp add: drop_key_absent [OF k])
  next
    case (Some u)
    then show ?thesis using that put_old [OF h Some c(1), of v] c by auto
  qed
  define c2 where "c2 = c1\<lparr>c_size := (if map_of l k = None then c_size c + 1 else c_size c), c_data := Some ((map_of l)(k \<mapsto> v))\<rparr>"
  have p: "cache_put k v c = (if over_capacity c2 then (case staleEnd c2 of None \<Rightarrow> Inl NullAccess
      | Some s \<Rightarrow> (case cache_remove (ent_key c2 s) c2 of Inl e \<Rightarrow> Inl e | Inr c3 \<Rightarrow> Inr (c3, v))) else Inr (c2, v))"
  proof -
    have "c1\<lparr>c_size := (if map_of l k = None then c_size c1 + 1 else c_size c1), c_data := Some ((map_of l)(k \<mapsto> v))\<rparr> = c2"
      using t(5) by (simp add: c2_def)
    then show ?thesis by (simp only: cache_put_def t(1,2) sum.case option.case v if_False Let_def)
  qed
  have c2: "c_capacity c2 = Some cap" "c_stats c2 = Some stats" "lru_holds c2 as' ((k, v) # drop_key k l)"
    using t h2 by (simp_all add: c2_def)
  have over: "over_capacity c2 \<longleftrightarrow> cap < length ((k, v) # drop_key k l)"
    using c2(1,3) by (simp only: over_capacity_def lru_holds_def option.case of_nat_less_iff)
  show ?thesis
  proof (cases "over_capacity c2")
    case True
    then have "length ((k, v) # drop_key k l) = Suc cap" using over c(3) length_drop_key [of k l] by simp
    from evict [OF c2(3) this c2(1)] True p c2 show ?thesis by (auto simp: lru_rep_def)
  next
    case False
    then have "length ((k, v) # drop_key k l) \<le> cap" using over by simp
    then have "take cap ((k, v) # drop_key k l) = (k, v) # drop_key k l" "length ((k, v) # drop_key k l) \<le> cap" by simp_all
    with False p c2 show ?thesis by (auto simp: lru_rep_def)
  qed
qed

lemma get_rep:
  assumes r: "lru_rep cap stats c l" and pos: "0 < cap"
  shows "\<exists>c'. cache_get k c = Inr (c', snd (spec_step cap stats (Get k) l)) \<and> lru_rep cap stats c' (fst (spec_step cap stats (Get k) l))"
proof -
  obtain as where h: "lru_holds c as l" and c: "c_capacity c = Some cap" "c_stats c = Some stats" "length l \<le> cap"
    using r by (auto simp: lru_rep_def)
  show ?thesis
  proof (cases "map_of l k")
    case None
    then have k: "k \<notin> fst ` set l" by (simp add: map_of_eq_None_iff)
    obtain m where "lruHash c = Some m" "dom m = fst ` set l" using h by (auto simp: lru_holds_def)
    moreover from this k have "m k = None" by blast
    ultimately show ?thesis using None r c(1) by (simp add: cache_get_def)
  next
    case (Some v)
    obtain a as' m where a: "lruHash c = Some m" "m k = Some a" "lru_holds (refresh a c) as' ((k, v) # drop_key k l)"
      using refresh_holds [OF h Some] by blast
    have "length (drop_key k l) < length l"
      using Some by (auto simp: drop_key_def intro!: length_filter_less dest: map_of_SomeD)
    then have "lru_rep cap stats (refresh a c) ((k, v) # drop_key k l)" using a(3) c by (auto simp: lru_rep_def)
    moreover have "cache_get k c = Inr (refresh a c, v)"
      using a(1,2) c(1) h Some by (simp add: cache_get_def data_get_def lru_holds_def)
    ultimately show ?thesis using Some by simp
  qed
qed

lemma step_rep:
  assumes r: "lru_rep cap stats c l" and x: "sound_op x" and pos: "0 < cap"
  shows "\<exists>c'. cache_step x c = Inr (c', snd (spec_step cap stats x l)) \<and> lru_rep cap stats c' (fst (spec_step cap stats x l))"
proof (cases x)
  case (Put k v)
  with put_rep [OF r _ pos, of v k] x show ?thesis by (simp add: sound_op_def)
next
  case (Get k)
  with get_rep [OF r pos, of k] show ?thesis by simp
next
  case (Remove k)
  obtain as where "lru_holds c as l" "c_capacity c = Some cap" using r by (auto simp: lru_rep_def)
  from remove_holds [OF this, of k] r Remove length_drop_key [of k l] show ?thesis by (fastforce simp: lru_rep_def)
next
  case RemoveAll
  have "lru_holds (cache_removeAll c) [] []" by (simp add: lru_holds_def cache_removeAll_def lru_links_def)
  with r RemoveAll show ?thesis by (auto simp: lru_rep_def cache_removeAll_def)
next
  case Info
  with r show ?thesis by (auto simp: lru_rep_def cache_info_def lru_holds_def)
qed

lemma run_rep:
  "lru_rep cap stats c l \<Longrightarrow> \<forall>x\<in>set xs. sound_op x \<Longrightarrow> 0 < cap \<Longrightarrow>
    \<exists>c'. cache_run xs c = Inr (c', snd (spec_run cap stats xs l)) \<and> lru_rep cap stats c' (fst (spec_run cap stats xs l))"
proof (induction xs arbitrary: c l)
  case (Cons x xs)
  obtain l1 r1 where 1: "spec_step cap stats x l = (l1, r1)" by force
  obtain l2 rs where 2: "spec_run cap stats xs l1 = (l2, rs)" by force
  obtain c1 where c1: "cache_step x c = Inr (c1, r1)" "lru_rep cap stats c1 l1"
    using step_rep [OF Cons.prems(1) _ Cons.prems(3), of x] Cons.prems(2) 1 by auto
  from Cons.IH [OF c1(2)] Cons.prems(2,3) 2 obtain c2 where "cache_run xs c1 = Inr (c2, rs)" "lru_rep cap stats c2 l2" by auto
  with c1(1) 1 2 show ?case by simp
qed simp

lemma new_cache_rep:
  assumes "obj_get options ''capacity'' = Some (JNum (int cap))" "0 < cap"
  shows "lru_rep cap (extend1 options [(''id'', JStr i)]) (new_cache i options) []"
proof -
  have "capacity_of options = Some cap" using assms by (simp add: capacity_of_def js_prop_def)
  moreover have "lru_holds (new_cache i options) [] []" by (simp add: lru_holds_def new_cache_def lru_links_def)
  ultimately show ?thesis by (auto simp: lru_rep_def new_cache_def)
qed

section \<open>Properties\<close>

text \<open>C9: A cache with a capacity refines the list of its pairs in the order of use: whatever is
  put, got, removed or cleared, in any order, each operation returns what the list of at
  most \<open>capacity\<close> pairs returns that puts the used pair first and drops the last one, and
  none fails; so the doubly linked list never loses, duplicates or misplaces an entry. The
  values put are defined.\<close>

theorem lru_cache_refines_recency_list:
  assumes "obj_get options ''capacity'' = Some (JNum (int cap))" "0 < cap" "\<forall>x\<in>set ops. sound_op x"
  shows "\<exists>c. cache_run ops (new_cache cacheId options) =
    Inr (c, snd (spec_run cap (extend1 options [(''id'', JStr cacheId)]) ops []))"
  using run_rep [OF new_cache_rep [OF assms(1,2)] assms(3,2)] by blast

theorem lru_cache_refines_recency_list_witness:
  "\<exists>c. cache_run [Put ''a'' (JNum 1), Put ''b'' (JNum 2), Get ''a'', Put ''c'' (JNum 3), Get ''b'', Get ''a'']
      (new_cache ''x'' [(''capacity'', JNum 2)]) = Inr (c, [JNum 1, JNum 2, JNum 1, JNum 3, JUndef, JNum 1])"
  using lru_cache_refines_recency_list [of "[(''capacity'', JNum 2)]" 2
      "[Put ''a'' (JNum 1), Put ''b'' (JNum 2), Get ''a'', Put ''c'' (JNum 3), Get ''b'', Get ''a'']" "''x''"]
  by (simp add: obj_get_def sound_op_def drop_key_def)

text \<open>Putting an undefined value moves its key to the front of the linked list before the
  value is refused, and removing that key then counts an entry that was never stored: two
  such calls make the size of the cache negative, and from then on the cache holds more
  pairs than its capacity.\<close>

lemma undefined_put_breaks_capacity:
  "case cache_run [Put ''u'' JUndef, Remove ''u'', Info, Put ''a'' (JNum 1), Put ''b'' (JNum 2), Get ''a'', Get ''b'']
      (new_cache ''x'' [(''capacity'', JNum 1)]) of
    Inl e \<Rightarrow> False
  | Inr (c, rs) \<Rightarrow> rs = [JUndef, JUndef, JObj [(''capacity'', JNum 1), (''id'', JStr ''x''), (''size'', JNum (- 1))],
      JNum 1, JNum 2, JNum 1, JNum 2]"
  by (simp add: new_cache_def capacity_of_def js_prop_def obj_get_def cache_put_def touch_def lru_entry_def refresh_def
      link_def Let_def cache_remove_def unlink_def cache_delete_def cache_info_def over_capacity_def cache_get_def data_get_def)

end
