(* ===== verification/Ng_Lex.thy ===== *)
theory Ng_Lex
  imports Js
begin

text \<open>
  The lexer of angular's expression language (\<open>Lexer\<close> in \<open>angular.js\<close>), which reads the
  bindings of the console's templates. The text is read as bytes, so an index counts bytes;
  a number token keeps its collected text, which the code converts by \<open>1 * number\<close>. The
  last section shows that a text rendered from tokens is read back as these tokens.
\<close>

section \<open>Errors and names\<close>

datatype ng_error =
    LexError string | NotPrimary | UnexpectedToken | UnexpectedEnd | NotAssignable | ExpectedColon
  | DisallowedField string | DisallowedObject | DisallowedFunction | NoProperty | Unmodelled | NotAFunction | UnknownFilter | OutOfFuel

text \<open>What every stage returns: an error or a result.\<close>

type_synonym 'a ng = "ng_error + 'a"

definition bind_ng :: "'a ng \<Rightarrow> ('a \<Rightarrow> 'b ng) \<Rightarrow> 'b ng" where
  "bind_ng m f = (case m of Inl e \<Rightarrow> Inl e | Inr x \<Rightarrow> f x)"

lemma bind_ng_simps [simp, js_simps]: "bind_ng (Inl e) f = Inl e" "bind_ng (Inr x) f = f x"
  by (simp_all add: bind_ng_def)

lemma bind_ng_Inr: "bind_ng m f = Inr y \<longleftrightarrow> (\<exists>x. m = Inr x \<and> f x = Inr y)"
  by (cases m) auto

lemma bind_ng_Inl: "bind_ng m f = Inl e \<longleftrightarrow> m = Inl e \<or> (\<exists>x. m = Inr x \<and> f x = Inl e)"
  by (cases m) auto

definition unsafe_names :: "string list" where
  "unsafe_names = [''__defineGetter__'', ''__defineSetter__'', ''__lookupGetter__'', ''__lookupSetter__'', ''__proto__'']"

definition ensureSafeMemberName :: "string \<Rightarrow> string ng" where
  "ensureSafeMemberName name = (if name \<in> set unsafe_names then Inl (DisallowedField name) else Inr name)"

text \<open>The keys of a path, in the order in which \<open>getterFn\<close> checks them.\<close>

definition path_keys :: "string \<Rightarrow> string list" where
  "path_keys path = js_split (\<lambda>c. c = CHR ''.'') path"

fun check_keys :: "string list \<Rightarrow> unit ng" where
  "check_keys [] = Inr ()"
| "check_keys (k # ks) = bind_ng (ensureSafeMemberName k) (\<lambda>_. check_keys ks)"

section \<open>Tokens\<close>

text \<open>A token without a function (punctuation, or the name of a method), an operator, a number, a
  string with its quoted text, a constant of the operator table and an identifier path.\<close>

datatype tok = TPlain string | TOp string | TNum string | TStr string string | TConst string | TIdent string

record token =
  t_index :: nat
  t_tok :: tok

fun tok_text :: "tok \<Rightarrow> string" where
  "tok_text (TPlain s) = s"
| "tok_text (TOp s) = s"
| "tok_text (TNum s) = s"
| "tok_text (TStr raw s) = raw"
| "tok_text (TConst s) = s"
| "tok_text (TIdent s) = s"

definition OPERATORS :: "string list" where
  "OPERATORS = [''+'', ''-'', ''*'', ''/'', ''%'', ''^'', ''='', ''==='', ''!=='', ''=='', ''!='', ''<'', ''>'', ''<='',
     ''>='', ''&&'', ''||'', ''&'', ''|'', ''!'']"

definition CONSTANTS :: "string list" where
  "CONSTANTS = [''null'', ''true'', ''false'', ''undefined'']"

definition ESCAPE :: "char \<Rightarrow> char" where
  "ESCAPE c = (if c = CHR ''n'' then CHR 0x0A else if c = CHR ''f'' then CHR 0x0C else if c = CHR ''r'' then CHR 0x0D
     else if c = CHR ''t'' then CHR 0x09 else if c = CHR ''v'' then CHR 0x0B else c)"

section \<open>Characters\<close>

text \<open>Past the end of the text \<open>peek\<close> is false, which compares as the number 0.\<close>

definition isNumber :: "char option \<Rightarrow> bool" where
  "isNumber ch = (case ch of None \<Rightarrow> True | Some c \<Rightarrow> is_digit c)"

definition isIdent :: "char \<Rightarrow> bool" where
  "isIdent c = (is_alpha c \<or> c = CHR ''_'' \<or> c = CHR ''$'')"

definition isExpOperator :: "char option \<Rightarrow> bool" where
  "isExpOperator ch = (ch = Some (CHR ''-'') \<or> ch = Some (CHR ''+'') \<or> isNumber ch)"

definition lex_peek :: "string \<Rightarrow> char option" where
  "lex_peek s = (case s of [] \<Rightarrow> None | c # _ \<Rightarrow> Some c)"

text \<open>The bytes of the white space at the start of the text; the non-breaking space has two.\<close>

definition white :: "string \<Rightarrow> nat" where
  "white s = (case s of [] \<Rightarrow> 0 | c # r \<Rightarrow>
     if c \<in> {CHR '' '', CHR 0x0D, CHR 0x09, CHR 0x0A, CHR 0x0B} then 1
     else if c = CHR 0xC2 \<and> lex_peek r = Some (CHR 0xA0) then 2 else 0)"

lemma white_Nil [simp]: "white [] = 0"
  by (simp add: white_def)

function skip_white :: "string \<Rightarrow> string" where
  "skip_white s = (if white s = 0 then s else skip_white (drop (white s) s))"
  by pat_completeness auto
termination
proof (relation "measure length")
  fix s assume "white s \<noteq> 0"
  then show "(drop (white s) s, s) \<in> measure length" using white_Nil by (cases s) auto
qed simp

declare skip_white.simps [simp del]

section \<open>Numbers\<close>

definition ends_e :: "string \<Rightarrow> bool" where
  "ends_e s = (s \<noteq> [] \<and> last s = CHR ''e'')"

text \<open>Whether the loop takes the next character, stops before it or fails.\<close>

definition number_step :: "string \<Rightarrow> char \<Rightarrow> char option \<Rightarrow> bool ng" where
  "number_step number ch pk =
     (if ch = CHR ''.'' \<or> is_digit ch then Inr True
      else if ch = CHR ''e'' \<and> isExpOperator pk then Inr True
      else if isExpOperator (Some ch) \<and> pk \<noteq> None \<and> isNumber pk \<and> ends_e number then Inr True
      else if isExpOperator (Some ch) \<and> (pk = None \<or> \<not> isNumber pk) \<and> ends_e number
        then Inl (LexError ''Invalid exponent'')
      else Inr False)"

fun readNumber :: "string \<Rightarrow> string \<Rightarrow> (string \<times> string) ng" where
  "readNumber number [] = Inr (number, [])"
| "readNumber number (c # s) = bind_ng (number_step number (to_lower c) (lex_peek s)) (\<lambda>goes.
     if goes then readNumber (number @ [to_lower c]) s else Inr (number, c # s))"

section \<open>Identifiers\<close>

definition ident_char :: "char \<Rightarrow> bool" where
  "ident_char c = (c = CHR ''.'' \<or> isIdent c \<or> is_digit c)"

text \<open>The part of a path before its last dot, and the name after it.\<close>

definition before_dot :: "string \<Rightarrow> string" where
  "before_dot ident = rev (drop 1 (dropWhile (\<lambda>c. c \<noteq> CHR ''.'') (rev ident)))"

definition after_dot :: "string \<Rightarrow> string" where
  "after_dot ident = rev (takeWhile (\<lambda>c. c \<noteq> CHR ''.'') (rev ident))"

text \<open>A path before a parenthesis is a method call: its last name becomes a field access.\<close>

definition back_out :: "string \<Rightarrow> string \<Rightarrow> string \<times> string \<times> string" where
  "back_out ident rest = (if CHR ''.'' \<in> set ident \<and> lex_peek (skip_white rest) = Some (CHR ''('')
     then (before_dot ident, after_dot ident, skip_white rest) else (ident, [], rest))"

definition ident_tok :: "string \<Rightarrow> tok ng" where
  "ident_tok ident = (if ident \<in> set (CONSTANTS @ OPERATORS) then Inr (TConst ident)
     else bind_ng (check_keys (path_keys ident)) (\<lambda>_. Inr (TIdent ident)))"

definition readIdent :: "nat \<Rightarrow> string \<Rightarrow> (token list \<times> string) ng" where
  "readIdent start s = (case back_out (takeWhile ident_char s) (dropWhile ident_char s) of (ident, methodName, rest) \<Rightarrow>
     bind_ng (ident_tok ident) (\<lambda>t.
       let dot = start + length ident in
       Inr (\<lparr>t_index = start, t_tok = t\<rparr> # (if methodName = [] then []
         else [\<lparr>t_index = dot, t_tok = TPlain ''.''\<rparr>, \<lparr>t_index = dot + 1, t_tok = TPlain methodName\<rparr>]), rest)))"

section \<open>Strings\<close>

definition hex_value :: "char \<Rightarrow> nat option" where
  "hex_value c = (let n = of_char c :: nat in
     if 48 \<le> n \<and> n \<le> 57 then Some (n - 48) else if 65 \<le> n \<and> n \<le> 70 then Some (n - 55)
     else if 97 \<le> n \<and> n \<le> 102 then Some (n - 87) else None)"

definition parse_hex :: "string \<Rightarrow> nat option" where
  "parse_hex hex = (if length hex = 4 \<and> (\<forall>c\<in>set hex. hex_value c \<noteq> None)
     then Some (foldl (\<lambda>v c. 16 * v + the (hex_value c)) 0 hex) else None)"

text \<open>\<open>String.fromCharCode\<close> of a code unit, in UTF-8.\<close>

definition fromCharCode :: "nat \<Rightarrow> string" where
  "fromCharCode n = (if n < 128 then [char_of n]
     else if n < 2048 then [char_of (192 + n div 64), char_of (128 + n mod 64)]
     else [char_of (224 + n div 4096), char_of (128 + (n div 64) mod 64), char_of (128 + n mod 64)])"

function readString :: "char \<Rightarrow> string \<Rightarrow> string \<Rightarrow> string \<Rightarrow> (tok \<times> string) ng" where
  "readString quote raw str [] = Inl (LexError ''Unterminated quote'')"
| "readString quote raw str (ch # s) =
     (if ch = CHR 0x5C then (case s of [] \<Rightarrow> Inl (LexError ''Unterminated quote'')
        | e # s1 \<Rightarrow> if e = CHR ''u'' then (case parse_hex (take 4 s1) of
              None \<Rightarrow> Inl (LexError ''Invalid unicode escape'')
            | Some n \<Rightarrow> readString quote (raw @ [ch, e]) (str @ fromCharCode n) (drop 4 s1))
          else readString quote (raw @ [ch, e]) (str @ [ESCAPE e]) s1)
      else if ch = quote then Inr (TStr (raw @ [ch]) str, s)
      else readString quote (raw @ [ch]) (str @ [ch]) s)"
  by pat_completeness auto
termination by (relation "measure (\<lambda>(_, _, _, s). length s)") auto

section \<open>The lexer\<close>

text \<open>The longest operator at the start of the text.\<close>

definition read_operator :: "string \<Rightarrow> string option" where
  "read_operator s = (if 3 \<le> length s \<and> take 3 s \<in> set OPERATORS then Some (take 3 s)
     else if 2 \<le> length s \<and> take 2 s \<in> set OPERATORS then Some (take 2 s)
     else if s \<noteq> [] \<and> take 1 s \<in> set OPERATORS then Some (take 1 s) else None)"

definition one :: "nat \<Rightarrow> tok \<times> string \<Rightarrow> token list \<times> string" where
  "one i ts = (case ts of (t, s) \<Rightarrow> ([\<lparr>t_index = i, t_tok = t\<rparr>], s))"

text \<open>One round of the loop at index \<open>i\<close>: the tokens it pushes and the text that is left.\<close>

definition lex_step :: "nat \<Rightarrow> string \<Rightarrow> (token list \<times> string) ng" where
  "lex_step i s = (case s of [] \<Rightarrow> Inr ([], []) | ch # r \<Rightarrow>
     if ch = CHR 0x22 \<or> ch = CHR 0x27 then bind_ng (readString ch [ch] [] r) (\<lambda>x. Inr (one i x))
     else if is_digit ch \<or> ch = CHR ''.'' \<and> isNumber (lex_peek r)
       then bind_ng (readNumber [] s) (\<lambda>(n, r'). Inr (one i (TNum n, r')))
     else if isIdent ch then readIdent i s
     else if ch \<in> set ''(){}[].,;:?'' then Inr (one i (TPlain [ch], r))
     else if white s \<noteq> 0 then Inr ([], drop (white s) s)
     else (case read_operator s of Some fn \<Rightarrow> Inr (one i (TOp fn, drop (length fn) s))
       | None \<Rightarrow> Inl (LexError ''Unexpected next character'')))"

lemma bind_one: "bind_ng m (\<lambda>x. Inr (one i x)) = Inr (ts, s) \<longleftrightarrow> (\<exists>t. m = Inr (t, s) \<and> ts = [\<lparr>t_index = i, t_tok = t\<rparr>])"
  by (cases m) (auto simp: one_def split: prod.splits)

lemma readNumber_shorter: "readNumber n s = Inr (m, r) \<Longrightarrow> length r \<le> length s"
  by (induction s arbitrary: n) (fastforce simp: bind_ng_Inr split: if_splits)+

lemma readNumber_progress:
  assumes "readNumber [] (c # s) = Inr (m, r)" "is_digit c \<or> c = CHR ''.''"
  shows "length r \<le> length s"
proof -
  have "to_lower c = c" using assms(2) by (auto simp: to_lower_def is_digit_def Let_def)
  then have "number_step [] (to_lower c) (lex_peek s) = Inr True" using assms(2) by (auto simp: number_step_def)
  then show ?thesis using assms(1) readNumber_shorter [of "[to_lower c]" s m r] by simp
qed

lemma readString_shorter: "readString q raw str s = Inr (t, r) \<Longrightarrow> length r < length s"
proof (induction q raw str s rule: readString.induct)
  case (2 quote raw str ch s)
  show ?case
  proof (cases "ch = CHR 0x5C")
    case True
    show ?thesis
    proof (cases s)
      case Nil
      with True "2.prems" show ?thesis by simp
    next
      case (Cons e s1)
      show ?thesis
      proof (cases "e = CHR ''u''")
        case u: True
        then obtain n where "parse_hex (take 4 s1) = Some n" using "2.prems" True Cons by (auto split: option.splits)
        with "2.IH"(1) [OF True Cons u this] "2.prems" True Cons u show ?thesis by simp
      next
        case False
        with "2.IH"(2) [OF True Cons False] "2.prems" True Cons show ?thesis by simp
      qed
    qed
  next
    case False
    with "2.IH"(3) [OF False] "2.prems" show ?thesis by (cases "ch = quote") auto
  qed
qed simp

lemma length_skip_white: "length (skip_white s) \<le> length s"
proof (induction s rule: skip_white.induct)
  case (1 s)
  then show ?case by (cases "white s = 0") (auto simp: skip_white.simps [of s])
qed

lemma readIdent_shorter:
  assumes "readIdent i (c # s) = Inr (ts, r)" "isIdent c"
  shows "length r \<le> length s"
proof -
  let ?rest = "dropWhile ident_char (c # s)"
  have "length ?rest \<le> length s" using assms(2) by (simp add: ident_char_def length_dropWhile_le)
  moreover have "r = ?rest \<or> r = skip_white ?rest"
    using assms(1) by (auto simp: readIdent_def back_out_def bind_ng_Inr Let_def split: if_splits)
  ultimately show ?thesis using length_skip_white [of ?rest] by auto
qed

lemma read_operator_length: "read_operator s = Some f \<Longrightarrow> 0 < length f \<and> s \<noteq> []"
  by (auto simp: read_operator_def split: if_splits)

lemma read_operator_shorter: "read_operator (c # s) = Some f \<Longrightarrow> Suc (length s) - length f \<le> length s"
  using read_operator_length [of "c # s" f] by (cases f) auto

text \<open>Every round of the loop consumes text.\<close>

lemma lex_step_shorter:
  assumes "lex_step i s = Inr (ts, r)" "s \<noteq> []"
  shows "length r < length s"
proof -
  obtain c cs where s: "s = c # cs" using assms(2) by (cases s) auto
  show ?thesis
    using assms(1) readString_shorter [of c "[c]" "[]" cs] readNumber_progress [of c cs] readIdent_shorter [of i c cs]
      read_operator_shorter [of c cs]
    by (auto simp: s lex_step_def bind_one bind_ng_Inr one_def less_Suc_eq_le simp del: readNumber.simps
        split: if_splits option.splits)
qed

function lex_loop :: "nat \<Rightarrow> string \<Rightarrow> token list ng" where
  "lex_loop i s = (if s = [] then Inr []
     else case lex_step i s of Inl e \<Rightarrow> Inl e
       | Inr (ts, r) \<Rightarrow> bind_ng (lex_loop (i + length s - length r) r) (\<lambda>us. Inr (ts @ us)))"
  by pat_completeness auto
termination by (relation "measure (\<lambda>(_, s). length s)") (auto dest: lex_step_shorter)

declare lex_loop.simps [simp del]

definition lex :: "string \<Rightarrow> token list ng" where
  "lex text = lex_loop 0 text"

section \<open>Rendering\<close>

text \<open>Tokens whose text is read back: operators, brackets and other punctuation, numerals, strings
  without a double quote or a backslash, constants and names without a dot.\<close>

fun lexable :: "tok \<Rightarrow> bool" where
  "lexable (TPlain s) = (s \<in> (\<lambda>c. [c]) ` set ''(){}[].,;:?'')"
| "lexable (TOp s) = (s \<in> set OPERATORS)"
| "lexable (TNum s) = (s \<noteq> [] \<and> list_all is_digit s)"
| "lexable (TStr raw s) = (raw = CHR 0x22 # s @ [CHR 0x22] \<and> CHR 0x22 \<notin> set s \<and> CHR 0x5C \<notin> set s)"
| "lexable (TConst s) = (s \<in> set CONSTANTS)"
| "lexable (TIdent s) = (s \<noteq> [] \<and> isIdent (hd s) \<and> list_all (\<lambda>c. isIdent c \<or> is_digit c) s \<and>
     s \<notin> set (CONSTANTS @ OPERATORS @ unsafe_names))"

definition render :: "tok list \<Rightarrow> string" where
  "render ts = concat (map (\<lambda>t. tok_text t @ '' '') ts)"

lemma digit_facts:
  assumes "is_digit c"
  shows "to_lower c = c" "c \<noteq> CHR '' ''" "c \<noteq> CHR 0x22" "c \<noteq> CHR 0x27" "\<not> isIdent c" "c \<noteq> CHR ''.''" "is_digit (to_lower c)"
  using assms by (auto simp: to_lower_def is_digit_def isIdent_def is_alpha_def Let_def)

lemma ident_facts:
  assumes "isIdent c"
  shows "c \<noteq> CHR '' ''" "c \<noteq> CHR 0x22" "c \<noteq> CHR 0x27" "\<not> is_digit c" "c \<noteq> CHR ''.''" "ident_char c"
  using assms by (auto simp: is_digit_def isIdent_def is_alpha_def Let_def ident_char_def)

lemma name_chars:
  assumes "list_all (\<lambda>c. isIdent c \<or> is_digit c) s"
  shows "\<forall>c\<in>set s. ident_char c" "CHR ''.'' \<notin> set s"
proof -
  show "\<forall>c\<in>set s. ident_char c" using assms by (auto simp: list_all_iff ident_char_def)
  have "\<not> isIdent (CHR ''.'')" "\<not> is_digit (CHR ''.'')" by (simp_all add: isIdent_def is_alpha_def is_digit_def)
  then show "CHR ''.'' \<notin> set s" using assms by (auto simp: list_all_iff)
qed

lemma readNumber_blank: "list_all is_digit s \<Longrightarrow> readNumber n (s @ CHR '' '' # r) = Inr (n @ s, CHR '' '' # r)"
proof (induction s arbitrary: n)
  case Nil
  have "number_step n (CHR '' '') (lex_peek r) = Inr False"
    by (simp add: number_step_def isExpOperator_def isNumber_def is_digit_def)
  moreover have "to_lower (CHR '' '') = CHR '' ''" by (simp add: to_lower_def)
  ultimately show ?case by simp
next
  case (Cons c s)
  then have "number_step n (to_lower c) (lex_peek (s @ CHR '' '' # r)) = Inr True"
    by (simp add: number_step_def digit_facts)
  with Cons digit_facts(1) [of c] show ?case by simp
qed

lemma lex_number:
  assumes "s \<noteq> []" "list_all is_digit s"
  shows "lex_step i (s @ CHR '' '' # r) = Inr ([\<lparr>t_index = i, t_tok = TNum s\<rparr>], CHR '' '' # r)"
proof -
  obtain c cs where s: "s = c # cs" using assms(1) by (cases s) auto
  have "is_digit c" using assms(2) s by simp
  then have "lex_step i (s @ CHR '' '' # r) = bind_ng (readNumber [] (s @ CHR '' '' # r)) (\<lambda>(n, r'). Inr (one i (TNum n, r')))"
    using digit_facts [of c] by (simp add: s lex_step_def del: readNumber.simps)
  also have "readNumber [] (s @ CHR '' '' # r) = Inr (s, CHR '' '' # r)" using readNumber_blank [OF assms(2), of "[]" r] by simp
  finally show ?thesis by (simp add: one_def)
qed

lemma readString_plain:
  "CHR 0x22 \<notin> set s \<Longrightarrow> CHR 0x5C \<notin> set s \<Longrightarrow>
    readString (CHR 0x22) raw str (s @ CHR 0x22 # r) = Inr (TStr (raw @ s @ [CHR 0x22]) (str @ s), r)"
  by (induction s arbitrary: raw str) auto

lemma lex_string:
  assumes "CHR 0x22 \<notin> set s" "CHR 0x5C \<notin> set s"
  shows "lex_step i (CHR 0x22 # s @ CHR 0x22 # r) = Inr ([\<lparr>t_index = i, t_tok = TStr (CHR 0x22 # s @ [CHR 0x22]) s\<rparr>], r)"
  using readString_plain [OF assms, of "[CHR 0x22]" "[]" r]
  by (simp add: lex_step_def one_def del: readString.simps)

lemma read_operator_all: "list_all (\<lambda>s. read_operator (s @ CHR '' '' # r) = Some s) OPERATORS"
  unfolding OPERATORS_def read_operator_def by simp

lemma read_operator_blank: "s \<in> set OPERATORS \<Longrightarrow> read_operator (s @ CHR '' '' # r) = Some s"
  using read_operator_all [of r] by (simp only: list_all_iff)

lemma operator_head: "list_all (\<lambda>s. s \<noteq> [] \<and> hd s \<in> set ''+-*/%^=!<>&|'') OPERATORS"
  by (simp add: OPERATORS_def)

lemma operator_chars:
  "list_all (\<lambda>c. c \<noteq> CHR 0x22 \<and> c \<noteq> CHR 0x27 \<and> c \<noteq> CHR ''.'' \<and> \<not> isIdent c \<and> \<not> is_digit c \<and>
    c \<notin> set ''(){}[].,;:?'' \<and> white (c # s) = 0) ''+-*/%^=!<>&|''"
  by (simp add: isIdent_def is_digit_def is_alpha_def white_def)

lemma lex_operator:
  assumes "s \<in> set OPERATORS"
  shows "lex_step i (s @ CHR '' '' # r) = Inr ([\<lparr>t_index = i, t_tok = TOp s\<rparr>], CHR '' '' # r)"
proof -
  have "s \<noteq> []" "hd s \<in> set ''+-*/%^=!<>&|''" using operator_head assms unfolding list_all_iff by blast+
  then obtain d ds where s: "s = d # ds" "d \<in> set ''+-*/%^=!<>&|''" by (cases s) simp_all
  with operator_chars [of "ds @ CHR '' '' # r"] have d: "d \<noteq> CHR 0x22" "d \<noteq> CHR 0x27" "d \<noteq> CHR ''.''" "\<not> isIdent d" "\<not> is_digit d"
      "d \<notin> set ''(){}[].,;:?''" "white (d # ds @ CHR '' '' # r) = 0" unfolding list_all_iff by blast+
  have "lex_step i (s @ CHR '' '' # r) = (case read_operator (s @ CHR '' '' # r) of
      Some fn \<Rightarrow> Inr (one i (TOp fn, drop (length fn) (s @ CHR '' '' # r)))
    | None \<Rightarrow> Inl (LexError ''Unexpected next character''))"
    unfolding lex_step_def s(1) append_Cons list.case
    using d by (simp only: if_False simp_thms not_True_eq_False)
  then show ?thesis by (simp add: read_operator_blank [OF assms] one_def)
qed

lemma lex_plain_all:
  "list_all (\<lambda>c. lex_step i (c # CHR '' '' # r) = Inr ([\<lparr>t_index = i, t_tok = TPlain [c]\<rparr>], CHR '' '' # r)) ''(){}[].,;:?''"
  by (simp add: lex_step_def one_def lex_peek_def isIdent_def is_digit_def is_alpha_def isNumber_def)

lemma lex_plain:
  "c \<in> set ''(){}[].,;:?'' \<Longrightarrow>
    lex_step i (c # CHR '' '' # r) = Inr ([\<lparr>t_index = i, t_tok = TPlain [c]\<rparr>], CHR '' '' # r)"
  using lex_plain_all [of i r] by (simp only: list_all_iff)

lemma lex_blank: "lex_step i (CHR '' '' # r) = Inr ([], r)"
  by (simp add: lex_step_def white_def isIdent_def is_digit_def is_alpha_def)

lemma lex_name:
  assumes "s \<noteq> []" "isIdent (hd s)" "list_all (\<lambda>c. isIdent c \<or> is_digit c) s"
  shows "lex_step i (s @ CHR '' '' # r) = bind_ng (ident_tok s) (\<lambda>t. Inr ([\<lparr>t_index = i, t_tok = t\<rparr>], CHR '' '' # r))"
proof -
  obtain c cs where s: "s = c # cs" "isIdent c" using assms(1,2) by (cases s) auto
  note all = name_chars [OF assms(3)]
  have blank: "\<not> ident_char (CHR '' '')" by (simp add: ident_char_def isIdent_def is_digit_def is_alpha_def)
  have "takeWhile ident_char (s @ CHR '' '' # r) = s" "dropWhile ident_char (s @ CHR '' '' # r) = CHR '' '' # r"
    using all(1) blank by simp_all
  then have "readIdent i (s @ CHR '' '' # r) = bind_ng (ident_tok s) (\<lambda>t. Inr ([\<lparr>t_index = i, t_tok = t\<rparr>], CHR '' '' # r))"
    using all(2) by (simp add: readIdent_def back_out_def Let_def)
  moreover have "lex_step i (s @ CHR '' '' # r) = readIdent i (s @ CHR '' '' # r)"
    using ident_facts [OF s(2)] s by (simp add: lex_step_def)
  ultimately show ?thesis by simp
qed

lemma split_no_dot: "CHR ''.'' \<notin> set s \<Longrightarrow> path_keys s = [s]"
  by (induction s) (auto simp: path_keys_def)

lemma constant_chars: "list_all (\<lambda>s. s \<noteq> [] \<and> isIdent (hd s) \<and> list_all (\<lambda>c. isIdent c \<or> is_digit c) s) CONSTANTS"
  by (simp add: CONSTANTS_def isIdent_def is_alpha_def)

lemma ident_tok_name:
  assumes "s \<notin> set (CONSTANTS @ OPERATORS @ unsafe_names)" "list_all (\<lambda>c. isIdent c \<or> is_digit c) s"
  shows "ident_tok s = Inr (TIdent s)"
proof -
  show ?thesis using assms(1) name_chars(2) [OF assms(2)] by (simp add: ident_tok_def split_no_dot ensureSafeMemberName_def)
qed

lemma lex_lexable:
  assumes "lexable t"
  shows "lex_step i (tok_text t @ CHR '' '' # r) = Inr ([\<lparr>t_index = i, t_tok = t\<rparr>], CHR '' '' # r)"
proof (cases t)
  case (TPlain s)
  with assms lex_plain show ?thesis by auto
next
  case (TOp s)
  with assms lex_operator show ?thesis by simp
next
  case (TNum s)
  with assms lex_number show ?thesis by simp
next
  case (TStr raw s)
  with assms lex_string [of s i "CHR '' '' # r"] show ?thesis by simp
next
  case (TConst s)
  then have s: "s \<in> set CONSTANTS" using assms by simp
  with constant_chars have "s \<noteq> []" "isIdent (hd s)" "list_all (\<lambda>c. isIdent c \<or> is_digit c) s"
    unfolding list_all_iff by blast+
  from lex_name [OF this, of i r] s show ?thesis by (simp add: TConst ident_tok_def)
next
  case (TIdent s)
  with assms lex_name [of s i r] ident_tok_name [of s] show ?thesis by simp
qed

lemma lex_loop_step:
  assumes "lex_step i s = Inr (ts, r)" "s \<noteq> []" "lex_loop (i + length s - length r) r = Inr us"
  shows "lex_loop i s = Inr (ts @ us)"
  using assms by (simp add: lex_loop.simps [of i s])

lemma lex_loop_render:
  "list_all lexable ts \<Longrightarrow> \<exists>us. lex_loop i (render ts) = Inr us \<and> map t_tok us = ts"
proof (induction ts arbitrary: i)
  case Nil
  show ?case by (simp add: render_def lex_loop.simps)
next
  case (Cons t ts)
  let ?j = "i + length (tok_text t)"
  obtain us where us: "lex_loop (Suc ?j) (render ts) = Inr us" "map t_tok us = ts" using Cons by fastforce
  have "lex_loop ?j (CHR '' '' # render ts) = Inr ([] @ us)"
    by (rule lex_loop_step [OF lex_blank]) (use us(1) in simp_all)
  then have "lex_loop i (tok_text t @ CHR '' '' # render ts) = Inr ([\<lparr>t_index = i, t_tok = t\<rparr>] @ us)"
    by (intro lex_loop_step [OF lex_lexable]) (use Cons.prems in simp_all)
  with us(2) show ?case by (simp add: render_def)
qed

lemma lex_render: "list_all lexable ts \<Longrightarrow> \<exists>us. lex (render ts) = Inr us \<and> map t_tok us = ts"
  by (simp add: lex_def lex_loop_render)

end
