(* ===== verification/Ng_Parse.thy ===== *)
theory Ng_Parse
  imports Ng_Lex
begin

text \<open>
  The parser of angular's expression language (\<open>Parser\<close> in \<open>angular.js\<close>): every method is a
  definition over the parser \<open>p\<close> of the methods it calls; \<open>parse_rule\<close> closes the recursion
  with a fuel that one call costs one unit of. The closures the methods build are the
  constructors of \<open>ngexp\<close>. The theory shows how much fuel always suffices and that rendered
  expressions are parsed back. The places of the tokens only occur in error messages. The cache of getters is not modelled: it only saves the
  checks of a path that has passed them.
\<close>

section \<open>Expressions\<close>

text \<open>An operator token in the place of an operand is taken for one: its function becomes the
  expression.\<close>

datatype ngexp =
    EZero | ENum string | EStr string | EConst string | EOpFn string | EPath string
  | ENot ngexp | ETernary ngexp ngexp ngexp | EBin string ngexp ngexp | EFilter ngexp string "ngexp list"
  | EAssign ngexp ngexp | ESeq "ngexp list" | EField ngexp string | EIndex ngexp ngexp
  | ECall ngexp "ngexp option" "ngexp list" | EArr "ngexp list" | EObj "(string \<times> ngexp) list"

definition has_assign :: "ngexp \<Rightarrow> bool" where
  "has_assign e = (case e of EPath _ \<Rightarrow> True | EField _ _ \<Rightarrow> True | EIndex _ _ \<Rightarrow> True | _ \<Rightarrow> False)"

fun is_constant :: "ngexp \<Rightarrow> bool" where
  "is_constant EZero = True"
| "is_constant (ENum s) = True"
| "is_constant (EStr s) = True"
| "is_constant (EConst s) = True"
| "is_constant (ENot e) = is_constant e"
| "is_constant (ETernary a b c) = (is_constant a \<and> is_constant b \<and> is_constant c)"
| "is_constant (EBin op a b) = (is_constant a \<and> is_constant b)"
| "is_constant (EArr es) = list_all is_constant es"
| "is_constant (EObj kvs) = list_all (\<lambda>kv. is_constant (snd kv)) kvs"
| "is_constant _ = False"

definition is_literal :: "ngexp \<Rightarrow> bool" where
  "is_literal e = (case e of ENum _ \<Rightarrow> True | EStr _ \<Rightarrow> True | EConst _ \<Rightarrow> True | EArr _ \<Rightarrow> True | EObj _ \<Rightarrow> True | _ \<Rightarrow> False)"

section \<open>The methods\<close>

text \<open>The methods and their loops, with the values of their local variables.\<close>

datatype rule =
    Statements "ngexp list" | FilterChain | ChainLoop ngexp | FilterArgs ngexp string "ngexp list"
  | Assignment | Ternary | LogicalOR | OrLoop ngexp | LogicalAND | Equality | Relational
  | Additive | AddLoop ngexp | Multiplicative | MulLoop ngexp | Unary | Primary | PrimaryLoop ngexp "ngexp option"
  | CallArgs ngexp "ngexp option" "ngexp list" | ArrayElems "ngexp list" | ObjectElems "(string \<times> ngexp) list"

type_synonym parsed = "(ngexp \<times> tok list) ng"
type_synonym parser = "rule \<Rightarrow> tok list \<Rightarrow> parsed"

definition expect :: "string list \<Rightarrow> tok list \<Rightarrow> (tok \<times> tok list) option" where
  "expect es ts = (case ts of [] \<Rightarrow> None | t # r \<Rightarrow> if tok_text t \<in> set es then Some (t, r) else None)"

definition peeks :: "string list \<Rightarrow> tok list \<Rightarrow> bool" where
  "peeks es ts = (expect es ts \<noteq> None)"

definition consume :: "string \<Rightarrow> tok list \<Rightarrow> (tok list) ng" where
  "consume e ts = (case expect [e] ts of None \<Rightarrow> Inl UnexpectedToken | Some (_, r) \<Rightarrow> Inr r)"

definition peekToken :: "tok list \<Rightarrow> tok ng" where
  "peekToken ts = (case ts of [] \<Rightarrow> Inl UnexpectedEnd | t # _ \<Rightarrow> Inr t)"

text \<open>\<open>then_parse p r ts f\<close> is the result of method \<open>r\<close> handed to \<open>f\<close>.\<close>

definition then_parse :: "parser \<Rightarrow> rule \<Rightarrow> tok list \<Rightarrow> (ngexp \<Rightarrow> tok list \<Rightarrow> parsed) \<Rightarrow> parsed" where
  "then_parse p r ts f = bind_ng (p r ts) (\<lambda>(e, ts'). f e ts')"

definition statements :: "parser \<Rightarrow> ngexp list \<Rightarrow> tok list \<Rightarrow> parsed" where
  "statements p acc ts =
     (let rest = (\<lambda>acc' ts'. case expect ['';''] ts' of Some (_, r) \<Rightarrow> p (Statements acc') r
        | None \<Rightarrow> Inr (case acc' of [s] \<Rightarrow> s | _ \<Rightarrow> ESeq acc', ts'))
      in if ts \<noteq> [] \<and> \<not> peeks [''}'', '')'', '';'', '']''] ts
         then then_parse p FilterChain ts (\<lambda>e r. rest (acc @ [e]) r) else rest acc ts)"

definition filterChain :: "parser \<Rightarrow> tok list \<Rightarrow> parsed" where
  "filterChain p ts = then_parse p Assignment ts (\<lambda>e r. p (ChainLoop e) r)"

text \<open>\<open>known\<close> are the filters that the injector finds.\<close>

definition filter_fn :: "(string \<Rightarrow> bool) \<Rightarrow> parser \<Rightarrow> ngexp \<Rightarrow> tok list \<Rightarrow> parsed" where
  "filter_fn known p left ts = (case ts of [] \<Rightarrow> Inl UnknownFilter
     | t # r \<Rightarrow> if known (tok_text t) then p (FilterArgs left (tok_text t) []) r else Inl UnknownFilter)"

definition filterArgs :: "parser \<Rightarrow> ngexp \<Rightarrow> string \<Rightarrow> ngexp list \<Rightarrow> tok list \<Rightarrow> parsed" where
  "filterArgs p left name argsFn ts = (case expect ['':''] ts of
     Some (_, r) \<Rightarrow> then_parse p Assignment r (\<lambda>a r'. p (FilterArgs left name (argsFn @ [a])) r')
   | None \<Rightarrow> Inr (EFilter left name argsFn, ts))"

definition chainLoop :: "(string \<Rightarrow> bool) \<Rightarrow> parser \<Rightarrow> ngexp \<Rightarrow> tok list \<Rightarrow> parsed" where
  "chainLoop known p left ts = (case expect [''|''] ts of
     Some (_, r) \<Rightarrow> bind_ng (filter_fn known p left r) (\<lambda>(e, r'). p (ChainLoop e) r')
   | None \<Rightarrow> Inr (left, ts))"

definition assignment :: "parser \<Rightarrow> tok list \<Rightarrow> parsed" where
  "assignment p ts = then_parse p Ternary ts (\<lambda>left r. case expect [''=''] r of
     Some (_, r') \<Rightarrow> if has_assign left then then_parse p Ternary r' (\<lambda>right r''. Inr (EAssign left right, r''))
       else Inl NotAssignable
   | None \<Rightarrow> Inr (left, r))"

definition ternary :: "parser \<Rightarrow> tok list \<Rightarrow> parsed" where
  "ternary p ts = then_parse p LogicalOR ts (\<lambda>left r. case expect [''?''] r of
     Some (_, r1) \<Rightarrow> then_parse p Assignment r1 (\<lambda>middle r2. case expect ['':''] r2 of
         Some (_, r3) \<Rightarrow> then_parse p Assignment r3 (\<lambda>right r4. Inr (ETernary left middle right, r4))
       | None \<Rightarrow> Inl ExpectedColon)
   | None \<Rightarrow> Inr (left, r))"

text \<open>Loops associate to the left, methods that call themselves to the right.\<close>

definition binary_loop :: "parser \<Rightarrow> string list \<Rightarrow> rule \<Rightarrow> (ngexp \<Rightarrow> rule) \<Rightarrow> ngexp \<Rightarrow> tok list \<Rightarrow> parsed" where
  "binary_loop p ops operand loop left ts = (case expect ops ts of
     Some (t, r) \<Rightarrow> then_parse p operand r (\<lambda>right r'. p (loop (EBin (tok_text t) left right)) r')
   | None \<Rightarrow> Inr (left, ts))"

definition binary_right :: "parser \<Rightarrow> string list \<Rightarrow> rule \<Rightarrow> rule \<Rightarrow> tok list \<Rightarrow> parsed" where
  "binary_right p ops operand self ts = then_parse p operand ts (\<lambda>left r. case expect ops r of
     Some (t, r') \<Rightarrow> then_parse p self r' (\<lambda>right r''. Inr (EBin (tok_text t) left right, r''))
   | None \<Rightarrow> Inr (left, r))"

definition logicalOR :: "parser \<Rightarrow> tok list \<Rightarrow> parsed" where
  "logicalOR p ts = then_parse p LogicalAND ts (\<lambda>left r. p (OrLoop left) r)"

definition orLoop :: "parser \<Rightarrow> ngexp \<Rightarrow> tok list \<Rightarrow> parsed" where
  "orLoop p = binary_loop p [''||''] LogicalAND OrLoop"

definition logicalAND :: "parser \<Rightarrow> tok list \<Rightarrow> parsed" where
  "logicalAND p = binary_right p [''&&''] Equality LogicalAND"

definition equality :: "parser \<Rightarrow> tok list \<Rightarrow> parsed" where
  "equality p = binary_right p [''=='', ''!='', ''==='', ''!==''] Relational Equality"

definition relational :: "parser \<Rightarrow> tok list \<Rightarrow> parsed" where
  "relational p = binary_right p [''<'', ''>'', ''<='', ''>=''] Additive Relational"

definition additive :: "parser \<Rightarrow> tok list \<Rightarrow> parsed" where
  "additive p ts = then_parse p Multiplicative ts (\<lambda>left r. p (AddLoop left) r)"

definition addLoop :: "parser \<Rightarrow> ngexp \<Rightarrow> tok list \<Rightarrow> parsed" where
  "addLoop p = binary_loop p [''+'', ''-''] Multiplicative AddLoop"

definition multiplicative :: "parser \<Rightarrow> tok list \<Rightarrow> parsed" where
  "multiplicative p ts = then_parse p Unary ts (\<lambda>left r. p (MulLoop left) r)"

definition mulLoop :: "parser \<Rightarrow> ngexp \<Rightarrow> tok list \<Rightarrow> parsed" where
  "mulLoop p = binary_loop p [''*'', ''/'', ''%''] Unary MulLoop"

definition unary :: "parser \<Rightarrow> tok list \<Rightarrow> parsed" where
  "unary p ts = (case expect [''+''] ts of Some (_, r) \<Rightarrow> p Primary r
   | None \<Rightarrow> (case expect [''-''] ts of
       Some (t, r) \<Rightarrow> then_parse p Unary r (\<lambda>e r'. Inr (EBin (tok_text t) EZero e, r'))
     | None \<Rightarrow> (case expect [''!''] ts of
         Some (_, r) \<Rightarrow> then_parse p Unary r (\<lambda>e r'. Inr (ENot e, r'))
       | None \<Rightarrow> p Primary ts)))"

text \<open>The function of a token.\<close>

fun tok_fn :: "tok \<Rightarrow> ngexp option" where
  "tok_fn (TPlain s) = None"
| "tok_fn (TOp s) = Some (EOpFn s)"
| "tok_fn (TNum s) = Some (ENum s)"
| "tok_fn (TStr raw s) = Some (EStr s)"
| "tok_fn (TConst s) = Some (EConst s)"
| "tok_fn (TIdent s) = Some (EPath s)"

definition primary :: "parser \<Rightarrow> tok list \<Rightarrow> parsed" where
  "primary p ts =
     (let loop = (\<lambda>e r. p (PrimaryLoop e None) r) in
      case expect [''(''] ts of
        Some (_, r) \<Rightarrow> then_parse p FilterChain r (\<lambda>e r'. bind_ng (consume '')'' r') (\<lambda>r''. loop e r''))
      | None \<Rightarrow> (case expect [''[''] ts of
          Some (_, r) \<Rightarrow> then_parse p (ArrayElems []) r loop
        | None \<Rightarrow> (case expect [''{''] ts of
            Some (_, r) \<Rightarrow> then_parse p (ObjectElems []) r loop
          | None \<Rightarrow> (case ts of [] \<Rightarrow> Inl NotPrimary
              | t # r \<Rightarrow> (case tok_fn t of None \<Rightarrow> Inl NotPrimary | Some e \<Rightarrow> loop e r)))))"

definition field_name :: "tok \<Rightarrow> string ng" where
  "field_name t = (case t of TNum s \<Rightarrow> Inl NoProperty
     | _ \<Rightarrow> bind_ng (check_keys (path_keys (tok_text t))) (\<lambda>_. Inr (tok_text t)))"

definition fieldAccess :: "ngexp \<Rightarrow> tok list \<Rightarrow> parsed" where
  "fieldAccess obj ts = (case ts of [] \<Rightarrow> Inl NoProperty
     | t # r \<Rightarrow> bind_ng (field_name t) (\<lambda>field. Inr (EField obj field, r)))"

definition objectIndex :: "parser \<Rightarrow> ngexp \<Rightarrow> tok list \<Rightarrow> parsed" where
  "objectIndex p obj ts = then_parse p Assignment ts (\<lambda>i r. bind_ng (consume '']'' r) (\<lambda>r'. Inr (EIndex obj i, r')))"

text \<open>\<open>close\<close> ends the arguments of a call, the elements of an array and of an object.\<close>

definition close :: "string \<Rightarrow> ngexp \<Rightarrow> tok list \<Rightarrow> parsed" where
  "close c e ts = bind_ng (consume c ts) (\<lambda>r. Inr (e, r))"

definition functionCall :: "parser \<Rightarrow> ngexp \<Rightarrow> ngexp option \<Rightarrow> tok list \<Rightarrow> parsed" where
  "functionCall p fn context ts = bind_ng (peekToken ts) (\<lambda>t.
     if tok_text t = '')'' then close '')'' (ECall fn context []) ts else p (CallArgs fn context []) ts)"

definition callArgs :: "parser \<Rightarrow> ngexp \<Rightarrow> ngexp option \<Rightarrow> ngexp list \<Rightarrow> tok list \<Rightarrow> parsed" where
  "callArgs p fn context argsFn ts = then_parse p Assignment ts (\<lambda>a r. case expect ['',''] r of
     Some (_, r') \<Rightarrow> p (CallArgs fn context (argsFn @ [a])) r'
   | None \<Rightarrow> close '')'' (ECall fn context (argsFn @ [a])) r)"

definition primaryLoop :: "parser \<Rightarrow> ngexp \<Rightarrow> ngexp option \<Rightarrow> tok list \<Rightarrow> parsed" where
  "primaryLoop p e context ts = (case expect [''('', ''['', ''.''] ts of
     None \<Rightarrow> Inr (e, ts)
   | Some (t, r) \<Rightarrow>
       if tok_text t = ''('' then bind_ng (functionCall p e context r) (\<lambda>(e', r'). p (PrimaryLoop e' None) r')
       else if tok_text t = ''['' then bind_ng (objectIndex p e r) (\<lambda>(e', r'). p (PrimaryLoop e' (Some e)) r')
       else bind_ng (fieldAccess e r) (\<lambda>(e', r'). p (PrimaryLoop e' (Some e)) r'))"

definition arrayElems :: "parser \<Rightarrow> ngexp list \<Rightarrow> tok list \<Rightarrow> parsed" where
  "arrayElems p acc ts =
     (if peeks ['']''] ts then close '']'' (EArr acc) ts
      else if acc = [] \<and> ts = [] then Inl UnexpectedEnd
      else then_parse p Assignment ts (\<lambda>e r. case expect ['',''] r of
          Some (_, r') \<Rightarrow> p (ArrayElems (acc @ [e])) r'
        | None \<Rightarrow> close '']'' (EArr (acc @ [e])) r))"

text \<open>The key of an object literal; an empty string falls back to its quoted text.\<close>

definition object_key :: "tok \<Rightarrow> string" where
  "object_key t = (case t of TStr raw s \<Rightarrow> if s = [] then raw else s | _ \<Rightarrow> tok_text t)"

definition objectElems :: "parser \<Rightarrow> (string \<times> ngexp) list \<Rightarrow> tok list \<Rightarrow> parsed" where
  "objectElems p acc ts =
     (if peeks [''}''] ts then close ''}'' (EObj acc) ts
      else (case ts of [] \<Rightarrow> Inl (if acc = [] then UnexpectedEnd else UnexpectedToken)
        | t # r \<Rightarrow> bind_ng (consume '':'' r) (\<lambda>r1. then_parse p Assignment r1 (\<lambda>v r2. case expect ['',''] r2 of
            Some (_, r3) \<Rightarrow> p (ObjectElems (acc @ [(object_key t, v)])) r3
          | None \<Rightarrow> close ''}'' (EObj (acc @ [(object_key t, v)])) r2))))"

definition parse_step :: "(string \<Rightarrow> bool) \<Rightarrow> parser \<Rightarrow> rule \<Rightarrow> tok list \<Rightarrow> parsed" where
  "parse_step known p rl ts = (case rl of
     Statements acc \<Rightarrow> statements p acc ts | FilterChain \<Rightarrow> filterChain p ts | ChainLoop e \<Rightarrow> chainLoop known p e ts
   | FilterArgs e name as \<Rightarrow> filterArgs p e name as ts | Assignment \<Rightarrow> assignment p ts | Ternary \<Rightarrow> ternary p ts
   | LogicalOR \<Rightarrow> logicalOR p ts | OrLoop e \<Rightarrow> orLoop p e ts | LogicalAND \<Rightarrow> logicalAND p ts | Equality \<Rightarrow> equality p ts
   | Relational \<Rightarrow> relational p ts | Additive \<Rightarrow> additive p ts | AddLoop e \<Rightarrow> addLoop p e ts
   | Multiplicative \<Rightarrow> multiplicative p ts | MulLoop e \<Rightarrow> mulLoop p e ts | Unary \<Rightarrow> unary p ts | Primary \<Rightarrow> primary p ts
   | PrimaryLoop e c \<Rightarrow> primaryLoop p e c ts | CallArgs fn c as \<Rightarrow> callArgs p fn c as ts
   | ArrayElems acc \<Rightarrow> arrayElems p acc ts | ObjectElems acc \<Rightarrow> objectElems p acc ts)"

fun parse_rule :: "(string \<Rightarrow> bool) \<Rightarrow> nat \<Rightarrow> parser" where
  "parse_rule known 0 rl ts = Inl OutOfFuel"
| "parse_rule known (Suc n) rl ts = parse_step known (parse_rule known n) rl ts"

definition parse_fuel :: "tok list \<Rightarrow> nat" where
  "parse_fuel ts = 16 * length ts + 16"

definition parse :: "(string \<Rightarrow> bool) \<Rightarrow> string \<Rightarrow> ngexp ng" where
  "parse known text = bind_ng (lex text) (\<lambda>us. let ts = map t_tok us in
     bind_ng (parse_rule known (parse_fuel ts) (Statements []) ts) (\<lambda>(e, rest).
       if rest = [] then Inr e else Inl UnexpectedToken))"

section \<open>Fuel\<close>

text \<open>A method called on \<open>ts\<close> needs less than \<open>need\<close> units: sixteen for every token, and what the chain of
  methods below it costs before a token is consumed.\<close>

fun weight :: "rule \<Rightarrow> nat" where
  "weight (Statements acc) = 12"
| "weight FilterChain = 11"
| "weight Assignment = 10"
| "weight Ternary = 9"
| "weight LogicalOR = 8"
| "weight LogicalAND = 7"
| "weight Equality = 6"
| "weight Relational = 5"
| "weight Additive = 4"
| "weight Multiplicative = 3"
| "weight Unary = 2"
| "weight (CallArgs fn c as) = 11"
| "weight (ArrayElems acc) = 11"
| "weight (ObjectElems acc) = 11"
| "weight _ = 1"

text \<open>Loops and the sequence of statements may return without having consumed a token.\<close>

fun may_stop :: "rule \<Rightarrow> bool" where
  "may_stop (Statements acc) = True"
| "may_stop (ChainLoop e) = True"
| "may_stop (FilterArgs e n as) = True"
| "may_stop (OrLoop e) = True"
| "may_stop (AddLoop e) = True"
| "may_stop (MulLoop e) = True"
| "may_stop (PrimaryLoop e c) = True"
| "may_stop _ = False"

definition need :: "rule \<Rightarrow> tok list \<Rightarrow> nat" where
  "need rl ts = 16 * length ts + weight rl"

definition fine :: "nat \<Rightarrow> parsed \<Rightarrow> bool" where
  "fine k res = (case res of Inl e \<Rightarrow> e \<noteq> OutOfFuel | Inr (e, r) \<Rightarrow> length r < k)"

definition bound :: "rule \<Rightarrow> tok list \<Rightarrow> nat" where
  "bound rl ts = (if may_stop rl then Suc (length ts) else length ts)"

definition supplied :: "parser \<Rightarrow> nat \<Rightarrow> bool" where
  "supplied p n = (\<forall>rl ts. need rl ts < n \<longrightarrow> fine (bound rl ts) (p rl ts))"

lemma fine_simps [simp]: "fine k (Inl err) \<longleftrightarrow> err \<noteq> OutOfFuel" "fine k (Inr (e, r)) \<longleftrightarrow> length r < k"
  by (simp_all add: fine_def)

lemma fine_mono: "fine j res \<Longrightarrow> j \<le> k \<Longrightarrow> fine k res"
  by (auto simp: fine_def split: sum.splits)

lemma fine_bind:
  "fine b m \<Longrightarrow> (\<And>e r. length r < b \<Longrightarrow> fine k (f e r)) \<Longrightarrow> fine k (bind_ng m (\<lambda>(e, r). f e r))"
  by (cases m) (auto split: prod.splits)

lemma fine_call:
  "supplied p n \<Longrightarrow> need rl ts < n \<Longrightarrow> bound rl ts \<le> k \<Longrightarrow> fine k (p rl ts)"
  unfolding supplied_def by (blast intro: fine_mono)

lemma fine_then:
  "supplied p n \<Longrightarrow> need rl ts < n \<Longrightarrow> (\<And>e r. length r < bound rl ts \<Longrightarrow> fine k (f e r)) \<Longrightarrow> fine k (then_parse p rl ts f)"
  unfolding then_parse_def by (rule fine_bind [OF fine_call]) auto

lemma expect_Some: "expect es ts = Some (t, r) \<Longrightarrow> ts = t # r"
  by (auto simp: expect_def split: list.splits if_splits)

lemma fine_consume: "(\<And>t r. ts = t # r \<Longrightarrow> fine k (f r)) \<Longrightarrow> fine k (bind_ng (consume e ts) f)"
  by (auto simp: consume_def dest: expect_Some split: option.splits)

lemma fine_expect:
  "(ts = ts \<Longrightarrow> fine k b) \<Longrightarrow> (\<And>t r. ts = t # r \<Longrightarrow> fine k (a t r)) \<Longrightarrow> fine k (case expect es ts of None \<Rightarrow> b | Some (t, r) \<Rightarrow> a t r)"
  by (auto dest: expect_Some split: option.splits)

lemma fine_close: "length ts \<le> k \<Longrightarrow> fine k (close c e ts)"
  unfolding close_def by (rule fine_consume) auto

lemmas fine_intros = fine_expect fine_then fine_call fine_consume fine_close

lemma check_keys_fuel: "check_keys ks \<noteq> Inl OutOfFuel"
  by (induction ks) (auto simp: ensureSafeMemberName_def)

lemma fine_field: "length ts \<le> k \<Longrightarrow> fine k (fieldAccess e ts)"
  using check_keys_fuel
  by (auto simp: fieldAccess_def field_name_def fine_def bind_ng_def split: list.splits sum.splits tok.splits) 

lemma fine_binary_loop:
  assumes "supplied p n" "16 * length ts < n" "weight operand \<le> 10" "\<not> may_stop operand" "\<And>e. weight (loop e) = 1" "\<And>e. may_stop (loop e)"
  shows "fine (Suc (length ts)) (binary_loop p ops operand loop left ts)"
  unfolding binary_loop_def using assms
  by (intro fine_expect fine_then [OF assms(1)] fine_call [OF assms(1)]) (auto simp: need_def bound_def)

lemma fine_binary_right:
  assumes "supplied p n" "need self ts \<le> n" "weight operand < weight self" "\<not> may_stop operand" "\<not> may_stop self"
  shows "fine (length ts) (binary_right p ops operand self ts)"
  unfolding binary_right_def using assms
  by (intro fine_expect fine_then [OF assms(1)] fine_call [OF assms(1)]) (auto simp: need_def bound_def)

lemma fine_statements:
  assumes "supplied p (need (Statements acc) ts)"
  shows "fine (Suc (length ts)) (statements p acc ts)"
  unfolding statements_def Let_def 
  by (auto intro!: fine_expect fine_then [OF assms(1)] fine_call [OF assms(1)] simp: need_def bound_def)

lemma fine_filter:
  assumes "supplied p n" "16 * length ts < n"
  shows "fine (Suc (length ts)) (filter_fn known p left ts)"
  using assms by (auto simp: filter_fn_def need_def bound_def split: list.splits intro!: fine_call [OF assms(1)])

lemma fine_call_args:
  assumes "supplied p n" "16 * length ts + 10 < n"
  shows "fine (length ts) (callArgs p fn c as ts)"
  unfolding callArgs_def using assms(2)
  by (intro fine_expect fine_then [OF assms(1)] fine_call [OF assms(1)] fine_close) (auto simp: need_def bound_def)

lemma fine_function_call:
  assumes "supplied p n" "16 * length ts + 11 < n"
  shows "fine (Suc (length ts)) (functionCall p fn c ts)"
  using assms(2)
  by (cases ts) (auto simp: functionCall_def peekToken_def need_def bound_def intro!: fine_call [OF assms(1)] fine_close)

lemma fine_index:
  assumes "supplied p n" "16 * length ts + 10 < n"
  shows "fine (Suc (length ts)) (objectIndex p e ts)"
  unfolding objectIndex_def using assms(2)
  by (intro fine_then [OF assms(1)] fine_consume) (auto simp: need_def bound_def)

lemma fine_primary_loop:
  assumes "supplied p n" "16 * length ts \<le> n"
  shows "fine (Suc (length ts)) (primaryLoop p e c ts)"
  unfolding primaryLoop_def
proof (intro fine_expect)
  fix t r assume ts: "ts = t # r"
  have n: "16 * length r + 11 < n" "16 * length r + 10 < n" using assms(2) ts by auto
  have loop: "fine (Suc (length ts)) (p (PrimaryLoop e' c') r')" if "length r' < Suc (length r)" for e' c' r'
    using that assms ts by (intro fine_call [OF assms(1)]) (auto simp: need_def bound_def)
  have f: "fine (Suc (length r)) (fieldAccess e r)" by (rule fine_field) simp
  show "fine (Suc (length ts)) (if tok_text t = ''('' then bind_ng (functionCall p e c r) (\<lambda>(e', r'). p (PrimaryLoop e' None) r')
      else if tok_text t = ''['' then bind_ng (objectIndex p e r) (\<lambda>(e', r'). p (PrimaryLoop e' (Some e)) r')
      else bind_ng (fieldAccess e r) (\<lambda>(e', r'). p (PrimaryLoop e' (Some e)) r'))"
    using fine_bind [OF fine_function_call [OF assms(1) n(1)], OF loop] fine_bind [OF fine_index [OF assms(1) n(2)], OF loop]
      fine_bind [OF f, OF loop] by simp
qed simp

lemma fine_primary:
  assumes "supplied p n" "16 * length ts < n"
  shows "fine (length ts) (primary p ts)"
proof -
  have loop: "fine k (p (PrimaryLoop e None) r)" if "16 * length r + 1 < n" "length r < k" for e r k
    using that by (intro fine_call [OF assms(1)]) (auto simp: need_def bound_def)
  show ?thesis
    unfolding primary_def Let_def using assms(2)
    by (intro fine_expect fine_then [OF assms(1)] fine_consume loop)
      (auto simp: need_def bound_def intro!: loop split: list.splits option.splits)
qed

lemma fine_array:
  assumes "supplied p n" "16 * length ts + 10 < n"
  shows "fine (length ts) (arrayElems p acc ts)"
  unfolding arrayElems_def using assms(2)
  by (auto simp: need_def bound_def intro!: fine_expect fine_then [OF assms(1)] fine_call [OF assms(1)] fine_close)

lemma fine_object:
  assumes "supplied p n" "16 * length ts + 10 < n"
  shows "fine (length ts) (objectElems p acc ts)"
proof (cases ts)
  case (Cons t r)
  show ?thesis
    unfolding objectElems_def Cons using assms(2) Cons
    by (auto simp: need_def bound_def intro!: fine_expect fine_then [OF assms(1)] fine_call [OF assms(1)] fine_close fine_consume)
qed (auto simp: objectElems_def peeks_def expect_def)

lemma fine_step:
  assumes "supplied p (need rl ts)"
  shows "fine (bound rl ts) (parse_step known p rl ts)"
proof -
  have c: "fine k (p rl' ts')" if "need rl' ts' < need rl ts" "bound rl' ts' \<le> k" for k rl' ts'
    using that by (intro fine_call [OF assms])
  note intros = fine_expect fine_then [OF assms] c
  show ?thesis
  proof (cases rl)
    case (ChainLoop e)
    show ?thesis unfolding ChainLoop parse_step_def rule.case chainLoop_def
    proof (intro fine_expect)
      fix t r assume ts: "ts = t # r"
      have "16 * length r < need rl ts" using ts by (simp add: need_def)
      from fine_filter [OF assms this] show "fine (bound (ChainLoop e) ts) (bind_ng (filter_fn known p e r) (\<lambda>(e', r'). p (ChainLoop e') r'))"
        using ts by (intro fine_bind c) (auto simp: need_def bound_def)
    qed (simp add: bound_def)
  next
    case (FilterArgs e nm as)
    show ?thesis unfolding FilterArgs parse_step_def rule.case filterArgs_def
      by (intro intros) (auto simp: need_def bound_def FilterArgs)
  next
    case Assignment
    show ?thesis unfolding Assignment parse_step_def rule.case assignment_def
      by (intro intros) (auto simp: need_def bound_def Assignment intro!: intros)
  next
    case Ternary
    show ?thesis unfolding Ternary parse_step_def rule.case ternary_def
      by (intro intros) (auto simp: need_def bound_def Ternary)
  next
    case Unary
    show ?thesis unfolding Unary parse_step_def rule.case unary_def
      by (intro intros) (auto simp: need_def bound_def Unary)
  next
    case (Statements acc)
    then show ?thesis using fine_statements assms by (simp add: parse_step_def bound_def)
  next
    case FilterChain
    show ?thesis unfolding FilterChain parse_step_def rule.case filterChain_def
      by (intro intros) (auto simp: need_def bound_def FilterChain)
  next
    case LogicalOR
    show ?thesis unfolding LogicalOR parse_step_def rule.case logicalOR_def
      by (intro intros) (auto simp: need_def bound_def LogicalOR)
  next
    case Additive
    show ?thesis unfolding Additive parse_step_def rule.case additive_def
      by (intro intros) (auto simp: need_def bound_def Additive)
  next
    case Multiplicative
    show ?thesis unfolding Multiplicative parse_step_def rule.case multiplicative_def
      by (intro intros) (auto simp: need_def bound_def Multiplicative)
  next
    case (PrimaryLoop e cx)
    with fine_primary_loop [OF assms] show ?thesis by (simp add: parse_step_def bound_def need_def)
  next
    case Primary
    with fine_primary [OF assms] show ?thesis by (simp add: parse_step_def bound_def need_def)
  next
    case (CallArgs fn cx as)
    with fine_call_args [OF assms] show ?thesis by (simp add: parse_step_def bound_def need_def)
  next
    case (ArrayElems acc)
    with fine_array [OF assms] show ?thesis by (simp add: parse_step_def bound_def need_def)
  next
    case (ObjectElems acc)
    with fine_object [OF assms] show ?thesis by (simp add: parse_step_def bound_def need_def)
  next
    case (OrLoop e)
    with fine_binary_loop [OF assms] show ?thesis by (simp add: parse_step_def orLoop_def bound_def need_def)
  next
    case (AddLoop e)
    with fine_binary_loop [OF assms] show ?thesis by (simp add: parse_step_def addLoop_def bound_def need_def)
  next
    case (MulLoop e)
    with fine_binary_loop [OF assms] show ?thesis by (simp add: parse_step_def mulLoop_def bound_def need_def)
  next
    case LogicalAND
    with fine_binary_right [OF assms] show ?thesis by (simp add: parse_step_def logicalAND_def bound_def need_def)
  next
    case Equality
    with fine_binary_right [OF assms] show ?thesis by (simp add: parse_step_def equality_def bound_def need_def)
  next
    case Relational
    with fine_binary_right [OF assms] show ?thesis by (simp add: parse_step_def relational_def bound_def need_def)
  qed
qed

lemma fuel_suffices: "need rl ts < n \<Longrightarrow> fine (bound rl ts) (parse_rule known n rl ts)"
proof (induction n arbitrary: rl ts)
  case (Suc n)
  then have "supplied (parse_rule known n) (need rl ts)" by (simp add: supplied_def)
  then show ?case by (simp add: fine_step)
qed simp
text \<open>The lexer has no fuel to run out of.\<close>

lemma lex_step_fuel: "lex_step i s \<noteq> Inl OutOfFuel"
proof -
  have n: "readNumber m u \<noteq> Inl OutOfFuel" for m u
    by (induction u arbitrary: m) (auto simp: bind_ng_Inl number_step_def split: if_splits)
  have q: "readString c raw str u \<noteq> Inl OutOfFuel" for c raw str u
    by (induction c raw str u rule: readString.induct) (auto split: list.splits option.splits)
  have d: "readIdent i u \<noteq> Inl OutOfFuel" for u
    using check_keys_fuel by (auto simp: readIdent_def ident_tok_def bind_ng_Inl Let_def split: prod.splits if_splits)
  have b: "bind_ng m f \<noteq> Inl OutOfFuel" if "m \<noteq> Inl OutOfFuel" "\<And>x. f x \<noteq> Inl OutOfFuel" for m :: "'b ng" and f :: "'b \<Rightarrow> 'c ng"
    using that by (cases m) auto
  have w: "(case r of Some fn \<Rightarrow> Inr (g fn) | None \<Rightarrow> Inl (LexError t)) \<noteq> Inl OutOfFuel" for r t and g :: "string \<Rightarrow> token list \<times> string"
    by (cases r) simp_all
  show ?thesis
    by (cases s) (simp_all add: lex_step_def d w b n q split_beta del: readNumber.simps readString.simps)
qed

lemma lex_loop_fuel: "lex_loop i s \<noteq> Inl OutOfFuel"
proof (induction i s rule: lex_loop.induct)
  case (1 i s)
  then show ?case using lex_step_fuel [of i s]
    by (auto simp: lex_loop.simps [of i s] bind_ng_Inl split: sum.splits)
qed

lemma lex_fuel: "lex text \<noteq> Inl OutOfFuel"
  by (simp add: lex_def lex_loop_fuel)

section \<open>Properties\<close>

text \<open>C15: The parser always returns: for every text, whatever it holds and whatever filters there
  are, lexing and parsing end with an expression or with one of the errors of the code,
  and never because the fuel of the model is used up.\<close>

theorem parse_returns: "parse known src \<noteq> Inl OutOfFuel"
proof (cases "lex src")
  case (Inl e)
  then show ?thesis using lex_fuel [of src] by (simp add: parse_def)
next
  case (Inr us)
  let ?ts = "map t_tok us"
  have "fine (bound (Statements []) ?ts) (parse_rule known (parse_fuel ?ts) (Statements []) ?ts)"
    by (rule fuel_suffices) (simp add: need_def parse_fuel_def)
  then show ?thesis using Inr by (auto simp: parse_def Let_def fine_def bind_ng_def split: sum.splits)
qed

end
