(* ===== verification/Ng_Print.thy ===== *)
theory Ng_Print
  imports Ng_Parse
begin

text \<open>
  Expressions printed as text are parsed back. \<open>gives\<close> states what a method of the parser
  returns with enough fuel; the lemmas on the levels of the operators carry an operand up
  to the level of what follows it, those on \<open>primes\<close> build a primary expression out of its
  parts.
\<close>

section \<open>Rendered expressions\<close>

definition gives :: "(string \<Rightarrow> bool) \<Rightarrow> rule \<Rightarrow> tok list \<Rightarrow> ngexp \<Rightarrow> tok list \<Rightarrow> bool" where
  "gives known rl ts e rest = (\<forall>n. need rl ts < n \<longrightarrow> parse_rule known n rl ts = Inr (e, rest))"

lemma givesI:
  assumes "\<And>p. (\<And>rl' ts' e' r'. gives known rl' ts' e' r' \<Longrightarrow> need rl' ts' < need rl ts \<Longrightarrow> p rl' ts' = Inr (e', r')) \<Longrightarrow>
    parse_step known p rl ts = Inr (e, rest)"
  shows "gives known rl ts e rest"
  unfolding gives_def
proof (intro allI impI)
  fix n assume "need rl ts < n"
  then obtain m where m: "n = Suc m" "need rl ts \<le> m" by (cases n) auto
  have "parse_step known (parse_rule known m) rl ts = Inr (e, rest)"
    by (rule assms) (use m in \<open>auto simp: gives_def\<close>)
  then show "parse_rule known n rl ts = Inr (e, rest)" by (simp add: m)
qed

lemma gives_shorter: "gives known rl ts e rest \<Longrightarrow> length rest < bound rl ts"
  using fuel_suffices [of rl ts "Suc (need rl ts)" known] by (auto simp: gives_def)

definition stops :: "string list \<Rightarrow> tok list \<Rightarrow> bool" where
  "stops ops rest = (expect ops rest = None)"

lemma stops_simps [simp]: "stops ops []" "stops ops (t # ts) \<longleftrightarrow> tok_text t \<notin> set ops"
  by (auto simp: stops_def expect_def)

lemma expect_simps [simp]:
  "expect ops [] = None"
  "expect ops (t # ts) = (if tok_text t \<in> set ops then Some (t, ts) else None)"
  by (simp_all add: expect_def)

lemmas parse_defs = parse_step_def then_parse_def binary_loop_def stops_def

lemma then_parse_eq: "p r ts = Inr (e, ts') \<Longrightarrow> then_parse p r ts f = f e ts'"
  by (simp add: then_parse_def)

text \<open>A loop that finds none of its operators returns; a method whose operand is followed by none of
  its operators returns the operand.\<close>

lemma gives_loops:
  "stops [''||''] ts \<Longrightarrow> gives known (OrLoop e) ts e ts"
  "stops [''+'', ''-''] ts \<Longrightarrow> gives known (AddLoop e) ts e ts"
  "stops [''*'', ''/'', ''%''] ts \<Longrightarrow> gives known (MulLoop e) ts e ts"
  "stops [''|''] ts \<Longrightarrow> gives known (ChainLoop e) ts e ts"
  "stops [''('', ''['', ''.''] ts \<Longrightarrow> gives known (PrimaryLoop e c) ts e ts"
  by (rule givesI; simp add: parse_defs orLoop_def addLoop_def mulLoop_def chainLoop_def primaryLoop_def)+

lemma gives_then:
  assumes "\<And>p. parse_step known p rl ts = then_parse p rl1 ts (\<lambda>e r. p (f e) r)" "weight rl1 < weight rl" "\<And>e. weight (f e) \<le> 16"
    and "\<not> may_stop rl1" "gives known rl1 ts e1 r1" "gives known (f e1) r1 e rest"
  shows "gives known rl ts e rest"
proof (rule givesI)
  fix p :: parser
  assume H: "\<And>rl' ts' e' r'. gives known rl' ts' e' r' \<Longrightarrow> need rl' ts' < need rl ts \<Longrightarrow> p rl' ts' = Inr (e', r')"
  have "p rl1 ts = Inr (e1, r1)" using H [OF assms(5)] assms(2) by (simp add: need_def)
  moreover have "p (f e1) r1 = Inr (e, rest)"
  proof (rule H [OF assms(6)])
    have "length r1 < length ts" using gives_shorter [OF assms(5)] assms(4) by (simp add: bound_def)
    then show "need (f e1) r1 < need rl ts" using assms(2) assms(3) [of e1] by (simp add: need_def)
  qed
  ultimately show "parse_step known p rl ts = Inr (e, rest)" by (simp add: assms(1) then_parse_def)
qed

lemma gives_loop_step:
  assumes "\<And>p. parse_step known p (loop l) (TOp op # ts) = binary_loop p ops operand loop l (TOp op # ts)"
    and "op \<in> set ops" "weight operand \<le> 10" "\<not> may_stop operand" "\<And>e. weight (loop e) = 1"
    and e: "gives known operand ts e r" "gives known (loop (EBin op l e)) r x rest"
  shows "gives known (loop l) (TOp op # ts) x rest"
proof (rule givesI)
  fix p :: parser
  assume H: "\<And>rl' ts' e' r'. gives known rl' ts' e' r' \<Longrightarrow> need rl' ts' < need (loop l) (TOp op # ts) \<Longrightarrow> p rl' ts' = Inr (e', r')"
  have "p operand ts = Inr (e, r)" using H [OF e(1)] assms(3,5) by (simp add: need_def)
  moreover have "p (loop (EBin op l e)) r = Inr (x, rest)"
    using H [OF e(2)] gives_shorter [OF e(1)] assms(4,5) by (simp add: need_def bound_def)
  ultimately show "parse_step known p (loop l) (TOp op # ts) = Inr (x, rest)"
    using assms(1,2) by (simp add: binary_loop_def then_parse_def)
qed

lemma gives_right_stop:
  assumes "\<And>p. parse_step known p self ts = binary_right p ops operand self ts" "weight operand < weight self"
    and "gives known operand ts e rest" "stops ops rest"
  shows "gives known self ts e rest"
proof (rule givesI)
  fix p :: parser
  assume H: "\<And>rl' ts' e' r'. gives known rl' ts' e' r' \<Longrightarrow> need rl' ts' < need self ts \<Longrightarrow> p rl' ts' = Inr (e', r')"
  have "p operand ts = Inr (e, rest)" using H [OF assms(3)] assms(2) by (simp add: need_def)
  then show "parse_step known p self ts = Inr (e, rest)"
    using assms(1,4) by (simp add: binary_right_def then_parse_def stops_def)
qed

lemma gives_right_step:
  assumes "\<And>p. parse_step known p self ts = binary_right p ops operand self ts" "weight operand < weight self" "\<not> may_stop operand"
    and "op \<in> set ops" "gives known operand ts a (TOp op # r)" "gives known self r b rest"
  shows "gives known self ts (EBin op a b) rest"
proof (rule givesI)
  fix p :: parser
  assume H: "\<And>rl' ts' e' r'. gives known rl' ts' e' r' \<Longrightarrow> need rl' ts' < need self ts \<Longrightarrow> p rl' ts' = Inr (e', r')"
  have "p operand ts = Inr (a, TOp op # r)" using H [OF assms(5)] assms(2) by (simp add: need_def)
  moreover have "p self r = Inr (b, rest)"
    using H [OF assms(6)] gives_shorter [OF assms(5)] assms(3) by (simp add: need_def bound_def)
  ultimately show "parse_step known p self ts = Inr (EBin op a b, rest)"
    using assms(1,4) by (simp add: binary_right_def then_parse_def)
qed

text \<open>The levels of the binary operators.\<close>

lemma level_steps:
  "parse_step known p (OrLoop l) ts = binary_loop p [''||''] LogicalAND OrLoop l ts"
  "parse_step known p (AddLoop l) ts = binary_loop p [''+'', ''-''] Multiplicative AddLoop l ts"
  "parse_step known p (MulLoop l) ts = binary_loop p [''*'', ''/'', ''%''] Unary MulLoop l ts"
  "parse_step known p LogicalAND ts = binary_right p [''&&''] Equality LogicalAND ts"
  "parse_step known p Equality ts = binary_right p [''=='', ''!='', ''==='', ''!==''] Relational Equality ts"
  "parse_step known p Relational ts = binary_right p [''<'', ''>'', ''<='', ''>=''] Additive Relational ts"
  "parse_step known p LogicalOR ts = then_parse p LogicalAND ts (\<lambda>l r. p (OrLoop l) r)"
  "parse_step known p Additive ts = then_parse p Multiplicative ts (\<lambda>l r. p (AddLoop l) r)"
  "parse_step known p Multiplicative ts = then_parse p Unary ts (\<lambda>l r. p (MulLoop l) r)"
  "parse_step known p FilterChain ts = then_parse p Assignment ts (\<lambda>l r. p (ChainLoop l) r)"
  by (simp_all add: parse_step_def orLoop_def addLoop_def mulLoop_def logicalAND_def equality_def relational_def
      logicalOR_def additive_def multiplicative_def filterChain_def)

lemma gives_up:
  "gives known Unary ts e r \<Longrightarrow> gives known (MulLoop e) r x rest \<Longrightarrow> gives known Multiplicative ts x rest"
  "gives known Multiplicative ts e r \<Longrightarrow> gives known (AddLoop e) r x rest \<Longrightarrow> gives known Additive ts x rest"
  "gives known LogicalAND ts e r \<Longrightarrow> gives known (OrLoop e) r x rest \<Longrightarrow> gives known LogicalOR ts x rest"
  "gives known Assignment ts e r \<Longrightarrow> gives known (ChainLoop e) r x rest \<Longrightarrow> gives known FilterChain ts x rest"
  by (rule gives_then [OF level_steps(9)]; simp; fail | rule gives_then [OF level_steps(8)]; simp; fail
    | rule gives_then [OF level_steps(7)]; simp; fail | rule gives_then [OF level_steps(10)]; simp; fail)+

lemma gives_right:
  "gives known Equality ts e rest \<Longrightarrow> stops [''&&''] rest \<Longrightarrow> gives known LogicalAND ts e rest"
  "gives known Relational ts e rest \<Longrightarrow> stops [''=='', ''!='', ''==='', ''!==''] rest \<Longrightarrow> gives known Equality ts e rest"
  "gives known Additive ts e rest \<Longrightarrow> stops [''<'', ''>'', ''<='', ''>=''] rest \<Longrightarrow> gives known Relational ts e rest"
  by (rule gives_right_stop [OF level_steps(4)]; simp; fail | rule gives_right_stop [OF level_steps(5)]; simp; fail
    | rule gives_right_stop [OF level_steps(6)]; simp; fail)+

lemma gives_ternary_stop: "gives known LogicalOR ts e rest \<Longrightarrow> stops [''?''] rest \<Longrightarrow> gives known Ternary ts e rest"
  by (rule givesI) (simp add: parse_step_def ternary_def then_parse_def stops_def need_def)

lemma gives_assignment_stop: "gives known Ternary ts e rest \<Longrightarrow> stops [''=''] rest \<Longrightarrow> gives known Assignment ts e rest"
  by (rule givesI) (simp add: parse_step_def assignment_def then_parse_def stops_def need_def)

definition no_sign :: "tok list \<Rightarrow> bool" where
  "no_sign ts = (ts \<noteq> [] \<and> tok_text (hd ts) \<notin> {''+'', ''-'', ''!''})"

lemma gives_unary: "gives known Primary ts e rest \<Longrightarrow> no_sign ts \<Longrightarrow> gives known Unary ts e rest"
  by (rule givesI; cases ts) (auto simp: parse_step_def unary_def no_sign_def need_def)

definition closes :: "tok list \<Rightarrow> bool" where
  "closes rest = (rest = [] \<or> tok_text (hd rest) \<in> {'')'', '']'', '','', '':'', '';'', ''}''})"

lemma closes_stops:
  "closes rest \<Longrightarrow> stops [''*'', ''/'', ''%''] rest"
  "closes rest \<Longrightarrow> stops [''+'', ''-''] rest"
  "closes rest \<Longrightarrow> stops [''<'', ''>'', ''<='', ''>=''] rest"
  "closes rest \<Longrightarrow> stops [''=='', ''!='', ''==='', ''!==''] rest"
  "closes rest \<Longrightarrow> stops [''&&''] rest"
  "closes rest \<Longrightarrow> stops [''||''] rest"
  "closes rest \<Longrightarrow> stops [''?''] rest"
  "closes rest \<Longrightarrow> stops [''=''] rest"
  "closes rest \<Longrightarrow> stops [''|''] rest"
  "closes rest \<Longrightarrow> stops [''('', ''['', ''.''] rest"
  by (cases rest; auto simp: closes_def)+

text \<open>An operand climbs up to the level of the operator that follows it.\<close>

lemma climb_mul: "gives known Unary ts e rest \<Longrightarrow> stops [''*'', ''/'', ''%''] rest \<Longrightarrow> gives known Multiplicative ts e rest"
  by (rule gives_up(1) [OF _ gives_loops(3)])

lemma climb_add:
  "gives known Multiplicative ts e rest \<Longrightarrow> stops [''+'', ''-''] rest \<Longrightarrow> gives known Additive ts e rest"
  by (rule gives_up(2) [OF _ gives_loops(2)])

lemma climb_or:
  "gives known LogicalAND ts e rest \<Longrightarrow> stops [''||''] rest \<Longrightarrow> gives known LogicalOR ts e rest"
  by (rule gives_up(3) [OF _ gives_loops(1)])

lemma climb_chain:
  "gives known Assignment ts e rest \<Longrightarrow> stops [''|''] rest \<Longrightarrow> gives known FilterChain ts e rest"
  by (rule gives_up(4) [OF _ gives_loops(4)])

lemma climb_closed:
  "closes rest \<Longrightarrow> gives known Additive ts e rest \<Longrightarrow> gives known Relational ts e rest"
  "closes rest \<Longrightarrow> gives known Relational ts e rest \<Longrightarrow> gives known Equality ts e rest"
  "closes rest \<Longrightarrow> gives known Equality ts e rest \<Longrightarrow> gives known LogicalAND ts e rest"
  "closes rest \<Longrightarrow> gives known LogicalAND ts e rest \<Longrightarrow> gives known LogicalOR ts e rest"
  "closes rest \<Longrightarrow> gives known LogicalOR ts e rest \<Longrightarrow> gives known Ternary ts e rest"
  "closes rest \<Longrightarrow> gives known Ternary ts e rest \<Longrightarrow> gives known Assignment ts e rest"
  "closes rest \<Longrightarrow> gives known Assignment ts e rest \<Longrightarrow> gives known FilterChain ts e rest"
  by (simp_all add: closes_stops gives_right climb_or climb_chain gives_ternary_stop gives_assignment_stop)

lemma climb_or_stop:
  assumes "gives known Unary ts e (t # r)"
    and "tok_text t \<notin> set [''*'', ''/'', ''%'', ''+'', ''-'', ''<'', ''>'', ''<='', ''>='', ''=='', ''!='', ''==='', ''!=='', ''&&'', ''||'']"
  shows "gives known LogicalOR ts e (t # r)"
  using assms by (intro climb_or gives_right climb_add climb_mul) simp_all

lemma climb_unary: "gives known Unary ts e rest \<Longrightarrow> closes rest \<Longrightarrow> gives known LogicalOR ts e rest"
  by (intro climb_closed climb_add climb_mul) (simp_all add: closes_stops)

lemma climb_expression: "gives known Unary ts e rest \<Longrightarrow> closes rest \<Longrightarrow> gives known Assignment ts e rest"
  by (intro climb_closed(5,6) climb_unary)

definition BINARY :: "string list" where
  "BINARY = [''*'', ''/'', ''%'', ''+'', ''-'', ''<'', ''>'', ''<='', ''>='', ''=='', ''!='', ''==='', ''!=='', ''&&'', ''||'']"

lemma binary_mul:
  assumes "op \<in> set [''*'', ''/'', ''%'']" "gives known Unary ts a (TOp op # r)" "gives known Unary r b rest" "closes rest"
  shows "gives known LogicalOR ts (EBin op a b) rest"
proof -
  have "gives known (MulLoop a) (TOp op # r) (EBin op a b) rest"
    by (rule gives_loop_step [OF level_steps(3) assms(1) _ _ _ assms(3) gives_loops(3)])
      (use assms(4) in \<open>simp_all add: closes_stops\<close>)
  from gives_up(1) [OF assms(2) this] assms(4) show ?thesis by (intro climb_closed climb_add) (simp_all add: closes_stops)
qed

lemma binary_add:
  assumes "op \<in> set [''+'', ''-'']" "gives known Unary ts a (TOp op # r)" "gives known Unary r b rest" "closes rest"
  shows "gives known LogicalOR ts (EBin op a b) rest"
proof -
  have b: "gives known Multiplicative r b rest" using assms(3,4) by (simp add: climb_mul closes_stops)
  have "gives known (AddLoop a) (TOp op # r) (EBin op a b) rest"
    by (rule gives_loop_step [OF level_steps(2) assms(1) _ _ _ b gives_loops(2)])
      (use assms(4) in \<open>simp_all add: closes_stops\<close>)
  moreover have "gives known Multiplicative ts a (TOp op # r)" using assms(1,2) by (auto intro: climb_mul)
  ultimately show ?thesis using assms(4) gives_up(2) by (blast intro: climb_closed)
qed

lemma binary_relational:
  assumes "op \<in> set [''<'', ''>'', ''<='', ''>='']" "gives known Unary ts a (TOp op # r)" "gives known Unary r b rest" "closes rest"
  shows "gives known LogicalOR ts (EBin op a b) rest"
proof -
  have "gives known Relational r b rest" using assms(3,4) by (intro climb_closed climb_add climb_mul) (simp_all add: closes_stops)
  moreover have "gives known Additive ts a (TOp op # r)" using assms(1,2) by (intro climb_add climb_mul) auto
  ultimately have "gives known Relational ts (EBin op a b) rest"
    by (intro gives_right_step [OF level_steps(6) _ _ assms(1)]) simp_all
  with assms(4) show ?thesis by (blast intro: climb_closed)
qed

lemma binary_equality:
  assumes "op \<in> set [''=='', ''!='', ''==='', ''!=='']" "gives known Unary ts a (TOp op # r)" "gives known Unary r b rest" "closes rest"
  shows "gives known LogicalOR ts (EBin op a b) rest"
proof -
  have "gives known Equality r b rest" using assms(3,4) by (intro climb_closed climb_add climb_mul) (simp_all add: closes_stops)
  moreover have "gives known Relational ts a (TOp op # r)" using assms(1,2) by (intro gives_right climb_add climb_mul) auto
  ultimately have "gives known Equality ts (EBin op a b) rest"
    by (intro gives_right_step [OF level_steps(5) _ _ assms(1)]) simp_all
  with assms(4) show ?thesis by (blast intro: climb_closed)
qed

lemma binary_and:
  assumes "gives known Unary ts a (TOp ''&&'' # r)" "gives known Unary r b rest" "closes rest"
  shows "gives known LogicalOR ts (EBin ''&&'' a b) rest"
proof -
  have "gives known LogicalAND r b rest" using assms(2,3) by (intro climb_closed climb_add climb_mul) (simp_all add: closes_stops)
  moreover have "gives known Equality ts a (TOp ''&&'' # r)" using assms(1) by (intro gives_right climb_add climb_mul) auto
  ultimately have "gives known LogicalAND ts (EBin ''&&'' a b) rest"
    by (intro gives_right_step [OF level_steps(4)]) simp_all
  with assms(3) show ?thesis by (blast intro: climb_closed)
qed

lemma binary_or:
  assumes "gives known Unary ts a (TOp ''||'' # r)" "gives known Unary r b rest" "closes rest"
  shows "gives known LogicalOR ts (EBin ''||'' a b) rest"
proof -
  have b: "gives known LogicalAND r b rest" using assms(2,3) by (intro climb_closed climb_add climb_mul) (simp_all add: closes_stops)
  have "gives known (OrLoop a) (TOp ''||'' # r) (EBin ''||'' a b) rest"
    by (rule gives_loop_step [OF level_steps(1) _ _ _ _ b gives_loops(1)])
      (use assms(3) in \<open>simp_all add: closes_stops\<close>)
  moreover have "gives known LogicalAND ts a (TOp ''||'' # r)" using assms(1) by (intro gives_right climb_add climb_mul) auto
  ultimately show ?thesis by (rule gives_up(3) [rotated])
qed

lemma binary_any:
  "op \<in> set BINARY \<Longrightarrow> gives known Unary ts a (TOp op # r) \<Longrightarrow> gives known Unary r b rest \<Longrightarrow> closes rest \<Longrightarrow>
    gives known LogicalOR ts (EBin op a b) rest"
  using binary_mul [of op] binary_add [of op] binary_relational [of op] binary_equality [of op] binary_and binary_or
  unfolding BINARY_def by (auto 0 0)
text \<open>Tokens of a primary expression: what follows them is left to the loop of \<open>primary\<close>.\<close>

definition primes :: "(string \<Rightarrow> bool) \<Rightarrow> tok list \<Rightarrow> ngexp \<Rightarrow> ngexp option \<Rightarrow> bool" where
  "primes known ts o1 c \<longleftrightarrow> no_sign ts \<and>
     (\<forall>rest e r. gives known (PrimaryLoop o1 c) rest e r \<longrightarrow> gives known Primary (ts @ rest) e r)"

lemma primes_unary: "primes known ts e c \<Longrightarrow> stops [''('', ''['', ''.''] rest \<Longrightarrow> gives known Unary (ts @ rest) e rest"
  using gives_loops(5) [of rest known e c] gives_unary [of known "ts @ rest" e rest] by (simp add: primes_def no_sign_def)

lemma primes_expression: "primes known ts e c \<Longrightarrow> closes rest \<Longrightarrow> gives known Assignment (ts @ rest) e rest"
  by (simp add: climb_expression primes_unary closes_stops)

lemma prime_atom:
  assumes "tok_fn t = Some e" "tok_text t \<notin> {''('', ''['', ''{'', ''+'', ''-'', ''!''}"
  shows "primes known [t] e None"
proof -
  have "gives known Primary (t # rest) x r" if "gives known (PrimaryLoop e None) rest x r" for rest x r
    by (rule givesI) (use assms that in \<open>auto simp: parse_step_def primary_def need_def\<close>)
  then show ?thesis using assms(2) by (simp add: primes_def no_sign_def)
qed

lemma prime_paren:
  assumes "\<And>rest. gives known FilterChain (ts @ TPlain '')'' # rest) e (TPlain '')'' # rest)"
  shows "primes known (TPlain ''('' # ts @ [TPlain '')'']) e None"
proof -
  have "gives known Primary (TPlain ''('' # ts @ TPlain '')'' # rest) x r" if "gives known (PrimaryLoop e None) rest x r" for rest x r
    by (rule givesI) (use assms [of rest] that in \<open>simp add: parse_step_def primary_def then_parse_def need_def consume_def\<close>)
  then show ?thesis by (simp add: primes_def no_sign_def)
qed

text \<open>A step of the loop after a primary expression extends it.\<close>

lemma prime_extend:
  assumes "primes known ts o1 c"
    and "\<And>rest e r. gives known (PrimaryLoop o2 c2) rest e r \<Longrightarrow> gives known (PrimaryLoop o1 c) (us @ rest) e r"
  shows "primes known (ts @ us) o2 c2"
  using assms by (cases ts) (auto simp: primes_def no_sign_def)

lemma prime_field:
  assumes "primes known ts o1 c" "check_keys (path_keys f) = Inr ()"
  shows "primes known (ts @ [TPlain ''.'', TIdent f]) (EField o1 f) (Some o1)"
proof (rule prime_extend [OF assms(1)])
  fix rest e r assume "gives known (PrimaryLoop (EField o1 f) (Some o1)) rest e r"
  then show "gives known (PrimaryLoop o1 c) ([TPlain ''.'', TIdent f] @ rest) e r"
    by (intro givesI) (simp add: parse_step_def primaryLoop_def fieldAccess_def field_name_def assms(2) need_def)
qed

lemma prime_index:
  assumes "primes known ts o1 c" "primes known us i c1"
  shows "primes known (ts @ TPlain ''['' # us @ [TPlain '']'']) (EIndex o1 i) (Some o1)"
proof (rule prime_extend [OF assms(1)])
  fix rest e r assume g: "gives known (PrimaryLoop (EIndex o1 i) (Some o1)) rest e r"
  have i: "gives known Assignment (us @ TPlain '']'' # rest) i (TPlain '']'' # rest)"
    by (rule primes_expression [OF assms(2)]) (simp add: closes_def)
  show "gives known (PrimaryLoop o1 c) ((TPlain ''['' # us @ [TPlain '']'']) @ rest) e r"
    by (rule givesI) (use g i in \<open>simp add: parse_step_def primaryLoop_def objectIndex_def then_parse_def consume_def need_def\<close>)
qed

fun commas :: "tok list list \<Rightarrow> tok list" where
  "commas [] = []"
| "commas [x] = x"
| "commas (x # y # ys) = x @ TPlain '','' # commas (y # ys)"

abbreviation prints :: "(string \<Rightarrow> bool) \<Rightarrow> tok list \<Rightarrow> ngexp \<Rightarrow> bool" where
  "prints known ts e \<equiv> \<exists>c. primes known ts e c"

lemma prints_expression: "prints known ts e \<Longrightarrow> closes rest \<Longrightarrow> gives known Assignment (ts @ rest) e rest"
  by (auto intro: primes_expression)

text \<open>The lists of the elements of an array and of the arguments of a call and of a filter.\<close>

lemma call_args:
  "list_all2 (prints known) tss es \<Longrightarrow> es \<noteq> [] \<Longrightarrow>
    gives known (CallArgs fn c acc) (commas tss @ TPlain '')'' # rest) (ECall fn c (acc @ es)) rest"
proof (induction tss es arbitrary: acc rule: list_all2_induct)
  case (Cons ts tss e es)
  show ?case
  proof (cases tss)
    case Nil
    then have "es = []" using Cons.hyps by simp
    moreover have "gives known Assignment (ts @ TPlain '')'' # rest) e (TPlain '')'' # rest)"
      using Cons.hyps by (simp add: prints_expression closes_def)
    ultimately show ?thesis using Nil
      by (intro givesI) (simp add: parse_step_def callArgs_def then_parse_def close_def consume_def need_def)
  next
    case c: (Cons us uss)
    then have "es \<noteq> []" using Cons.hyps by auto
    then have l: "gives known (CallArgs fn c (acc @ [e])) (commas tss @ TPlain '')'' # rest) (ECall fn c (acc @ e # es)) rest"
      using Cons.IH [of "acc @ [e]"] by simp
    have "gives known Assignment (ts @ TPlain '','' # commas tss @ TPlain '')'' # rest) e (TPlain '','' # commas tss @ TPlain '')'' # rest)"
      using Cons.hyps by (simp add: prints_expression closes_def)
    with l c show ?thesis
      by (intro givesI) (simp add: parse_step_def callArgs_def then_parse_def need_def)
  qed
qed simp

definition no_bracket :: "tok list \<Rightarrow> bool" where
  "no_bracket ts = (ts \<noteq> [] \<and> tok_text (hd ts) \<notin> {'']'', '')'', ''}'', '';''})"

lemma array_elems:
  "list_all2 (\<lambda>ts e. prints known ts e \<and> no_bracket ts) tss es \<Longrightarrow> es \<noteq> [] \<Longrightarrow>
    gives known (ArrayElems acc) (commas tss @ TPlain '']'' # rest) (EArr (acc @ es)) rest"
proof (induction tss es arbitrary: acc rule: list_all2_induct)
  case (Cons ts tss e es)
  obtain t ts' where ts: "ts = t # ts'" "tok_text t \<noteq> '']''" using Cons.hyps by (cases ts) (auto simp: no_bracket_def)
  show ?case
  proof (cases tss)
    case Nil
    then have "es = []" using Cons.hyps by simp
    moreover have "gives known Assignment (ts @ TPlain '']'' # rest) e (TPlain '']'' # rest)"
      using Cons.hyps by (simp add: prints_expression closes_def)
    ultimately show ?thesis using Nil ts
      by (intro givesI) (simp add: parse_step_def arrayElems_def peeks_def then_parse_def close_def consume_def need_def)
  next
    case c: (Cons us uss)
    then have "es \<noteq> []" using Cons.hyps by auto
    then have l: "gives known (ArrayElems (acc @ [e])) (commas tss @ TPlain '']'' # rest) (EArr (acc @ e # es)) rest"
      using Cons.IH [of "acc @ [e]"] by simp
    have "gives known Assignment (ts @ TPlain '','' # commas tss @ TPlain '']'' # rest) e (TPlain '','' # commas tss @ TPlain '']'' # rest)"
      using Cons.hyps by (simp add: prints_expression closes_def)
    with l c ts show ?thesis
      by (intro givesI) (simp add: parse_step_def arrayElems_def peeks_def then_parse_def need_def)
  qed
qed simp

lemma filter_args:
  "list_all2 (prints known) tss es \<Longrightarrow> closes rest \<Longrightarrow> stops ['':''] rest \<Longrightarrow>
    gives known (FilterArgs l nm acc) (concat (map (\<lambda>ts. TPlain '':'' # ts) tss) @ rest) (EFilter l nm (acc @ es)) rest"
proof (induction tss es arbitrary: acc rule: list_all2_induct)
  case Nil
  then show ?case by (intro givesI) (simp add: parse_step_def filterArgs_def stops_def)
next
  case (Cons ts tss e es)
  let ?r = "concat (map (\<lambda>ts. TPlain '':'' # ts) tss) @ rest"
  have "closes ?r" using Cons.prems(1) by (cases tss) (simp_all add: closes_def)
  then have "gives known Assignment (ts @ ?r) e ?r" using Cons.hyps by (auto intro: primes_expression)
  with Cons.IH [OF Cons.prems, of "acc @ [e]"] show ?case
    by (intro givesI) (simp add: parse_step_def filterArgs_def then_parse_def need_def)
qed

lemma prime_call:
  assumes "primes known ts fn c" "list_all2 (\<lambda>ts e. prints known ts e \<and> no_bracket ts) tss es"
  shows "primes known (ts @ TPlain ''('' # commas tss @ [TPlain '')'']) (ECall fn c es) None"
proof (rule prime_extend [OF assms(1)])
  fix rest e r assume g: "gives known (PrimaryLoop (ECall fn c es) None) rest e r"
  show "gives known (PrimaryLoop fn c) ((TPlain ''('' # commas tss @ [TPlain '')'']) @ rest) e r"
  proof (cases es)
    case Nil
    with assms(2) g show ?thesis
      by (intro givesI) (simp add: parse_step_def primaryLoop_def functionCall_def peekToken_def close_def consume_def need_def)
  next
    case (Cons x xs)
    with assms(2) obtain t ts' uss where tss: "tss = (t # ts') # uss" "tok_text t \<noteq> '')''"
      by (cases tss) (auto simp: no_bracket_def neq_Nil_conv)
    have "list_all2 (prints known) tss es" using assms(2) by (auto elim: list_all2_mono)
    from call_args [OF this, of fn c "[]" rest] Cons
    have l: "gives known (CallArgs fn c []) (commas tss @ TPlain '')'' # rest) (ECall fn c es) rest" by simp
    have "commas tss = t # tl (commas tss)" using tss by (cases uss) auto
    then obtain u where u: "commas tss = t # u" by blast
    with g l tss(2) show ?thesis
      by (intro givesI) (simp add: parse_step_def primaryLoop_def functionCall_def peekToken_def need_def)
  qed
qed

lemma prime_array:
  assumes "list_all2 (\<lambda>ts e. prints known ts e \<and> no_bracket ts) tss es"
  shows "primes known (TPlain ''['' # commas tss @ [TPlain '']'']) (EArr es) None"
proof -
  have el: "gives known (ArrayElems []) (commas tss @ TPlain '']'' # rest) (EArr es) rest" for rest
  proof (cases "es = []")
    case True
    with assms show ?thesis by (intro givesI) (simp add: parse_step_def arrayElems_def peeks_def close_def consume_def)
  next
    case False
    from array_elems [OF assms False, of "[]" rest] show ?thesis by simp
  qed
  have "gives known Primary (TPlain ''['' # commas tss @ TPlain '']'' # rest) x r" if "gives known (PrimaryLoop (EArr es) None) rest x r" for rest x r
    by (intro givesI) (use that el [of rest] in \<open>simp add: parse_step_def primary_def then_parse_def need_def\<close>)
  then show ?thesis by (simp add: primes_def no_sign_def)
qed
text \<open>The tokens of an expression; operations are put in parentheses.\<close>

fun print :: "ngexp \<Rightarrow> tok list" where
  "print (ENum s) = [TNum s]"
| "print (EStr s) = [TStr (CHR 0x22 # s @ [CHR 0x22]) s]"
| "print (EConst s) = [TConst s]"
| "print (EPath s) = [TIdent s]"
| "print (ENot e) = TPlain ''('' # (TOp ''!'' # print e) @ [TPlain '')'']"
| "print (EBin op a b) = TPlain ''('' # (print a @ TOp op # print b) @ [TPlain '')'']"
| "print (ETernary a b c) = TPlain ''('' # (print a @ TPlain ''?'' # print b @ TPlain '':'' # print c) @ [TPlain '')'']"
| "print (EAssign a b) = TPlain ''('' # (print a @ TOp ''='' # print b) @ [TPlain '')'']"
| "print (EFilter a n es) =
     TPlain ''('' # (print a @ TOp ''|'' # TIdent n # concat (map (\<lambda>e. TPlain '':'' # print e) es)) @ [TPlain '')'']"
| "print (EField a f) = print a @ [TPlain ''.'', TIdent f]"
| "print (EIndex a i) = print a @ TPlain ''['' # print i @ [TPlain '']'']"
| "print (ECall a c es) = print a @ TPlain ''('' # commas (map print es) @ [TPlain '')'']"
| "print (EArr es) = TPlain ''['' # commas (map print es) @ [TPlain '']'']"
| "print _ = []"

text \<open>The context that the parser keeps of a call: the object before its last dot or bracket.\<close>

definition context_of :: "ngexp \<Rightarrow> ngexp option" where
  "context_of e = (case e of EField a _ \<Rightarrow> Some a | EIndex a _ \<Rightarrow> Some a | _ \<Rightarrow> None)"

fun printable :: "(string \<Rightarrow> bool) \<Rightarrow> ngexp \<Rightarrow> bool" where
  "printable known (ENum s) = lexable (TNum s)"
| "printable known (EStr s) = lexable (TStr (CHR 0x22 # s @ [CHR 0x22]) s)"
| "printable known (EConst s) = lexable (TConst s)"
| "printable known (EPath s) = lexable (TIdent s)"
| "printable known (ENot e) = printable known e"
| "printable known (EBin op a b) = (op \<in> set BINARY \<and> printable known a \<and> printable known b)"
| "printable known (ETernary a b c) = (printable known a \<and> printable known b \<and> printable known c)"
| "printable known (EAssign a b) = (has_assign a \<and> printable known a \<and> printable known b)"
| "printable known (EFilter a n es) = (known n \<and> lexable (TIdent n) \<and> printable known a \<and> list_all (printable known) es)"
| "printable known (EField a f) = (lexable (TIdent f) \<and> printable known a)"
| "printable known (EIndex a i) = (printable known a \<and> printable known i)"
| "printable known (ECall a c es) = (c = context_of a \<and> printable known a \<and> list_all (printable known) es)"
| "printable known (EArr es) = list_all (printable known) es"
| "printable known _ = False"

lemma lexable_check: "lexable (TIdent f) \<Longrightarrow> check_keys (path_keys f) = Inr ()"
  using name_chars(2) [of f] by (simp add: split_no_dot ensureSafeMemberName_def)

lemma lexable_atom:
  assumes "lexable t" "tok_fn t = Some e" "\<And>s. t \<noteq> TOp s"
  shows "tok_text t \<notin> {''('', ''['', ''{'', ''+'', ''-'', ''!'', '']'', '')'', ''}'', '';''}"
proof -
  have "hd (tok_text t) \<notin> set ''([{+-!])};''"
  proof (cases t)
    case (TNum s)
    then have "is_digit (hd s)" using assms(1) by (cases s) auto
    then show ?thesis using TNum by (auto simp: is_digit_def)
  next
    case (TStr raw s)
    then show ?thesis using assms(1) by simp
  next
    case (TConst s)
    then show ?thesis using assms(1) by (auto simp: CONSTANTS_def)
  next
    case (TIdent s)
    then have "isIdent (hd s)" using assms(1) by simp
    then show ?thesis using TIdent by (auto simp: isIdent_def is_alpha_def)
  qed (use assms in auto)
  then show ?thesis by auto
qed

lemma no_bracket_append: "no_bracket ts \<Longrightarrow> no_bracket (ts @ us)"
  by (cases ts) (auto simp: no_bracket_def)

lemma prime_lexable:
  assumes "lexable t" "tok_fn t = Some e" "\<And>s. t \<noteq> TOp s"
  shows "primes known [t] e None \<and> no_bracket [t]"
  using prime_atom [of t e known] lexable_atom [OF assms] assms(2) by (auto simp: no_bracket_def)

lemma print_binary:
  assumes "primes known ta a ca" "primes known tb b cb" "op \<in> set BINARY"
  shows "primes known (TPlain ''('' # (ta @ TOp op # tb) @ [TPlain '')'']) (EBin op a b) None"
proof (rule prime_paren)
  fix rest
  have c: "closes (TPlain '')'' # rest)" by (simp add: closes_def)
  have "stops [''('', ''['', ''.''] (TOp op # tb @ TPlain '')'' # rest)" using assms(3) by (auto simp: BINARY_def)
  from primes_unary [OF assms(1) this] primes_unary [OF assms(2) closes_stops(10) [OF c]]
  have "gives known LogicalOR (ta @ TOp op # tb @ TPlain '')'' # rest) (EBin op a b) (TPlain '')'' # rest)"
    by (rule binary_any [OF assms(3)]) (rule c)
  then show "gives known FilterChain ((ta @ TOp op # tb) @ TPlain '')'' # rest) (EBin op a b) (TPlain '')'' # rest)"
    using climb_closed(5-7) [OF c] by simp
qed

lemma print_not:
  assumes "primes known ta a ca"
  shows "primes known (TPlain ''('' # (TOp ''!'' # ta) @ [TPlain '')'']) (ENot a) None"
proof (rule prime_paren)
  fix rest
  have c: "closes (TPlain '')'' # rest)" by (simp add: closes_def)
  from primes_unary [OF assms closes_stops(10) [OF c]]
  have "gives known Unary (TOp ''!'' # ta @ TPlain '')'' # rest) (ENot a) (TPlain '')'' # rest)"
    by (intro givesI) (simp add: parse_step_def unary_def then_parse_def need_def)
  from climb_expression [OF this c] climb_closed(7) [OF c]
  show "gives known FilterChain ((TOp ''!'' # ta) @ TPlain '')'' # rest) (ENot a) (TPlain '')'' # rest)" by simp
qed

lemma print_ternary:
  assumes "primes known ta a ca" "primes known tb b cb" "primes known tc d cd"
  shows "primes known (TPlain ''('' # (ta @ TPlain ''?'' # tb @ TPlain '':'' # tc) @ [TPlain '')'']) (ETernary a b d) None"
proof (rule prime_paren)
  fix rest
  let ?r = "TPlain '')'' # rest"
  have c: "closes ?r" "closes (TPlain '':'' # tc @ ?r)" by (simp_all add: closes_def)
  have a: "gives known LogicalOR (ta @ TPlain ''?'' # tb @ TPlain '':'' # tc @ ?r) a (TPlain ''?'' # tb @ TPlain '':'' # tc @ ?r)"
    by (intro climb_or_stop primes_unary [OF assms(1)]) simp_all
  have "gives known Ternary (ta @ TPlain ''?'' # tb @ TPlain '':'' # tc @ ?r) (ETernary a b d) ?r"
    by (rule givesI)
      (use a primes_expression [OF assms(2) c(2)] primes_expression [OF assms(3) c(1)] in
        \<open>simp add: parse_step_def ternary_def then_parse_def need_def\<close>)
  then show "gives known FilterChain ((ta @ TPlain ''?'' # tb @ TPlain '':'' # tc) @ ?r) (ETernary a b d) ?r"
    using climb_closed(6,7) [OF c(1)] by simp
qed

lemma print_assign:
  assumes "primes known ta a ca" "primes known tb b cb" "has_assign a"
  shows "primes known (TPlain ''('' # (ta @ TOp ''='' # tb) @ [TPlain '')'']) (EAssign a b) None"
proof (rule prime_paren)
  fix rest
  let ?r = "TPlain '')'' # rest"
  have c: "closes ?r" by (simp add: closes_def)
  have "gives known LogicalOR (ta @ TOp ''='' # tb @ ?r) a (TOp ''='' # tb @ ?r)"
    by (intro climb_or_stop primes_unary [OF assms(1)]) simp_all
  then have a: "gives known Ternary (ta @ TOp ''='' # tb @ ?r) a (TOp ''='' # tb @ ?r)" by (rule gives_ternary_stop) simp
  have b: "gives known Ternary (tb @ ?r) b ?r"
    using primes_unary [OF assms(2) closes_stops(10) [OF c]] c by (intro climb_closed(5) climb_unary)
  have "gives known Assignment (ta @ TOp ''='' # tb @ ?r) (EAssign a b) ?r"
    by (rule givesI) (use a b assms(3) in \<open>simp add: parse_step_def assignment_def then_parse_def need_def\<close>)
  then show "gives known FilterChain ((ta @ TOp ''='' # tb) @ ?r) (EAssign a b) ?r" using climb_closed(7) [OF c] by simp
qed

lemma print_filter:
  assumes "primes known ta a ca" "list_all2 (prints known) tss es" "known nm"
  shows "primes known (TPlain ''('' # (ta @ TOp ''|'' # TIdent nm # concat (map (\<lambda>ts. TPlain '':'' # ts) tss)) @ [TPlain '')''])
    (EFilter a nm es) None"
proof (rule prime_paren)
  fix rest
  let ?r = "TPlain '')'' # rest"
  let ?as = "concat (map (\<lambda>ts. TPlain '':'' # ts) tss) @ ?r"
  have c: "closes ?r" by (simp add: closes_def)
  have "gives known LogicalOR (ta @ TOp ''|'' # TIdent nm # ?as) a (TOp ''|'' # TIdent nm # ?as)"
    by (intro climb_or_stop primes_unary [OF assms(1)]) simp_all
  then have a: "gives known Assignment (ta @ TOp ''|'' # TIdent nm # ?as) a (TOp ''|'' # TIdent nm # ?as)"
    by (intro gives_assignment_stop gives_ternary_stop) simp_all
  have f: "gives known (FilterArgs a nm []) ?as (EFilter a nm es) ?r"
    using filter_args [OF assms(2) c, of a nm "[]"] by simp
  have "gives known (ChainLoop a) (TOp ''|'' # TIdent nm # ?as) (EFilter a nm es) ?r"
    by (rule givesI) (use f gives_loops(4) [of ?r known "EFilter a nm es"] assms(3) in
      \<open>simp add: parse_step_def chainLoop_def filter_fn_def need_def\<close>)
  from gives_up(4) [OF a this]
  show "gives known FilterChain ((ta @ TOp ''|'' # TIdent nm # concat (map (\<lambda>ts. TPlain '':'' # ts) tss)) @ ?r) (EFilter a nm es) ?r"
    by simp
qed

lemma print_primes: "printable known e \<Longrightarrow> primes known (print e) e (context_of e) \<and> no_bracket (print e)"
proof (induction e)
  case (ECall a c es)
  then have "list_all2 (\<lambda>ts e. prints known ts e \<and> no_bracket ts) (map print es) es"
    by (auto simp: list_all2_map1 list_all2_same list_all_iff)
  moreover have "primes known (print a) a c" "no_bracket (print a)" using ECall by simp_all
  ultimately show ?case using prime_call by (simp add: context_of_def no_bracket_append)
next
  case (EArr es)
  then have "list_all2 (\<lambda>ts e. prints known ts e \<and> no_bracket ts) (map print es) es"
    by (auto simp: list_all2_map1 list_all2_same list_all_iff)
  then show ?case using prime_array by (simp add: context_of_def no_bracket_def)
next
  case (EFilter a nm es)
  then have "list_all2 (prints known) (map print es) es"
    by (auto simp: list_all2_map1 list_all2_same list_all_iff)
  moreover have "primes known (print a) a (context_of a)" "known nm" using EFilter by simp_all
  ultimately have "primes known (print (EFilter a nm es)) (EFilter a nm es) None"
    using print_filter [of known "print a" a "context_of a" "map print es" es nm] by (simp add: comp_def)
  then show ?case by (simp add: context_of_def no_bracket_def)
next
  case (ENum s)
  then show ?case using prime_lexable [of "TNum s"] by (simp add: context_of_def)
next
  case (EStr s)
  then show ?case using prime_lexable [of "TStr (CHR 0x22 # s @ [CHR 0x22]) s"] by (simp add: context_of_def)
next
  case (EConst s)
  then show ?case using prime_lexable [of "TConst s"] by (simp add: context_of_def)
next
  case (EPath s)
  then show ?case using prime_lexable [of "TIdent s"] by (simp add: context_of_def)
next
  case (EField a f)
  then have "check_keys (path_keys f) = Inr ()" by (intro lexable_check) simp
  with EField prime_field [of known "print a" a "context_of a" f] show ?case
    by (simp add: no_bracket_append context_of_def [of "EField a f"])
next
  case (EIndex a i)
  with prime_index [of known "print a" a "context_of a" "print i" i "context_of i"] show ?case
    by (simp add: no_bracket_append context_of_def [of "EIndex a i"])
qed (auto simp: context_of_def no_bracket_def intro: print_not [simplified] print_binary [simplified] print_ternary [simplified] print_assign [simplified])

lemma lexable_commas: "list_all (list_all lexable) tss \<Longrightarrow> list_all lexable (commas tss)"
  by (induction tss rule: commas.induct) auto

lemma lexable_print: "printable known e \<Longrightarrow> list_all lexable (print e)"
proof (induction e)
  case (ECall a c es)
  then have "list_all lexable (commas (map print es))" by (intro lexable_commas) (auto simp: list_all_iff)
  with ECall show ?case by simp
next
  case (EArr es)
  then have "list_all lexable (commas (map print es))" by (intro lexable_commas) (auto simp: list_all_iff)
  then show ?case by simp
next
  case (EBin op a b)
  then have "op \<in> set OPERATORS" by (auto simp: BINARY_def OPERATORS_def)
  with EBin show ?case by simp
next
  case (EFilter a nm es)
  then have "list_all (\<lambda>e. list_all lexable (print e)) es" by (auto simp: list_all_iff)
  then have "list_all lexable (concat (map (\<lambda>e. TPlain '':'' # print e) es))" by (induction es) simp_all
  with EFilter show ?case by (simp add: OPERATORS_def)
qed (simp_all add: OPERATORS_def)

section \<open>Properties\<close>

lemma parse_rendered:
  assumes "printable known e"
  shows "parse known (render (print e)) = Inr e"
proof -
  obtain us where us: "lex (render (print e)) = Inr us" "map t_tok us = print e"
    using lex_render [OF lexable_print [OF assms]] by blast
  have p: "primes known (print e) e (context_of e)" "no_bracket (print e)" using print_primes [OF assms] by simp_all
  have chain: "gives known FilterChain (print e) e []"
    using primes_expression [OF p(1), of "[]"] climb_closed(7) [of "[]" known "print e" e] by (simp add: closes_def)
  have "\<not> peeks [''}'', '')'', '';'', '']''] (print e) \<and> print e \<noteq> []"
    using p(2) by (cases "print e") (auto simp: peeks_def no_bracket_def)
  then have "gives known (Statements []) (print e) e []"
    by (intro givesI) (use chain in \<open>simp add: parse_step_def statements_def then_parse_def need_def\<close>)
  moreover have "length us = length (print e)" using us(2) by (metis length_map)
  ultimately show ?thesis using us by (simp add: parse_def gives_def need_def parse_fuel_def Let_def)
qed

text \<open>C10: Parsing undoes rendering: the text of an expression with its operations in parentheses
  (numbers, strings, constants, names, fields, indices, calls, arrays, negation, the
  binary operators, the conditional, assignments and filters) is parsed to exactly that
  expression, a call with the object it is made on as its context.\<close>

theorem parse_render:
  assumes "printable known e"
  shows "parse known (render (print e)) = Inr e"
  using assms by (rule parse_rendered)

theorem parse_render_witness:
  "parse (\<lambda>n. n = ''date'') (render (print
      (EFilter (EBin ''+'' (ECall (EField (EPath ''list'') ''size'') (Some (EPath ''list'')) []) (ENum ''10'')) ''date'' [EStr ''yy'']))) =
    Inr (EFilter (EBin ''+'' (ECall (EField (EPath ''list'') ''size'') (Some (EPath ''list'')) []) (ENum ''10'')) ''date'' [EStr ''yy''])"
  by (rule parse_render)
    (simp add: BINARY_def context_of_def isIdent_def is_alpha_def is_digit_def CONSTANTS_def OPERATORS_def unsafe_names_def)

end
