(* ===== verification/Ng_Eval.thy ===== *)
theory Ng_Eval
  imports Ng_Parse
begin

text \<open>
  What the closures built by the parser do: reading and writing paths, the operators and the
  evaluation of an expression on a scope, without locals and without unwrapping promises.
  A scope is a tree of values, so a value that is reached on two ways is not shared, and the
  place a value was read from is its path from the scope. Where the result is not a value
  of \<open>Js\<close> (a fraction, a comparison of objects by identity, a change of a function or of an object
  that a call returned) the model answers \<open>Unmodelled\<close>. Calls and filters are parameters. The
  scope after an error is not modelled.
\<close>

section \<open>Members\<close>

text \<open>The constructors a value inherits, by their identities, and the methods of functions.\<close>

definition js_Function :: jsval where "js_Function = JFun 1 ''Function''"
definition js_Object :: jsval where "js_Object = JFun 2 ''Object''"
definition fn_methods :: "jsval list" where
  "fn_methods = [JFun 7 ''call'', JFun 8 ''apply'', JFun 9 ''bind'']"

definition ctor :: "jsval \<Rightarrow> jsval" where
  "ctor v = (case v of JObj _ \<Rightarrow> js_Object | JArr _ \<Rightarrow> JFun 6 ''Array'' | JStr _ \<Rightarrow> JFun 3 ''String''
     | JNum _ \<Rightarrow> JFun 4 ''Number'' | JBool _ \<Rightarrow> JFun 5 ''Boolean'' | _ \<Rightarrow> js_Function)"

definition array_index :: "string \<Rightarrow> nat option" where
  "array_index k = (if k \<noteq> [] \<and> list_all is_digit k \<and> nat_digits (digits_value k) = k then Some (digits_value k) else None)"

definition member :: "jsval \<Rightarrow> string \<Rightarrow> jsval" where
  "member v k =
     (let inh = (if k = ''constructor'' then ctor v else js_prop v k) in
      case v of
        JObj ob \<Rightarrow> (case obj_get ob k of Some w \<Rightarrow> w | None \<Rightarrow> inh)
      | JArr xs \<Rightarrow> (case array_index k of Some i \<Rightarrow> if i < length xs then xs ! i else JUndef | None \<Rightarrow> inh)
      | JFun _ _ \<Rightarrow> (case find (\<lambda>f. f = JFun 7 k \<or> f = JFun 8 k \<or> f = JFun 9 k) fn_methods of Some f \<Rightarrow> f | None \<Rightarrow> inh)
      | _ \<Rightarrow> inh)"

text \<open>Setting a member; a primitive has none that can be set (strict mode).\<close>

definition put_member :: "jsval \<Rightarrow> string \<Rightarrow> jsval \<Rightarrow> jsval ng" where
  "put_member v k w = (case v of
     JObj ob \<Rightarrow> Inr (JObj (obj_put k w ob))
   | JArr xs \<Rightarrow> (case array_index k of
       Some i \<Rightarrow> Inr (JArr (if i < length xs then xs[i := w] else xs @ replicate (i - length xs) JUndef @ [w]))
     | None \<Rightarrow> Inl Unmodelled)
   | JFun _ _ \<Rightarrow> Inl Unmodelled
   | _ \<Rightarrow> Inl NoProperty)"

section \<open>The sandbox\<close>

text \<open>The function constructor, windows, elements and \<open>Object\<close> are refused.\<close>

definition is_window :: "jsval \<Rightarrow> bool" where
  "is_window v = (truthy (member v ''document'') \<and> truthy (member v ''location'') \<and> truthy (member v ''alert'') \<and>
     truthy (member v ''setInterval''))"

definition is_element :: "jsval \<Rightarrow> bool" where
  "is_element v = (truthy (member v ''children'') \<and> (truthy (member v ''nodeName'') \<or>
     truthy (member v ''prop'') \<and> truthy (member v ''attr'') \<and> truthy (member v ''find'')))"

definition ensureSafeObject :: "jsval \<Rightarrow> jsval ng" where
  "ensureSafeObject v = (if truthy v \<and> (member v ''constructor'' = v \<or> is_window v \<or> is_element v \<or> v = js_Object)
     then Inl DisallowedObject else Inr v)"

definition ensureSafeFunction :: "jsval \<Rightarrow> unit ng" where
  "ensureSafeFunction v = (if truthy v \<and> member v ''constructor'' = v then Inl DisallowedObject
     else if v \<in> set fn_methods then Inl DisallowedFunction else Inr ())"

section \<open>Paths\<close>

definition is_null :: "jsval \<Rightarrow> bool" where
  "is_null v = (v = JUndef \<or> v = JNull)"

definition dangerous :: "string \<Rightarrow> bool" where
  "dangerous name = (name = ''constructor'')"

definition eso_member :: "string \<Rightarrow> jsval \<Rightarrow> jsval ng" where
  "eso_member k v = (if dangerous k then ensureSafeObject (member v k) else Inr (member v k))"

text \<open>The locals are read instead of the scope if they have the first key themselves.\<close>

definition pick_root :: "jsval \<Rightarrow> string \<Rightarrow> jsval \<Rightarrow> jsval" where
  "pick_root locals k s = (case locals of JObj ob \<Rightarrow> if obj_has ob k then locals else s | _ \<Rightarrow> s)"

text \<open>The function that \<open>getterFn\<close> generates as source text: one line for every key.\<close>

fun gen_keys :: "string list \<Rightarrow> jsval \<Rightarrow> jsval ng" where
  "gen_keys [] s = Inr s"
| "gen_keys (k # ks) s = (if is_null s then Inr JUndef else bind_ng (eso_member k s) (gen_keys ks))"

definition generated_getter :: "string \<Rightarrow> jsval \<Rightarrow> jsval \<Rightarrow> jsval ng" where
  "generated_getter path s locals = (case path_keys path of [] \<Rightarrow> Inr s
     | k # ks \<Rightarrow> if is_null s then Inr JUndef else bind_ng (eso_member k (pick_root locals k s)) (gen_keys ks))"

text \<open>The getter under a content security policy takes at most five keys and stops at the first
  that is empty; longer paths are read in rounds of five.\<close>

fun csp_keys :: "string list \<Rightarrow> jsval \<Rightarrow> jsval ng" where
  "csp_keys [] v = Inr v"
| "csp_keys (k # ks) v = (if k = [] then Inr v else if is_null v then Inr JUndef else bind_ng (eso_member k v) (csp_keys ks))"

definition cspSafeGetter :: "string list \<Rightarrow> jsval \<Rightarrow> jsval \<Rightarrow> jsval ng" where
  "cspSafeGetter keys s locals = (case keys of [] \<Rightarrow> Inr s
     | k # ks \<Rightarrow> (let v = pick_root locals k s in
         if is_null v then Inr v else bind_ng (eso_member k v) (csp_keys (take 4 ks))))"

function csp_rounds :: "string list \<Rightarrow> jsval \<Rightarrow> jsval \<Rightarrow> jsval ng" where
  "csp_rounds keys s locals = bind_ng (cspSafeGetter (take 5 keys) s locals) (\<lambda>v.
     if length keys \<le> 5 then Inr v else csp_rounds (drop 5 keys) v JUndef)"
  by pat_completeness auto
termination by (relation "measure (\<lambda>(ks, _, _). length ks)") auto

declare csp_rounds.simps [simp del]

definition csp_getter :: "string \<Rightarrow> jsval \<Rightarrow> jsval \<Rightarrow> jsval ng" where
  "csp_getter path s locals = csp_rounds (path_keys path) s locals"

text \<open>\<open>setter\<close> creates the objects that are missing on the way.\<close>

fun set_path :: "string list \<Rightarrow> jsval \<Rightarrow> jsval \<Rightarrow> jsval ng" where
  "set_path [] w v = Inr w"
| "set_path (k # ks) w v = bind_ng (ensureSafeMemberName k) (\<lambda>key. bind_ng (ensureSafeObject (member v key)) (\<lambda>p.
     if ks = [] then put_member v key w
     else bind_ng (set_path ks w (if truthy p then p else JObj [])) (put_member v key)))"

definition setter :: "jsval \<Rightarrow> string \<Rightarrow> jsval \<Rightarrow> jsval ng" where
  "setter v path w = bind_ng (ensureSafeObject v) (set_path (path_keys path) w)"

section \<open>Operators\<close>

definition int32 :: "int \<Rightarrow> 32 word" where
  "int32 n = word_of_int n"

fun str_less :: "string \<Rightarrow> string \<Rightarrow> bool" where
  "str_less s [] = False"
| "str_less [] (d # t) = True"
| "str_less (c # s) (d # t) = ((of_char c :: nat) < of_char d \<or> c = d \<and> str_less s t)"

definition is_primitive :: "jsval \<Rightarrow> bool" where
  "is_primitive v = (case v of JArr _ \<Rightarrow> False | JObj _ \<Rightarrow> False | _ \<Rightarrow> True)"

definition js_plus :: "jsval \<Rightarrow> jsval \<Rightarrow> jsval ng" where
  "js_plus a b = (case (a, b) of (JNum m, JNum n) \<Rightarrow> Inr (JNum (m + n))
     | (JStr s, _) \<Rightarrow> Inr (JStr (s @ js_string b)) | (_, JStr t) \<Rightarrow> Inr (JStr (js_string a @ t)) | _ \<Rightarrow> Inl Unmodelled)"

definition js_strict_eq :: "jsval \<Rightarrow> jsval \<Rightarrow> bool ng" where
  "js_strict_eq a b = (if is_primitive a \<or> is_primitive b then Inr (a = b) else Inl Unmodelled)"

definition js_loose_eq :: "jsval \<Rightarrow> jsval \<Rightarrow> bool ng" where
  "js_loose_eq a b = (if is_null a \<or> is_null b then Inr (is_null a \<and> is_null b)
     else case (a, b) of (JNum _, JNum _) \<Rightarrow> Inr (a = b) | (JStr _, JStr _) \<Rightarrow> Inr (a = b) | (JBool _, JBool _) \<Rightarrow> Inr (a = b)
     | _ \<Rightarrow> Inl Unmodelled)"

definition js_compare :: "string \<Rightarrow> jsval \<Rightarrow> jsval \<Rightarrow> bool ng" where
  "js_compare op a b = (case (a, b) of
     (JNum m, JNum n) \<Rightarrow> Inr (if op = ''<'' then m < n else if op = ''>'' then n < m else if op = ''<='' then m \<le> n else n \<le> m)
   | (JStr s, JStr t) \<Rightarrow> Inr (if op = ''<'' then str_less s t else if op = ''>'' then str_less t s
        else if op = ''<='' then \<not> str_less t s else \<not> str_less s t)
   | _ \<Rightarrow> Inl Unmodelled)"

text \<open>Arithmetic on integers; \<open>%\<close> has the sign of the dividend, \<open>^\<close> and \<open>&\<close> work on 32 bits.\<close>

definition js_arith :: "string \<Rightarrow> jsval \<Rightarrow> jsval \<Rightarrow> jsval ng" where
  "js_arith op a b = (case (a, b) of
     (JNum m, JNum n) \<Rightarrow>
       if op = ''-'' then Inr (JNum (m - n)) else if op = ''*'' then Inr (JNum (m * n))
       else if op = ''/'' then (if n \<noteq> 0 \<and> n dvd m then Inr (JNum (m div n)) else Inl Unmodelled)
       else if op = ''%'' then (if n \<noteq> 0 then Inr (JNum (sgn m * (\<bar>m\<bar> mod \<bar>n\<bar>))) else Inl Unmodelled)
       else if op = ''^'' then Inr (JNum (sint (int32 m XOR int32 n)))
       else if op = ''&'' then Inr (JNum (sint (int32 m AND int32 n))) else Inl Unmodelled
   | _ \<Rightarrow> Inl Unmodelled)"

text \<open>The operators that evaluate both operands.\<close>

definition operator :: "string \<Rightarrow> jsval \<Rightarrow> jsval \<Rightarrow> jsval ng" where
  "operator op a b =
     (if op = ''+'' then (if isDefined a then if isDefined b then js_plus a b else Inr a else Inr (if isDefined b then b else JUndef))
      else if op = ''-'' then js_arith op (if isDefined a then a else JNum 0) (if isDefined b then b else JNum 0)
      else if op = ''==='' then bind_ng (js_strict_eq a b) (\<lambda>x. Inr (JBool x))
      else if op = ''!=='' then bind_ng (js_strict_eq a b) (\<lambda>x. Inr (JBool (\<not> x)))
      else if op = ''=='' then bind_ng (js_loose_eq a b) (\<lambda>x. Inr (JBool x))
      else if op = ''!='' then bind_ng (js_loose_eq a b) (\<lambda>x. Inr (JBool (\<not> x)))
      else if op \<in> {''<'', ''>'', ''<='', ''>=''} then bind_ng (js_compare op a b) (\<lambda>x. Inr (JBool x))
      else js_arith op a b)"

definition num_value :: "string \<Rightarrow> jsval ng" where
  "num_value s = (if s \<noteq> [] \<and> list_all is_digit s then Inr (JNum (int (digits_value s))) else Inl Unmodelled)"

definition const_value :: "string \<Rightarrow> jsval" where
  "const_value s = (if s = ''null'' then JNull else if s = ''true'' then JBool True else if s = ''false'' then JBool False else JUndef)"

section \<open>Evaluation\<close>

text \<open>A value with its place, its path from the scope if it was read there, and the scope.\<close>

type_synonym evaluated = "(jsval \<times> string list option \<times> jsval) ng"

definition fresh :: "jsval \<Rightarrow> jsval \<Rightarrow> evaluated" where
  "fresh v s = Inr (v, None, s)"

definition from_ng :: "jsval \<Rightarrow> jsval ng \<Rightarrow> evaluated" where
  "from_ng s m = bind_ng m (\<lambda>v. fresh v s)"

fun write_at :: "string list \<Rightarrow> jsval \<Rightarrow> jsval \<Rightarrow> jsval ng" where
  "write_at [] w v = Inr w"
| "write_at (k # ks) w v = bind_ng (write_at ks w (member v k)) (put_member v k)"

definition at_place :: "string list option \<Rightarrow> jsval \<Rightarrow> jsval \<Rightarrow> jsval ng" where
  "at_place pl w s = (case pl of Some ks \<Rightarrow> write_at ks w s | None \<Rightarrow> Inl Unmodelled)"

type_synonym callee = "jsval \<Rightarrow> jsval \<Rightarrow> jsval list \<Rightarrow> jsval \<Rightarrow> (jsval \<times> jsval) ng"
type_synonym filter_env = "string \<Rightarrow> jsval list \<Rightarrow> jsval ng"

text \<open>The last part of a call: the checks and the application of the function to its context.\<close>

definition apply_fn :: "callee \<Rightarrow> jsval \<Rightarrow> jsval \<Rightarrow> jsval list \<Rightarrow> jsval \<Rightarrow> evaluated" where
  "apply_fn call f context args s =
     bind_ng (ensureSafeObject context) (\<lambda>_. bind_ng (ensureSafeFunction f) (\<lambda>_.
       if \<not> truthy f then fresh JUndef s
       else if \<not> isFunction f then Inl NotAFunction
       else bind_ng (call f context args s) (\<lambda>(v, s'). bind_ng (ensureSafeObject v) (\<lambda>v'. fresh v' s'))))"

text \<open>The function of a field access is handed the context of the call and reads its field there.\<close>

definition field_of :: "string \<Rightarrow> jsval \<Rightarrow> jsval ng" where
  "field_of f v = generated_getter f v JUndef"

definition place_step :: "string list option \<Rightarrow> string list \<Rightarrow> string list option" where
  "place_step pl ks = map_option (\<lambda>p. p @ ks) pl"

definition then_eval :: "evaluated \<Rightarrow> (jsval \<Rightarrow> string list option \<Rightarrow> jsval \<Rightarrow> 'a ng) \<Rightarrow> 'a ng" where
  "then_eval m f = bind_ng m (\<lambda>(v, pl, s). f v pl s)"

text \<open>A closure runs on a scope; some can also be assigned to.\<close>

record closure =
  c_run :: "jsval \<Rightarrow> evaluated"
  c_assign :: "(jsval \<Rightarrow> jsval \<Rightarrow> (string list option \<times> jsval) ng) option"

definition read_only :: "(jsval \<Rightarrow> evaluated) \<Rightarrow> closure" where
  "read_only run = \<lparr>c_run = run, c_assign = None\<rparr>"

definition const_fn :: "jsval \<Rightarrow> closure" where
  "const_fn v = read_only (fresh v)"

text \<open>The function of an operator called as an expression has no operands.\<close>

definition op_fn :: "string \<Rightarrow> closure" where
  "op_fn op = read_only (\<lambda>s. if op = ''='' then fresh JUndef s else Inl NotAFunction)"

definition ident_fn :: "string \<Rightarrow> closure" where
  "ident_fn ident = \<lparr>c_run = (\<lambda>s. bind_ng (generated_getter ident s JUndef) (\<lambda>v. Inr (v, Some (path_keys ident), s))),
     c_assign = Some (\<lambda>v s. bind_ng (setter s ident v) (\<lambda>s1. Inr (Some (path_keys ident), s1)))\<rparr>"

definition unaryFn :: "closure \<Rightarrow> closure" where
  "unaryFn right = read_only (\<lambda>s. then_eval (c_run right s) (\<lambda>v _ s1. fresh (JBool (\<not> truthy v)) s1))"

definition ternaryFn :: "closure \<Rightarrow> closure \<Rightarrow> closure \<Rightarrow> closure" where
  "ternaryFn left middle right = read_only (\<lambda>s. then_eval (c_run left s) (\<lambda>v _ s1.
     if truthy v then c_run middle s1 else c_run right s1))"

definition binaryFn :: "closure \<Rightarrow> string \<Rightarrow> closure \<Rightarrow> closure" where
  "binaryFn left op right = read_only (\<lambda>s. then_eval (c_run left s) (\<lambda>v pl s1.
     if op = ''&&'' \<and> \<not> truthy v \<or> op = ''||'' \<and> truthy v then Inr (v, pl, s1)
     else then_eval (c_run right s1) (\<lambda>w pl' s2.
       if op = ''&&'' \<or> op = ''||'' then Inr (w, pl', s2) else from_ng s2 (operator op v w))))"

text \<open>The closures of a list run in order; \<open>chk\<close> looks at each value.\<close>

fun run_list :: "(jsval \<Rightarrow> jsval ng) \<Rightarrow> closure list \<Rightarrow> jsval \<Rightarrow> (jsval list \<times> jsval) ng" where
  "run_list chk [] s = Inr ([], s)"
| "run_list chk (e # es) s = then_eval (c_run e s) (\<lambda>v _ s1. bind_ng (chk v) (\<lambda>w.
     bind_ng (run_list chk es s1) (\<lambda>(ws, s2). Inr (w # ws, s2))))"

definition filterFn :: "filter_env \<Rightarrow> closure \<Rightarrow> string \<Rightarrow> closure list \<Rightarrow> closure" where
  "filterFn filt left name argsFn = read_only (\<lambda>s. then_eval (c_run left s) (\<lambda>input _ s1.
     bind_ng (run_list Inr argsFn s1) (\<lambda>(args, s2). from_ng s2 (filt name (input # args)))))"

definition do_assign :: "closure \<Rightarrow> jsval \<Rightarrow> jsval \<Rightarrow> (string list option \<times> jsval) ng" where
  "do_assign e v s = (case c_assign e of Some f \<Rightarrow> f v s | None \<Rightarrow> Inl NotAFunction)"

definition assignFn :: "closure \<Rightarrow> closure \<Rightarrow> closure" where
  "assignFn left right = read_only (\<lambda>s. then_eval (c_run right s) (\<lambda>v _ s1.
     bind_ng (do_assign left v s1) (\<lambda>(pl, s2). Inr (v, pl, s2))))"

fun run_seq :: "closure list \<Rightarrow> jsval \<Rightarrow> jsval \<Rightarrow> evaluated" where
  "run_seq [] v s = fresh v s"
| "run_seq (e # es) v s = then_eval (c_run e s) (\<lambda>w _ s1. run_seq es w s1)"

text \<open>The object that a member is set in; a missing one is created and assigned first.\<close>

definition container :: "closure \<Rightarrow> jsval \<Rightarrow> string list option \<Rightarrow> jsval \<Rightarrow> evaluated" where
  "container e u pl s = (if truthy u then Inr (u, pl, s)
     else bind_ng (do_assign e (JObj []) s) (\<lambda>(pl', s1). Inr (JObj [], pl', s1)))"

definition fieldFn :: "closure \<Rightarrow> string \<Rightarrow> closure" where
  "fieldFn e f = \<lparr>c_run = (\<lambda>s. then_eval (c_run e s) (\<lambda>v pl s1.
       bind_ng (field_of f v) (\<lambda>w. Inr (w, place_step pl (path_keys f), s1)))),
     c_assign = Some (\<lambda>v s. then_eval (c_run e s) (\<lambda>u pl s1. then_eval (container e u pl s1) (\<lambda>u1 pl1 s2.
       bind_ng (setter u1 f v) (\<lambda>u2. bind_ng (at_place pl1 u2 s2) (\<lambda>s3. Inr (place_step pl1 (path_keys f), s3))))))\<rparr>"

definition index_assign :: "closure \<Rightarrow> closure \<Rightarrow> jsval \<Rightarrow> jsval \<Rightarrow> (string list option \<times> jsval) ng" where
  "index_assign e i v s = then_eval (c_run i s) (\<lambda>j _ s0. bind_ng (ensureSafeMemberName (js_string j)) (\<lambda>k.
     then_eval (c_run e s0) (\<lambda>u pl s1. bind_ng (ensureSafeObject u) (\<lambda>_.
       then_eval (container e u pl s1) (\<lambda>u1 pl1 s2. bind_ng (put_member u1 k v) (\<lambda>u2.
         bind_ng (at_place pl1 u2 s2) (\<lambda>s3. Inr (place_step pl1 [k], s3))))))))"

definition indexFn :: "closure \<Rightarrow> closure \<Rightarrow> closure" where
  "indexFn e i = \<lparr>c_run = (\<lambda>s. then_eval (c_run e s) (\<lambda>v pl s1. then_eval (c_run i s1) (\<lambda>j _ s2.
       bind_ng (ensureSafeMemberName (js_string j)) (\<lambda>k.
         if truthy v then bind_ng (ensureSafeObject (member v k)) (\<lambda>w. Inr (w, place_step pl [k], s2))
         else fresh JUndef s2)))),
     c_assign = Some (index_assign e i)\<rparr>"

text \<open>A call; \<open>field\<close> is the name if the function is a field access. Without a context the scope is
  the context, and a field access reads its field in the context it is handed.\<close>

definition callFn :: "callee \<Rightarrow> closure \<Rightarrow> string option \<Rightarrow> closure option \<Rightarrow> closure list \<Rightarrow> closure" where
  "callFn call fn field contextGetter argsFn = read_only (\<lambda>s.
     then_eval (case contextGetter of Some e \<Rightarrow> c_run e s | None \<Rightarrow> fresh s s) (\<lambda>c _ s1.
       bind_ng (run_list ensureSafeObject argsFn s1) (\<lambda>(args, s2).
         let context = (if contextGetter = None then s2 else c) in
         then_eval (case field of
             Some f \<Rightarrow> if truthy context then from_ng s2 (field_of f context) else c_run fn s2
           | None \<Rightarrow> c_run fn s2) (\<lambda>fnPtr _ s3.
           apply_fn call fnPtr context args s3))))"

definition arrayFn :: "closure list \<Rightarrow> closure" where
  "arrayFn elementFns = read_only (\<lambda>s. bind_ng (run_list Inr elementFns s) (\<lambda>(vs, s1). fresh (JArr vs) s1))"

definition objectFn :: "(string \<times> closure) list \<Rightarrow> closure" where
  "objectFn keyValues = read_only (\<lambda>s. bind_ng (run_list Inr (map snd keyValues) s) (\<lambda>(vs, s1).
     fresh (JObj (fold (\<lambda>(k, v). obj_put k v) (zip (map fst keyValues) vs) [])) s1))"

definition field_name_of :: "ngexp \<Rightarrow> string option" where
  "field_name_of e = (case e of EField _ f \<Rightarrow> Some f | _ \<Rightarrow> None)"

primrec closure_of :: "callee \<Rightarrow> filter_env \<Rightarrow> ngexp \<Rightarrow> closure" where
  "closure_of call filt EZero = const_fn (JNum 0)"
| "closure_of call filt (ENum t) = read_only (\<lambda>s. from_ng s (num_value t))"
| "closure_of call filt (EStr t) = const_fn (JStr t)"
| "closure_of call filt (EConst t) = const_fn (const_value t)"
| "closure_of call filt (EOpFn op) = op_fn op"
| "closure_of call filt (EPath p) = ident_fn p"
| "closure_of call filt (ENot e) = unaryFn (closure_of call filt e)"
| "closure_of call filt (ETernary a b c) = ternaryFn (closure_of call filt a) (closure_of call filt b) (closure_of call filt c)"
| "closure_of call filt (EBin op a b) = binaryFn (closure_of call filt a) op (closure_of call filt b)"
| "closure_of call filt (EFilter a n es) = filterFn filt (closure_of call filt a) n (map (closure_of call filt) es)"
| "closure_of call filt (EAssign a b) = assignFn (closure_of call filt a) (closure_of call filt b)"
| "closure_of call filt (ESeq es) = read_only (run_seq (map (closure_of call filt) es) JUndef)"
| "closure_of call filt (EField e f) = fieldFn (closure_of call filt e) f"
| "closure_of call filt (EIndex e i) = indexFn (closure_of call filt e) (closure_of call filt i)"
| "closure_of call filt (ECall f c es) = callFn call (closure_of call filt f) (field_name_of f)
     (map_option (closure_of call filt) c) (map (closure_of call filt) es)"
| "closure_of call filt (EArr es) = arrayFn (map (closure_of call filt) es)"
| "closure_of call filt (EObj kvs) = objectFn (map (map_prod id (closure_of call filt)) kvs)"

text \<open>The value and the scope after evaluation.\<close>

definition eval :: "callee \<Rightarrow> filter_env \<Rightarrow> ngexp \<Rightarrow> jsval \<Rightarrow> (jsval \<times> jsval) ng" where
  "eval call filt e s = then_eval (c_run (closure_of call filt e) s) (\<lambda>v _ s1. Inr (v, s1))"

section \<open>Constant expressions\<close>

text \<open>A closure that neither reads nor changes the scope.\<close>

definition scope_free :: "closure \<Rightarrow> bool" where
  "scope_free c = (\<forall>s t. c_run c t = bind_ng (c_run c s) (\<lambda>(v, pl, _). Inr (v, pl, t)))"

lemma scope_free_const: "(\<And>s. c_run c s = bind_ng m (\<lambda>v. fresh v s)) \<Longrightarrow> scope_free c"
  unfolding scope_free_def by (cases m) (auto simp: fresh_def)

lemma scope_free_cases:
  assumes "scope_free c"
  shows "(\<exists>e. \<forall>s. c_run c s = Inl e) \<or> (\<exists>v pl. \<forall>s. c_run c s = Inr (v, pl, s))"
proof (cases "c_run c JUndef")
  case (Inl e)
  then show ?thesis using assms unfolding scope_free_def by (metis bind_ng_simps(1))
next
  case (Inr r)
  obtain v pl t where r: "r = (v, pl, t)" by (cases r) auto
  have "c_run c s = Inr (v, pl, s)" for s
    using assms [unfolded scope_free_def, rule_format, of s JUndef] Inr r by simp
  then show ?thesis by blast
qed

lemma scope_free_run_list:
  "list_all scope_free cs \<Longrightarrow> (\<exists>e. \<forall>s. run_list chk cs s = Inl e) \<or> (\<exists>vs. \<forall>s. run_list chk cs s = Inr (vs, s))"
proof (induction cs)
  case (Cons c cs)
  then have c: "(\<exists>e. \<forall>s. c_run c s = Inl e) \<or> (\<exists>v pl. \<forall>s. c_run c s = Inr (v, pl, s))"
    and cs: "(\<exists>e. \<forall>s. run_list chk cs s = Inl e) \<or> (\<exists>vs. \<forall>s. run_list chk cs s = Inr (vs, s))"
    using scope_free_cases by simp_all
  show ?case
  proof (cases "\<exists>v pl. \<forall>s. c_run c s = Inr (v, pl, s)")
    case True
    then obtain v pl where "\<forall>s. c_run c s = Inr (v, pl, s)" by blast
    then show ?thesis using cs by (cases "chk v") (auto simp: then_eval_def)
  next
    case False
    with c obtain e where "\<forall>s. c_run c s = Inl e" by blast
    then show ?thesis by (simp add: then_eval_def)
  qed
qed simp

lemma scope_free_closure: "is_constant e \<Longrightarrow> scope_free (closure_of call filt e)"
proof (induction e)
  case (ENot e)
  then show ?case using scope_free_cases [of "closure_of call filt e"]
    by (auto simp: scope_free_def unaryFn_def read_only_def then_eval_def fresh_def)
next
  case (ETernary a b c)
  then have "scope_free (closure_of call filt a)" "scope_free (closure_of call filt b)" "scope_free (closure_of call filt c)" by simp_all
  from this [THEN scope_free_cases] show ?case
    by (auto simp: scope_free_def ternaryFn_def read_only_def then_eval_def)
next
  case (EBin op a b)
  then have "scope_free (closure_of call filt a)" "scope_free (closure_of call filt b)" by simp_all
  from this [THEN scope_free_cases] show ?case
    by (elim disjE exE) (auto simp: scope_free_def binaryFn_def read_only_def then_eval_def from_ng_def fresh_def bind_ng_def split: sum.splits)
next
  case (EArr es)
  then have "list_all scope_free (map (closure_of call filt) es)" by (auto simp: list_all_iff)
  from scope_free_run_list [OF this, of Inr] show ?case
    by (auto simp: scope_free_def arrayFn_def read_only_def fresh_def)
next
  case (EObj kvs)
  have "scope_free (closure_of call filt e)" if "(k, e) \<in> set kvs" for k e
    using EObj.IH [of "(k, e)" e] EObj.prems that by (auto simp: list_all_iff)
  then have "list_all scope_free (map snd (map (map_prod id (closure_of call filt)) kvs))" by (auto simp: list_all_iff)
  from scope_free_run_list [OF this, of Inr] show ?case
    by (auto simp: scope_free_def objectFn_def read_only_def fresh_def)
next
  case (ENum t)
  show ?case by (rule scope_free_const [of _ "num_value t"]) (simp add: read_only_def from_ng_def)
qed (auto simp: scope_free_def const_fn_def read_only_def fresh_def)

section \<open>Reading and writing paths\<close>

lemma member_put:
  assumes "put_member v k w = Inr v'"
  shows "member v' k = w" "\<not> is_null v'"
  using assms
  by (auto simp: put_member_def member_def is_null_def nth_append Let_def split: jsval.splits option.splits if_splits)

lemma path_keys_nonempty [simp]: "path_keys p \<noteq> []"
  by (simp add: path_keys_def js_split_nonempty)

lemma gen_keys_set_path:
  "set_path ks w v = Inr v' \<Longrightarrow> ''constructor'' \<notin> set ks \<Longrightarrow> gen_keys ks v' = Inr w \<and> (ks \<noteq> [] \<longrightarrow> \<not> is_null v')"
proof (induction ks arbitrary: v v')
  case (Cons k ks)
  have e: "eso_member k u = Inr (member u k)" for u using Cons.prems(2) by (auto simp: eso_member_def dangerous_def)
  show ?case
  proof (cases "ks = []")
    case True
    then have "put_member v k w = Inr v'"
      using Cons.prems(1) by (auto simp: bind_ng_Inr ensureSafeMemberName_def split: if_splits)
    then show ?thesis using True e member_put by simp
  next
    case False
    then obtain u u' where u: "set_path ks w u' = Inr u" "put_member v k u = Inr v'"
      using Cons.prems(1) by (auto simp: bind_ng_Inr ensureSafeMemberName_def split: if_splits)
    have "gen_keys ks u = Inr w" using Cons.IH [OF u(1)] Cons.prems(2) by simp
    then show ?thesis using member_put [OF u(2)] e by simp
  qed
qed simp

lemma generated_getter_scope: "generated_getter p s JUndef = gen_keys (path_keys p) s"
  by (cases "path_keys p") (simp_all add: generated_getter_def pick_root_def)

lemma csp_keys_gen: "[] \<notin> set ks \<Longrightarrow> csp_keys ks v = gen_keys ks v"
proof (induction ks arbitrary: v)
  case (Cons k ks)
  then have "k \<noteq> []" "csp_keys ks = gen_keys ks" by auto
  then show ?case by simp
qed simp

section \<open>Properties\<close>

text \<open>C34: The flag \<open>constant\<close> that the parser sets is right: an expression it marks as constant
  gives the same value, or the same error, on every scope and leaves the scope as it is,
  whatever the functions and filters of the application do.\<close>

theorem constant_expressions:
  assumes "is_constant e"
  shows "(\<exists>err. \<forall>s. eval call filt e s = Inl err) \<or> (\<exists>v. \<forall>s. eval call filt e s = Inr (v, s))"
  using scope_free_cases [OF scope_free_closure [OF assms, of call filt]] by (auto simp: eval_def then_eval_def)

theorem constant_expressions_witness:
  "eval (\<lambda>f c as s. Inl NotAFunction) (\<lambda>n as. Inl UnknownFilter) (EBin ''+'' (ENum ''2'') (ENum ''3'')) JUndef = Inr (JNum 5, JUndef) \<and>
   (\<exists>v. \<forall>s. eval (\<lambda>f c as s. Inl NotAFunction) (\<lambda>n as. Inl UnknownFilter) (EBin ''+'' (ENum ''2'') (ENum ''3'')) s = Inr (v, s))"
proof -
  have v: "eval (\<lambda>f c as s. Inl NotAFunction) (\<lambda>n as. Inl UnknownFilter) (EBin ''+'' (ENum ''2'') (ENum ''3'')) JUndef = Inr (JNum 5, JUndef)"
    by (simp add: eval_def then_eval_def binaryFn_def read_only_def num_value_def from_ng_def fresh_def operator_def
        isDefined_def js_plus_def is_digit_def)
  then show ?thesis
    using constant_expressions [of "EBin ''+'' (ENum ''2'') (ENum ''3'')" "\<lambda>f c as s. Inl NotAFunction" "\<lambda>n as. Inl UnknownFilter"]
    by (auto dest: spec [of _ JUndef])
qed

text \<open>What is assigned to a path is read from it: when an assignment to a path without the
  name \<open>constructor\<close> succeeds, creating the objects that are missing, the same path then
  evaluates to the assigned value.\<close>

lemma assign_then_read:
  assumes "eval call filt (EAssign (EPath p) e) s = Inr (v, s')" "''constructor'' \<notin> set (path_keys p)"
  shows "eval call filt (EPath p) s' = Inr (v, s')"
proof -
  obtain s1 where "setter s1 p v = Inr s'"
    using assms(1) by (auto simp: eval_def then_eval_def assignFn_def read_only_def ident_fn_def do_assign_def bind_ng_Inr split: prod.splits)
  then have "set_path (path_keys p) v s1 = Inr s'"
    by (auto simp: setter_def bind_ng_Inr ensureSafeObject_def split: if_splits)
  from gen_keys_set_path [OF this assms(2)] show ?thesis
    by (simp add: eval_def then_eval_def ident_fn_def generated_getter_scope)
qed

lemma assign_then_read_witness:
  "eval (\<lambda>f c as s. Inl NotAFunction) (\<lambda>n as. Inl UnknownFilter) (EPath ''chart.title'')
      (JObj [(''chart'', JObj [(''title'', JStr ''Time'')])]) =
    Inr (JStr ''Time'', JObj [(''chart'', JObj [(''title'', JStr ''Time'')])])"
  by (rule assign_then_read [of _ _ _ "EStr ''Time''" "JObj []"])
    (simp_all add: eval_def then_eval_def assignFn_def read_only_def ident_fn_def do_assign_def const_fn_def fresh_def
      setter_def path_keys_def ensureSafeMemberName_def unsafe_names_def ensureSafeObject_def truthy_def member_def
      ctor_def js_Object_def js_prop_def obj_get_def inherited_def object_proto_def is_window_def is_element_def put_member_def Let_def)

text \<open>The two getters agree: for a path of up to five names that are not empty the getter
  under a content security policy returns on every scope that is not null, with every
  locals, what the generated function returns, errors included.\<close>

lemma csp_getter_equals_generated:
  assumes "\<not> is_null s" "[] \<notin> set (path_keys p)" "length (path_keys p) \<le> 5"
  shows "csp_getter p s locals = generated_getter p s locals"
proof -
  obtain k ks where k: "path_keys p = k # ks" using path_keys_nonempty [of p] by (cases "path_keys p") auto
  have "\<not> is_null (pick_root locals k s)" using assms(1) by (auto simp: pick_root_def is_null_def split: jsval.splits)
  moreover have "bind_ng m Inr = m" for m :: "jsval ng" by (cases m) simp_all
  moreover have "csp_keys ks = gen_keys ks" using assms(2) k by (intro ext csp_keys_gen) simp
  ultimately show ?thesis
    using assms k by (simp add: csp_getter_def csp_rounds.simps [of "k # ks"] cspSafeGetter_def generated_getter_def)
qed

lemma csp_getter_equals_generated_witness:
  "csp_getter ''room.peer_num'' (JObj [(''room'', JObj [(''peer_num'', JNum 3)])]) JUndef =
    generated_getter ''room.peer_num'' (JObj [(''room'', JObj [(''peer_num'', JNum 3)])]) JUndef"
  by (rule csp_getter_equals_generated) (simp_all add: is_null_def path_keys_def)

text \<open>A call of a field access in parentheses has no context, so the scope is handed to the
  access and the field is read from the scope instead of the object.\<close>

lemma parenthesised_method_reads_scope:
  "eval (\<lambda>f c as s. Inr (f, s)) (\<lambda>n as. Inl UnknownFilter) (ECall (EField (EPath ''a'') ''b'') None [])
     (JObj [(''a'', JObj [(''b'', JFun 20 ''inner'')]), (''b'', JFun 21 ''outer'')]) =
   Inr (JFun 21 ''outer'', JObj [(''a'', JObj [(''b'', JFun 20 ''inner'')]), (''b'', JFun 21 ''outer'')])"
  by code_simp

end
