(* ===== verification/Ng_Eval_Type.thy ===== *)
theory Ng_Eval_Type
  imports Ng_Eval
begin

text \<open>
  The type of the scope: every closure of the parser keeps an object an object, when it runs
  and when it is assigned to. The places of values are never the scope itself, so a write to
  a place changes a member of the scope.
\<close>

section \<open>The scope stays an object\<close>

definition is_obj :: "jsval \<Rightarrow> bool" where
  "is_obj v = (case v of JObj _ \<Rightarrow> True | _ \<Rightarrow> False)"

definition good_place :: "string list option \<Rightarrow> bool" where
  "good_place pl = (pl \<noteq> Some [])"

definition good_run :: "evaluated \<Rightarrow> bool" where
  "good_run m = (case m of Inr (v, pl, s) \<Rightarrow> is_obj s \<and> good_place pl | Inl _ \<Rightarrow> True)"

definition good_assign :: "(string list option \<times> jsval) ng \<Rightarrow> bool" where
  "good_assign m = (case m of Inr (pl, s) \<Rightarrow> is_obj s \<and> good_place pl | Inl _ \<Rightarrow> True)"

definition good_list :: "(jsval list \<times> jsval) ng \<Rightarrow> bool" where
  "good_list m = (case m of Inr (vs, s) \<Rightarrow> is_obj s | Inl _ \<Rightarrow> True)"

definition keeps :: "closure \<Rightarrow> bool" where
  "keeps c = (\<forall>s. is_obj s \<longrightarrow> good_run (c_run c s) \<and> (\<forall>f v. c_assign c = Some f \<longrightarrow> good_assign (f v s)))"

lemma good_simps [simp]:
  "good_run (Inl e)" "good_assign (Inl e)" "good_list (Inl e)"
  "good_run (Inr (v, pl, s)) \<longleftrightarrow> is_obj s \<and> good_place pl" "good_assign (Inr (pl, s)) \<longleftrightarrow> is_obj s \<and> good_place pl"
  "good_list (Inr (vs, s)) \<longleftrightarrow> is_obj s" "good_place None" "good_run (fresh v s) \<longleftrightarrow> is_obj s"
  by (simp_all add: good_run_def good_assign_def good_list_def good_place_def fresh_def)

lemma good_place_step [simp]: "good_place pl \<Longrightarrow> ks \<noteq> [] \<Longrightarrow> good_place (place_step pl ks)"
  by (auto simp: good_place_def place_step_def)

text \<open>Sequencing keeps each of the three.\<close>

lemma then_eval_good:
  "good_run m \<Longrightarrow> (\<And>v pl s. is_obj s \<Longrightarrow> good_place pl \<Longrightarrow> good_run (f v pl s)) \<Longrightarrow> good_run (then_eval m f)"
  "good_run m \<Longrightarrow> (\<And>v pl s. is_obj s \<Longrightarrow> good_place pl \<Longrightarrow> good_assign (g v pl s)) \<Longrightarrow> good_assign (then_eval m g)"
  "good_run m \<Longrightarrow> (\<And>v pl s. is_obj s \<Longrightarrow> good_place pl \<Longrightarrow> good_list (h v pl s)) \<Longrightarrow> good_list (then_eval m h)"
  by (cases m; auto simp: then_eval_def good_run_def)+

lemma bind_good:
  "(\<And>x. m = Inr x \<Longrightarrow> good_run (f x)) \<Longrightarrow> good_run (bind_ng m f)"
  "(\<And>x. m = Inr x \<Longrightarrow> good_assign (g x)) \<Longrightarrow> good_assign (bind_ng m g)"
  "(\<And>x. m = Inr x \<Longrightarrow> good_list (h x)) \<Longrightarrow> good_list (bind_ng m h)"
  by (cases m; simp)+

lemma good_from_ng [simp]: "is_obj s \<Longrightarrow> good_run (from_ng s m)"
  by (cases m) (simp_all add: from_ng_def)

lemma put_member_obj: "put_member v k w = Inr v' \<Longrightarrow> is_obj v \<Longrightarrow> is_obj v'"
  by (auto simp: put_member_def is_obj_def split: jsval.splits)

lemma at_place_obj: "at_place pl w s = Inr s' \<Longrightarrow> is_obj s \<Longrightarrow> good_place pl \<Longrightarrow> is_obj s'"
proof (cases pl)
  case (Some ks)
  assume a: "at_place pl w s = Inr s'" "is_obj s" "good_place pl"
  then obtain k js where "ks = k # js" using Some by (cases ks) (auto simp: good_place_def)
  with a Some show ?thesis by (auto simp: at_place_def bind_ng_Inr dest: put_member_obj)
qed (simp add: at_place_def)

lemma setter_obj: "setter s p v = Inr s' \<Longrightarrow> is_obj s \<Longrightarrow> is_obj s'"
  using path_keys_nonempty [of p]
  by (cases "path_keys p") (auto simp: setter_def ensureSafeObject_def bind_ng_Inr dest: put_member_obj split: if_splits)

lemma keeps_read_only: "(\<And>s. is_obj s \<Longrightarrow> good_run (run s)) \<Longrightarrow> keeps (read_only run)"
  by (simp add: keeps_def read_only_def)

lemma keeps_run: "keeps c \<Longrightarrow> is_obj s \<Longrightarrow> good_run (c_run c s)"
  by (simp add: keeps_def)

lemma do_assign_good: "keeps c \<Longrightarrow> is_obj s \<Longrightarrow> good_assign (do_assign c v s)"
  by (auto simp: keeps_def do_assign_def split: option.splits)

lemma run_list_good: "list_all keeps cs \<Longrightarrow> is_obj s \<Longrightarrow> good_list (run_list chk cs s)"
proof (induction cs arbitrary: s)
  case (Cons c cs)
  have rest: "good_list (bind_ng (run_list chk cs s1) (\<lambda>(ws, s2). Inr (w # ws, s2)))" if "is_obj s1" for s1 w
  proof -
    have "good_list (run_list chk cs s1)" using Cons that by simp
    then show ?thesis by (cases "run_list chk cs s1") (auto split: prod.splits)
  qed
  show ?case using Cons.prems by (auto intro!: then_eval_good(3) bind_good(3) keeps_run rest)
qed simp

lemma run_seq_good: "list_all keeps cs \<Longrightarrow> is_obj s \<Longrightarrow> good_run (run_seq cs v s)"
  by (induction cs arbitrary: s v) (auto intro!: then_eval_good(1) keeps_run)

lemma bind_list_good: "good_list m \<Longrightarrow> (\<And>vs s. is_obj s \<Longrightarrow> good_run (f vs s)) \<Longrightarrow> good_run (bind_ng m (\<lambda>(vs, s). f vs s))"
  by (cases m) (auto simp: good_list_def)

lemma container_good: "keeps e \<Longrightarrow> is_obj s \<Longrightarrow> good_place pl \<Longrightarrow> good_run (container e u pl s)"
  using do_assign_good [of e s "JObj []"]
  by (auto simp: container_def good_assign_def intro!: bind_good(1) split: sum.splits)

lemma keeps_field:
  assumes "keeps e"
  shows "keeps (fieldFn e f)"
  unfolding keeps_def fieldFn_def closure.select_convs
proof (intro allI impI conjI)
  fix s assume s: "is_obj s"
  show "good_run (then_eval (c_run e s) (\<lambda>v pl s1. bind_ng (field_of f v) (\<lambda>w. Inr (w, place_step pl (path_keys f), s1))))"
    using s by (auto intro!: then_eval_good(1) bind_good(1) keeps_run [OF assms])
  fix g v assume "Some (\<lambda>v s. then_eval (c_run e s) (\<lambda>u pl s1. then_eval (container e u pl s1) (\<lambda>u1 pl1 s2.
      bind_ng (setter u1 f v) (\<lambda>u2. bind_ng (at_place pl1 u2 s2) (\<lambda>s3. Inr (place_step pl1 (path_keys f), s3)))))) = Some g"
  then show "good_assign (g v s)"
    using s by (auto intro!: then_eval_good(2) bind_good(2) keeps_run [OF assms] container_good [OF assms] dest: at_place_obj)
qed

lemma keeps_index:
  assumes "keeps e" "keeps i"
  shows "keeps (indexFn e i)"
  unfolding keeps_def indexFn_def closure.select_convs
proof (intro allI impI conjI)
  fix s assume s: "is_obj s"
  show "good_run (then_eval (c_run e s) (\<lambda>v pl s1. then_eval (c_run i s1) (\<lambda>j _ s2.
      bind_ng (ensureSafeMemberName (js_string j)) (\<lambda>k.
        if truthy v then bind_ng (ensureSafeObject (member v k)) (\<lambda>w. Inr (w, place_step pl [k], s2)) else fresh JUndef s2))))"
    using s by (auto intro!: then_eval_good(1) bind_good(1) keeps_run [OF assms(1)] keeps_run [OF assms(2)])
  fix g v assume "Some (index_assign e i) = Some g"
  then show "good_assign (g v s)"
    using s by (auto simp: index_assign_def intro!: then_eval_good(2) bind_good(2) keeps_run [OF assms(1)]
        keeps_run [OF assms(2)] container_good [OF assms(1)]) (rule at_place_obj; assumption)+
qed

lemma keeps_closure:
  assumes call: "\<And>f c as s v s'. is_obj s \<Longrightarrow> call f c as s = Inr (v, s') \<Longrightarrow> is_obj s'"
  shows "keeps (closure_of call filt e)"
proof (induction e)
  case (EPath p)
  have "good_place (Some (path_keys p))" by (simp add: good_place_def)
  then show ?case by (auto simp: keeps_def ident_fn_def intro!: bind_good(1,2) intro: setter_obj)
next
  case (ENot e)
  then show ?case by (auto simp: unaryFn_def intro!: keeps_read_only then_eval_good(1) keeps_run)
next
  case (ETernary a b c)
  then show ?case by (auto simp: ternaryFn_def intro!: keeps_read_only then_eval_good(1) keeps_run)
next
  case (EBin op a b)
  then show ?case by (auto simp: binaryFn_def intro!: keeps_read_only then_eval_good(1) keeps_run)
next
  case (EFilter a n es)
  then have "list_all keeps (map (closure_of call filt) es)" by (simp add: list_all_iff)
  with EFilter show ?case
    by (auto simp: filterFn_def intro!: keeps_read_only then_eval_good(1) keeps_run bind_list_good run_list_good)
next
  case (EAssign a b)
  have "good_run (bind_ng (do_assign (closure_of call filt a) v s) (\<lambda>(pl, s2). Inr (v, pl, s2)))" if "is_obj s" for v s
    using do_assign_good [OF EAssign(1) that, of v] by (auto simp: good_assign_def intro!: bind_good(1) split: sum.splits)
  then show ?case using EAssign
    by (auto simp: assignFn_def intro!: keeps_read_only then_eval_good(1) keeps_run)
next
  case (ESeq es)
  then have "list_all keeps (map (closure_of call filt) es)" by (simp add: list_all_iff)
  then show ?case by (auto intro!: keeps_read_only run_seq_good)
next
  case (EField e f)
  then show ?case by (simp add: keeps_field)
next
  case (EIndex e i)
  then show ?case by (simp add: keeps_index)
next
  case (ECall f c es)
  have es: "list_all keeps (map (closure_of call filt) es)" using ECall by (simp add: list_all_iff)
  have ap: "good_run (apply_fn call fp cx as s)" if "is_obj s" for fp cx as s
    using that call by (auto simp: apply_fn_def intro!: bind_good(1) split: prod.splits)
  have cx: "good_run (case map_option (closure_of call filt) c of Some e \<Rightarrow> c_run e s | None \<Rightarrow> fresh s s)" if "is_obj s" for s
    using that ECall by (cases c) (auto intro: keeps_run)
  have fp: "good_run (case field_name_of f of Some k \<Rightarrow> if truthy x then from_ng s (field_of k x) else c_run (closure_of call filt f) s
      | None \<Rightarrow> c_run (closure_of call filt f) s)" if "is_obj s" for x s
    using that ECall by (auto intro: keeps_run split: option.splits)
  show ?case unfolding closure_of.simps callFn_def Let_def
    by (intro keeps_read_only then_eval_good(1) cx bind_list_good run_list_good es fp ap)
next
  case (EArr es)
  then have "list_all keeps (map (closure_of call filt) es)" by (simp add: list_all_iff)
  then show ?case by (auto simp: arrayFn_def intro!: keeps_read_only bind_list_good run_list_good)
next
  case (EObj kvs)
  then have "list_all keeps (map snd (map (map_prod id (closure_of call filt)) kvs))" by (fastforce simp: list_all_iff)
  then show ?case by (auto simp: objectFn_def intro!: keeps_read_only bind_list_good run_list_good)
qed (auto simp: const_fn_def op_fn_def intro!: keeps_read_only)

section \<open>Property\<close>


end
