(* ===== verification/Pagination.thy ===== *)
theory Pagination
  imports Js
begin

text \<open>
  The pager and the pagination of the console's widget library (\<open>uibPaging\<close>,
  \<open>UibPagerController\<close> and \<open>UibPaginationController\<close> in \<open>ui-bootstrap-tpls.js\<close>): the pages of a number of
  items, the page that is shown and the links around it. A missing value and a value that is
  not a number are both \<open>None\<close>, since all comparisons with them fail alike.
\<close>

section \<open>State\<close>

record page_link =
  pg_number :: int
  pg_text :: string
  pg_active :: bool

record page_config =
  pc_rotate :: bool
  pc_forceEllipses :: bool
  pc_boundaryLinkNumbers :: bool
  pc_pageLabel :: "int \<Rightarrow> string"

definition uibPaginationConfig :: page_config where
  "uibPaginationConfig = \<lparr>pc_rotate = True, pc_forceEllipses = False, pc_boundaryLinkNumbers = False, pc_pageLabel = itoa\<rparr>"

record paging =
  p_itemsPerPage :: "int option"
  p_totalItems :: "int option"
  p_totalPages :: int
  p_page :: int
  p_viewValue :: "int option"
  p_numPages :: int
  p_disabled :: bool
  p_maxSize :: "int option"
  p_pages :: "page_link list"

definition ceil_div :: "int \<Rightarrow> int \<Rightarrow> int" where
  "ceil_div a b = - ((- a) div b)"

definition calculateTotalPages :: "paging \<Rightarrow> int" where
  "calculateTotalPages st =
     (let totalPages = (case p_itemsPerPage st of
         None \<Rightarrow> 0
       | Some n \<Rightarrow> if n < 1 then 1 else (case p_totalItems st of None \<Rightarrow> 0 | Some t \<Rightarrow> ceil_div t n))
      in max totalPages 1)"

section \<open>The links\<close>

definition makePage :: "int \<Rightarrow> string \<Rightarrow> bool \<Rightarrow> page_link" where
  "makePage number txt isActive = \<lparr>pg_number = number, pg_text = txt, pg_active = isActive\<rparr>"

definition isMaxSized :: "int option \<Rightarrow> int \<Rightarrow> bool" where
  "isMaxSized maxSize totalPages = (case maxSize of None \<Rightarrow> False | Some m \<Rightarrow> m < totalPages)"

text \<open>The first and the last page shown; without rotation a size of zero divides by zero and
  shows none.\<close>

definition page_limits :: "bool \<Rightarrow> int option \<Rightarrow> int \<Rightarrow> int \<Rightarrow> int \<times> int" where
  "page_limits rot maxSize currentPage totalPages = (case maxSize of
     None \<Rightarrow> (1, totalPages)
   | Some m \<Rightarrow>
       if \<not> m < totalPages then (1, totalPages)
       else if rot then
         (let startPage = max (currentPage - m div 2) 1; endPage = startPage + m - 1
          in if endPage > totalPages then (totalPages - m + 1, totalPages) else (startPage, endPage))
       else if m = 0 then (1, 0)
       else (let startPage = (ceil_div currentPage m - 1) * m + 1 in (startPage, min (startPage + m - 1) totalPages)))"

definition links_before :: "bool \<Rightarrow> int \<Rightarrow> page_link list" where
  "links_before boundary startPage =
     (if startPage > 1 then
        (if boundary then makePage 1 ''1'' False # (if startPage = 3 then [makePage 2 ''2'' False] else []) else []) @
        (if \<not> boundary \<or> startPage > 3 then [makePage (startPage - 1) ''...'' False] else [])
      else [])"

definition links_after :: "bool \<Rightarrow> int \<Rightarrow> int \<Rightarrow> page_link list" where
  "links_after boundary endPage totalPages =
     (if endPage < totalPages then
        (if \<not> boundary \<or> endPage < totalPages - 2 then [makePage (endPage + 1) ''...'' False] else []) @
        (if boundary then (if endPage = totalPages - 2 then [makePage (totalPages - 1) (itoa (totalPages - 1)) False] else []) @
           [makePage totalPages (itoa totalPages) False] else [])
      else [])"

definition getPages :: "page_config \<Rightarrow> int option \<Rightarrow> int \<Rightarrow> int \<Rightarrow> page_link list" where
  "getPages cfg maxSize currentPage totalPages =
     (case page_limits (pc_rotate cfg) maxSize currentPage totalPages of (startPage, endPage) \<Rightarrow>
       let pages = map (\<lambda>number. makePage number (pc_pageLabel cfg number) (number = currentPage)) [startPage..endPage] in
       if isMaxSized maxSize totalPages \<and> (case maxSize of Some m \<Rightarrow> m > 0 | None \<Rightarrow> False) \<and>
           (\<not> pc_rotate cfg \<or> pc_forceEllipses cfg \<or> pc_boundaryLinkNumbers cfg)
       then links_before (pc_boundaryLinkNumbers cfg) startPage @ pages @ links_after (pc_boundaryLinkNumbers cfg) endPage totalPages
       else pages)"

section \<open>Operations\<close>

text \<open>\<open>ctrl.render\<close>, of the pager and of the pagination.\<close>

definition pager_render :: "paging \<Rightarrow> paging" where
  "pager_render st = st\<lparr>p_page := (case p_viewValue st of Some n \<Rightarrow> if n = 0 then 1 else n | None \<Rightarrow> 1)\<rparr>"

definition render :: "page_config \<Rightarrow> paging \<Rightarrow> paging" where
  "render cfg st = (let st1 = pager_render st in
     if p_page st1 > 0 \<and> p_page st1 \<le> p_totalPages st1
     then st1\<lparr>p_pages := getPages cfg (p_maxSize st1) (p_page st1) (p_totalPages st1)\<rparr> else st1)"

definition selectPage :: "page_config \<Rightarrow> int \<Rightarrow> bool \<Rightarrow> paging \<Rightarrow> paging" where
  "selectPage cfg page evt st =
     (let clickAllowed = (\<not> p_disabled st \<or> \<not> evt) in
      if clickAllowed \<and> p_page st \<noteq> page \<and> page > 0 \<and> page \<le> p_totalPages st
      then render cfg (st\<lparr>p_viewValue := Some page\<rparr>) else st)"

definition noPrevious :: "paging \<Rightarrow> bool" where
  "noPrevious st = (p_page st = 1)"

definition noNext :: "paging \<Rightarrow> bool" where
  "noNext st = (p_page st = p_totalPages st)"

definition updatePage :: "page_config \<Rightarrow> paging \<Rightarrow> paging" where
  "updatePage cfg st = (let st1 = st\<lparr>p_numPages := p_totalPages st\<rparr> in
     if p_page st1 > p_totalPages st1 then selectPage cfg (p_totalPages st1) False st1 else render cfg st1)"

datatype page_event = ItemsPerPage "int option" | TotalItems "int option" | MaxSize "int option" | Select int bool | Disable bool

text \<open>The watches of the scope and the clicks. A change of the number of items counts unless it
  stays undefined.\<close>

fun page_step :: "page_config \<Rightarrow> page_event \<Rightarrow> paging \<Rightarrow> paging" where
  "page_step cfg (ItemsPerPage n) st =
     (let st1 = st\<lparr>p_itemsPerPage := n\<rparr> in updatePage cfg (st1\<lparr>p_totalPages := calculateTotalPages st1\<rparr>))"
| "page_step cfg (TotalItems t) st =
     (if t \<noteq> None \<or> t \<noteq> p_totalItems st then
        (let st1 = st\<lparr>p_totalItems := t\<rparr> in updatePage cfg (st1\<lparr>p_totalPages := calculateTotalPages st1\<rparr>))
      else st)"
| "page_step cfg (MaxSize m) st = render cfg (st\<lparr>p_maxSize := m\<rparr>)"
| "page_step cfg (Select page evt) st = selectPage cfg page evt st"
| "page_step cfg (Disable b) st = st\<lparr>p_disabled := b\<rparr>"

section \<open>Facts\<close>

lemma ceil_div_bounds:
  assumes "0 < (b :: int)"
  shows "ceil_div a b * b \<ge> a" "(ceil_div a b - 1) * b < a"
proof -
  have "(- a) div b * b \<le> - a" "- a < (- a) div b * b + b" using div_times_bounds [OF assms, of "- a"] by simp_all
  then show "ceil_div a b * b \<ge> a" "(ceil_div a b - 1) * b < a" by (simp_all add: ceil_div_def algebra_simps)
qed

lemma calculateTotalPages_pos: "1 \<le> calculateTotalPages st"
  by (simp add: calculateTotalPages_def Let_def)

text \<open>The window holds the current page, lies in the range and has at most \<open>maxSize\<close> pages.\<close>

lemma page_limits_window:
  assumes c: "1 \<le> c" "c \<le> t" and m: "\<forall>m. maxSize = Some m \<longrightarrow> 1 \<le> m" and l: "page_limits rot maxSize c t = (a, b)"
  shows "1 \<le> a" "a \<le> c" "c \<le> b" "b \<le> t" "\<And>n. maxSize = Some n \<Longrightarrow> b - a + 1 \<le> n"
proof -
  have "1 \<le> a \<and> a \<le> c \<and> c \<le> b \<and> b \<le> t \<and> (\<forall>m. maxSize = Some m \<longrightarrow> b - a + 1 \<le> m)"
  proof (cases "isMaxSized maxSize t")
    case False
    then have "(a, b) = (1, t)" using l by (auto simp: page_limits_def isMaxSized_def split: option.splits)
    with c False show ?thesis by (auto simp: isMaxSized_def split: option.splits)
  next
    case True
    then obtain n where n: "maxSize = Some n" "n < t" by (auto simp: isMaxSized_def split: option.splits)
    have n1: "1 \<le> n" using m n(1) by simp
    show ?thesis
    proof (cases rot)
      case True
      have "0 \<le> n div 2" "n div 2 \<le> n - 1" using n1 by simp_all
      then show ?thesis using True l n n1 c by (auto simp: page_limits_def Let_def split: if_splits)
    next
      case False
      let ?q = "ceil_div c n"
      have q: "?q * n \<ge> c" "(?q - 1) * n < c" using ceil_div_bounds [of n c] n1 by simp_all
      have "1 \<le> ?q"
      proof (rule ccontr)
        assume "\<not> 1 \<le> ?q"
        then have "?q * n \<le> 0" using n1 by (intro mult_nonpos_nonneg) simp_all
        with q(1) c(1) show False by simp
      qed
      then have "0 \<le> (?q - 1) * n" using n1 by simp
      moreover have "a = (?q - 1) * n + 1" "b = min (a + n - 1) t" using False l n n1 by (auto simp: page_limits_def Let_def)
      moreover have "?q * n = (?q - 1) * n + n" by (simp add: algebra_simps)
      ultimately show ?thesis using q c n by auto
    qed
  qed
  then show "1 \<le> a" "a \<le> c" "c \<le> b" "b \<le> t" "\<And>n. maxSize = Some n \<Longrightarrow> b - a + 1 \<le> n" by blast+
qed

lemma links_before_sorted:
  assumes "1 \<le> a"
  shows "sorted_wrt (<) (map pg_number (links_before bd a))" "\<forall>p\<in>set (links_before bd a). 1 \<le> pg_number p \<and> pg_number p < a \<and> \<not> pg_active p"
  using assms by (auto simp: links_before_def makePage_def)

lemma links_after_sorted:
  assumes "b \<le> t"
  shows "sorted_wrt (<) (map pg_number (links_after bd b t))" "\<forall>p\<in>set (links_after bd b t). b < pg_number p \<and> pg_number p \<le> t \<and> \<not> pg_active p"
  using assms by (auto simp: links_after_def makePage_def)

text \<open>Links in order around the active one.\<close>

definition links_ok :: "int \<Rightarrow> int \<Rightarrow> page_link list \<Rightarrow> bool" where
  "links_ok c t ps = (sorted_wrt (<) (map pg_number ps) \<and> (\<forall>p\<in>set ps. 1 \<le> pg_number p \<and> pg_number p \<le> t) \<and>
     map pg_number (filter pg_active ps) = [c])"

lemma links_ok_window:
  assumes "1 \<le> a" "a \<le> c" "c \<le> b" "b \<le> t"
  shows "links_ok c t (map (\<lambda>number. makePage number (label number) (number = c)) [a..b])"
proof -
  have "[a..b] = [a..c - 1] @ [c] @ [c + 1..b]" using assms upto_split3 [of a c b] by simp
  then have "map pg_number (filter pg_active (map (\<lambda>number. makePage number (label number) (number = c)) [a..b])) = [c]"
    by (simp add: makePage_def filter_map comp_def)
  moreover have "map pg_number (map (\<lambda>number. makePage number (label number) (number = c)) [a..b]) = [a..b]"
    by (simp add: makePage_def comp_def)
  ultimately show ?thesis using assms by (auto simp: links_ok_def makePage_def)
qed

lemma links_ok_extend:
  assumes ok: "links_ok c t ps" and a: "\<forall>p\<in>set ps. a \<le> pg_number p \<and> pg_number p \<le> b" and b: "1 \<le> a" "b \<le> t" "ps \<noteq> []"
  shows "links_ok c t (links_before bd a @ ps @ links_after bd b t)"
proof -
  note before = links_before_sorted [OF b(1), of bd] and after = links_after_sorted [OF b(2), of bd]
  have "filter pg_active (links_before bd a) = []" "filter pg_active (links_after bd b t) = []"
    using before(2) after(2) by (auto simp: filter_empty_conv)
  moreover obtain p where p: "p \<in> set ps" using b(3) by (cases ps) auto
  have "a \<le> b" using a p by fastforce
  then have "\<forall>x\<in>set (links_before bd a). \<forall>y\<in>set ps \<union> set (links_after bd b t). pg_number x < pg_number y"
    using before(2) after(2) a by fastforce
  moreover have "\<forall>x\<in>set ps. \<forall>y\<in>set (links_after bd b t). pg_number x < pg_number y" using after(2) a by fastforce
  moreover have "\<forall>x\<in>set (links_before bd a). 1 \<le> pg_number x \<and> pg_number x \<le> t" using before(2) b(2) \<open>a \<le> b\<close> by fastforce
  moreover have "\<forall>x\<in>set (links_after bd b t). 1 \<le> pg_number x \<and> pg_number x \<le> t" using after(2) b(1) \<open>a \<le> b\<close> by fastforce
  ultimately show ?thesis using ok before(1) after(1)
    unfolding links_ok_def map_append filter_append sorted_wrt_append set_append set_map ball_Un by simp
qed

section \<open>Properties\<close>

text \<open>C33: The links of the pagination are in order: for every configuration, a current page in
  range and no or a positive \<open>maxSize\<close>, the numbers of the links increase strictly and lie
  between 1 and the number of pages, with or without ellipses and boundary links; exactly
  the link of the current page is active, and without these extra links there are at most
  \<open>maxSize\<close> of them.\<close>

theorem pagination_links:
  assumes "1 \<le> c" "c \<le> t" "\<forall>m. maxSize = Some m \<longrightarrow> 1 \<le> m"
  shows "sorted_wrt (<) (map pg_number (getPages cfg maxSize c t)) \<and>
    (\<forall>p\<in>set (getPages cfg maxSize c t). 1 \<le> pg_number p \<and> pg_number p \<le> t) \<and>
    map pg_number (filter pg_active (getPages cfg maxSize c t)) = [c] \<and>
    (\<forall>m. maxSize = Some m \<and> pc_rotate cfg \<and> \<not> pc_forceEllipses cfg \<and> \<not> pc_boundaryLinkNumbers cfg \<longrightarrow>
      int (length (getPages cfg maxSize c t)) \<le> m)"
proof -
  obtain a b where l: "page_limits (pc_rotate cfg) maxSize c t = (a, b)" by force
  note w = page_limits_window [OF assms l]
  let ?bd = "pc_boundaryLinkNumbers cfg"
  let ?pages = "map (\<lambda>number. makePage number (pc_pageLabel cfg number) (number = c)) [a..b]"
  have g: "getPages cfg maxSize c t = ?pages \<or> getPages cfg maxSize c t = links_before ?bd a @ ?pages @ links_after ?bd b t"
    by (simp add: getPages_def l Let_def)
  have window: "links_ok c t ?pages" by (rule links_ok_window [OF w(1-4)])
  moreover have "\<forall>p\<in>set ?pages. a \<le> pg_number p \<and> pg_number p \<le> b" by (auto simp: makePage_def)
  moreover have "?pages \<noteq> []" using w(2,3) by simp
  ultimately have "links_ok c t (links_before ?bd a @ ?pages @ links_after ?bd b t)"
    by (intro links_ok_extend w(1,4))
  with window g have ok: "links_ok c t (getPages cfg maxSize c t)" by metis
  have "int (length ?pages) \<le> m" if "maxSize = Some m" for m using w(5) [OF that] w(2,3) by simp
  moreover have "getPages cfg maxSize c t = ?pages" if "pc_rotate cfg" "\<not> pc_forceEllipses cfg" "\<not> ?bd"
    using that l by (simp add: getPages_def Let_def)
  ultimately have "\<forall>m. maxSize = Some m \<and> pc_rotate cfg \<and> \<not> pc_forceEllipses cfg \<and> \<not> ?bd \<longrightarrow>
      int (length (getPages cfg maxSize c t)) \<le> m" by metis
  with ok show ?thesis unfolding links_ok_def by blast
qed

theorem pagination_links_witness:
  "map pg_number (filter pg_active (getPages (uibPaginationConfig\<lparr>pc_boundaryLinkNumbers := True\<rparr>) (Some 5) 7 20)) = [7] \<and>
   map pg_text (getPages (uibPaginationConfig\<lparr>pc_boundaryLinkNumbers := True\<rparr>) (Some 5) 7 20) =
     [''1'', ''...'', ''5'', ''6'', ''7'', ''8'', ''9'', ''...'', ''20'']"
proof
  show "map pg_number (filter pg_active (getPages (uibPaginationConfig\<lparr>pc_boundaryLinkNumbers := True\<rparr>) (Some 5) 7 20)) = [7]"
    using pagination_links [of 7 20 "Some 5" "uibPaginationConfig\<lparr>pc_boundaryLinkNumbers := True\<rparr>"] by auto
  show "map pg_text (getPages (uibPaginationConfig\<lparr>pc_boundaryLinkNumbers := True\<rparr>) (Some 5) 7 20) =
     [''1'', ''...'', ''5'', ''6'', ''7'', ''8'', ''9'', ''...'', ''20'']"
    by code_simp
qed

text \<open>The page is in range and the links are those of the page.\<close>

definition paging_ok :: "page_config \<Rightarrow> paging \<Rightarrow> bool" where
  "paging_ok cfg st = (1 \<le> p_page st \<and> p_page st \<le> p_totalPages st \<and> p_viewValue st = Some (p_page st) \<and>
     p_pages st = getPages cfg (p_maxSize st) (p_page st) (p_totalPages st))"

lemma render_ok:
  assumes "p_viewValue st = Some n" "1 \<le> n" "n \<le> p_totalPages st"
  shows "paging_ok cfg (render cfg st)"
  using assms by (simp add: render_def pager_render_def paging_ok_def Let_def)

lemma selectPage_ok: "paging_ok cfg st \<Longrightarrow> paging_ok cfg (selectPage cfg page evt st)"
  using render_ok [of "st\<lparr>p_viewValue := Some page\<rparr>" page cfg] by (simp add: selectPage_def Let_def)

lemma updatePage_ok:
  assumes "p_viewValue st = Some (p_page st)" "1 \<le> p_page st" "1 \<le> p_totalPages st"
  shows "paging_ok cfg (updatePage cfg st)"
  using assms render_ok [of "st\<lparr>p_numPages := p_totalPages st, p_viewValue := Some (p_totalPages st)\<rparr>" "p_totalPages st" cfg]
    render_ok [of "st\<lparr>p_numPages := p_totalPages st\<rparr>" "p_page st" cfg]
  by (simp add: updatePage_def selectPage_def Let_def)

lemma page_step_ok:
  assumes "paging_ok cfg st"
  shows "paging_ok cfg (page_step cfg e st)"
proof -
  have st: "p_viewValue st = Some (p_page st)" "1 \<le> p_page st" "p_page st \<le> p_totalPages st" using assms by (simp_all add: paging_ok_def)
  show ?thesis
  proof (cases e)
    case (ItemsPerPage n)
    then show ?thesis using st calculateTotalPages_pos by (simp add: Let_def updatePage_ok)
  next
    case (TotalItems t)
    then show ?thesis using assms st calculateTotalPages_pos by (simp add: Let_def updatePage_ok)
  next
    case (MaxSize m)
    then show ?thesis using st render_ok [of "st\<lparr>p_maxSize := m\<rparr>" "p_page st" cfg] by simp
  qed (use assms selectPage_ok in \<open>simp_all add: paging_ok_def\<close>)
qed


definition demo_paging :: paging where
  "demo_paging = \<lparr>p_itemsPerPage = Some 10, p_totalItems = Some 35, p_totalPages = 4, p_page = 4, p_viewValue = Some 4,
     p_numPages = 4, p_disabled = False, p_maxSize = None, p_pages = getPages uibPaginationConfig None 4 4\<rparr>"


end
