(* ===== verification/Ng_Interpolate.thy ===== *)
theory Ng_Interpolate
  imports Ng_Print Ng_Eval Ng_Http
begin

text \<open>
  \<open>$interpolate\<close>: a text with expressions between the start and the end symbol becomes a list of
  parts, which are evaluated on a scope and joined. The symbols are those of the provider; the
  console sets them to double square brackets. \<open>$sce\<close> is a parameter.
\<close>

section \<open>The symbols\<close>

record symbols =
  i_start :: string
  i_end :: string

definition default_symbols :: symbols where
  "default_symbols = \<lparr>i_start = ''{{'', i_end = ''}}''\<rparr>"

text \<open>The setters ignore a value that is not truthy, so a symbol is never empty.\<close>

definition set_startSymbol :: "string \<Rightarrow> symbols \<Rightarrow> symbols" where
  "set_startSymbol x y = (if x \<noteq> [] then y\<lparr>i_start := x\<rparr> else y)"

definition set_endSymbol :: "string \<Rightarrow> symbols \<Rightarrow> symbols" where
  "set_endSymbol x y = (if x \<noteq> [] then y\<lparr>i_end := x\<rparr> else y)"

definition console_symbols :: symbols where
  "console_symbols = set_endSymbol '']]'' (set_startSymbol ''[['' default_symbols)"

section \<open>The parts\<close>

text \<open>\<open>indexOf\<close>: what stands before the first occurrence and what stands after it.\<close>

fun split_sub :: "string \<Rightarrow> string \<Rightarrow> (string \<times> string) option" where
  "split_sub w [] = (if w = [] then Some ([], []) else None)"
| "split_sub w (c # s) = (if starts_with w (c # s) then Some ([], drop (length w) (c # s))
     else map_option (\<lambda>(u, v). (c # u, v)) (split_sub w s))"

lemma starts_with_prefix: "starts_with w s \<Longrightarrow> s = w @ drop (length w) s"
  by (metis append_take_drop_id starts_with_def)

lemma split_sub_length: "split_sub w s = Some (u, v) \<Longrightarrow> s = u @ w @ v"
proof (induction s arbitrary: u)
  case (Cons c s)
  show ?case
  proof (cases "starts_with w (c # s)")
    case True
    then have "c # s = w @ drop (length w) (c # s)" by (rule starts_with_prefix)
    with True Cons.prems show ?thesis by auto
  next
    case False
    with Cons show ?thesis by auto
  qed
qed (simp split: if_splits)

datatype part = PText string | PExpr string ngexp

datatype interp_error = NoConcat | ParseFailed ng_error | Endless

definition text_part :: "string \<Rightarrow> part list" where
  "text_part t = (if t = [] then [] else [PText t])"

text \<open>The loop over the text. With an empty symbol it would not advance; there is no such symbol.\<close>

function interp_parts :: "(string \<Rightarrow> bool) \<Rightarrow> symbols \<Rightarrow> string \<Rightarrow> interp_error + part list" where
  "interp_parts known y s =
     (case split_sub (i_start y) s of
        None \<Rightarrow> Inr (text_part s)
      | Some (t, r) \<Rightarrow>
          (case split_sub (i_end y) r of
             None \<Rightarrow> Inr (text_part s)
           | Some (exp, rest) \<Rightarrow>
               if length rest < length s
               then case parse known exp of
                   Inl e \<Rightarrow> Inl (ParseFailed e)
                 | Inr e \<Rightarrow> (case interp_parts known y rest of
                       Inl er \<Rightarrow> Inl er
                     | Inr ps \<Rightarrow> Inr (text_part t @ PExpr exp e # ps))
               else Inl Endless))"
  by pat_completeness auto
termination
  by (relation "measure (\<lambda>(_, _, s). length s)") auto

declare interp_parts.simps [simp del]

definition is_expr :: "part \<Rightarrow> bool" where
  "is_expr p = (case p of PExpr _ _ \<Rightarrow> True | PText _ \<Rightarrow> False)"

text \<open>The result is None where the service returns no function.\<close>

definition interpolate :: "(string \<Rightarrow> bool) \<Rightarrow> symbols \<Rightarrow> string \<Rightarrow> bool \<Rightarrow> string option \<Rightarrow> interp_error + part list option" where
  "interpolate known y s mustHaveExpression trustedContext =
     (case interp_parts known y s of
        Inl e \<Rightarrow> Inl e
      | Inr ps0 \<Rightarrow>
          (let ps = (if ps0 = [] then [PText []] else ps0) in
           if trustedContext \<noteq> None \<and> trustedContext \<noteq> Some [] \<and> 1 < length ps then Inl NoConcat
           else Inr (if \<not> mustHaveExpression \<or> list_ex is_expr ps then Some ps else None)))"

section \<open>The interpolation function\<close>

definition part_text :: "jsval \<Rightarrow> string" where
  "part_text v = (case v of
     JUndef \<Rightarrow> [] | JNull \<Rightarrow> [] | JStr t \<Rightarrow> t | JNum n \<Rightarrow> itoa n
   | _ \<Rightarrow> (case toJson v of JStr t \<Rightarrow> t | _ \<Rightarrow> []))"

text \<open>\<open>sce\<close> is \<open>getTrusted\<close> for the context of the text or \<open>valueOf\<close>.\<close>

fun interp_run :: "callee \<Rightarrow> filter_env \<Rightarrow> (jsval \<Rightarrow> jsval ng) \<Rightarrow> part list \<Rightarrow> jsval \<Rightarrow> (string \<times> jsval) ng" where
  "interp_run call filt sce [] s = Inr ([], s)"
| "interp_run call filt sce (PText t # ps) s =
     bind_ng (interp_run call filt sce ps s) (\<lambda>(u, s'). Inr (t @ u, s'))"
| "interp_run call filt sce (PExpr exp e # ps) s =
     bind_ng (eval call filt e s) (\<lambda>(v, s1). bind_ng (sce v) (\<lambda>w.
       bind_ng (interp_run call filt sce ps s1) (\<lambda>(u, s2). Inr (part_text w @ u, s2))))"

text \<open>An error goes to \<open>$exceptionHandler\<close> and the function returns undefined.\<close>

definition interp_value :: "callee \<Rightarrow> filter_env \<Rightarrow> (jsval \<Rightarrow> jsval ng) \<Rightarrow> part list \<Rightarrow> jsval \<Rightarrow> jsval \<times> ng_error option" where
  "interp_value call filt sce ps s = (case interp_run call filt sce ps s of
     Inl e \<Rightarrow> (JUndef, Some e) | Inr (t, _) \<Rightarrow> (JStr t, None))"

section \<open>Templates\<close>

text \<open>A text in which the symbol does not begin before the one that follows it.\<close>

definition clear_of :: "string \<Rightarrow> string \<Rightarrow> bool" where
  "clear_of w t \<longleftrightarrow> split_sub w (t @ w) = Some (t, [])"

lemma starts_with_append: "length w \<le> length s \<Longrightarrow> starts_with w (s @ r) = starts_with w s"
  by (simp add: starts_with_def)

lemma split_sub_append:
  "split_sub w s = Some (u, v) \<Longrightarrow> w \<noteq> [] \<Longrightarrow> split_sub w (s @ r) = Some (u, v @ r)"
proof (induction s arbitrary: u)
  case (Cons c s)
  show ?case
  proof (cases "starts_with w (c # s)")
    case True
    then have "length w \<le> length (c # s)" 
      using arg_cong [OF starts_with_prefix, of w "c # s" length] by simp
    with True Cons.prems show ?thesis using starts_with_append [of w "c # s" r] drop_append [of "length w" "c # s" r] by auto
  next
    case False
    then obtain u' where u': "split_sub w s = Some (u', v)" "u = c # u'" using Cons.prems(1) by auto
    have "length w \<le> length s" using split_sub_length [OF u'(1)] by simp
    then have "\<not> starts_with w ((c # s) @ r)" using False starts_with_append [of w "c # s" r] by simp
    then show ?thesis using Cons.IH [OF u'(1) Cons.prems(2)] u'(2) by simp
  qed
qed simp

lemma split_sub_clear: "clear_of w t \<Longrightarrow> w \<noteq> [] \<Longrightarrow> split_sub w (t @ w @ r) = Some (t, r)"
  using split_sub_append [of w "t @ w" t "[]" r] by (simp add: clear_of_def)

lemma split_sub_none: "clear_of w t \<Longrightarrow> w \<noteq> [] \<Longrightarrow> split_sub w t = None"
proof (rule ccontr)
  assume c: "clear_of w t" "w \<noteq> []" "split_sub w t \<noteq> None"
  then obtain u v where "split_sub w t = Some (u, v)" by auto
  from split_sub_append [OF this c(2), of w] c(1,2) show False by (simp add: clear_of_def)
qed

text \<open>A template: texts and expressions as they are written.\<close>

fun template_text :: "symbols \<Rightarrow> part list \<Rightarrow> string" where
  "template_text y [] = []"
| "template_text y (PText t # ps) = t @ template_text y ps"
| "template_text y (PExpr exp e # ps) = i_start y @ exp @ i_end y @ template_text y ps"

fun well_formed :: "(string \<Rightarrow> bool) \<Rightarrow> symbols \<Rightarrow> part list \<Rightarrow> bool" where
  "well_formed known y [] = True"
| "well_formed known y (PText t # ps) = (t \<noteq> [] \<and> clear_of (i_start y) t \<and> (ps \<noteq> [] \<longrightarrow> is_expr (hd ps)) \<and> well_formed known y ps)"
| "well_formed known y (PExpr exp e # ps) = (clear_of (i_end y) exp \<and> parse known exp = Inr e \<and> well_formed known y ps)"

lemma clear_nil: "w \<noteq> [] \<Longrightarrow> clear_of w []"
  by (cases w) (simp_all add: clear_of_def starts_with_def)

lemma interp_parts_expr:
  assumes "i_start y \<noteq> []" "i_end y \<noteq> []" "clear_of (i_start y) t" "clear_of (i_end y) exp"
    and "parse known exp = Inr e" "interp_parts known y r = Inr ps"
  shows "interp_parts known y (t @ i_start y @ exp @ i_end y @ r) = Inr (text_part t @ PExpr exp e # ps)"
proof -
  have "split_sub (i_start y) (t @ i_start y @ exp @ i_end y @ r) = Some (t, exp @ i_end y @ r)"
    by (rule split_sub_clear) (use assms in auto)
  moreover have "split_sub (i_end y) (exp @ i_end y @ r) = Some (exp, r)"
    by (rule split_sub_clear) (use assms in auto)
  moreover have "length r < length (t @ i_start y @ exp @ i_end y @ r)" using assms(1) by (cases "i_start y") auto
  ultimately show ?thesis using assms(5,6) by (subst interp_parts.simps) simp
qed

lemma interp_parts_template:
  "i_start y \<noteq> [] \<Longrightarrow> i_end y \<noteq> [] \<Longrightarrow> well_formed known y ps \<Longrightarrow> interp_parts known y (template_text y ps) = Inr ps"
proof (induction known y ps rule: well_formed.induct)
  case (1 known y)
  then show ?case by (subst interp_parts.simps) (simp add: text_part_def)
next
  case (2 known y t ps)
  show ?case
  proof (cases ps)
    case Nil
    then show ?thesis using 2 split_sub_none by (subst interp_parts.simps) (simp add: text_part_def)
  next
    case (Cons p qs)
    then obtain exp e where p: "p = PExpr exp e" using 2 by (cases p) (auto simp: is_expr_def)
    have IH: "interp_parts known y (template_text y ps) = Inr ps" using 2 by simp
    have "interp_parts known y (template_text y qs) = Inr qs"
    proof (rule ccontr)
      assume n: "interp_parts known y (template_text y qs) \<noteq> Inr qs"
      have s: "split_sub (i_start y) (template_text y ps) = Some ([], exp @ i_end y @ template_text y qs)"
        using split_sub_clear [of "i_start y" "[]"] clear_nil 2 Cons p by simp
      have "split_sub (i_end y) (exp @ i_end y @ template_text y qs) = Some (exp, template_text y qs)"
        using split_sub_clear 2 Cons p by simp
      then show False using IH n s Cons p
        by (subst (asm) interp_parts.simps) (auto simp: text_part_def split: if_splits sum.splits)
    qed
    then show ?thesis using interp_parts_expr [of y t exp known e "template_text y qs" qs] 2 Cons p by (simp add: text_part_def)
  qed
next
  case (3 known y exp e ps)
  then show ?case using interp_parts_expr [of y "[]" exp known e "template_text y ps" ps] clear_nil by (simp add: text_part_def)
qed

lemma interp_run_pure:
  assumes "\<And>exp e. PExpr exp e \<in> set ps \<Longrightarrow> eval call filt e s = Inr (val e, s) \<and> sce (val e) = Inr (val e)"
  shows "interp_run call filt sce ps s =
    Inr (concat (map (\<lambda>p. case p of PText t \<Rightarrow> t | PExpr exp e \<Rightarrow> part_text (val e)) ps), s)"
  using assms
proof (induction ps)
  case (Cons p ps)
  have "interp_run call filt sce ps s =
      Inr (concat (map (\<lambda>p. case p of PText t \<Rightarrow> t | PExpr exp e \<Rightarrow> part_text (val e)) ps), s)"
    by (rule Cons.IH) (use Cons.prems in auto)
  moreover have "eval call filt e s = Inr (val e, s) \<and> sce (val e) = Inr (val e)" if "p = PExpr exp e" for exp e
    using Cons.prems that by auto
  ultimately show ?case by (cases p) auto
qed simp

section \<open>Properties\<close>

text \<open>C27: A template means what it is made of: of texts without the start symbol and expressions without
  the end symbol, the service finds exactly these texts and expressions. It refuses them
  only where a trusted value is required of more than one part, and returns no function only
  for texts alone where an expression is required. The function joins the texts with
  the values of the expressions in order: nothing for null and undefined, strings as they are,
  numbers in decimal and other values as JSON.\<close>

theorem template_means_parts:
  assumes "i_start y \<noteq> []" "i_end y \<noteq> []" "ps \<noteq> []" "well_formed known y ps"
    and "\<And>exp e. PExpr exp e \<in> set ps \<Longrightarrow> eval call filt e s = Inr (val e, s) \<and> sce (val e) = Inr (val e)"
  shows "interpolate known y (template_text y ps) must trusted =
      (if trusted \<noteq> None \<and> trusted \<noteq> Some [] \<and> 1 < length ps then Inl NoConcat
       else if must \<and> list_all (\<lambda>p. \<not> is_expr p) ps then Inr None else Inr (Some ps)) \<and>
    interp_value call filt sce ps s =
      (JStr (concat (map (\<lambda>p. case p of PText t \<Rightarrow> t | PExpr exp e \<Rightarrow> part_text (val e)) ps)), None)"
  using assms(3) interp_parts_template [OF assms(1,2,4)] interp_run_pure [of ps call filt s val sce, OF assms(5)]
  by (auto simp: interpolate_def interp_value_def list_ex_iff list_all_iff)

theorem template_means_parts_witness:
  "interpolate (\<lambda>_. False) console_symbols (template_text console_symbols
      [PText ''/api/room/'', PExpr (render (print (EPath ''r''))) (EPath ''r''), PText ''?'']) False None =
    Inr (Some [PText ''/api/room/'', PExpr (render (print (EPath ''r''))) (EPath ''r''), PText ''?'']) \<and>
   interp_value (\<lambda>_ _ _ _. Inl Unmodelled) (\<lambda>_ _. Inl UnknownFilter) Inr
      [PText ''/api/room/'', PExpr (render (print (EPath ''r''))) (EPath ''r''), PText ''?''] (JObj [(''r'', JNum 7)]) =
    (JStr ''/api/room/7?'', None)"
proof -
  let ?ps = "[PText ''/api/room/'', PExpr (render (print (EPath ''r''))) (EPath ''r''), PText ''?'']"
  let ?call = "\<lambda>_ _ _ _. Inl Unmodelled" and ?filt = "\<lambda>_ _. Inl UnknownFilter"
  have p: "parse (\<lambda>_. False) (render (print (EPath ''r''))) = Inr (EPath ''r'')"
    by (rule parse_rendered) (simp add: isIdent_def is_alpha_def is_digit_def CONSTANTS_def OPERATORS_def unsafe_names_def)
  have y: "i_start console_symbols = ''[[''" "i_end console_symbols = '']]''" by code_simp+
  have w: "well_formed (\<lambda>_. False) console_symbols ?ps"
    using p by (simp add: y clear_of_def starts_with_def is_expr_def render_def)
  have v: "eval ?call ?filt e (JObj [(''r'', JNum 7)]) = Inr (JNum 7, JObj [(''r'', JNum 7)]) \<and> Inr (JNum 7) = (Inr (JNum 7) :: jsval ng)"
    if "PExpr exp e \<in> set ?ps" for exp e
  proof -
    have "e = EPath ''r''" using that by simp
    moreover have "eval ?call ?filt (EPath ''r'') (JObj [(''r'', JNum 7)]) = Inr (JNum 7, JObj [(''r'', JNum 7)])" by code_simp
    ultimately show ?thesis by simp
  qed
  have "interpolate (\<lambda>_. False) console_symbols (template_text console_symbols ?ps) False None =
      (if (None :: string option) \<noteq> None \<and> None \<noteq> Some ([] :: string) \<and> 1 < length ?ps then Inl NoConcat
       else if False \<and> list_all (\<lambda>p. \<not> is_expr p) ?ps then Inr None else Inr (Some ?ps)) \<and>
    interp_value ?call ?filt Inr ?ps (JObj [(''r'', JNum 7)]) =
      (JStr (concat (map (\<lambda>p. case p of PText t \<Rightarrow> t | PExpr exp e \<Rightarrow> part_text (JNum 7)) ?ps)), None)"
    by (rule template_means_parts [where val = "\<lambda>_. JNum 7"]; (fact w | rule v | simp add: y))
  moreover have "itoa 7 = ''7''" by code_simp
  ultimately show ?thesis by (simp add: part_text_def)
qed

end
