(* ===== verification/Ng_Hash.thy ===== *)
theory Ng_Hash
  imports Js
begin

text \<open>
  Unique ids and hash keys. \<open>nextUid\<close> counts with the digits and the capital letters; \<open>hashKey\<close>
  names every value, writing a new id into an object it has not seen. Objects and functions are
  addresses, so that an object that stands twice in an array is the same.
\<close>

section \<open>Unique ids\<close>

text \<open>The loop of \<open>nextUid\<close> from the last digit on; the flag says that all digits were Z.\<close>

fun uid_step :: "string \<Rightarrow> string \<times> bool" where
  "uid_step [] = ([], True)"
| "uid_step (c # cs) =
     (let (cs', carry) = uid_step cs in
      if \<not> carry then (c # cs', False)
      else if c = CHR ''9'' then (CHR ''A'' # cs', False)
      else if c = CHR ''Z'' then (CHR ''0'' # cs', True)
      else (char_of (of_char c + 1 :: nat) # cs', False))"

definition nextUid :: "string \<Rightarrow> string" where
  "nextUid u = (let (u', carry) = uid_step u in if carry then CHR ''0'' # u' else u')"

text \<open>The value of a digit among the 36, and the number of ids before one: all shorter ones and
  the smaller ones of its length.\<close>

definition uid_digit :: "char \<Rightarrow> nat" where
  "uid_digit c = (if of_char c < (58 :: nat) then of_char c - 48 else of_char c - 55)"

definition uid_char :: "char \<Rightarrow> bool" where
  "uid_char c = (48 \<le> (of_char c :: nat) \<and> (of_char c :: nat) < 58 \<or> 65 \<le> (of_char c :: nat) \<and> (of_char c :: nat) < 91)"

fun uid_value :: "string \<Rightarrow> nat" where
  "uid_value [] = 0"
| "uid_value (c # cs) = uid_digit c * 36 ^ length cs + uid_value cs"

definition uid_rank :: "string \<Rightarrow> nat" where
  "uid_rank u = (\<Sum>i < length u. 36 ^ i) + uid_value u"

lemma uid_char_next:
  assumes "uid_char c" "c \<noteq> CHR ''9''" "c \<noteq> CHR ''Z''"
  shows "uid_char (char_of (of_char c + 1 :: nat))" "uid_digit (char_of (of_char c + 1 :: nat)) = Suc (uid_digit c)"
proof -
  have n: "(of_char c :: nat) \<noteq> 57" "(of_char c :: nat) \<noteq> 90"
    using assms(2,3) of_char_eq_iff [of c "CHR ''9''", where ?'a = nat] of_char_eq_iff [of c "CHR ''Z''", where ?'a = nat] by simp_all
  have m: "(of_char c + 1 :: nat) < 256" using assms(1) by (auto simp: uid_char_def)
  show "uid_char (char_of (of_char c + 1 :: nat))" "uid_digit (char_of (of_char c + 1 :: nat)) = Suc (uid_digit c)"
    using assms(1) n m by (auto simp: uid_char_def uid_digit_def)
qed

lemma uid_step_value:
  "list_all uid_char u \<Longrightarrow> uid_step u = (u', carry) \<Longrightarrow>
    length u' = length u \<and> list_all uid_char u' \<and>
    uid_value u' + (if carry then 36 ^ length u else 0) = Suc (uid_value u)"
proof (induction u arbitrary: u' carry)
  case (Cons c cs)
  obtain cs' b where cs: "uid_step cs = (cs', b)" by force
  with Cons have IH: "length cs' = length cs" "list_all uid_char cs'"
      "uid_value cs' + (if b then 36 ^ length cs else 0) = Suc (uid_value cs)" by auto
  have d: "uid_digit CHR ''9'' = 9" "uid_digit CHR ''A'' = 10" "uid_digit CHR ''Z'' = 35" "uid_digit CHR ''0'' = 0"
    by (simp_all add: uid_digit_def)
  have c: "uid_char CHR ''A''" "uid_char CHR ''0''" by (simp_all add: uid_char_def)
  show ?case
    using Cons.prems cs IH d c uid_char_next [of c]
    by (auto split: if_splits simp: algebra_simps)
qed simp

lemma nextUid_rank:
  assumes "list_all uid_char u"
  shows "uid_rank (nextUid u) = Suc (uid_rank u)" "list_all uid_char (nextUid u)"
proof -
  obtain u' b where u: "uid_step u = (u', b)" by force
  have d: "uid_digit CHR ''0'' = 0" "uid_char CHR ''0''" by (simp_all add: uid_digit_def uid_char_def)
  show "uid_rank (nextUid u) = Suc (uid_rank u)" "list_all uid_char (nextUid u)"
    using uid_step_value [OF assms u] u d by (auto simp: nextUid_def uid_rank_def split: if_splits)
qed

lemma nextUid_run:
  "list_all uid_char u \<Longrightarrow> uid_rank ((nextUid ^^ n) u) = uid_rank u + n \<and> list_all uid_char ((nextUid ^^ n) u)"
  by (induction n) (auto simp: nextUid_rank)

lemma nextUid_never_repeats:
  "list_all uid_char u \<Longrightarrow> (nextUid ^^ m) u = (nextUid ^^ n) u \<Longrightarrow> m = n"
  using nextUid_run [of u m, THEN conjunct1] nextUid_run [of u n, THEN conjunct1] by (metis add_left_cancel)

section \<open>Hash keys\<close>

text \<open>Values that are compared by identity are addresses of a heap; a function is a cell as well.\<close>

datatype rval = VUndef | VNull | VBool bool | VNum int | VStr string | Ref nat

record cell =
  o_function :: bool
  o_fields :: jsobj

record hash_world =
  w_uid :: string
  w_heap :: "nat \<Rightarrow> cell"

definition put_field :: "nat \<Rightarrow> string \<Rightarrow> jsval \<Rightarrow> hash_world \<Rightarrow> hash_world" where
  "put_field r k x w = w\<lparr>w_heap := (w_heap w)(r := (w_heap w r)\<lparr>o_fields := obj_put k x (o_fields (w_heap w r))\<rparr>)\<rparr>"

definition cell_type :: "cell \<Rightarrow> string" where
  "cell_type c = (if o_function c then ''function'' else ''object'')"

text \<open>\<open>call r f\<close> is what the method \<open>$$hashKey\<close> of an object returns, if it has one.\<close>

definition hashKey :: "(nat \<Rightarrow> nat \<Rightarrow> jsval) \<Rightarrow> rval \<Rightarrow> hash_world \<Rightarrow> string \<times> hash_world" where
  "hashKey call v w = (case v of
     VUndef \<Rightarrow> (''undefined:undefined'', w)
   | VNull \<Rightarrow> (''object:null'', w)
   | VBool b \<Rightarrow> (''boolean:'' @ (if b then ''true'' else ''false''), w)
   | VNum n \<Rightarrow> (''number:'' @ itoa n, w)
   | VStr t \<Rightarrow> (''string:'' @ t, w)
   | Ref r \<Rightarrow> (let c = w_heap w r; key = (case obj_get (o_fields c) ''$$hashKey'' of Some x \<Rightarrow> x | None \<Rightarrow> JUndef) in
       case key of
         JFun f _ \<Rightarrow> (cell_type c @ '':'' @ js_string (call r f), w)
       | JUndef \<Rightarrow> (let u = nextUid (w_uid w) in
           (cell_type c @ '':'' @ u, put_field r ''$$hashKey'' (JStr u) (w\<lparr>w_uid := u\<rparr>)))
       | _ \<Rightarrow> (cell_type c @ '':'' @ js_string key, w)))"

text \<open>Keys that were issued: distinct ids that are not after the current one.\<close>

definition key_of :: "hash_world \<Rightarrow> nat \<Rightarrow> jsval option" where
  "key_of w r = obj_get (o_fields (w_heap w r)) ''$$hashKey''"

definition uid_issued :: "hash_world \<Rightarrow> string \<Rightarrow> bool" where
  "uid_issued w u = (list_all uid_char u \<and> uid_rank u \<le> uid_rank (w_uid w))"

definition hash_ok :: "hash_world \<Rightarrow> bool" where
  "hash_ok w \<longleftrightarrow> list_all uid_char (w_uid w) \<and>
     (\<forall>r x. key_of w r = Some x \<longrightarrow> (\<exists>u. x = JStr u \<and> uid_issued w u)) \<and>
     (\<forall>r r' x. key_of w r = Some x \<longrightarrow> key_of w r' = Some x \<longrightarrow> r = r')"

text \<open>The id of a value that has one already.\<close>

definition id_of :: "hash_world \<Rightarrow> rval \<Rightarrow> string option" where
  "id_of w v = (case v of
     VUndef \<Rightarrow> Some ''undefined:undefined''
   | VNull \<Rightarrow> Some ''object:null''
   | VBool b \<Rightarrow> Some (''boolean:'' @ (if b then ''true'' else ''false''))
   | VNum n \<Rightarrow> Some (''number:'' @ itoa n)
   | VStr t \<Rightarrow> Some (''string:'' @ t)
   | Ref r \<Rightarrow> map_option (\<lambda>x. cell_type (w_heap w r) @ '':'' @ js_string x) (key_of w r))"

lemma key_of_set_field: "key_of (put_field r ''$$hashKey'' x w) r' = (if r' = r then Some x else key_of w r')"
  by (simp add: key_of_def put_field_def)

lemma cell_type_set_field: "cell_type (w_heap (put_field r k x w) r') = cell_type (w_heap w r')"
  by (simp add: put_field_def cell_type_def)

lemma key_of_uid [simp]: "key_of (w\<lparr>w_uid := u\<rparr>) r = key_of w r"
  by (simp add: key_of_def)

text \<open>Hashing a value keeps the keys there are and gives the value its id.\<close>

definition later :: "hash_world \<Rightarrow> hash_world \<Rightarrow> bool" where
  "later w w' \<longleftrightarrow> (\<forall>v k. id_of w v = Some k \<longrightarrow> id_of w' v = Some k)"

lemma later_refl [simp]: "later w w" and later_trans: "later w w' \<Longrightarrow> later w' w'' \<Longrightarrow> later w w''"
  by (auto simp: later_def)

lemma hashKey_cases:
  assumes "hash_ok w" "hashKey call v w = (k, w')"
  shows "id_of w v = Some k \<and> w' = w \<or>
    (\<exists>r. v = Ref r \<and> key_of w r = None \<and> k = cell_type (w_heap w r) @ '':'' @ nextUid (w_uid w) \<and>
      w' = put_field r ''$$hashKey'' (JStr (nextUid (w_uid w))) (w\<lparr>w_uid := nextUid (w_uid w)\<rparr>))"
proof (cases v)
  case (Ref r)
  show ?thesis
  proof (cases "key_of w r")
    case None
    then show ?thesis using assms(2) Ref by (auto simp: hashKey_def key_of_def Let_def)
  next
    case (Some x)
    then obtain u where "x = JStr u" using assms(1) by (auto simp: hash_ok_def)
    then show ?thesis using assms(2) Ref Some by (auto simp: hashKey_def key_of_def id_of_def Let_def)
  qed
qed (use assms in \<open>auto simp: hashKey_def id_of_def\<close>)

lemma hashKey_ok:
  assumes "hash_ok w" "hashKey call v w = (k, w')"
  shows "hash_ok w' \<and> later w w' \<and> id_of w' v = Some k"
  using hashKey_cases [OF assms]
proof
  assume "\<exists>r. v = Ref r \<and> key_of w r = None \<and> k = cell_type (w_heap w r) @ '':'' @ nextUid (w_uid w) \<and>
      w' = put_field r ''$$hashKey'' (JStr (nextUid (w_uid w))) (w\<lparr>w_uid := nextUid (w_uid w)\<rparr>)"
  then obtain r where r: "v = Ref r" "key_of w r = None" "k = cell_type (w_heap w r) @ '':'' @ nextUid (w_uid w)"
      "w' = put_field r ''$$hashKey'' (JStr (nextUid (w_uid w))) (w\<lparr>w_uid := nextUid (w_uid w)\<rparr>)" by blast
  let ?u = "nextUid (w_uid w)"
  have u: "uid_rank ?u = Suc (uid_rank (w_uid w))" "list_all uid_char ?u"
    using assms(1) nextUid_rank by (simp_all add: hash_ok_def)
  have key: "key_of w' r' = (if r' = r then Some (JStr ?u) else key_of w r')" for r'
    by (simp add: r(4) key_of_set_field)
  have uid: "w_uid w' = ?u" by (simp add: r(4) put_field_def)
  have fresh: "key_of w r' \<noteq> Some (JStr ?u)" for r'
    using assms(1) u by (force simp: hash_ok_def uid_issued_def)
  have "later w w'"
    using r(2) key by (auto simp: later_def id_of_def r(4) cell_type_set_field split: rval.splits)
  moreover have "hash_ok w'"
    unfolding hash_ok_def
  proof (intro conjI allI impI)
    show "list_all uid_char (w_uid w')" using u uid by simp
  next
    fix r' x assume "key_of w' r' = Some x"
    then show "\<exists>u. x = JStr u \<and> uid_issued w' u"
      using assms(1) u uid by (fastforce simp: key hash_ok_def uid_issued_def split: if_splits)
  next
    fix r1 r2 x assume "key_of w' r1 = Some x" "key_of w' r2 = Some x"
    then show "r1 = r2" using fresh assms(1) by (auto simp: key hash_ok_def split: if_splits)
  qed
  ultimately show ?thesis using r key by (simp add: id_of_def cell_type_set_field)
qed (use assms(1) in simp)

lemma id_of_inj:
  assumes "hash_ok w" "id_of w v = Some k" "id_of w v' = Some k"
  shows "v = v'"
proof -
  have ref: "\<exists>u. key_of w r = Some (JStr u) \<and> k = cell_type (w_heap w r) @ '':'' @ u \<and> u \<noteq> ''null''"
    if "id_of w (Ref r) = Some k" for r
  proof -
    obtain x where x: "key_of w r = Some x" "k = cell_type (w_heap w r) @ '':'' @ js_string x"
      using \<open>id_of w (Ref r) = Some k\<close> by (auto simp: id_of_def)
    then obtain u where "x = JStr u" "list_all uid_char u" using assms(1) by (auto simp: hash_ok_def uid_issued_def)
    then show ?thesis using x by (auto simp: uid_char_def)
  qed
  show ?thesis
  proof (cases "\<exists>r. v = Ref r \<or> v' = Ref r")
    case False
    then show ?thesis using assms(2,3)
      by (cases v; cases v') (auto simp: id_of_def itoa_inj split: if_splits)
  next
    case True
    show ?thesis
    proof (cases "\<exists>r r'. v = Ref r \<and> v' = Ref r'")
      case True
      then obtain r r' where r: "v = Ref r" "v' = Ref r'" by blast
      obtain u u' where "key_of w r = Some (JStr u)" "key_of w r' = Some (JStr u')" "u = u'"
        using ref [of r] ref [of r'] r assms(2,3) by (auto simp: cell_type_def split: if_splits)
      then show ?thesis using assms(1) r by (auto simp: hash_ok_def)
    next
      case False
      then show ?thesis using True assms(2,3) ref
        by (cases v; cases v') (force simp: id_of_def cell_type_def split: if_splits)+
    qed
  qed
qed

end
