(* ===== verification/Ng_Repeat.thy ===== *)
theory Ng_Repeat
  imports Ng_Hash Ng_Http
begin

text \<open>
  \<open>ngRepeat\<close>: a row of the page for every element of a collection. A row keeps its scope and its
  nodes while the id of its element stays in the collection. The page is the list of the nodes
  that have one parent; rows enter, move and leave at once (\<open>$animate\<close> without animations). The
  expression of \<open>track by\<close> and linking a row are parameters; a string is an array of its characters.
\<close>

section \<open>The expression\<close>

text \<open>What is left after the white space that a repetition may take, the longest match first, and the
  splits of a lazy repetition, the shortest first.\<close>

function space_tails :: "string \<Rightarrow> string list" where
  "space_tails s = (let n = space_at js_space id s in if n = 0 \<or> s = [] then [s] else space_tails (drop n s) @ [s])"
  by pat_completeness auto
termination
  by (relation "measure length") auto

declare space_tails.simps [simp del]

definition some_space :: "string \<Rightarrow> string list" where
  "some_space s = butlast (space_tails s)"

definition lazy_splits :: "string \<Rightarrow> (string \<times> string) list" where
  "lazy_splits s = map (\<lambda>n. (take n s, drop n s)) [1..<Suc (length s)]"

definition literal :: "string \<Rightarrow> string \<Rightarrow> string list" where
  "literal w s = (if starts_with w s then [drop (length w) s] else [])"

text \<open>The matches of both expressions in the order in which backtracking finds them.\<close>

definition track_matches :: "string \<Rightarrow> string option list" where
  "track_matches s =
     [Some t. s1 <- some_space s, s2 <- literal ''track'' s1, s3 <- some_space s2, s4 <- literal ''by'' s3,
        s5 <- some_space s4, (t, s6) <- lazy_splits s5, s7 <- space_tails s6, s7 = []] @
     (if [] \<in> set (space_tails s) then [None] else [])"

definition repeat_match :: "string \<Rightarrow> (string \<times> string \<times> string option) option" where
  "repeat_match s =
     (case [(lhs, rhs, track). s1 <- space_tails s, (lhs, s2) <- lazy_splits s1, s3 <- some_space s2,
        s4 <- literal ''in'' s3, s5 <- some_space s4, (rhs, s6) <- lazy_splits s5, track <- track_matches s6] of
        [] \<Rightarrow> None | m # ms \<Rightarrow> Some m)"

definition word_char :: "char \<Rightarrow> bool" where
  "word_char c = (is_alpha c \<or> is_digit c \<or> c = CHR ''_'' \<or> c = CHR ''$'')"

definition after_space :: "string \<Rightarrow> string" where
  "after_space s = hd (space_tails s)"

text \<open>The identifier of the value and that of the key, if there is one.\<close>

definition item_match :: "string \<Rightarrow> (string \<times> string option) option" where
  "item_match lhs =
     (if lhs \<noteq> [] \<and> list_all word_char lhs then Some (lhs, None)
      else case lhs of
        CHR ''('' # s1 \<Rightarrow>
          (let key = takeWhile word_char s1; s2 = after_space (dropWhile word_char s1) in
           case s2 of
             CHR '','' # s3 \<Rightarrow>
               (let s4 = after_space s3; val = takeWhile word_char s4 in
                if key \<noteq> [] \<and> val \<noteq> [] \<and> dropWhile word_char s4 = '')'' then Some (val, Some key) else None)
           | _ \<Rightarrow> None)
      | _ \<Rightarrow> None)"

datatype repeat_err = IExp | IIdExp | Dupes string | BadName | TrackThrew

record repeat_expr =
  x_value :: string
  x_key :: "string option"
  x_collection :: string
  x_track :: "string option"

definition repeat_parse :: "string \<Rightarrow> repeat_err + repeat_expr" where
  "repeat_parse expression =
     (case repeat_match expression of
        None \<Rightarrow> Inl IExp
      | Some (lhs, rhs, track) \<Rightarrow>
          (case item_match lhs of
             None \<Rightarrow> Inl IIdExp
           | Some (v, k) \<Rightarrow> Inr \<lparr>x_value = v, x_key = k, x_collection = rhs, x_track = track\<rparr>))"

section \<open>Rows\<close>

record block =
  b_id :: string
  b_scope :: "nat option"
  b_clone :: "nat list"

record row_scope =
  s_id :: string
  s_vars :: "string \<Rightarrow> rval option"
  s_live :: bool

text \<open>\<open>r_next\<close> is the next new node; \<open>r_removed\<close> are the nodes marked as removed.\<close>

record repeater =
  r_world :: hash_world
  r_scopes :: "row_scope list"
  r_dom :: "nat list"
  r_next :: nat
  r_removed :: "nat list"
  lastBlockMap :: "(string \<times> block) list"

text \<open>The comment that stands for the element, the number of nodes of the template, the names, the
  expression of \<open>track by\<close> as a function (it may throw) and the methods \<open>$$hashKey\<close> of objects.\<close>

record repeat_env =
  r_anchor :: nat
  r_roots :: nat
  r_value :: string
  r_key :: "string option"
  r_track :: "(rval \<Rightarrow> rval \<Rightarrow> nat \<Rightarrow> string option) option"
  r_call :: "nat \<Rightarrow> nat \<Rightarrow> jsval"

datatype collection = ArrayLike "rval list" | Keyed "(string \<times> rval) list"

definition array_like :: "collection \<Rightarrow> bool" where
  "array_like c = (case c of ArrayLike _ \<Rightarrow> True | Keyed _ \<Rightarrow> False)"

definition items :: "collection \<Rightarrow> (rval \<times> rval) list" where
  "items c = (case c of
     ArrayLike vs \<Rightarrow> map (\<lambda>i. (VNum (int i), vs ! i)) [0..<length vs]
   | Keyed kvs \<Rightarrow> map (\<lambda>k. (VStr k, the (map_of kvs k)))
       (foldr insert_key (filter (\<lambda>k. take 1 k \<noteq> ''$'') (map fst kvs)) []))"

section \<open>Nodes\<close>

text \<open>\<open>insertBefore(node, index.nextSibling)\<close> takes the node out of its old place.\<close>

fun insert_next :: "nat \<Rightarrow> nat \<Rightarrow> nat list \<Rightarrow> nat list" where
  "insert_next p n [] = [n]"
| "insert_next p n (x # xs) = (if x = p then x # n # xs else x # insert_next p n xs)"

fun after_nodes :: "nat \<Rightarrow> nat list \<Rightarrow> nat list \<Rightarrow> nat list" where
  "after_nodes p [] page = page"
| "after_nodes p (n # ns) page = after_nodes n ns (insert_next p n (removeAll n page))"

definition next_siblings :: "nat \<Rightarrow> nat list \<Rightarrow> nat list" where
  "next_siblings n page = tl (dropWhile (\<lambda>x. x \<noteq> n) page)"

fun upto_node :: "nat \<Rightarrow> nat list \<Rightarrow> nat list" where
  "upto_node e [] = []"
| "upto_node e (x # xs) = (if x = e then [x] else x # upto_node e xs)"

definition getBlockElements :: "nat list \<Rightarrow> nat list \<Rightarrow> nat list" where
  "getBlockElements page nodes = (if hd nodes = last nodes then [hd nodes]
     else hd nodes # upto_node (last nodes) (next_siblings (hd nodes) page))"

definition leave_nodes :: "nat list \<Rightarrow> repeater \<Rightarrow> repeater" where
  "leave_nodes ns s = s\<lparr>r_dom := filter (\<lambda>x. x \<notin> set ns) (r_dom s), r_removed := ns @ r_removed s\<rparr>"

definition enter_nodes :: "nat list \<Rightarrow> nat \<Rightarrow> repeater \<Rightarrow> repeater" where
  "enter_nodes ns p s = s\<lparr>r_dom := after_nodes p ns (r_dom s)\<rparr>"

section \<open>The action\<close>

text \<open>Setting a property of a block map: \<open>__proto__\<close> does not become a property.\<close>

definition map_put :: "string \<Rightarrow> 'v \<Rightarrow> (string \<times> 'v) list \<Rightarrow> (string \<times> 'v) list" where
  "map_put k v m = (if k = ''__proto__'' then m else AList.update k v m)"

definition track_id :: "repeat_env \<Rightarrow> bool \<Rightarrow> rval \<Rightarrow> rval \<Rightarrow> nat \<Rightarrow> hash_world \<Rightarrow> string option \<times> hash_world" where
  "track_id env arr k v i w = (case r_track env of
     Some f \<Rightarrow> (f k v i, w)
   | None \<Rightarrow> if arr then (let (t, w') = hashKey (r_call env) v w in (Some t, w'))
             else (case k of VStr t \<Rightarrow> (Some t, w) | _ \<Rightarrow> (None, w)))"

definition restore :: "block list \<Rightarrow> (string \<times> block) list \<Rightarrow> (string \<times> block) list" where
  "restore order m = fold (\<lambda>b. if b_scope b \<noteq> None then map_put (b_id b) b else id) order m"

text \<open>The first loop finds the blocks of rows that stay and describes those that are new; a block of
  \<open>nextBlockMap\<close> is None (false) until it has its nodes.\<close>

fun locate :: "repeat_env \<Rightarrow> bool \<Rightarrow> nat \<Rightarrow> (rval \<times> rval) list \<Rightarrow> repeater \<Rightarrow> (string \<times> block option) list \<Rightarrow> block list \<Rightarrow>
    repeat_err option \<times> repeater \<times> (string \<times> block option) list \<times> block list" where
  "locate env arr i [] s nxt order = (None, s, nxt, order)"
| "locate env arr i ((k, v) # kvs) s nxt order =
     (let (tid, w) = track_id env arr k v i (r_world s); s = s\<lparr>r_world := w\<rparr> in
      case tid of
        None \<Rightarrow> (Some TrackThrew, s, nxt, order)
      | Some t \<Rightarrow>
          if t = ''hasOwnProperty'' then (Some BadName, s, nxt, order)
          else case map_of (lastBlockMap s) t of
            Some b \<Rightarrow> locate env arr (Suc i) kvs (s\<lparr>lastBlockMap := AList.delete t (lastBlockMap s)\<rparr>)
              (map_put t (Some b) nxt) (order @ [b])
          | None \<Rightarrow>
              if t \<in> fst ` set nxt
              then (Some (Dupes t), s\<lparr>lastBlockMap := restore order (lastBlockMap s)\<rparr>, nxt, order)
              else locate env arr (Suc i) kvs s (map_put t None nxt) (order @ [\<lparr>b_id = t, b_scope = None, b_clone = []\<rparr>]))"

definition destroy_scope :: "nat \<Rightarrow> repeater \<Rightarrow> repeater" where
  "destroy_scope sc s = s\<lparr>r_scopes := (r_scopes s)[sc := (r_scopes s ! sc)\<lparr>s_live := False\<rparr>]\<rparr>"

definition remove_block :: "block \<Rightarrow> repeater \<Rightarrow> repeater" where
  "remove_block b s = (let s1 = leave_nodes (getBlockElements (r_dom s) (b_clone b)) s in
     case b_scope b of Some sc \<Rightarrow> destroy_scope sc s1 | None \<Rightarrow> s1)"

definition remove_rows :: "repeater \<Rightarrow> repeater" where
  "remove_rows s = fold (\<lambda>(t, b). remove_block b) (lastBlockMap s) s"

definition row_vars :: "repeat_env \<Rightarrow> nat \<Rightarrow> nat \<Rightarrow> rval \<Rightarrow> rval \<Rightarrow> (string \<Rightarrow> rval option) \<Rightarrow> string \<Rightarrow> rval option" where
  "row_vars env n i k v vars =
     (let vars = vars(r_value env \<mapsto> v);
          vars = (case r_key env of Some name \<Rightarrow> vars(name \<mapsto> k) | None \<Rightarrow> vars);
          first = (i = 0); last = (Suc i = n); even = (i mod 2 = 0) in
      vars(''$index'' \<mapsto> VNum (int i), ''$first'' \<mapsto> VBool first, ''$last'' \<mapsto> VBool last,
        ''$middle'' \<mapsto> VBool (\<not> (first \<or> last)), ''$even'' \<mapsto> VBool even, ''$odd'' \<mapsto> VBool (\<not> even)))"

definition set_vars :: "repeat_env \<Rightarrow> nat \<Rightarrow> nat \<Rightarrow> rval \<Rightarrow> rval \<Rightarrow> nat \<Rightarrow> repeater \<Rightarrow> repeater" where
  "set_vars env n i k v sc s = s\<lparr>r_scopes := (r_scopes s)[sc :=
     (r_scopes s ! sc)\<lparr>s_vars := row_vars env n i k v (s_vars (r_scopes s ! sc))\<rparr>]\<rparr>"

definition scope_new :: "repeater \<Rightarrow> nat \<times> repeater" where
  "scope_new s = (let u = nextUid (w_uid (r_world s)) in
     (length (r_scopes s), s\<lparr>r_world := (r_world s)\<lparr>w_uid := u\<rparr>,
        r_scopes := r_scopes s @ [\<lparr>s_id = u, s_vars = \<lambda>_. None, s_live = True\<rparr>]\<rparr>))"

text \<open>The clone of the template ends in a comment.\<close>

definition transclude :: "repeat_env \<Rightarrow> repeater \<Rightarrow> nat list \<times> repeater" where
  "transclude env s = ([r_next s..<r_next s + r_roots env] @ [r_next s + r_roots env],
     s\<lparr>r_next := r_next s + r_roots env + 1\<rparr>)"

definition next_live :: "nat \<Rightarrow> repeater \<Rightarrow> nat option" where
  "next_live p s = find (\<lambda>x. x \<notin> set (r_removed s)) (next_siblings p (r_dom s))"

text \<open>One round of the last loop, from the last node of the row before; it gives the block its
  scope and nodes.\<close>

definition place_row :: "repeat_env \<Rightarrow> nat \<Rightarrow> nat \<Rightarrow> rval \<Rightarrow> rval \<Rightarrow> nat \<Rightarrow> block \<Rightarrow> repeater \<Rightarrow> block \<times> repeater" where
  "place_row env n i k v prev b s = (case b_scope b of
     Some sc \<Rightarrow>
       (let s1 = (if Some (hd (b_clone b)) \<noteq> next_live prev s
                  then enter_nodes (getBlockElements (r_dom s) (b_clone b)) prev s else s) in
        (b, set_vars env n i k v sc s1))
   | None \<Rightarrow>
       (let (sc, s1) = scope_new s; s2 = set_vars env n i k v sc s1; (clone, s3) = transclude env s2 in
        (b\<lparr>b_scope := Some sc, b_clone := clone\<rparr>, enter_nodes clone prev s3)))"

fun place_rows :: "repeat_env \<Rightarrow> nat \<Rightarrow> nat \<Rightarrow> (rval \<times> rval) list \<Rightarrow> block list \<Rightarrow> nat \<Rightarrow> (string \<times> block option) list \<Rightarrow>
    repeater \<Rightarrow> (string \<times> block option) list \<times> repeater" where
  "place_rows env n i ((k, v) # kvs) (b # order) prev nxt s =
     (let (b', s') = place_row env n i k v prev b s in
      place_rows env n (Suc i) kvs order (last (b_clone b')) (if b_scope b = None then map_put (b_id b) (Some b') nxt else nxt) s')"
| "place_rows env n i _ _ prev nxt s = (nxt, s)"

definition ngRepeatAction :: "repeat_env \<Rightarrow> collection \<Rightarrow> repeater \<Rightarrow> repeat_err option \<times> repeater" where
  "ngRepeatAction env c s =
     (let kvs = items c in
      case locate env (array_like c) 0 kvs s [] [] of
        (Some e, s1, _, _) \<Rightarrow> (Some e, s1)
      | (None, s1, nxt, order) \<Rightarrow>
          (let (nxt', s2) = place_rows env (length kvs) 0 kvs order (r_anchor env) nxt (remove_rows s1) in
           (None, s2\<lparr>lastBlockMap := [(t, b). (t, Some b) <- nxt']\<rparr>)))"

definition repeat_start :: "repeat_env \<Rightarrow> nat list \<Rightarrow> nat list \<Rightarrow> hash_world \<Rightarrow> repeater" where
  "repeat_start env pre post w = \<lparr>r_world = w, r_scopes = [], r_dom = pre @ r_anchor env # post,
     r_next = Suc (foldr max (pre @ r_anchor env # post) 0), r_removed = [], lastBlockMap = []\<rparr>"

text \<open>The watch on the collection calls the action for every change; an error leaves the state as the
  action left it.\<close>

definition repeat_run :: "repeat_env \<Rightarrow> collection list \<Rightarrow> repeater \<Rightarrow> repeater" where
  "repeat_run env cs s = fold (\<lambda>c s. snd (ngRepeatAction env c s)) cs s"

end
