(* ===== verification/Ng_Repeat_Rows.thy ===== *)
theory Ng_Repeat_Rows
  imports Ng_Repeat
begin

text \<open>
  The nodes and scopes of the rows. \<open>layout\<close> states which rows stand between the anchor and the rest of the
  page; the lemmas carry it through the loops of the action, from the removal of rows to the
  placing of each row after the one before.
\<close>

section \<open>Segments of the page\<close>

lemma insert_next_segment: "p \<notin> set us \<Longrightarrow> insert_next p n (us @ p # vs) = us @ p # n # vs"
  by (induction us) auto

lemma after_nodes_segment:
  "distinct (us @ p # vs) \<Longrightarrow> distinct ns \<Longrightarrow> set ns \<inter> set (us @ [p]) = {} \<Longrightarrow>
    after_nodes p ns (us @ p # vs) = us @ p # ns @ filter (\<lambda>x. x \<notin> set ns) vs"
proof (induction ns arbitrary: us p vs)
  case (Cons n ns)
  have "removeAll n (us @ p # vs) = us @ p # removeAll n vs" using Cons.prems by auto
  moreover have "insert_next p n (us @ p # removeAll n vs) = (us @ [p]) @ n # removeAll n vs"
    using Cons.prems insert_next_segment by simp
  moreover have "after_nodes n ns ((us @ [p]) @ n # removeAll n vs) =
      (us @ [p]) @ n # ns @ filter (\<lambda>x. x \<notin> set ns) (removeAll n vs)"
    using Cons.prems by (intro Cons.IH) (auto simp: distinct_removeAll)
  moreover have "filter (\<lambda>x. x \<notin> set ns) (removeAll n vs) = filter (\<lambda>x. x \<notin> set (n # ns)) vs"
    by (induction vs) auto
  ultimately show ?case by simp
qed simp

lemma upto_node_segment: "e \<notin> set xs \<Longrightarrow> upto_node e (xs @ e # ys) = xs @ [e]"
  by (induction xs) auto

lemma next_siblings_segment: "p \<notin> set us \<Longrightarrow> next_siblings p (us @ p # vs) = vs"
  by (induction us) (auto simp: next_siblings_def)

lemma getBlockElements_segment:
  assumes "c \<noteq> []" "distinct (us @ c @ vs)"
  shows "getBlockElements (us @ c @ vs) c = c"
proof (cases "tl c")
  case Nil
  with assms show ?thesis by (cases c) (simp_all add: getBlockElements_def)
next
  case (Cons d ds)
  then obtain a where a: "c = a # d # ds" using assms(1) by (cases c) auto
  then have "next_siblings a (us @ c @ vs) = d # ds @ vs" using assms(2) by (simp add: next_siblings_segment)
  moreover have "upto_node (last (d # ds)) (d # ds @ vs) = d # ds"
  proof -
    have l: "d # ds = butlast (d # ds) @ [last (d # ds)]" by simp
    have "distinct (d # ds)" using assms(2) a by simp
    then have "last (d # ds) \<notin> set (butlast (d # ds))"
      by (subst (asm) l) (simp only: distinct_append, auto)
    from upto_node_segment [OF this, of vs] show ?thesis
      using l by (metis append.assoc append_Cons append_Nil)
  qed
  ultimately show ?thesis using a assms(2) by (auto simp: getBlockElements_def)
qed

lemma filter_segment: "distinct (xs @ c @ ys) \<Longrightarrow> filter (\<lambda>x. x \<notin> set c) (xs @ c @ ys) = xs @ ys"
proof -
  assume d: "distinct (xs @ c @ ys)"
  have keep: "filter (\<lambda>x. x \<notin> set c) zs = zs" if "set c \<inter> set zs = {}" for zs
    using that by (auto simp: filter_id_conv)
  have "filter (\<lambda>x. x \<notin> set c) c = []" by (simp add: filter_empty_conv)
  then show ?thesis using d keep [of xs] keep [of ys] by (simp add: Int_Un_distrib Int_commute)
qed

section \<open>Rows\<close>

definition clones :: "block list \<Rightarrow> nat list" where
  "clones bs = concat (map b_clone bs)"

lemma clones_simps [simp]: "clones [] = []" "clones (b # bs) = b_clone b @ clones bs" "clones (xs @ ys) = clones xs @ clones ys"
  by (simp_all add: clones_def)

definition block_ok :: "repeater \<Rightarrow> block \<Rightarrow> bool" where
  "block_ok s b \<longleftrightarrow> b_clone b \<noteq> [] \<and>
     (\<exists>sc. b_scope b = Some sc \<and> sc < length (r_scopes s) \<and> s_live (r_scopes s ! sc))"

definition layout :: "nat list \<Rightarrow> nat list \<Rightarrow> repeat_env \<Rightarrow> repeater \<Rightarrow> block list \<Rightarrow> bool" where
  "layout pre post env s bs \<longleftrightarrow> r_dom s = pre @ r_anchor env # clones bs @ post \<and> distinct (r_dom s) \<and>
     (\<forall>x\<in>set (r_dom s). x < r_next s \<and> x \<notin> set (r_removed s)) \<and> (\<forall>x\<in>set (r_removed s). x < r_next s) \<and>
     list_all (block_ok s) bs \<and> distinct (map b_scope bs)"

text \<open>A row leaves.\<close>

lemma remove_block_layout:
  assumes "layout pre post env s (xs @ b # ys)"
  shows "layout pre post env (remove_block b s) (xs @ ys)"
    and "r_scopes (remove_block b s) = (r_scopes s)[the (b_scope b) := (r_scopes s ! the (b_scope b))\<lparr>s_live := False\<rparr>]"
    and "r_world (remove_block b s) = r_world s" "lastBlockMap (remove_block b s) = lastBlockMap s"
      "r_next (remove_block b s) = r_next s"
proof -
  obtain sc where sc: "b_scope b = Some sc" "b_clone b \<noteq> []" using assms by (auto simp: layout_def block_ok_def)
  have page: "r_dom s = (pre @ r_anchor env # clones xs) @ b_clone b @ (clones ys @ post)"
    using assms by (simp add: layout_def)
  have dist: "distinct (r_dom s)" using assms unfolding layout_def by blast
  have e: "getBlockElements (r_dom s) (b_clone b) = b_clone b"
    using getBlockElements_segment [OF sc(2)] page dist by metis
  show "r_scopes (remove_block b s) = (r_scopes s)[the (b_scope b) := (r_scopes s ! the (b_scope b))\<lparr>s_live := False\<rparr>]"
      "r_world (remove_block b s) = r_world s" "lastBlockMap (remove_block b s) = lastBlockMap s"
      "r_next (remove_block b s) = r_next s"
    using sc by (simp_all add: remove_block_def Let_def destroy_scope_def leave_nodes_def)
  have f: "filter (\<lambda>x. x \<notin> set (b_clone b)) (r_dom s) = pre @ r_anchor env # clones (xs @ ys) @ post"
    using filter_segment [of "pre @ r_anchor env # clones xs" "b_clone b" "clones ys @ post"] dist unfolding page by simp
  have other: "Some sc \<noteq> b_scope c" if "c \<in> set (xs @ ys)" for c
    using assms sc(1) that by (force simp: layout_def)
  have "list_all (block_ok (remove_block b s)) (xs @ ys)"
    unfolding list_all_iff
  proof
    fix c assume c: "c \<in> set (xs @ ys)"
    then have "block_ok s c" using assms by (auto simp: layout_def list_all_iff)
    with other [OF c] sc show "block_ok (remove_block b s) c"
      by (auto simp: block_ok_def remove_block_def Let_def destroy_scope_def leave_nodes_def nth_list_update)
  qed
  moreover have "r_dom (remove_block b s) = pre @ r_anchor env # clones (xs @ ys) @ post"
      "r_removed (remove_block b s) = b_clone b @ r_removed s" "r_next (remove_block b s) = r_next s"
    using sc e f by (simp_all add: remove_block_def Let_def destroy_scope_def leave_nodes_def)
  ultimately show "layout pre post env (remove_block b s) (xs @ ys)"
    using assms by (auto simp: layout_def)
qed

definition dead :: "row_scope \<Rightarrow> row_scope" where
  "dead sc = sc\<lparr>s_live := False\<rparr>"

lemma remove_rows_layout:
  "layout pre post env s bs \<Longrightarrow> distinct (map snd m) \<Longrightarrow> snd ` set m \<subseteq> set bs \<Longrightarrow>
    (let s' = fold (\<lambda>(t, b). remove_block b) m s in
     layout pre post env s' (filter (\<lambda>b. b \<notin> snd ` set m) bs) \<and> length (r_scopes s') = length (r_scopes s) \<and>
     (\<forall>sc<length (r_scopes s). r_scopes s' ! sc =
       (if Some sc \<in> b_scope ` snd ` set m then dead (r_scopes s ! sc) else r_scopes s ! sc)) \<and>
     r_world s' = r_world s \<and> lastBlockMap s' = lastBlockMap s)"
proof (induction m arbitrary: s bs)
  case Nil
  then show ?case by simp
next
  case (Cons p m)
  obtain t b where p: "p = (t, b)" by force
  with Cons.prems obtain xs ys where bs: "bs = xs @ b # ys" by (auto dest: split_list)
  let ?s = "remove_block b s"
  have d: "distinct (map b_scope bs)" using Cons.prems(1) by (simp add: layout_def)
  have db: "distinct bs" using d by (simp add: distinct_map)
  note rb = remove_block_layout [OF Cons.prems(1) [unfolded bs]]
  have sub: "snd ` set m \<subseteq> set (xs @ ys)" using Cons.prems(2,3) p bs by auto
  have IH: "(let s' = fold (\<lambda>(t, b). remove_block b) m ?s in
     layout pre post env s' (filter (\<lambda>b. b \<notin> snd ` set m) (xs @ ys)) \<and> length (r_scopes s') = length (r_scopes ?s) \<and>
     (\<forall>sc<length (r_scopes ?s). r_scopes s' ! sc =
       (if Some sc \<in> b_scope ` snd ` set m then dead (r_scopes ?s ! sc) else r_scopes ?s ! sc)) \<and>
     r_world s' = r_world ?s \<and> lastBlockMap s' = lastBlockMap ?s)"
    using Cons.IH [OF rb(1)] Cons.prems(2) sub by simp
  have f: "filter (\<lambda>c. c \<notin> snd ` set (p # m)) bs = filter (\<lambda>b. b \<notin> snd ` set m) (xs @ ys)"
  proof -
    have "filter (\<lambda>c. c \<noteq> b \<and> c \<notin> snd ` set m) zs = filter (\<lambda>c. c \<notin> snd ` set m) zs" if "b \<notin> set zs" for zs
      using that by (metis (mono_tags, lifting) filter_cong)
    then show ?thesis using db bs p by simp
  qed
  obtain sc where sc: "b_scope b = Some sc" "sc < length (r_scopes s)"
    using Cons.prems(1) bs by (auto simp: layout_def block_ok_def)
  have "Some sc \<notin> b_scope ` snd ` set m" using sub d bs sc(1) by force
  then show ?case using IH sc by (simp only: Let_def f) (auto simp: p rb nth_list_update dead_def)
qed

section \<open>Placing a row\<close>

definition row_bound :: "repeat_env \<Rightarrow> nat \<Rightarrow> nat \<Rightarrow> rval \<times> rval \<Rightarrow> repeater \<Rightarrow> block \<Rightarrow> bool" where
  "row_bound env n i kv s b \<longleftrightarrow> (\<exists>vars. s_vars (r_scopes s ! the (b_scope b)) = row_vars env n i (fst kv) (snd kv) vars)"

text \<open>The scopes that there were and that are not the one of a block stay as they are.\<close>

definition scopes_kept :: "nat option set \<Rightarrow> repeater \<Rightarrow> repeater \<Rightarrow> bool" where
  "scopes_kept X s s' \<longleftrightarrow> length (r_scopes s) \<le> length (r_scopes s') \<and>
     (\<forall>sc < length (r_scopes s). (s_live (r_scopes s' ! sc) = s_live (r_scopes s ! sc)) \<and>
        (Some sc \<notin> X \<longrightarrow> r_scopes s' ! sc = r_scopes s ! sc))"

lemma frame_trans: "scopes_kept X s s' \<Longrightarrow> scopes_kept Y s' s'' \<Longrightarrow> scopes_kept (X \<union> Y) s s''"
  by (fastforce simp: scopes_kept_def)

lemma block_ok_frame: "block_ok s b \<Longrightarrow> scopes_kept X s s' \<Longrightarrow> block_ok s' b"
  by (auto simp: block_ok_def scopes_kept_def)

lemma page_at: "pre @ a # xs = us @ [p] \<Longrightarrow> us @ p # zs = pre @ a # xs @ zs"
  by (metis append.assoc append_Cons append_Nil)

lemma layout_at:
  assumes "layout pre post env s (bs @ cs)" "prev = last (r_anchor env # clones bs)"
  obtains us where "pre @ r_anchor env # clones bs = us @ [prev]" "r_dom s = us @ prev # clones cs @ post"
proof
  show "pre @ r_anchor env # clones bs = (pre @ butlast (r_anchor env # clones bs)) @ [prev]"
    unfolding assms(2) append.assoc append_butlast_last_id [OF list.distinct(2)] ..
  then show "r_dom s = (pre @ butlast (r_anchor env # clones bs)) @ prev # clones cs @ post"
    using assms(1) by (simp add: layout_def)
qed

lemma set_vars_frame:
  assumes "b_scope b = Some sc" "sc < length (r_scopes s)"
  shows "scopes_kept {b_scope b} s (set_vars env n i k v sc s)" "row_bound env n i (k, v) (set_vars env n i k v sc s) b"
  using assms by (auto simp: scopes_kept_def set_vars_def row_bound_def nth_list_update)

lemma set_vars_fields [simp]:
  "r_dom (set_vars env n i k v sc s) = r_dom s" "r_next (set_vars env n i k v sc s) = r_next s"
  "r_removed (set_vars env n i k v sc s) = r_removed s" "length (r_scopes (set_vars env n i k v sc s)) = length (r_scopes s)"
  "r_world (set_vars env n i k v sc s) = r_world s" "lastBlockMap (set_vars env n i k v sc s) = lastBlockMap s"
  by (simp_all add: set_vars_def)

lemma place_old_row:
  assumes l: "layout pre post env s (bs @ xs @ b # ys)" and prev: "prev = last (r_anchor env # clones bs)"
    and r: "place_row env n i k v prev b s = (b', s')"
  shows "b' = b \<and> layout pre post env s' (bs @ b # xs @ ys) \<and> scopes_kept {b_scope b} s s' \<and> row_bound env n i (k, v) s' b \<and>
    w_heap (r_world s') = w_heap (r_world s) \<and> r_world s' = r_world s"
proof -
  obtain sc where sc: "b_scope b = Some sc" "sc < length (r_scopes s)" "b_clone b \<noteq> []"
    using l by (auto simp: layout_def block_ok_def)
  obtain us where us: "pre @ r_anchor env # clones bs = us @ [prev]" "r_dom s = us @ prev # clones (xs @ b # ys) @ post"
    using layout_at [OF l prev] .
  have dist: "distinct (us @ prev # clones xs @ b_clone b @ clones ys @ post)" using l us(2) by (simp add: layout_def)
  have keep: "\<forall>x\<in>set (r_dom s). x < r_next s \<and> x \<notin> set (r_removed s)" "\<forall>x\<in>set (r_removed s). x < r_next s"
    "list_all (block_ok s) (bs @ b # xs @ ys)" "distinct (map b_scope (bs @ b # xs @ ys))"
    using l by (auto simp: layout_def)
  have tail: "next_siblings prev (r_dom s) = clones xs @ b_clone b @ clones ys @ post"
    using next_siblings_segment [of prev us] dist us(2) by simp
  define s1 where "s1 = (if Some (hd (b_clone b)) \<noteq> next_live prev s
    then enter_nodes (getBlockElements (r_dom s) (b_clone b)) prev s else s)"
  have page: "r_dom s1 = us @ prev # b_clone b @ clones xs @ clones ys @ post"
  proof (cases "Some (hd (b_clone b)) = next_live prev s")
    case True
    have "hd (clones xs @ b_clone b @ clones ys @ post) = hd (b_clone b)"
    proof (cases "clones xs @ b_clone b @ clones ys @ post")
      case (Cons z zs)
      then have "z \<notin> set (r_removed s)" using keep(1) us(2) by auto
      then show ?thesis using True Cons tail by (simp add: next_live_def)
    qed (use sc in simp)
    then have "xs = []"
      using dist sc(3) l by (cases xs; cases "b_clone (hd xs)"; cases "b_clone b") (auto simp: layout_def block_ok_def)
    then show ?thesis using True us(2) by (simp add: s1_def)
  next
    case False
    have "getBlockElements (r_dom s) (b_clone b) = b_clone b"
      using getBlockElements_segment [OF sc(3), of "us @ prev # clones xs" "clones ys @ post"] dist us(2) by simp
    moreover have "after_nodes prev (b_clone b) (r_dom s) =
        us @ prev # b_clone b @ filter (\<lambda>x. x \<notin> set (b_clone b)) (clones xs @ b_clone b @ clones ys @ post)"
      using dist us(2) after_nodes_segment [of us prev "clones xs @ b_clone b @ clones ys @ post" "b_clone b"] by auto
    moreover have "filter (\<lambda>x. x \<notin> set (b_clone b)) (clones xs @ b_clone b @ clones ys @ post) = clones xs @ clones ys @ post"
      using dist by (intro filter_segment) simp
    ultimately show ?thesis using False by (simp add: s1_def enter_nodes_def)
  qed
  have s1: "r_scopes s1 = r_scopes s" "r_next s1 = r_next s" "r_removed s1 = r_removed s" "r_world s1 = r_world s"
    by (simp_all add: s1_def enter_nodes_def)
  have r': "b' = b" "s' = set_vars env n i k v sc s1"
    using r sc(1) unfolding s1_def by (auto simp: place_row_def Let_def)
  have fr: "scopes_kept {b_scope b} s s'" "row_bound env n i (k, v) s' b"
    using set_vars_frame [of b sc s1] sc s1 r' by (auto simp: scopes_kept_def)
  have "r_dom s' = pre @ r_anchor env # clones (bs @ b # xs @ ys) @ post"
    using page page_at [OF us(1)] r'(2) by simp
  moreover have "set (r_dom s') = set (r_dom s)" "distinct (r_dom s')" using page r'(2) us(2) dist by auto
  moreover have "list_all (block_ok s') (bs @ b # xs @ ys)"
    using keep(3) block_ok_frame [OF _ fr(1)] by (simp add: list_all_iff)
  ultimately have "layout pre post env s' (bs @ b # xs @ ys)"
    using keep r'(2) s1 unfolding layout_def by simp
  with fr r' s1 show ?thesis by simp
qed

lemma place_new_row:
  assumes l: "layout pre post env s (bs @ cs)" and prev: "prev = last (r_anchor env # clones bs)"
    and b: "b_scope b = None" and r: "place_row env n i k v prev b s = (b', s')"
  shows "b_id b' = b_id b \<and> b_scope b' = Some (length (r_scopes s)) \<and> layout pre post env s' (bs @ b' # cs) \<and>
    scopes_kept {b_scope b'} s s' \<and> row_bound env n i (k, v) s' b' \<and> length (r_scopes s') = Suc (length (r_scopes s)) \<and>
    r_world s' = (r_world s)\<lparr>w_uid := nextUid (w_uid (r_world s))\<rparr>"
proof -
  obtain us where us: "pre @ r_anchor env # clones bs = us @ [prev]" "r_dom s = us @ prev # clones cs @ post"
    using layout_at [OF l prev] .
  define clone where "clone = [r_next s..<r_next s + r_roots env] @ [r_next s + r_roots env]"
  have dist: "distinct (us @ prev # clones cs @ post)" using l us(2) by (simp add: layout_def)
  have keep: "\<forall>x\<in>set (r_dom s). x < r_next s \<and> x \<notin> set (r_removed s)" "\<forall>x\<in>set (r_removed s). x < r_next s"
    "list_all (block_ok s) (bs @ cs)" "distinct (map b_scope (bs @ cs))"
    using l by (auto simp: layout_def)
  have new: "distinct clone" "\<forall>x\<in>set clone. r_next s \<le> x \<and> x < r_next s + r_roots env + 1" "clone \<noteq> []"
    by (simp_all add: clone_def) (simp add: atLeastLessThan_upt)?
  define u where "u = nextUid (w_uid (r_world s))"
  define s1 where "s1 = s\<lparr>r_world := (r_world s)\<lparr>w_uid := u\<rparr>, r_scopes := r_scopes s @ [\<lparr>s_id = u, s_vars = \<lambda>_. None, s_live = True\<rparr>]\<rparr>"
  have r': "b' = b\<lparr>b_scope := Some (length (r_scopes s)), b_clone := clone\<rparr>"
      "s' = enter_nodes clone prev ((set_vars env n i k v (length (r_scopes s)) s1)\<lparr>r_next := r_next s + r_roots env + 1\<rparr>)"
    using r b by (simp_all add: place_row_def Let_def scope_new_def transclude_def clone_def s1_def u_def split: prod.splits)
  have fresh: "set clone \<inter> set (us @ prev # clones cs @ post) = {}"
    using keep(1) new(2) unfolding us(2) by (meson disjoint_iff leD)
  have "after_nodes prev clone (r_dom s) = us @ prev # clone @ filter (\<lambda>x. x \<notin> set clone) (clones cs @ post)"
    unfolding us(2) using after_nodes_segment [OF dist new(1)] fresh by auto
  moreover have "filter (\<lambda>x. x \<notin> set clone) (clones cs @ post) = clones cs @ post"
    by (subst filter_id_conv) (use fresh in auto)
  ultimately have page: "r_dom s' = us @ prev # clone @ clones cs @ post"
    using r'(2) by (simp add: enter_nodes_def s1_def)
  have sh: "row_bound env n i (k, v) s' b'" using r' by (simp add: row_bound_def enter_nodes_def set_vars_def s1_def) blast
  have sc: "length (r_scopes s') = Suc (length (r_scopes s))" "s_live (r_scopes s' ! length (r_scopes s))"
      "\<forall>j < length (r_scopes s). r_scopes s' ! j = r_scopes s ! j" "r_removed s' = r_removed s"
      "r_next s' = r_next s + r_roots env + 1" "r_world s' = (r_world s)\<lparr>w_uid := u\<rparr>"
    using r' by (simp_all add: enter_nodes_def set_vars_def s1_def nth_append)
  then have fr: "scopes_kept {b_scope b'} s s'" by (simp add: scopes_kept_def)
  have "r_dom s' = pre @ r_anchor env # clones (bs @ b' # cs) @ post"
    using page page_at [OF us(1)] r'(1) by simp
  moreover have "distinct (r_dom s')" using page fresh dist new(1) by auto
  moreover have "\<forall>x\<in>set (r_dom s'). x < r_next s' \<and> x \<notin> set (r_removed s')"
  proof
    fix x assume "x \<in> set (r_dom s')"
    then have "x \<in> set (r_dom s) \<or> x \<in> set clone" using page us(2) by auto
    then show "x < r_next s' \<and> x \<notin> set (r_removed s')" using keep(1,2) new(2) sc(4,5) by fastforce
  qed
  moreover have "\<forall>x\<in>set (r_removed s'). x < r_next s'" using keep(2) sc by fastforce
  moreover have "list_all (block_ok s') (bs @ b' # cs)"
    using keep(3) block_ok_frame [OF _ fr] sc new(3) r'(1) by (simp add: list_all_iff) (simp add: block_ok_def)
  moreover have "distinct (map b_scope (bs @ b' # cs))"
  proof -
    have "b_scope c \<noteq> Some (length (r_scopes s))" if "c \<in> set (bs @ cs)" for c
    proof -
      have "block_ok s c" using keep(3) that unfolding list_all_iff by blast
      then show ?thesis by (auto simp: block_ok_def)
    qed
    then show ?thesis using keep(4) r'(1) by force
  qed
  ultimately have "layout pre post env s' (bs @ b' # cs)" unfolding layout_def by blast
  with fr sh sc r' show ?thesis by (simp add: u_def)
qed

text \<open>Scopes take ids, which do not change the keys of objects.\<close>

definition ids_taken :: "hash_world \<Rightarrow> hash_world \<Rightarrow> bool" where
  "ids_taken w w' \<longleftrightarrow> (\<exists>m. w' = w\<lparr>w_uid := (nextUid ^^ m) (w_uid w)\<rparr>)"

lemma ids_taken_refl [simp]: "ids_taken w w"
  unfolding ids_taken_def by (rule exI [of _ 0]) simp

lemma ids_taken_step: "ids_taken (w\<lparr>w_uid := nextUid (w_uid w)\<rparr>) w' \<Longrightarrow> ids_taken w w'"
  unfolding ids_taken_def
  by (elim exE, rule_tac x = "Suc m" in exI) (simp add: funpow_swap1)

lemma ids_taken_ok:
  assumes "ids_taken w w'" "hash_ok w"
  shows "hash_ok w' \<and> later w w' \<and> later w' w"
proof -
  obtain m where w': "w' = w\<lparr>w_uid := (nextUid ^^ m) (w_uid w)\<rparr>" using assms(1) by (auto simp: ids_taken_def)
  have "uid_rank (w_uid w) \<le> uid_rank (w_uid w')" "list_all uid_char (w_uid w')"
    using nextUid_run [of "w_uid w" m] assms(2) w' by (simp_all add: hash_ok_def)
  moreover have "id_of w' v = id_of w v" for v by (simp add: w' id_of_def split: rval.split)
  moreover have "key_of w' r = key_of w r" for r by (simp add: w')
  ultimately show ?thesis using assms(2) by (fastforce simp: hash_ok_def uid_issued_def later_def)
qed

lemma place_row_layout:
  assumes l: "layout pre post env s (bs @ rem)" and prev: "prev = last (r_anchor env # clones bs)"
    and b: "b_scope b \<noteq> None \<Longrightarrow> b \<in> set rem" and r: "place_row env n i k v prev b s = (b', s')"
  shows "\<exists>rem'. layout pre post env s' ((bs @ [b']) @ rem') \<and> set rem' = set rem - {b} \<and> b_id b' = b_id b \<and>
    (b_scope b \<noteq> None \<longrightarrow> b' = b) \<and> (b_scope b = None \<longrightarrow> b_scope b' = Some (length (r_scopes s))) \<and>
    scopes_kept {b_scope b'} s s' \<and> row_bound env n i (k, v) s' b' \<and>
    (r_world s' = r_world s \<or> r_world s' = (r_world s)\<lparr>w_uid := nextUid (w_uid (r_world s))\<rparr>)"
proof (cases "b_scope b")
  case None
  have "\<not> block_ok s b" using None by (simp add: block_ok_def)
  then have "b \<notin> set rem" using l unfolding layout_def list_all_iff by auto
  with place_new_row [OF l prev None r] None show ?thesis by (intro exI [of _ rem], elim conjE) simp
next
  case (Some sc)
  then obtain xs ys where rem: "rem = xs @ b # ys" using b split_list by fastforce
  have "distinct rem" using l by (simp add: layout_def distinct_map)
  with place_old_row [OF l [unfolded rem] prev r] Some rem show ?thesis by (intro exI [of _ "xs @ ys"]) auto
qed

lemma shown_frame:
  "row_bound env n i kv s b \<Longrightarrow> scopes_kept X s s' \<Longrightarrow> b_scope b \<notin> X \<Longrightarrow> block_ok s b \<Longrightarrow> row_bound env n i kv s' b"
  by (auto simp: row_bound_def scopes_kept_def block_ok_def)

text \<open>The rows that a run of the last loop makes of the blocks \<open>order\<close>.\<close>

definition placed :: "repeat_env \<Rightarrow> nat \<Rightarrow> nat \<Rightarrow> (rval \<times> rval) list \<Rightarrow> block list \<Rightarrow> repeater \<Rightarrow> block list \<Rightarrow> repeater \<Rightarrow> bool" where
  "placed env n i kvs order s bs s' \<longleftrightarrow> map b_id bs = map b_id order \<and>
     (\<forall>j<length order. (b_scope (order ! j) \<noteq> None \<longrightarrow> bs ! j = order ! j) \<and>
       (b_scope (order ! j) = None \<longrightarrow> (\<exists>sc\<ge>length (r_scopes s). b_scope (bs ! j) = Some sc)) \<and>
       row_bound env n (i + j) (kvs ! j) s' (bs ! j)) \<and>
     scopes_kept (b_scope ` set bs) s s' \<and> ids_taken (r_world s) (r_world s')"

definition filled :: "block list \<Rightarrow> block list \<Rightarrow> (string \<times> block option) list \<Rightarrow> (string \<times> block option) list \<Rightarrow> bool" where
  "filled order bs nxt nxt' \<longleftrightarrow> (distinct (map fst nxt) \<longrightarrow> distinct (map fst nxt')) \<and>
     (\<forall>j<length order. b_scope (order ! j) = None \<longrightarrow> map_of nxt' (b_id (order ! j)) = Some (Some (bs ! j))) \<and>
     (\<forall>t. (\<forall>b\<in>set order. b_scope b = None \<longrightarrow> b_id b \<noteq> t) \<longrightarrow> map_of nxt' t = map_of nxt t)"

lemma map_put_update: "k \<noteq> ''__proto__'' \<Longrightarrow> map_of (map_put k v m) = (map_of m)(k \<mapsto> v)"
  "distinct (map fst m) \<Longrightarrow> distinct (map fst (map_put k v m))"
  by (simp_all add: map_put_def update_conv' distinct_update)

lemma place_rows_layout:
  "layout pre post env s (bs @ rem) \<Longrightarrow> prev = last (r_anchor env # clones bs) \<Longrightarrow> length kvs = length order \<Longrightarrow>
    distinct (map b_id order) \<Longrightarrow> set rem = {b \<in> set order. b_scope b \<noteq> None} \<Longrightarrow>
    ''__proto__'' \<notin> b_id ` set order \<Longrightarrow> place_rows env n i kvs order prev nxt s = (nxt', s') \<Longrightarrow>
    \<exists>cs. layout pre post env s' (bs @ cs) \<and> placed env n i kvs order s cs s' \<and> filled order cs nxt nxt'"
proof (induction order arbitrary: kvs bs rem prev i nxt s)
  case Nil
  then have "rem = []" by simp
  with Nil show ?case by (intro exI [of _ "[]"]) (simp add: placed_def filled_def scopes_kept_def)
next
  case (Cons b order)
  obtain k v kvs' where kvs: "kvs = (k, v) # kvs'" using Cons.prems(3) by (cases kvs) auto
  obtain b' s1 where r: "place_row env n i k v prev b s = (b', s1)" by force
  define nxt1 where "nxt1 = (if b_scope b = None then map_put (b_id b) (Some b') nxt else nxt)"
  obtain rem' where st: "layout pre post env s1 ((bs @ [b']) @ rem')" "set rem' = set rem - {b}" "b_id b' = b_id b"
      "b_scope b \<noteq> None \<longrightarrow> b' = b" "b_scope b = None \<longrightarrow> b_scope b' = Some (length (r_scopes s))"
      "scopes_kept {b_scope b'} s s1" "row_bound env n i (k, v) s1 b'"
      "r_world s1 = r_world s \<or> r_world s1 = (r_world s)\<lparr>w_uid := nextUid (w_uid (r_world s))\<rparr>"
    using place_row_layout [OF Cons.prems(1,2) _ r] Cons.prems(5) by auto
  have rest: "place_rows env n (Suc i) kvs' order (last (b_clone b')) nxt1 s1 = (nxt', s')"
    using Cons.prems(7) kvs r by (simp add: nxt1_def)
  have clone: "b_clone b' \<noteq> []" using st(1) by (simp add: layout_def block_ok_def)
  have "last (b_clone b') = last (r_anchor env # clones (bs @ [b']))" using clone by simp
  moreover have "b \<notin> set order" using Cons.prems(4) by auto
  then have "set rem' = {c \<in> set order. b_scope c \<noteq> None}" using st(2) Cons.prems(5) by auto
  ultimately obtain cs where IH: "layout pre post env s' ((bs @ [b']) @ cs)"
      "placed env n (Suc i) kvs' order s1 cs s'" "filled order cs nxt1 nxt'"
    using Cons.IH [OF st(1) _ _ _ _ _ rest] Cons.prems kvs by auto
  have scope: "b_scope b' \<notin> b_scope ` set cs" using IH(1) by (auto simp: layout_def)
  have ok: "block_ok s1 b'" using st(1) by (simp add: layout_def)
  have "row_bound env n i (k, v) s' b'"
    using shown_frame [OF st(7) _ scope ok] IH(2) by (simp add: placed_def)
  moreover have "scopes_kept (b_scope ` set (b' # cs)) s s'"
    using frame_trans [OF st(6)] IH(2) by (simp add: placed_def)
  moreover have "ids_taken (r_world s) (r_world s')"
    using st(8) IH(2) by (auto simp: placed_def intro: ids_taken_step)
  moreover have "length (r_scopes s) \<le> length (r_scopes s1)" using st(6) by (simp add: scopes_kept_def)
  moreover have "(b_scope ((b # order) ! j) \<noteq> None \<longrightarrow> (b' # cs) ! j = (b # order) ! j) \<and>
      (b_scope ((b # order) ! j) = None \<longrightarrow> (\<exists>sc\<ge>length (r_scopes s). b_scope ((b' # cs) ! j) = Some sc)) \<and>
      row_bound env n (i + j) (kvs ! j) s' ((b' # cs) ! j)" if "j < length (b # order)" for j
  proof (cases j)
    case 0
    then show ?thesis using st(4,5) calculation(1) kvs by simp
  next
    case (Suc j')
    then have "j' < length order" using that by simp
    then show ?thesis using IH(2) calculation(4) Suc kvs by (fastforce simp: placed_def dest: order_trans)
  qed
  ultimately have "placed env n i kvs (b # order) s (b' # cs) s'"
    using IH(2) st(3) unfolding placed_def by simp
  moreover have "filled (b # order) (b' # cs) nxt nxt'"
  proof -
    have id: "b_id b \<notin> b_id ` set order" "b_id b \<noteq> ''__proto__''" using Cons.prems(4,6) by auto
    have same: "map_of nxt' t = map_of nxt1 t" if "\<And>c. c \<in> set order \<Longrightarrow> b_scope c = None \<Longrightarrow> b_id c \<noteq> t" for t
      using IH(3) that unfolding filled_def by blast
    have at: "map_of nxt' (b_id b) = map_of nxt1 (b_id b)" by (rule same) (metis id(1) imageI)
    have nxt1: "map_of nxt1 = (if b_scope b = None then (map_of nxt)(b_id b \<mapsto> Some b') else map_of nxt)"
        "distinct (map fst nxt) \<longrightarrow> distinct (map fst nxt1)"
      using id(2) by (simp_all add: nxt1_def map_put_update)
    have "b_scope ((b # order) ! j) = None \<longrightarrow> map_of nxt' (b_id ((b # order) ! j)) = Some (Some ((b' # cs) ! j))"
      if "j < length (b # order)" for j
      using that at nxt1(1) IH(3) by (cases j) (simp_all add: filled_def)
    moreover have "map_of nxt' t = map_of nxt t" if "\<forall>c\<in>set (b # order). b_scope c = None \<longrightarrow> b_id c \<noteq> t" for t
      using same [of t] that by (auto simp: nxt1(1))
    moreover have "distinct (map fst nxt) \<longrightarrow> distinct (map fst nxt')" using nxt1(2) IH(3) by (simp add: filled_def)
    ultimately show ?thesis unfolding filled_def by blast
  qed
  ultimately show ?case using IH(1) by (intro exI [of _ "b' # cs"]) simp
qed

end
