(* ===== verification/Ng_Repeat_Props.thy ===== *)
theory Ng_Repeat_Props
  imports Ng_Repeat_Rows
begin

text \<open>
  What \<open>ngRepeat\<close> shows after any history of collections: which rows the first loop finds, what an
  action with and without duplicates leaves, and how objects keep their rows.
\<close>

section \<open>Finding the rows\<close>

text \<open>The ids of the elements in order, with the objects hashed on the way.\<close>

fun track_ids :: "repeat_env \<Rightarrow> bool \<Rightarrow> nat \<Rightarrow> (rval \<times> rval) list \<Rightarrow> hash_world \<Rightarrow> string list option \<times> hash_world" where
  "track_ids env arr i [] w = (Some [], w)"
| "track_ids env arr i ((k, v) # kvs) w =
     (case track_id env arr k v i w of
        (None, w1) \<Rightarrow> (None, w1)
      | (Some t, w1) \<Rightarrow> (case track_ids env arr (Suc i) kvs w1 of
            (None, w2) \<Rightarrow> (None, w2)
          | (Some ts, w2) \<Rightarrow> (Some (t # ts), w2)))"

definition bad_id :: "string \<Rightarrow> bool" where
  "bad_id t \<longleftrightarrow> t = ''hasOwnProperty'' \<or> t = ''__proto__''"

definition block_at :: "(string \<Rightarrow> block option) \<Rightarrow> string \<Rightarrow> block" where
  "block_at m t = (case m t of Some b \<Rightarrow> b | None \<Rightarrow> \<lparr>b_id = t, b_scope = None, b_clone = []\<rparr>)"

definition named :: "(string \<Rightarrow> block option) \<Rightarrow> bool" where
  "named m \<longleftrightarrow> (\<forall>t b. m t = Some b \<longrightarrow> b_id b = t \<and> b_scope b \<noteq> None)"

lemma block_at_id: "named m \<Longrightarrow> b_id (block_at m t) = t" "named m \<Longrightarrow> b_scope (block_at m t) = None \<longleftrightarrow> m t = None"
  by (auto simp: named_def block_at_def split: option.split)

lemma restore_blocks:
  "named m \<Longrightarrow> list_all (\<lambda>t. \<not> bad_id t) ts \<Longrightarrow>
    map_of (restore (map (block_at m) ts) l) t = (if t \<in> set ts \<and> m t \<noteq> None then m t else map_of l t)"
proof (induction ts arbitrary: l)
  case (Cons u ts)
  let ?l = "if b_scope (block_at m u) \<noteq> None then map_put (b_id (block_at m u)) (block_at m u) l else l"
  have l: "map_of ?l t = (if t = u \<and> m u \<noteq> None then m u else map_of l t)"
    using Cons.prems block_at_id [of m u] by (cases "m u") (auto simp: map_put_update bad_id_def block_at_def)
  have "restore (map (block_at m) (u # ts)) l = restore (map (block_at m) ts) ?l" by (simp add: restore_def)
  then show ?case using Cons.IH [of ?l] Cons.prems l by auto
qed (simp add: restore_def)

lemma restore_distinct: "distinct (map fst l) \<Longrightarrow> distinct (map fst (restore bs l))"
  by (induction bs arbitrary: l) (simp_all add: restore_def map_put_update)

definition located :: "(string \<Rightarrow> block option) \<Rightarrow> string list \<Rightarrow> repeater \<Rightarrow> (string \<times> block option) list \<Rightarrow> block list \<Rightarrow> bool" where
  "located m ts s nxt order \<longleftrightarrow> distinct ts \<and> list_all (\<lambda>t. \<not> bad_id t) ts \<and> order = map (block_at m) ts \<and>
     map_of (lastBlockMap s) = m |` (- set ts) \<and> distinct (map fst (lastBlockMap s)) \<and>
     map_of nxt = (\<lambda>t. if t \<in> set ts then Some (m t) else None) \<and> distinct (map fst nxt)"

lemma located_step:
  assumes "located m ts s nxt order" "t \<notin> set ts" "\<not> bad_id t"
  shows "m t = Some b \<Longrightarrow> located m (ts @ [t]) (s\<lparr>r_world := w, lastBlockMap := AList.delete t (lastBlockMap s)\<rparr>)
      (map_put t (Some b) nxt) (order @ [b])"
    and "m t = None \<Longrightarrow> located m (ts @ [t]) (s\<lparr>r_world := w\<rparr>)
      (map_put t None nxt) (order @ [\<lparr>b_id = t, b_scope = None, b_clone = []\<rparr>])"
proof -
  have "(m |` (- set ts)) (t := None) = m |` (- set (ts @ [t]))" by (auto simp: restrict_map_def)
  then show "m t = Some b \<Longrightarrow> located m (ts @ [t]) (s\<lparr>r_world := w, lastBlockMap := AList.delete t (lastBlockMap s)\<rparr>)
      (map_put t (Some b) nxt) (order @ [b])"
    using assms by (auto simp: located_def map_put_update block_at_def bad_id_def delete_conv' distinct_delete)
  assume "m t = None"
  then have "m |` (- set ts) = m |` (- set (ts @ [t]))" by (auto simp: restrict_map_def)
  then show "located m (ts @ [t]) (s\<lparr>r_world := w\<rparr>) (map_put t None nxt) (order @ [\<lparr>b_id = t, b_scope = None, b_clone = []\<rparr>])"
    using assms \<open>m t = None\<close> by (auto simp: located_def map_put_update block_at_def bad_id_def)
qed

lemma locate_ids:
  "named m \<Longrightarrow> located m ts s nxt order \<Longrightarrow> track_ids env arr i kvs (r_world s) = (Some us, w) \<Longrightarrow>
    list_all (\<lambda>t. \<not> bad_id t) us \<Longrightarrow> locate env arr i kvs s nxt order = (err, s', nxt', order') \<Longrightarrow>
    (if distinct (ts @ us)
     then err = None \<and> located m (ts @ us) s' nxt' order' \<and> (\<exists>l. s' = s\<lparr>r_world := w, lastBlockMap := l\<rparr>)
     else (\<exists>t w' l. err = Some (Dupes t) \<and> s' = s\<lparr>r_world := w', lastBlockMap := l\<rparr> \<and> map_of l = m \<and> distinct (map fst l)))"
proof (induction kvs arbitrary: i ts s nxt order us)
  case Nil
  then have "distinct ts" "us = []" "w = r_world s" "err = None" "s' = s" "nxt' = nxt" "order' = order"
    by (auto simp: located_def)
  moreover have "s = s\<lparr>r_world := r_world s, lastBlockMap := lastBlockMap s\<rparr>" by simp
  ultimately show ?case using Nil.prems(2) by (auto intro: exI [of _ "lastBlockMap s"])
next
  case (Cons kv kvs)
  obtain k v where kv: "kv = (k, v)" by force
  obtain t w1 us' where t: "track_id env arr k v i (r_world s) = (Some t, w1)"
      "track_ids env arr (Suc i) kvs w1 = (Some us', w)" "us = t # us'"
    using Cons.prems(3) kv by (auto split: prod.splits option.splits)
  have nb: "\<not> bad_id t" "list_all (\<lambda>t. \<not> bad_id t) us'" using Cons.prems(4) t(3) by simp_all
  have "map_of nxt t = None \<longleftrightarrow> t \<notin> set ts" using Cons.prems(2) by (simp add: located_def)
  then have nxt: "t \<in> fst ` set nxt \<longleftrightarrow> t \<in> set ts" using map_of_eq_None_iff [of nxt t] by argo
  have last: "map_of (lastBlockMap s) t = (if t \<in> set ts then None else m t)"
    using Cons.prems(2) by (simp add: located_def restrict_map_def)
  have eq: "(ts @ [t]) @ us' = ts @ us" by (simp add: t(3))
  show ?case
  proof (cases "t \<in> set ts")
    case True
    let ?l = "restore order (lastBlockMap s)"
    have "map_of ?l = m"
    proof
      fix u
      show "map_of ?l u = m u"
        using Cons.prems(2) restore_blocks [OF Cons.prems(1), of ts "lastBlockMap s" u]
        by (auto simp: located_def restrict_map_def)
    qed
    moreover have "distinct (map fst ?l)" using Cons.prems(2) restore_distinct by (simp add: located_def)
    ultimately show ?thesis
      using True Cons.prems(5) t nb nxt last kv by (auto simp: bad_id_def Let_def)
  next
    case False
    note step = located_step [OF Cons.prems(2) False nb(1), where w = w1]
    show ?thesis
    proof (cases "m t")
      case None
      have "locate env arr (Suc i) kvs (s\<lparr>r_world := w1\<rparr>) (map_put t None nxt)
          (order @ [\<lparr>b_id = t, b_scope = None, b_clone = []\<rparr>]) = (err, s', nxt', order')"
        using Cons.prems(5) t nb nxt last kv None False by (simp add: bad_id_def)
      from Cons.IH [OF Cons.prems(1) step(2) [OF None] _ nb(2) this] t(2) show ?thesis
        by (simp only: eq) (auto simp del: distinct_append split: if_splits)
    next
      case (Some b)
      have "locate env arr (Suc i) kvs (s\<lparr>r_world := w1, lastBlockMap := AList.delete t (lastBlockMap s)\<rparr>)
          (map_put t (Some b) nxt) (order @ [b]) = (err, s', nxt', order')"
        using Cons.prems(5) t nb last kv Some False by (simp add: bad_id_def)
      from Cons.IH [OF Cons.prems(1) step(1) [OF Some] _ nb(2) this] t(2) show ?thesis
        by (simp only: eq) (auto simp del: distinct_append split: if_splits)
    qed
  qed
qed

lemma track_id_ok:
  "hash_ok w \<Longrightarrow> track_id env arr k v i w = (tid, w') \<Longrightarrow> hash_ok w' \<and> later w w' \<and>
    (r_track env = None \<longrightarrow> arr \<longrightarrow> tid = id_of w' v)"
  by (auto simp: track_id_def split: option.splits if_splits prod.splits rval.splits dest: hashKey_ok)

lemma locate_world:
  "hash_ok (r_world s) \<Longrightarrow> locate env arr i kvs s nxt order = (err, s', nxt', order') \<Longrightarrow>
    hash_ok (r_world s') \<and> later (r_world s) (r_world s')"
proof (induction env arr i kvs s nxt order rule: locate.induct)
  case (2 env arr i k v kvs s nxt order)
  obtain tid w where t: "track_id env arr k v i (r_world s) = (tid, w)" by force
  have w: "hash_ok w" "later (r_world s) w" using track_id_ok [OF 2(3) t] by auto
  with 2 t show ?case
    by (fastforce simp: Let_def split: option.splits if_splits intro: later_trans)
qed simp

section \<open>The rows after the action\<close>

definition row_map :: "block list \<Rightarrow> string \<Rightarrow> block option" where
  "row_map bs = map_of (map (\<lambda>b. (b_id b, b)) bs)"

definition showing :: "nat list \<Rightarrow> nat list \<Rightarrow> repeat_env \<Rightarrow> repeater \<Rightarrow> block list \<Rightarrow> bool" where
  "showing pre post env s bs \<longleftrightarrow> layout pre post env s bs \<and> distinct (map b_id bs) \<and>
     map_of (lastBlockMap s) = row_map bs \<and> distinct (map fst (lastBlockMap s))"

lemma row_map_Some:
  assumes "distinct (map b_id bs)"
  shows "row_map bs t = Some b \<longleftrightarrow> b \<in> set bs \<and> b_id b = t"
proof -
  have "distinct (map fst (map (\<lambda>b. (b_id b, b)) bs))" using assms by (simp add: comp_def)
  then show ?thesis by (auto simp: row_map_def simp del: map_map)
qed

lemma some_entries:
  "distinct (map fst nx) \<Longrightarrow> map_of [(t, b). (t, Some b) <- nx] t = (case map_of nx t of Some (Some b) \<Rightarrow> Some b | _ \<Rightarrow> None)"
  "distinct (map fst nx) \<Longrightarrow> distinct (map fst [(t, b). (t, Some b) <- nx])"
proof -
  have sub: "fst ` set [(t, b). (t, Some b) <- nx] \<subseteq> fst ` set nx" for nx :: "('a \<times> 'b option) list"
    by (force split: option.splits)
  show "distinct (map fst nx) \<Longrightarrow> map_of [(t, b). (t, Some b) <- nx] t = (case map_of nx t of Some (Some b) \<Rightarrow> Some b | _ \<Rightarrow> None)"
  proof (induction nx)
    case (Cons x nx)
    moreover have "map_of [(t, b). (t, Some b) <- nx] (fst x) = None"
      using Cons.prems by (intro map_of_eq_None_iff [THEN iffD2] contra_subsetD [OF sub]) simp
    ultimately show ?case by (cases x; cases "snd x") (auto split: option.split)
  qed simp
  show "distinct (map fst nx) \<Longrightarrow> distinct (map fst [(t, b). (t, Some b) <- nx])"
  proof (induction nx)
    case (Cons x nx)
    have n: "fst x \<notin> fst ` set [(t, b). (t, Some b) <- nx]"
      using Cons.prems by (intro contra_subsetD [OF sub]) simp
    have "distinct (map fst [(t, b). (t, Some b) <- nx])" using Cons by simp
    with n show ?case by (cases x; cases "snd x") (simp_all only: list.map concat.simps prod.case option.case snd_conv fst_conv append_Cons append_Nil distinct.simps list.set_map not_False_eq_True simp_thms)
  qed simp
qed

lemma row_map_named: "layout pre post env s bs \<Longrightarrow> distinct (map b_id bs) \<Longrightarrow> named (row_map bs)"
  by (auto simp: named_def row_map_Some layout_def list_all_iff block_ok_def)

lemma restricted_entries:
  assumes "distinct (map b_id bs)" "map_of l = row_map bs |` (- set ts)" "distinct (map fst l)"
  shows "distinct (map snd l)" "snd ` set l = {b \<in> set bs. b_id b \<notin> set ts}"
proof -
  have e: "(t, b) \<in> set l \<longleftrightarrow> b \<in> set bs \<and> b_id b = t \<and> t \<notin> set ts" for t b
    using assms row_map_Some [OF assms(1), of t b] by (auto simp: restrict_map_def simp flip: map_of_eq_Some_iff [OF assms(3)] split: if_splits)
  have "map b_id (map snd l) = map fst l" using e by auto
  with assms(3) show "distinct (map snd l)" using distinct_map [of b_id "map snd l"] by argo
  have "b \<in> snd ` set l \<longleftrightarrow> (\<exists>t. (t, b) \<in> set l)" for b by force
  then show "snd ` set l = {b \<in> set bs. b_id b \<notin> set ts}" using e by auto
qed

lemma placed_map:
  assumes "filled (map (block_at m) ts) cs nxt nxt'" "named m" "distinct (map fst nxt)" "distinct ts"
    and "map_of nxt = (\<lambda>t. if t \<in> set ts then Some (m t) else None)" "map b_id cs = ts"
    and old: "\<And>j. j < length ts \<Longrightarrow> m (ts ! j) \<noteq> None \<Longrightarrow> cs ! j = block_at m (ts ! j)"
  shows "map_of [(t, b). (t, Some b) <- nxt'] = row_map cs"
proof
  fix t
  have d: "distinct (map fst nxt')" using assms(1,3) by (simp add: filled_def)
  have same: "map_of nxt' t = map_of nxt t" if "t \<notin> set ts \<or> m t \<noteq> None"
  proof -
    have "\<forall>b\<in>set (map (block_at m) ts). b_scope b = None \<longrightarrow> b_id b \<noteq> t"
      using block_at_id [OF assms(2)] that by auto
    then show ?thesis using assms(1) unfolding filled_def by blast
  qed
  show "map_of [(t, b). (t, Some b) <- nxt'] t = row_map cs t"
  proof (cases "t \<in> set ts")
    case False
    then have "row_map cs t = None" using assms(6) by (auto simp: row_map_def map_of_eq_None_iff)
    then show ?thesis using some_entries(1) [OF d, of t] same False assms(5) by simp
  next
    case True
    then obtain j where j: "j < length ts" "ts ! j = t" by (auto simp: in_set_conv_nth)
    have len: "length cs = length ts" using assms(6) by (metis length_map)
    have "b_id (cs ! j) = t" using nth_map [of j cs b_id] assms(6) j len by simp
    then have "row_map cs t = Some (cs ! j)"
      using row_map_Some [of cs t "cs ! j"] assms(4,6) j len by simp
    moreover have "map_of nxt' t = Some (Some (cs ! j))"
    proof (cases "m t")
      case None
      then show ?thesis using assms(1) j block_at_id [OF assms(2)] by (auto simp: filled_def)
    next
      case (Some b)
      then show ?thesis using same True assms(5) old [OF j(1)] j(2) by (simp add: block_at_def)
    qed
    ultimately show ?thesis using some_entries(1) [OF d, of t] by simp
  qed
qed

lemma layout_fields:
  "layout pre post env (s\<lparr>r_world := w, lastBlockMap := l\<rparr>) bs \<longleftrightarrow> layout pre post env s bs"
  "layout pre post env (s\<lparr>lastBlockMap := l\<rparr>) bs \<longleftrightarrow> layout pre post env s bs"
  "layout pre post env (s\<lparr>r_world := w\<rparr>) bs \<longleftrightarrow> layout pre post env s bs"
  "row_bound env n i kv (s\<lparr>lastBlockMap := l\<rparr>) b \<longleftrightarrow> row_bound env n i kv s b"
  by (simp_all add: layout_def block_ok_def row_bound_def cong: list.pred_cong)

lemma track_ids_length: "track_ids env arr i kvs w = (Some ts, w') \<Longrightarrow> length ts = length kvs"
  by (induction kvs arbitrary: i w ts) (auto split: prod.splits option.splits)

text \<open>What an action without duplicates leaves: a row for every id, the old row where there was
  one, with the names set for its element, and the scopes of the other rows destroyed.\<close>

definition replaced :: "repeat_env \<Rightarrow> collection \<Rightarrow> string list \<Rightarrow> repeater \<Rightarrow> block list \<Rightarrow> repeater \<Rightarrow> block list \<Rightarrow> bool" where
  "replaced env c ts s bs s' cs \<longleftrightarrow> map b_id cs = ts \<and>
     (\<forall>j<length ts. row_bound env (length ts) j (items c ! j) s' (cs ! j)) \<and>
     (\<forall>b\<in>set bs. b_id b \<in> set ts \<longrightarrow> b \<in> set cs) \<and>
     (\<forall>b\<in>set bs. b_id b \<notin> set ts \<longrightarrow> \<not> s_live (r_scopes s' ! the (b_scope b))) \<and>
     (\<forall>b\<in>set cs. b \<in> set bs \<or> length (r_scopes s) \<le> the (b_scope b))"

lemma located_start: "showing pre post env s bs \<Longrightarrow> located (row_map bs) [] s [] []"
  by (simp add: located_def showing_def) (simp add: restrict_map_def)

lemma kept_blocks:
  assumes "named (row_map bs)" "distinct (map b_id bs)"
  shows "b \<in> set (map (block_at (row_map bs)) ts) \<and> b_scope b \<noteq> None \<longleftrightarrow> b \<in> set bs \<and> b_id b \<in> set ts"
proof -
  have "b = block_at (row_map bs) t \<and> b_scope b \<noteq> None \<longleftrightarrow> row_map bs t = Some b" for t
    using assms(1) by (auto simp: block_at_def named_def split: option.splits)
  then have "b \<in> set (map (block_at (row_map bs)) ts) \<and> b_scope b \<noteq> None \<longleftrightarrow> (\<exists>t\<in>set ts. row_map bs t = Some b)"
    unfolding set_map by blast
  then show ?thesis using row_map_Some [OF assms(2)] by auto
qed

lemma placed_old:
  assumes "placed env n i kvs (map (block_at m) ts) s cs s'" "named m" "j < length ts" "m (ts ! j) \<noteq> None"
  shows "cs ! j = block_at m (ts ! j)"
proof -
  have "b_scope (block_at m (ts ! j)) \<noteq> None" using assms(4) block_at_id(2) [OF assms(2), of "ts ! j"] by argo
  then show ?thesis using assms(1,3) by (simp add: placed_def)
qed

text \<open>From the rows that were placed after those that go were removed.\<close>

lemma replacedI:
  assumes nm: "named (row_map bs)" "distinct (map b_id bs)" "layout pre post env s bs"
    and p: "placed env (length ts) 0 (items c) (map (block_at (row_map bs)) ts) s2 cs s3" "map b_id cs = ts"
    and s2: "length (r_scopes s2) = length (r_scopes s)" "\<forall>b\<in>set bs. b_id b \<notin> set ts \<longrightarrow> \<not> s_live (r_scopes s2 ! the (b_scope b))"
    and s': "r_scopes s' = r_scopes s3"
  shows "replaced env c ts s bs s' cs"
  unfolding replaced_def
proof (intro conjI ballI allI impI)
  show "map b_id cs = ts" by (rule p(2))
next
  fix j assume "j < length ts"
  then show "row_bound env (length ts) j (items c ! j) s' (cs ! j)" using p(1) s' by (simp add: placed_def row_bound_def)
next
  fix b assume b: "b \<in> set bs" "b_id b \<in> set ts"
  then obtain j where j: "j < length ts" "ts ! j = b_id b" by (auto simp: in_set_conv_nth)
  then have "row_map bs (ts ! j) = Some b" using row_map_Some [OF nm(2)] b(1) by simp
  then have "cs ! j = b" using placed_old [OF p(1) nm(1) j(1)] by (simp add: block_at_def)
  then show "b \<in> set cs" using j(1) p(2) by (metis length_map nth_mem)
next
  fix b assume b: "b \<in> set bs" "b_id b \<notin> set ts"
  have "block_ok s b" using nm(3) b(1) by (auto simp: layout_def list_all_iff)
  then obtain sc where "b_scope b = Some sc" "sc < length (r_scopes s)" by (auto simp: block_ok_def)
  then show "\<not> s_live (r_scopes s' ! the (b_scope b))" using p(1) s2 b s' by (auto simp: placed_def scopes_kept_def)
next
  fix b assume "b \<in> set cs"
  then obtain j where j: "j < length ts" "cs ! j = b" using p(2) by (metis in_set_conv_nth length_map)
  show "b \<in> set bs \<or> length (r_scopes s) \<le> the (b_scope b)"
  proof (cases "row_map bs (ts ! j)")
    case None
    then show ?thesis using p(1) j block_at_id(2) [OF nm(1), of "ts ! j"] s2(1) by (auto simp: placed_def)
  next
    case (Some b')
    then have "cs ! j = b'" using placed_old [OF p(1) nm(1) j(1)] by (simp add: block_at_def)
    then show ?thesis using Some row_map_Some [OF nm(2)] j(2) by simp
  qed
qed

lemma action_ok:
  assumes r: "showing pre post env s bs" and t: "track_ids env (array_like c) 0 (items c) (r_world s) = (Some ts, w)"
    and good: "list_all (\<lambda>t. \<not> bad_id t) ts" "distinct ts" and a: "ngRepeatAction env c s = (err, s')"
  shows "err = None \<and> ids_taken w (r_world s') \<and> (\<exists>cs. showing pre post env s' cs \<and> replaced env c ts s bs s' cs)"
proof -
  have l: "layout pre post env s bs" and ids: "distinct (map b_id bs)" using r by (simp_all add: showing_def)
  have nm: "named (row_map bs)" by (rule row_map_named [OF l ids])
  obtain e1 s1 nxt order where lo: "locate env (array_like c) 0 (items c) s [] [] = (e1, s1, nxt, order)"
    by (metis prod_cases4)
  from locate_ids [OF nm located_start [OF r] t good(1) lo] good(2)
  obtain m where L: "e1 = None" "located (row_map bs) ts s1 nxt order" "s1 = s\<lparr>r_world := w, lastBlockMap := m\<rparr>" by auto
  have m: "map_of m = row_map bs |` (- set ts)" "distinct (map fst m)" and order: "order = map (block_at (row_map bs)) ts"
      and nxt: "map_of nxt = (\<lambda>t. if t \<in> set ts then Some (row_map bs t) else None)" "distinct (map fst nxt)"
    using L by (simp_all add: located_def)
  note gone = restricted_entries [OF ids m]
  define s2 where "s2 = remove_rows s1"
  have "layout pre post env s1 bs" using l L(3) by (simp add: layout_fields)
  from remove_rows_layout [OF this gone(1)] gone(2)
  have s2: "layout pre post env s2 (filter (\<lambda>b. b \<notin> snd ` set m) bs)" "length (r_scopes s2) = length (r_scopes s)"
      "\<forall>sc<length (r_scopes s). r_scopes s2 ! sc =
        (if Some sc \<in> b_scope ` snd ` set m then dead (r_scopes s ! sc) else r_scopes s ! sc)" "r_world s2 = w"
    using L(3) by (simp_all add: Let_def s2_def remove_rows_def)
  have dead: "\<forall>b\<in>set bs. b_id b \<notin> set ts \<longrightarrow> \<not> s_live (r_scopes s2 ! the (b_scope b))"
  proof (intro ballI impI)
    fix b assume b: "b \<in> set bs" "b_id b \<notin> set ts"
    have "block_ok s b" using l b(1) by (auto simp: layout_def list_all_iff)
    then obtain sc where sc: "b_scope b = Some sc" "sc < length (r_scopes s)" by (auto simp: block_ok_def)
    have "b \<in> snd ` set m" using b gone(2) by simp
    then have "Some sc \<in> b_scope ` snd ` set m" using sc(1) by (metis imageI)
    then show "\<not> s_live (r_scopes s2 ! the (b_scope b))" using s2(3) sc by (simp add: dead_def)
  qed
  obtain nxt' s3 where p: "place_rows env (length (items c)) 0 (items c) order (r_anchor env) nxt s2 = (nxt', s3)" by force
  have "\<forall>b\<in>set order. \<not> bad_id (b_id b)" using good(1) block_at_id(1) [OF nm] by (auto simp: order list_all_iff)
  then have "''__proto__'' \<notin> b_id ` set order" by (auto simp: bad_id_def)
  moreover have oid: "map b_id order = ts" using block_at_id(1) [OF nm] by (simp add: order comp_def)
  moreover have "set (filter (\<lambda>b. b \<notin> snd ` set m) bs) = {b \<in> set order. b_scope b \<noteq> None}"
    using kept_blocks [OF nm ids, of _ ts] gone(2) unfolding order by auto
  ultimately obtain cs where C: "layout pre post env s3 cs" "placed env (length ts) 0 (items c) order s2 cs s3"
      "filled order cs nxt nxt'"
    using place_rows_layout [of pre post env s2 "[]" "filter (\<lambda>b. b \<notin> snd ` set m) bs", OF _ _ _ _ _ _ p]
      s2(1) good(2) track_ids_length [OF t] by (auto simp: order)
  have s': "err = None" "s' = s3\<lparr>lastBlockMap := [(t, b). (t, Some b) <- nxt']\<rparr>"
    using a lo L(1) p by (simp_all add: ngRepeatAction_def s2_def)
  have cid: "map b_id cs = ts" using C(2) oid by (simp add: placed_def)
  have lm: "lastBlockMap s' = [(t, b). (t, Some b) <- nxt']" by (simp add: s'(2))
  have "map_of (lastBlockMap s') = row_map cs"
    unfolding lm using placed_map [OF C(3) [unfolded order] nm nxt(2) good(2) nxt(1) cid] placed_old [OF C(2) [unfolded order] nm] by blast
  moreover have "distinct (map fst (lastBlockMap s'))"
    unfolding lm by (rule some_entries(2)) (use C(3) nxt(2) in \<open>simp add: filled_def\<close>)
  ultimately have "showing pre post env s' cs" using C(1) cid good(2) s'(2) by (simp add: showing_def layout_fields)
  moreover have "replaced env c ts s bs s' cs"
    using replacedI [OF nm ids l C(2) [unfolded order] cid s2(2) dead] s'(2) by simp
  moreover have "ids_taken w (r_world s')" using C(2) s2(4) s'(2) by (simp add: placed_def)
  ultimately show ?thesis using s'(1) by blast
qed

lemma action_dup:
  assumes r: "showing pre post env s bs" and t: "track_ids env (array_like c) 0 (items c) (r_world s) = (Some ts, w)"
    and good: "list_all (\<lambda>t. \<not> bad_id t) ts" "\<not> distinct ts" and a: "ngRepeatAction env c s = (err, s')"
  shows "(\<exists>t. err = Some (Dupes t)) \<and> showing pre post env s' bs \<and> r_dom s' = r_dom s \<and> r_scopes s' = r_scopes s"
proof -
  have l: "layout pre post env s bs" and ids: "distinct (map b_id bs)" using r by (simp_all add: showing_def)
  obtain e1 s1 nxt order where lo: "locate env (array_like c) 0 (items c) s [] [] = (e1, s1, nxt, order)"
    by (metis prod_cases4)
  note start = located_start [OF r]
  from locate_ids [OF row_map_named [OF l ids] start t good(1) lo] good(2)
  obtain t w' m where L: "e1 = Some (Dupes t)" "s1 = s\<lparr>r_world := w', lastBlockMap := m\<rparr>" "map_of m = row_map bs"
      "distinct (map fst m)" by auto
  then have "err = Some (Dupes t)" "s' = s1" using a lo by (simp_all add: ngRepeatAction_def)
  then show ?thesis using L l ids by (simp add: showing_def layout_fields)
qed

section \<open>Histories\<close>

text \<open>The ids of a collection: an expression of \<open>track by\<close> or the keys of an object must not give the
  two names that block maps cannot hold.\<close>

definition good_items :: "repeat_env \<Rightarrow> collection \<Rightarrow> bool" where
  "good_items env c = (case r_track env of
     Some f \<Rightarrow> list_all (\<lambda>(i, k, v). case f k v i of None \<Rightarrow> False | Some t \<Rightarrow> \<not> bad_id t) (enumerate 0 (items c))
   | None \<Rightarrow> (case c of ArrayLike _ \<Rightarrow> True | Keyed kvs \<Rightarrow> list_all (\<lambda>(k, v). \<not> bad_id k) kvs))"

lemma hashKey_good: "hashKey call v w = (t, w') \<Longrightarrow> \<not> bad_id t"
  by (auto simp: hashKey_def bad_id_def cell_type_def Let_def split: rval.splits jsval.splits if_splits)

lemma set_insert_keys: "set (foldr insert_key ks []) = set ks"
proof -
  have "set (insert_key k js) = insert k (set js)" for k js by (induction js) auto
  then show ?thesis by (induction ks) auto
qed

lemma track_ids_good:
  assumes "\<And>j k v w. j < length kvs \<Longrightarrow> kvs ! j = (k, v) \<Longrightarrow> \<exists>t w'. track_id env arr k v (i + j) w = (Some t, w') \<and> \<not> bad_id t"
  shows "\<exists>ts w'. track_ids env arr i kvs w = (Some ts, w') \<and> list_all (\<lambda>t. \<not> bad_id t) ts"
  using assms
proof (induction kvs arbitrary: i w)
  case (Cons kv kvs)
  obtain k v where kv: "kv = (k, v)" by force
  obtain t w1 where t: "track_id env arr k v i w = (Some t, w1)" "\<not> bad_id t"
    using Cons.prems [of 0 k v w] kv by auto
  have "\<exists>ts w'. track_ids env arr (Suc i) kvs w1 = (Some ts, w') \<and> list_all (\<lambda>t. \<not> bad_id t) ts"
  proof (rule Cons.IH)
    fix j k v w
    assume "j < length kvs" "kvs ! j = (k, v)"
    then show "\<exists>t w'. track_id env arr k v (Suc i + j) w = (Some t, w') \<and> \<not> bad_id t"
      using Cons.prems [of "Suc j" k v w] by simp
  qed
  with t kv show ?case by auto
qed simp

lemma good_items_track:
  assumes "good_items env c"
  shows "\<exists>ts w'. track_ids env (array_like c) 0 (items c) w = (Some ts, w') \<and> list_all (\<lambda>t. \<not> bad_id t) ts"
proof (rule track_ids_good)
  fix j k v w
  assume j: "j < length (items c)" "items c ! j = (k, v)"
  show "\<exists>t w'. track_id env (array_like c) k v (0 + j) w = (Some t, w') \<and> \<not> bad_id t"
  proof (cases "r_track env")
    case (Some f)
    then have "case f k v j of None \<Rightarrow> False | Some t \<Rightarrow> \<not> bad_id t"
      using assms j by (auto simp: good_items_def list_all_length nth_enumerate_eq)
    then show ?thesis using Some by (auto simp: track_id_def split: option.splits)
  next
    case None
    show ?thesis
    proof (cases c)
      case (ArrayLike vs)
      then show ?thesis using None hashKey_good by (fastforce simp: track_id_def array_like_def split: prod.split)
    next
      case (Keyed kvs)
      then obtain n where "k = VStr n" "n \<in> fst ` set kvs"
        using j nth_mem [OF j(1)] by (auto simp: items_def set_insert_keys)
      then show ?thesis using None Keyed assms by (auto simp: track_id_def array_like_def good_items_def list_all_iff)
    qed
  qed
qed

lemma rows_start:
  assumes "distinct (pre @ r_anchor env # post)"
  shows "showing pre post env (repeat_start env pre post w) []"
proof -
  have "x < Suc (foldr max xs 0)" if "x \<in> set xs" for x and xs :: "nat list"
    using that by (induction xs) (auto simp: less_Suc_eq_le)
  then show ?thesis using assms by (auto simp: showing_def layout_def repeat_start_def row_map_def simp del: foldr_append)
qed

lemma action_rows:
  assumes "showing pre post env s bs" "good_items env c" "ngRepeatAction env c s = (err, s')"
  shows "\<exists>cs. showing pre post env s' cs"
proof -
  obtain ts w where t: "track_ids env (array_like c) 0 (items c) (r_world s) = (Some ts, w)" "list_all (\<lambda>t. \<not> bad_id t) ts"
    using good_items_track [OF assms(2)] by blast
  show ?thesis
    using action_ok [OF assms(1) t _ assms(3)] action_dup [OF assms(1) t _ assms(3)] by (cases "distinct ts") auto
qed

lemma run_rows:
  "showing pre post env s bs \<Longrightarrow> list_all (good_items env) cs \<Longrightarrow> \<exists>bs'. showing pre post env (repeat_run env cs s) bs'"
proof (induction cs arbitrary: s bs)
  case (Cons c cs)
  obtain err s' where a: "ngRepeatAction env c s = (err, s')" by force
  obtain bs' where "showing pre post env s' bs'" using action_rows [OF Cons.prems(1) _ a] Cons.prems(2) by auto
  from Cons.IH [OF this] Cons.prems(2) a show ?case by (simp add: repeat_run_def)
qed (auto simp: repeat_run_def)

lemma track_ids_world:
  "hash_ok w \<Longrightarrow> track_ids env arr i kvs w = (ts, w') \<Longrightarrow> hash_ok w' \<and> later w w'"
proof (induction kvs arbitrary: i w ts)
  case (Cons kv kvs)
  obtain k v tid w1 where t: "kv = (k, v)" "track_id env arr k v i w = (tid, w1)" by force
  with track_id_ok [OF Cons.prems(1) t(2)] Cons show ?case
    by (fastforce split: option.splits prod.splits intro: later_trans)
qed simp

lemma action_world:
  assumes "hash_ok (r_world s)" "showing pre post env s bs" "good_items env c" "ngRepeatAction env c s = (err, s')"
  shows "hash_ok (r_world s') \<and> later (r_world s) (r_world s')"
proof -
  obtain ts w where t: "track_ids env (array_like c) 0 (items c) (r_world s) = (Some ts, w)" "list_all (\<lambda>t. \<not> bad_id t) ts"
    using good_items_track [OF assms(3)] by blast
  show ?thesis
  proof (cases "distinct ts")
    case True
    then show ?thesis
      using action_ok [OF assms(2) t True assms(4)] track_ids_world [OF assms(1) t(1)] ids_taken_ok later_trans by blast
  next
    case False
    obtain e1 s1 nxt order where lo: "locate env (array_like c) 0 (items c) s [] [] = (e1, s1, nxt, order)"
      by (metis prod_cases4)
    have "err \<noteq> None" using action_dup [OF assms(2) t False assms(4)] by auto
    then have "s' = s1" using assms(4) lo by (cases e1) (auto simp: ngRepeatAction_def Let_def split: prod.splits)
    then show ?thesis using locate_world [OF assms(1) lo] by simp
  qed
qed

lemma run_world:
  "hash_ok (r_world s) \<Longrightarrow> showing pre post env s bs \<Longrightarrow> list_all (good_items env) cs \<Longrightarrow> hash_ok (r_world (repeat_run env cs s))"
proof (induction cs arbitrary: s bs)
  case (Cons c cs)
  obtain err s' where a: "ngRepeatAction env c s = (err, s')" by force
  obtain bs' where "showing pre post env s' bs'" using action_rows [OF Cons.prems(2) _ a] Cons.prems(3) by auto
  from Cons.IH [OF _ this] action_world [OF Cons.prems(1,2) _ a] Cons.prems(3) a show ?case by (simp add: repeat_run_def)
qed (simp add: repeat_run_def)

text \<open>The ids of an array without \<open>track by\<close> are those of its elements.\<close>

lemma track_ids_array:
  "r_track env = None \<Longrightarrow> hash_ok w \<Longrightarrow> track_ids env True i kvs w = (Some ts, w') \<Longrightarrow>
    map Some ts = map (\<lambda>kv. id_of w' (snd kv)) kvs"
proof (induction kvs arbitrary: i w ts)
  case (Cons kv kvs)
  obtain k v t w1 ts' where t: "kv = (k, v)" "track_id env True k v i w = (Some t, w1)"
      "track_ids env True (Suc i) kvs w1 = (Some ts', w')" "ts = t # ts'"
    using Cons.prems(3) by (cases kv) (auto split: option.splits prod.splits)
  have w1: "hash_ok w1" "id_of w1 v = Some t" using track_id_ok [OF Cons.prems(2) t(2)] Cons.prems(1) by auto
  then have "id_of w' v = Some t" using track_ids_world [OF w1(1) t(3)] by (simp add: later_def)
  with Cons.IH [OF Cons.prems(1) w1(1) t(3)] t show ?case by simp
qed simp

text \<open>The two tables of the console.\<close>

lemma console_repeats:
  "repeat_parse ''peer in peers'' = Inr \<lparr>x_value = ''peer'', x_key = None, x_collection = ''peers'', x_track = None\<rparr>"
  "repeat_parse ''server_room in server_rooms'' =
    Inr \<lparr>x_value = ''server_room'', x_key = None, x_collection = ''server_rooms'', x_track = None\<rparr>"
  by code_simp+

section \<open>Properties\<close>

definition ROW_NAMES :: "string list" where
  "ROW_NAMES = [''$index'', ''$first'', ''$last'', ''$middle'', ''$even'', ''$odd'']"

definition plain_names :: "repeat_env \<Rightarrow> bool" where
  "plain_names env \<longleftrightarrow> r_value env \<notin> set ROW_NAMES \<and>
     (case r_key env of None \<Rightarrow> True | Some name \<Rightarrow> name \<notin> set ROW_NAMES \<and> name \<noteq> r_value env)"

text \<open>The names that the template of the \<open>j\<close>-th of \<open>n\<close> rows reads.\<close>

definition row_shows :: "repeat_env \<Rightarrow> nat \<Rightarrow> nat \<Rightarrow> rval \<Rightarrow> rval \<Rightarrow> (string \<Rightarrow> rval option) \<Rightarrow> bool" where
  "row_shows env n j k v vars \<longleftrightarrow> vars (r_value env) = Some v \<and>
     (case r_key env of None \<Rightarrow> True | Some name \<Rightarrow> vars name = Some k) \<and>
     vars ''$index'' = Some (VNum (int j)) \<and> vars ''$first'' = Some (VBool (j = 0)) \<and>
     vars ''$last'' = Some (VBool (j = n - 1)) \<and> vars ''$middle'' = Some (VBool (0 < j \<and> j < n - 1)) \<and>
     vars ''$even'' = Some (VBool (even j)) \<and> vars ''$odd'' = Some (VBool (odd j))"

lemma shown_shows:
  assumes "row_bound env n j (k, v) s b" "plain_names env" "j < n"
  shows "row_shows env n j k v (s_vars (r_scopes s ! the (b_scope b)))"
proof -
  obtain vars where vars: "s_vars (r_scopes s ! the (b_scope b)) = row_vars env n j k v vars"
    using assms(1) by (auto simp: row_bound_def)
  have names: "r_value env \<notin> set ROW_NAMES" "\<And>name. r_key env = Some name \<Longrightarrow> name \<notin> set ROW_NAMES \<and> name \<noteq> r_value env"
    using assms(2) by (simp_all add: plain_names_def)
  have last: "Suc j = n \<longleftrightarrow> j = n - 1" using assms(3) by auto
  have other: "row_vars env n j k v vars name =
      (case r_key env of Some key \<Rightarrow> if name = key then Some k else if name = r_value env then Some v else vars name
       | None \<Rightarrow> if name = r_value env then Some v else vars name)" if "name \<notin> set ROW_NAMES" for name
    using that by (cases "r_key env") (simp_all add: row_vars_def Let_def ROW_NAMES_def)
  have "row_vars env n j k v vars (r_value env) = Some v"
    using other [OF names(1)] names(2) by (cases "r_key env") auto
  moreover have "case r_key env of None \<Rightarrow> True | Some name \<Rightarrow> row_vars env n j k v vars name = Some k"
    using other names(2) by (cases "r_key env") auto
  moreover have "row_vars env n j k v vars ''$index'' = Some (VNum (int j))" "row_vars env n j k v vars ''$first'' = Some (VBool (j = 0))"
      "row_vars env n j k v vars ''$last'' = Some (VBool (Suc j = n))"
      "row_vars env n j k v vars ''$middle'' = Some (VBool (\<not> (j = 0 \<or> Suc j = n)))"
      "row_vars env n j k v vars ''$even'' = Some (VBool (j mod 2 = 0))" "row_vars env n j k v vars ''$odd'' = Some (VBool (j mod 2 \<noteq> 0))"
    by (simp_all add: row_vars_def Let_def)
  moreover have "(\<not> (j = 0 \<or> Suc j = n)) = (0 < j \<and> j < n - 1)" using assms(3) by auto
  ultimately show ?thesis unfolding vars row_shows_def last even_iff_mod_2_eq_zero by simp
qed

text \<open>C25: Whatever collections were shown before, the action makes the page show the new one: between
  the anchor and the rest of the page, which do not change, there is one row for every
  element in the order of the collection, with the element, its key and its position in
  the row's scope. A row whose id stays keeps its nodes and its scope, wherever it moves;
  the others get new scopes, and the scopes of the rows that went are destroyed. If two
  elements have the same id, the action throws and page and scopes stay as they were, with all
  rows still known to the next action.\<close>

theorem repeat_shows_collection:
  assumes "distinct (pre @ r_anchor env # post)" "list_all (good_items env) (c # history)" "plain_names env"
    and "ngRepeatAction env c (repeat_run env history (repeat_start env pre post w)) = (err, s')"
  shows "\<exists>s bs ts. s = repeat_run env history (repeat_start env pre post w) \<and> showing pre post env s bs \<and>
    fst (track_ids env (array_like c) 0 (items c) (r_world s)) = Some ts \<and>
    (if distinct ts
     then err = None \<and> (\<exists>cs. showing pre post env s' cs \<and> map b_id cs = ts \<and>
       (\<forall>j<length ts. row_shows env (length ts) j (fst (items c ! j)) (snd (items c ! j)) (s_vars (r_scopes s' ! the (b_scope (cs ! j))))) \<and>
       (\<forall>b\<in>set bs. if b_id b \<in> set ts then b \<in> set cs else \<not> s_live (r_scopes s' ! the (b_scope b))) \<and>
       (\<forall>b\<in>set cs. b \<in> set bs \<or> length (r_scopes s) \<le> the (b_scope b)))
     else (\<exists>t. err = Some (Dupes t)) \<and> showing pre post env s' bs \<and> r_dom s' = r_dom s \<and> r_scopes s' = r_scopes s)"
proof -
  define s where "s = repeat_run env history (repeat_start env pre post w)"
  obtain bs where bs: "showing pre post env s bs"
    using run_rows [OF rows_start [OF assms(1)]] assms(2) unfolding s_def by fastforce
  obtain ts w1 where t: "track_ids env (array_like c) 0 (items c) (r_world s) = (Some ts, w1)" "list_all (\<lambda>t. \<not> bad_id t) ts"
    using good_items_track [of env c "r_world s"] assms(2) by auto
  note a = assms(4) [folded s_def]
  have "if distinct ts
     then err = None \<and> (\<exists>cs. showing pre post env s' cs \<and> map b_id cs = ts \<and>
       (\<forall>j<length ts. row_shows env (length ts) j (fst (items c ! j)) (snd (items c ! j)) (s_vars (r_scopes s' ! the (b_scope (cs ! j))))) \<and>
       (\<forall>b\<in>set bs. if b_id b \<in> set ts then b \<in> set cs else \<not> s_live (r_scopes s' ! the (b_scope b))) \<and>
       (\<forall>b\<in>set cs. b \<in> set bs \<or> length (r_scopes s) \<le> the (b_scope b)))
     else (\<exists>t. err = Some (Dupes t)) \<and> showing pre post env s' bs \<and> r_dom s' = r_dom s \<and> r_scopes s' = r_scopes s"
  proof (cases "distinct ts")
    case True
    obtain cs where "err = None" "showing pre post env s' cs" "replaced env c ts s bs s' cs"
      using action_ok [OF bs t True a] by blast
    then show ?thesis
      using True shown_shows [OF _ assms(3)] unfolding replaced_def
      by (simp only: if_True) (intro conjI exI [of _ cs], simp_all)
  next
    case False
    then show ?thesis using action_dup [OF bs t False a] by simp
  qed
  then show ?thesis using bs t(1) unfolding s_def by (intro exI conjI) simp_all
qed

theorem repeat_shows_collection_witness:
  "\<exists>env w s' cs. ngRepeatAction env (Keyed [(''b'', VNum 1), (''$x'', VNull), (''a'', Ref 5)])
      (repeat_run env [] (repeat_start env [0] [2] w)) = (None, s') \<and>
    showing [0] [2] env s' cs \<and> map b_id cs = [''a'', ''b'']"
proof -
  define env where "env = \<lparr>r_anchor = 1, r_roots = 1, r_value = ''v'', r_key = Some ''k'', r_track = None, r_call = \<lambda>_ _. JUndef\<rparr>"
  define w where "w = \<lparr>w_uid = ''000'', w_heap = \<lambda>_. \<lparr>o_function = False, o_fields = []\<rparr>\<rparr>"
  define c where "c = Keyed [(''b'', VNum 1), (''$x'', VNull), (''a'', Ref 5)]"
  obtain err s' where a: "ngRepeatAction env c (repeat_run env [] (repeat_start env [0] [2] w)) = (err, s')" by force
  have i: "items c = [(VStr ''a'', Ref 5), (VStr ''b'', VNum 1)]" by (simp add: items_def c_def)
  have ids: "fst (track_ids env (array_like c) 0 (items c) w) = Some [''a'', ''b'']" for w
    unfolding i by (simp add: track_id_def array_like_def env_def c_def)
  have "list_all (good_items env) (c # [])" "plain_names env" "distinct ([0] @ r_anchor env # [2])"
    by (simp_all add: good_items_def bad_id_def plain_names_def ROW_NAMES_def env_def c_def)
  from repeat_shows_collection [OF this(3) this(1) this(2) a]
  have "err = None \<and> (\<exists>cs. showing [0] [2] env s' cs \<and> map b_id cs = [''a'', ''b''])"
    unfolding ids
  proof (elim exE conjE)
    fix s bs ts
    assume "Some [''a'', ''b''] = Some ts" and o: "if distinct ts
       then err = None \<and> (\<exists>cs. showing [0] [2] env s' cs \<and> map b_id cs = ts \<and>
         (\<forall>j<length ts. row_shows env (length ts) j (fst (items c ! j)) (snd (items c ! j)) (s_vars (r_scopes s' ! the (b_scope (cs ! j))))) \<and>
         (\<forall>b\<in>set bs. if b_id b \<in> set ts then b \<in> set cs else \<not> s_live (r_scopes s' ! the (b_scope b))) \<and>
         (\<forall>b\<in>set cs. b \<in> set bs \<or> length (r_scopes s) \<le> the (b_scope b)))
       else (\<exists>t. err = Some (Dupes t)) \<and> showing [0] [2] env s' bs \<and> r_dom s' = r_dom s \<and> r_scopes s' = r_scopes s"
    then have "ts = [''a'', ''b'']" "distinct ts" by auto
    with o show ?thesis by (metis (lifting))
  qed
  then obtain cs where cs: "showing [0] [2] env s' cs" "map b_id cs = [''a'', ''b'']" and "err = None" by (elim conjE exE)
  then have "ngRepeatAction env c (repeat_run env [] (repeat_start env [0] [2] w)) = (None, s')" using a by simp
  with cs show ?thesis unfolding c_def by (intro exI conjI)
qed

lemma array_action:
  assumes r: "r_track env = None" and w: "hash_ok (r_world s)" and os: "showing pre post env s os"
    and a: "ngRepeatAction env (ArrayLike xs) s = (e, s')"
  shows "(e = None \<longleftrightarrow> distinct xs) \<and> (\<exists>bs. showing pre post env s' bs \<and> (distinct xs \<longrightarrow>
    map (\<lambda>b. Some (b_id b)) bs = map (id_of (r_world s')) xs \<and> (\<forall>b\<in>set os. b_id b \<in> b_id ` set bs \<longrightarrow> b \<in> set bs)))"
proof -
  have "good_items env (ArrayLike xs)" by (simp add: good_items_def r)
  then obtain ts w' where t: "track_ids env (array_like (ArrayLike xs)) 0 (items (ArrayLike xs)) (r_world s) = (Some ts, w')"
      "list_all (\<lambda>t. \<not> bad_id t) ts"
    using good_items_track by blast
  have w': "hash_ok w'" using track_ids_world [OF w t(1)] by simp
  have "map snd (items (ArrayLike xs)) = xs" by (simp add: items_def comp_def map_nth)
  moreover have "map Some ts = map (id_of w') (map snd (items (ArrayLike xs)))"
    using track_ids_array [OF r w] t(1) by (simp add: array_like_def comp_def)
  ultimately have ids: "map Some ts = map (id_of w') xs" by simp
  then have len: "length ts = length xs" by (rule map_eq_imp_length_eq)
  have at: "id_of w' (xs ! i) = Some (ts ! i)" if "i < length xs" for i
    using arg_cong [OF ids, of "\<lambda>l. l ! i"] that len by simp
  have "ts ! i = ts ! j \<longleftrightarrow> xs ! i = xs ! j" if "i < length xs" "j < length xs" for i j
    using id_of_inj [OF w' at [OF that(1)], of "xs ! j"] at [OF that(2)] at [OF that(1)] by auto
  then have d: "distinct ts \<longleftrightarrow> distinct xs" using len by (simp add: distinct_conv_nth)
  show ?thesis
  proof (cases "distinct ts")
    case True
    obtain bs where bs: "e = None" "showing pre post env s' bs" "replaced env (ArrayLike xs) ts s os s' bs" "ids_taken w' (r_world s')"
      using action_ok [OF os t True a] by blast
    have "later w' (r_world s')" "later (r_world s') w'" using ids_taken_ok [OF bs(4) w'] by simp_all
    then have same: "id_of (r_world s') v = id_of w' v" for v unfolding later_def by (metis not_Some_eq)
    have "map b_id bs = ts" using bs(3) by (simp add: replaced_def)
    then have "map (\<lambda>b. Some (b_id b)) bs = map (id_of (r_world s')) xs"
      using ids same by (simp add: comp_def flip: \<open>map b_id bs = ts\<close>)
    then show ?thesis using bs d True by (auto simp: replaced_def)
  next
    case False
    then show ?thesis using action_dup [OF os t False a] d os by auto
  qed
qed

text \<open>C26: An array of objects is shown by identity: without \<open>track by\<close> an action throws exactly when an
  element stands twice in the array, and when one array replaces another, an element that
  is in both keeps its row, its nodes and its scope, and different elements never share a
  row. The ids that objects get are never uid_issued twice.\<close>

theorem rows_follow_elements:
  assumes "r_track env = None" "hash_ok w" "distinct (pre @ r_anchor env # post)" "list_all (good_items env) history"
    and "ngRepeatAction env (ArrayLike us) (repeat_run env history (repeat_start env pre post w)) = (e1, s1)"
    and "ngRepeatAction env (ArrayLike vs) s1 = (e2, s2)"
  shows "(e1 = None \<longleftrightarrow> distinct us) \<and> (e2 = None \<longleftrightarrow> distinct vs) \<and>
    (distinct us \<and> distinct vs \<longrightarrow> (\<exists>bs cs. showing pre post env s1 bs \<and> showing pre post env s2 cs \<and>
       length bs = length us \<and> length cs = length vs \<and>
       (\<forall>i<length us. \<forall>j<length vs. bs ! i = cs ! j \<longleftrightarrow> us ! i = vs ! j)))"
proof -
  define s where "s = repeat_run env history (repeat_start env pre post w)"
  obtain os where os: "showing pre post env s os"
    using run_rows [OF rows_start [OF assms(3)] assms(4)] unfolding s_def by blast
  have w: "hash_ok (r_world s)"
    using run_world [OF _ rows_start [OF assms(3)] assms(4), of w] assms(2) by (simp add: s_def repeat_start_def)
  have good: "good_items env (ArrayLike xs)" for xs by (simp add: good_items_def assms(1))
  note one = array_action [OF assms(1)]
  obtain bs where bs: "e1 = None \<longleftrightarrow> distinct us" "showing pre post env s1 bs"
      "distinct us \<longrightarrow> map (\<lambda>b. Some (b_id b)) bs = map (id_of (r_world s1)) us"
    using one [OF w os] assms(5) unfolding s_def by blast
  have w1: "hash_ok (r_world s1)" using action_world [OF w os good] assms(5) unfolding s_def by blast
  obtain cs where cs: "e2 = None \<longleftrightarrow> distinct vs" "showing pre post env s2 cs"
      "distinct vs \<longrightarrow> map (\<lambda>b. Some (b_id b)) cs = map (id_of (r_world s2)) vs \<and> (\<forall>b\<in>set bs. b_id b \<in> b_id ` set cs \<longrightarrow> b \<in> set cs)"
    using one [OF w1 bs(2) assms(6)] by blast
  have w2: "hash_ok (r_world s2)" "later (r_world s1) (r_world s2)" using action_world [OF w1 bs(2) good assms(6)] by auto
  have "\<exists>bs cs. showing pre post env s1 bs \<and> showing pre post env s2 cs \<and> length bs = length us \<and> length cs = length vs \<and>
       (\<forall>i<length us. \<forall>j<length vs. bs ! i = cs ! j \<longleftrightarrow> us ! i = vs ! j)" if d: "distinct us" "distinct vs"
  proof (intro exI conjI allI impI)
    show "showing pre post env s1 bs" "showing pre post env s2 cs" by (fact bs(2) cs(2))+
    show len: "length bs = length us" "length cs = length vs" using d bs(3) cs(3) by (metis length_map)+
    fix i j assume ij: "i < length us" "j < length vs"
    have u: "id_of (r_world s2) (us ! i) = Some (b_id (bs ! i))"
    proof -
      have "id_of (r_world s1) (us ! i) = Some (b_id (bs ! i))" using bs(3) d(1) ij(1) len(1) by (metis (no_types, lifting) nth_map)
      then show ?thesis using w2(2) by (simp add: later_def)
    qed
    have v: "id_of (r_world s2) (vs ! j) = Some (b_id (cs ! j))" using cs(3) d(2) ij(2) len(2) by (metis (no_types, lifting) nth_map)
    show "bs ! i = cs ! j \<longleftrightarrow> us ! i = vs ! j"
    proof
      assume "bs ! i = cs ! j"
      then show "us ! i = vs ! j" using id_of_inj [OF w2(1) u] v by simp
    next
      assume "us ! i = vs ! j"
      then have same: "b_id (bs ! i) = b_id (cs ! j)" using u v by simp
      then have "bs ! i \<in> set cs" using cs(3) d(2) ij len by auto
      then show "bs ! i = cs ! j" using same cs(2) ij len by (auto simp: showing_def distinct_map inj_on_def)
    qed
  qed
  then show ?thesis using bs(1) cs(1) by blast
qed

theorem rows_follow_elements_witness:
  "\<exists>env w s1 s2 bs cs. ngRepeatAction env (ArrayLike [Ref 1, Ref 2]) (repeat_run env [] (repeat_start env [0] [2] w)) = (None, s1) \<and>
    ngRepeatAction env (ArrayLike [Ref 2, VNum 7, Ref 3]) s1 = (None, s2) \<and>
    showing [0] [2] env s1 bs \<and> showing [0] [2] env s2 cs \<and> bs ! 1 = cs ! 0 \<and> bs ! 0 \<noteq> cs ! 2"
proof -
  define env where "env = \<lparr>r_anchor = 1, r_roots = 1, r_value = ''v'', r_key = None, r_track = None, r_call = \<lambda>_ _. JUndef\<rparr>"
  define w where "w = \<lparr>w_uid = ''000'', w_heap = \<lambda>_. \<lparr>o_function = False, o_fields = []\<rparr>\<rparr>"
  obtain e1 s1 e2 s2 where a: "ngRepeatAction env (ArrayLike [Ref 1, Ref 2]) (repeat_run env [] (repeat_start env [0] [2] w)) = (e1, s1)"
      "ngRepeatAction env (ArrayLike [Ref 2, VNum 7, Ref 3]) s1 = (e2, s2)" by (metis surj_pair)
  have "r_track env = None" "hash_ok w" "distinct ([0] @ r_anchor env # [2])" "list_all (good_items env) []"
    by (simp_all add: hash_ok_def key_of_def obj_get_def uid_char_def env_def w_def)
  note t = rows_follow_elements [OF this a]
  then obtain bs cs where b: "showing [0] [2] env s1 bs" "showing [0] [2] env s2 cs"
      "\<forall>i<2. \<forall>j<3. bs ! i = cs ! j \<longleftrightarrow> [Ref 1, Ref 2] ! i = [Ref 2, VNum 7, Ref 3] ! j" by (auto simp: numeral_eq_Suc)
  then have "bs ! 1 = cs ! 0" "bs ! 0 \<noteq> cs ! 2" by simp_all
  moreover have "e1 = None" "e2 = None" using t by simp_all
  ultimately show ?thesis using a b(1,2) by blast
qed

end
