(* ===== verification/Ng_Injector.thy ===== *)
theory Ng_Injector
  imports Js "HOL-Library.AList"
begin

text \<open>
  Modules and the injector. A module records what it requires, calls of providers that are made
  when it is loaded, and blocks that run at the end. Loading a list of modules loads what they
  require first. The injector makes a service when it is first asked for, out of the services
  its function names, and keeps it; a service that is being made is marked, so that a cycle
  is an error.

  Functions of the application are trees of what they do with the injector: they return, throw,
  ask for a service, or invoke a function; they do not catch the injector's errors. What a constructor
  makes is its result, and a provider given as a function is what it makes. The names that a
  function asks for are given with it. Names of modules are not names that objects inherit, and
  no constant has the name of a provider.
\<close>

section \<open>Modules\<close>

datatype module_ref = Named string | ModuleFn nat

record 'a queued =
  q_provider :: string
  q_method :: string
  q_args :: 'a

record ('a, 'r) module_def =
  m_requires :: "module_ref list"
  m_invokeQueue :: "'a queued list"
  m_runBlocks :: "'r list"

type_synonym ('a, 'r) modules = "(string \<times> ('a, 'r) module_def) list"

datatype module_method = MProvider | MFactory | MService | MValue | MConstant | MAnimation | MFilter
  | MController | MDirective | MConfig

text \<open>The table of \<open>invokeLater\<close>: provider, method, and whether the call is put in front.\<close>

definition invoke_table :: "module_method \<Rightarrow> string \<times> string \<times> bool" where
  "invoke_table k = (case k of
     MProvider \<Rightarrow> (''$provide'', ''provider'', False)
   | MFactory \<Rightarrow> (''$provide'', ''factory'', False)
   | MService \<Rightarrow> (''$provide'', ''service'', False)
   | MValue \<Rightarrow> (''$provide'', ''value'', False)
   | MConstant \<Rightarrow> (''$provide'', ''constant'', True)
   | MAnimation \<Rightarrow> (''$animateProvider'', ''register'', False)
   | MFilter \<Rightarrow> (''$filterProvider'', ''register'', False)
   | MController \<Rightarrow> (''$controllerProvider'', ''register'', False)
   | MDirective \<Rightarrow> (''$compileProvider'', ''directive'', False)
   | MConfig \<Rightarrow> (''$injector'', ''invoke'', False))"

definition invokeLater :: "module_method \<Rightarrow> 'a \<Rightarrow> ('a, 'r) module_def \<Rightarrow> ('a, 'r) module_def" where
  "invokeLater k args m =
     (let (p, f, front) = invoke_table k; c = \<lparr>q_provider = p, q_method = f, q_args = args\<rparr> in
      m\<lparr>m_invokeQueue := (if front then c # m_invokeQueue m else m_invokeQueue m @ [c])\<rparr>)"

definition module_run :: "'r \<Rightarrow> ('a, 'r) module_def \<Rightarrow> ('a, 'r) module_def" where
  "module_run b m = m\<lparr>m_runBlocks := m_runBlocks m @ [b]\<rparr>"

datatype 'e load_error = BadModuleName | NoModule string | ModuleThrew 'e | ModulErr module_ref "'e load_error" | LoadFuel

text \<open>\<open>angular.module\<close>: with a list of requirements a new module replaces an old one of its name.\<close>

definition ng_module :: "string \<Rightarrow> module_ref list option \<Rightarrow> 'a option \<Rightarrow> ('a, 'r) modules \<Rightarrow>
    'e load_error + ('a, 'r) module_def \<times> ('a, 'r) modules" where
  "ng_module name requires configFn ms =
     (if name = ''hasOwnProperty'' then Inl BadModuleName
      else
        let ms1 = (if requires \<noteq> None then AList.delete name ms else ms) in
        case map_of ms1 name of
          Some m \<Rightarrow> Inr (m, ms1)
        | None \<Rightarrow> (case requires of
            None \<Rightarrow> Inl (NoModule name)
          | Some rs \<Rightarrow>
              (let m0 = \<lparr>m_requires = rs, m_invokeQueue = [], m_runBlocks = []\<rparr>;
                   m = (case configFn of Some f \<Rightarrow> invokeLater MConfig f m0 | None \<Rightarrow> m0)
               in Inr (m, AList.update name m ms1))))"

section \<open>Loading\<close>

text \<open>\<open>l_call\<close> makes a queued call of a provider and \<open>l_fn\<close> invokes a function that is a module,
  whose result is a run block; both work on the state of the injector.\<close>

record ('a, 'r, 's, 'e) load_env =
  l_modules :: "('a, 'r) modules"
  l_call :: "'a queued \<Rightarrow> 's \<Rightarrow> 'e + 's"
  l_fn :: "nat \<Rightarrow> 's \<Rightarrow> 'e + 'r \<times> 's"

fun run_queue :: "('a queued \<Rightarrow> 's \<Rightarrow> 'e + 's) \<Rightarrow> 'a queued list \<Rightarrow> 's \<Rightarrow> 'e + 's" where
  "run_queue call [] st = Inr st"
| "run_queue call (c # cs) st = (case call c st of Inl e \<Rightarrow> Inl e | Inr st1 \<Rightarrow> run_queue call cs st1)"

text \<open>The first argument bounds the nesting of requirements; the loaded modules are the third.\<close>

function loadModules :: "nat \<Rightarrow> ('a, 'r, 's, 'e) load_env \<Rightarrow> module_ref list \<Rightarrow> module_ref list \<Rightarrow> 's \<Rightarrow>
    'e load_error + 'r list \<times> module_ref list \<times> 's" where
  "loadModules d env [] ld st = Inr ([], ld, st)"
| "loadModules d env (m # ms) ld st =
     (if m \<in> set ld then loadModules d env ms ld st
      else
        case (case m of
            Named name \<Rightarrow>
              (case map_of (l_modules env) name of
                 None \<Rightarrow> Inl (NoModule name)
               | Some md \<Rightarrow>
                   (case d of
                      0 \<Rightarrow> Inl LoadFuel
                    | Suc d' \<Rightarrow>
                        (case loadModules d' env (m_requires md) (m # ld) st of
                           Inl e \<Rightarrow> Inl e
                         | Inr (rbs, ld1, st1) \<Rightarrow>
                             (case run_queue (l_call env) (m_invokeQueue md) st1 of
                                Inl e \<Rightarrow> Inl (ModuleThrew e)
                              | Inr st2 \<Rightarrow> Inr (rbs @ m_runBlocks md, ld1, st2)))))
          | ModuleFn i \<Rightarrow>
              (case l_fn env i st of
                 Inl e \<Rightarrow> Inl (ModuleThrew e)
               | Inr (rb, st1) \<Rightarrow> Inr ([rb], m # ld, st1))) of
          Inl e \<Rightarrow> Inl (ModulErr m e)
        | Inr (rbs, ld1, st1) \<Rightarrow>
            (case loadModules d env ms ld1 st1 of
               Inl e \<Rightarrow> Inl e
             | Inr (rbs', ld2, st2) \<Rightarrow> Inr (rbs @ rbs', ld2, st2)))"
  by pat_completeness auto
termination
  by (relation "measures [\<lambda>(d, env, ms, ld, st). d, \<lambda>(d, env, ms, ld, st). length ms]") auto

definition load_all :: "('a, 'r, 's, 'e) load_env \<Rightarrow> module_ref list \<Rightarrow> 's \<Rightarrow> 'e load_error + 'r list \<times> module_ref list \<times> 's" where
  "load_all env ms st = loadModules (length (l_modules env)) env ms [] st"

section \<open>Services\<close>

datatype inj_token = Token string | NotToken

datatype inject_error =
    Unpr "string list" | Cdep "string list" | Itkn | Pget string | BadServiceName | Threw nat | InjectFuel

text \<open>What a function does with the injector; \<open>Invoke\<close> carries the tokens, the function and the locals.\<close>

datatype 'v body =
    Return 'v
  | Raise nat
  | GetService string "'v \<Rightarrow> 'v body"
  | Invoke "inj_token list" "'v list \<Rightarrow> 'v body" "(string \<times> 'v) list" "'v \<Rightarrow> 'v body"

record 'v func =
  f_inject :: "inj_token list"
  f_body :: "'v list \<Rightarrow> 'v body"

datatype 'v entry = Instantiating | Instance 'v

text \<open>\<open>path\<close> holds the services that are being made, the innermost first.\<close>

record 'v injector =
  i_cache :: "(string \<times> 'v entry) list"
  i_path :: "string list"

type_synonym 'v inj_outcome = "(inject_error + 'v) \<times> 'v injector"
type_synonym 'v getter = "string \<Rightarrow> 'v injector \<Rightarrow> 'v inj_outcome"

fun inject_args :: "'v getter \<Rightarrow> (string \<times> 'v) list \<Rightarrow> inj_token list \<Rightarrow> 'v injector \<Rightarrow> (inject_error + 'v list) \<times> 'v injector" where
  "inject_args get locals [] s = (Inr [], s)"
| "inject_args get locals (NotToken # ts) s = (Inl Itkn, s)"
| "inject_args get locals (Token key # ts) s =
     (case (case map_of locals key of Some v \<Rightarrow> (Inr v, s) | None \<Rightarrow> get key s) of
        (Inl e, s1) \<Rightarrow> (Inl e, s1)
      | (Inr v, s1) \<Rightarrow> (case inject_args get locals ts s1 of
            (Inl e, s2) \<Rightarrow> (Inl e, s2)
          | (Inr vs, s2) \<Rightarrow> (Inr (v # vs), s2)))"

primrec run_body :: "'v getter \<Rightarrow> 'v body \<Rightarrow> 'v injector \<Rightarrow> 'v inj_outcome" where
  "run_body get (Return v) = (\<lambda>s. (Inr v, s))"
| "run_body get (Raise e) = (\<lambda>s. (Inl (Threw e), s))"
| "run_body get (GetService key c) = (\<lambda>s. case get key s of
     (Inl e, s1) \<Rightarrow> (Inl e, s1) | (Inr v, s1) \<Rightarrow> run_body get (c v) s1)"
| "run_body get (Invoke ts f locals c) = (\<lambda>s. case inject_args get locals ts s of
     (Inl e, s1) \<Rightarrow> (Inl e, s1)
   | (Inr vs, s1) \<Rightarrow> (case run_body get (f vs) s1 of
       (Inl e, s2) \<Rightarrow> (Inl e, s2) | (Inr v, s2) \<Rightarrow> run_body get (c v) s2))"

definition invoke :: "'v getter \<Rightarrow> 'v func \<Rightarrow> (string \<times> 'v) list \<Rightarrow> 'v injector \<Rightarrow> 'v inj_outcome" where
  "invoke get f locals = run_body get (Invoke (f_inject f) (f_body f) locals Return)"

text \<open>The providers with the functions \<open>$get\<close>, by the names of their services. The error names what was
  being made when a provider was not found.\<close>

type_synonym 'v providers = "(string \<times> 'v func) list"

definition make_service :: "'v providers \<Rightarrow> 'v getter \<Rightarrow> string \<Rightarrow> 'v injector \<Rightarrow> 'v inj_outcome" where
  "make_service ps get name s = (case map_of ps name of
     None \<Rightarrow> (Inl (Unpr ((name @ ''Provider'') # i_path s)), s)
   | Some f \<Rightarrow> invoke get f [] s)"

text \<open>The end of \<open>getService\<close>: the instance is kept, or the mark of a failed one is taken away; the path
  loses the name in both cases.\<close>

definition finish :: "string \<Rightarrow> 'v inj_outcome \<Rightarrow> 'v inj_outcome" where
  "finish name r = (case r of
     (Inr v, s) \<Rightarrow> (Inr v, s\<lparr>i_cache := AList.update name (Instance v) (i_cache s), i_path := tl (i_path s)\<rparr>)
   | (Inl e, s) \<Rightarrow> (Inl e, s\<lparr>i_cache := (if map_of (i_cache s) name = Some Instantiating
         then AList.delete name (i_cache s) else i_cache s), i_path := tl (i_path s)\<rparr>))"

primrec getService :: "nat \<Rightarrow> 'v providers \<Rightarrow> 'v getter" where
  "getService 0 ps name s = (case map_of (i_cache s) name of
     Some Instantiating \<Rightarrow> (Inl (Cdep (name # i_path s)), s)
   | Some (Instance v) \<Rightarrow> (Inr v, s)
   | None \<Rightarrow> (Inl InjectFuel, s))"
| "getService (Suc d) ps name s = (case map_of (i_cache s) name of
     Some Instantiating \<Rightarrow> (Inl (Cdep (name # i_path s)), s)
   | Some (Instance v) \<Rightarrow> (Inr v, s)
   | None \<Rightarrow> finish name (make_service ps (getService d ps) name
       (s\<lparr>i_cache := AList.update name Instantiating (i_cache s), i_path := name # i_path s\<rparr>)))"

text \<open>Asking the injector from outside; a service in the making needs at most one level for each
  provider, and one for a name without one.\<close>

definition inj_get :: "'v providers \<Rightarrow> 'v getter" where
  "inj_get ps = getService (Suc (length ps)) ps"

section \<open>Providing\<close>

record 'v config =
  c_providers :: "'v providers"
  c_instances :: "(string \<times> 'v entry) list"

datatype 'v recipe =
    RProvider "'v func option" | RFactory "'v func" | RService "'v func" | RValue 'v | RConstant 'v | RDecorator "'v func"

text \<open>The function of a service instantiates its constructor; that of a decorated service makes the
  old one and hands it to the decorator.\<close>

definition service_fn :: "'v func \<Rightarrow> 'v func" where
  "service_fn ctor = \<lparr>f_inject = [Token ''$injector''], f_body = (\<lambda>_. Invoke (f_inject ctor) (f_body ctor) [] Return)\<rparr>"

definition value_fn :: "'v \<Rightarrow> 'v func" where
  "value_fn v = \<lparr>f_inject = [], f_body = (\<lambda>_. Return v)\<rparr>"

definition decorated :: "'v func \<Rightarrow> 'v func \<Rightarrow> 'v func" where
  "decorated orig decor = \<lparr>f_inject = [], f_body = (\<lambda>_. Invoke (f_inject orig) (f_body orig) []
     (\<lambda>v. Invoke (f_inject decor) (f_body decor) [(''$delegate'', v)] Return))\<rparr>"

definition provider :: "string \<Rightarrow> 'v func option \<Rightarrow> 'v config \<Rightarrow> inject_error + 'v config" where
  "provider name get c = (if name = ''hasOwnProperty'' then Inl BadServiceName
     else case get of None \<Rightarrow> Inl (Pget name)
     | Some f \<Rightarrow> Inr (c\<lparr>c_providers := AList.update name f (c_providers c)\<rparr>))"

definition provide :: "string \<Rightarrow> 'v recipe \<Rightarrow> 'v config \<Rightarrow> inject_error + 'v config" where
  "provide name r c = (case r of
     RProvider get \<Rightarrow> provider name get c
   | RFactory f \<Rightarrow> provider name (Some f) c
   | RService ctor \<Rightarrow> provider name (Some (service_fn ctor)) c
   | RValue v \<Rightarrow> provider name (Some (value_fn v)) c
   | RConstant v \<Rightarrow> if name = ''hasOwnProperty'' then Inl BadServiceName
       else Inr (c\<lparr>c_instances := AList.update name (Instance v) (c_instances c)\<rparr>)
   | RDecorator decor \<Rightarrow> (case map_of (c_providers c) name of
       None \<Rightarrow> Inl (Unpr [name @ ''Provider''])
     | Some orig \<Rightarrow> Inr (c\<lparr>c_providers := AList.update name (decorated orig decor) (c_providers c)\<rparr>)))"

text \<open>\<open>createInjector\<close> starts with itself as an instance; the modules provide the rest.\<close>

definition new_config :: "'v \<Rightarrow> 'v config" where
  "new_config self = \<lparr>c_providers = [], c_instances = [(''$injector'', Instance self)]\<rparr>"

fun provide_all :: "(string \<times> 'v recipe) list \<Rightarrow> 'v config \<Rightarrow> inject_error + 'v config" where
  "provide_all [] c = Inr c"
| "provide_all ((name, r) # rs) c = (case provide name r c of Inl e \<Rightarrow> Inl e | Inr c1 \<Rightarrow> provide_all rs c1)"

definition instance_injector :: "'v config \<Rightarrow> 'v injector" where
  "instance_injector c = \<lparr>i_cache = c_instances c, i_path = []\<rparr>"

text \<open>What an application does with the injector: it asks for services and invokes functions.\<close>

datatype 'v inj_op = Ask string | Call "'v func" "(string \<times> 'v) list"

primrec inj_call :: "'v providers \<Rightarrow> 'v inj_op \<Rightarrow> 'v injector \<Rightarrow> 'v inj_outcome" where
  "inj_call ps (Ask name) = inj_get ps name"
| "inj_call ps (Call f locals) = invoke (inj_get ps) f locals"

fun inj_run :: "'v providers \<Rightarrow> 'v inj_op list \<Rightarrow> 'v injector \<Rightarrow> (inject_error + 'v) list \<times> 'v injector" where
  "inj_run ps [] s = ([], s)"
| "inj_run ps (c # cs) s = (let (r, s1) = inj_call ps c s; (rs, s2) = inj_run ps cs s1 in (r # rs, s2))"

text \<open>\<open>has\<close> of the injector of instances.\<close>

definition inj_has :: "'v providers \<Rightarrow> string \<Rightarrow> 'v injector \<Rightarrow> bool" where
  "inj_has ps name s \<longleftrightarrow> map_of ps name \<noteq> None \<or> map_of (i_cache s) name \<noteq> None"

end
