(* ===== verification/Ng_Injector_Props.thy ===== *)
theory Ng_Injector_Props
  imports Ng_Injector
begin

text \<open>
  The order in which modules are loaded, and what the injector keeps: marks that are exactly the
  services in the making, instances that are never replaced, and enough levels for every service.
\<close>

section \<open>What a getter keeps\<close>

definition marked :: "'v injector \<Rightarrow> string set" where
  "marked s = {n. map_of (i_cache s) n = Some Instantiating}"

definition inj_ok :: "'v injector \<Rightarrow> bool" where
  "inj_ok s \<longleftrightarrow> distinct (map fst (i_cache s)) \<and> distinct (i_path s) \<and> marked s = set (i_path s)"

definition inj_keeps :: "'v injector \<Rightarrow> 'v injector \<Rightarrow> bool" where
  "inj_keeps s s' \<longleftrightarrow> i_path s' = i_path s \<and>
     (\<forall>n v. map_of (i_cache s) n = Some (Instance v) \<longrightarrow> map_of (i_cache s') n = Some (Instance v))"

lemma inj_keeps_refl [simp]: "inj_keeps s s" and inj_keeps_trans: "inj_keeps s s' \<Longrightarrow> inj_keeps s' s'' \<Longrightarrow> inj_keeps s s''"
  by (simp_all add: inj_keeps_def)

text \<open>A step from a good state leads to a good state that keeps what there is.\<close>

definition step_ok :: "'v injector \<Rightarrow> 'v injector \<Rightarrow> bool" where
  "step_ok s s' \<longleftrightarrow> inj_ok s \<longrightarrow> inj_ok s' \<and> inj_keeps s s'"

lemma step_ok_refl [simp]: "step_ok s s" and step_ok_trans: "step_ok s s' \<Longrightarrow> step_ok s' s'' \<Longrightarrow> step_ok s s''"
  by (auto simp: step_ok_def intro: inj_keeps_trans)

definition good_getter :: "'v getter \<Rightarrow> bool" where
  "good_getter get \<longleftrightarrow> (\<forall>n s. step_ok s (snd (get n s)))"

lemma good_getterD: "good_getter get \<Longrightarrow> get n s = (r, s') \<Longrightarrow> step_ok s s'"
  unfolding good_getter_def by (metis snd_conv)

lemma inject_args_ok: "good_getter get \<Longrightarrow> step_ok s (snd (inject_args get locals ts s))"
proof (induction get locals ts s rule: inject_args.induct)
  case (3 get locals key ts s)
  obtain r s1 where r: "(case map_of locals key of Some v \<Rightarrow> (Inr v, s) | None \<Rightarrow> get key s) = (r, s1)" by force
  have s1: "step_ok s s1" using good_getterD [OF 3(2)] r by (cases "map_of locals key") auto
  show ?case
  proof (cases r)
    case (Inr v)
    have IH: "step_ok s1 (snd (inject_args get locals ts s1))" by (rule 3(1) [OF r [symmetric] Inr 3(2)])
    obtain r2 s2 where "inject_args get locals ts s1 = (r2, s2)" by force
    with IH r s1 Inr show ?thesis by (cases r2) (auto intro: step_ok_trans)
  qed (use r s1 in simp)
qed simp_all

lemma run_body_ok: "good_getter get \<Longrightarrow> step_ok s (snd (run_body get b s))"
proof (induction b arbitrary: s)
  case (GetService key c)
  obtain r s1 where r: "get key s = (r, s1)" by force
  have "step_ok s s1" by (rule good_getterD [OF GetService.prems r])
  then show ?case using GetService.IH [of "c v" s1 for v] GetService.prems r by (cases r) (auto intro: step_ok_trans)
next
  case (Invoke ts f locals c)
  have a: "step_ok s (snd (inject_args get locals ts s))" by (rule inject_args_ok [OF Invoke.prems])
  obtain r s1 where r: "inject_args get locals ts s = (r, s1)" by force
  show ?case
  proof (cases r)
    case (Inr vs)
    obtain r2 s2 where r2: "run_body get (f vs) s1 = (r2, s2)" by force
    have b: "step_ok s s2" using Invoke.IH(1) [of "f vs" s1] Invoke.prems a r r2 by (auto intro: step_ok_trans)
    then show ?thesis
      using Invoke.IH(2) [of "c v" s2 for v] Invoke.prems r r2 Inr by (cases r2) (auto intro: step_ok_trans)
  qed (use a r in simp)
qed simp_all

lemma marked_update: "marked (s\<lparr>i_cache := AList.update n Instantiating (i_cache s), i_path := p\<rparr>) = insert n (marked s)"
  "marked (s\<lparr>i_cache := AList.update n (Instance v) (i_cache s), i_path := p\<rparr>) = marked s - {n}"
  "marked (s\<lparr>i_cache := AList.delete n (i_cache s), i_path := p\<rparr>) = marked s - {n}"
  by (simp_all add: marked_def update_conv' delete_conv') auto

lemma finish_ok:
  assumes s: "inj_ok s" "map_of (i_cache s) n = None"
    and s1: "s1 = s\<lparr>i_cache := AList.update n Instantiating (i_cache s), i_path := n # i_path s\<rparr>"
    and m: "step_ok s1 s2" and f: "finish n (r, s2) = (r', s')"
  shows "inj_ok s' \<and> inj_keeps s s' \<and> r' = r \<and> (\<forall>v. r = Inr v \<longrightarrow> map_of (i_cache s') n = Some (Instance v))"
proof -
  have "n \<notin> marked s" using s(2) by (simp add: marked_def)
  then have n: "n \<notin> set (i_path s)" using s(1) by (simp add: inj_ok_def)
  then have "inj_ok s1" using s marked_update(1) [where s = s and n = n and p = "n # i_path s"] by (simp add: s1 inj_ok_def distinct_update)
  then have s2: "inj_ok s2" "inj_keeps s1 s2" using m by (auto simp: step_ok_def)
  then have path: "i_path s2 = n # i_path s" by (simp add: inj_keeps_def s1)
  then have mark: "map_of (i_cache s2) n = Some Instantiating" using s2(1) by (auto simp: inj_ok_def marked_def)
  have old: "map_of (i_cache s2) k = Some (Instance v)" if "map_of (i_cache s) k = Some (Instance v)" for k v
  proof -
    have "k \<noteq> n" using that s(2) by auto
    then show ?thesis using s2(2) that by (simp add: inj_keeps_def s1 update_conv')
  qed
  show ?thesis
  proof (cases r)
    case (Inl e)
    then have "r' = Inl e" "s' = s2\<lparr>i_cache := AList.delete n (i_cache s2), i_path := i_path s\<rparr>"
      using f path mark by (auto simp: finish_def)
    then show ?thesis using Inl s2(1) path n old s(2) marked_update(3) [where s = s2 and n = n and p = "i_path s"]
      by (auto simp: inj_ok_def inj_keeps_def distinct_delete delete_conv')
  next
    case (Inr v)
    then have "r' = Inr v" "s' = s2\<lparr>i_cache := AList.update n (Instance v) (i_cache s2), i_path := i_path s\<rparr>"
      using f path by (auto simp: finish_def)
    then show ?thesis using Inr s2(1) path n old s(2) marked_update(2) [where s = s2 and n = n and v = v and p = "i_path s"]
      by (auto simp: inj_ok_def inj_keeps_def distinct_update update_conv')
  qed
qed

lemma make_ok: "good_getter get \<Longrightarrow> step_ok s (snd (make_service ps get n s))"
  using run_body_ok by (auto simp: make_service_def invoke_def split: option.split simp del: run_body.simps)

lemma getService_ok: "good_getter (getService d ps)"
proof (induction d)
  case 0
  then show ?case by (simp add: good_getter_def split: option.split entry.split)
next
  case (Suc d)
  have "step_ok s (snd (getService (Suc d) ps n s))" for n s
  proof (cases "map_of (i_cache s) n")
    case None
    define s1 where "s1 = s\<lparr>i_cache := AList.update n Instantiating (i_cache s), i_path := n # i_path s\<rparr>"
    obtain r s2 where m: "make_service ps (getService d ps) n s1 = (r, s2)" by force
    have "step_ok s1 s2" using make_ok [OF Suc, of s1 ps n] m by simp
    moreover obtain r' s' where f: "finish n (r, s2) = (r', s')" by force
    ultimately show ?thesis using finish_ok [OF _ None s1_def _ f] m None by (auto simp: step_ok_def s1_def f)
  qed (simp split: entry.split)
  then show ?case by (simp add: good_getter_def)
qed

lemma getService_instance:
  assumes "inj_ok s" "getService d ps n s = (Inr v, s')"
  shows "map_of (i_cache s') n = Some (Instance v)"
proof (cases "map_of (i_cache s) n")
  case None
  then obtain d' where d: "d = Suc d'" using assms(2) by (cases d) auto
  define s1 where "s1 = s\<lparr>i_cache := AList.update n Instantiating (i_cache s), i_path := n # i_path s\<rparr>"
  obtain r s2 where m: "make_service ps (getService d' ps) n s1 = (r, s2)" by force
  have "step_ok s1 s2" using make_ok [OF getService_ok [of d' ps], of s1 ps n] m by simp
  moreover have "finish n (r, s2) = (Inr v, s')" using assms(2) None m d by (simp add: s1_def)
  ultimately show ?thesis using finish_ok [OF assms(1) None s1_def] by blast
next
  case (Some e)
  then show ?thesis using assms(2) by (cases d; cases e) auto
qed

section \<open>Errors and levels\<close>

text \<open>The services that are neither made nor in the making.\<close>

definition unmade :: "'v providers \<Rightarrow> 'v injector \<Rightarrow> string set" where
  "unmade ps s = {n \<in> fst ` set ps. map_of (i_cache s) n = None}"

lemma finite_unmade [simp]: "finite (unmade ps s)"
  by (simp add: unmade_def)

lemma unmade_keeps:
  assumes "inj_ok s" "inj_ok s'" "inj_keeps s s'"
  shows "unmade ps s' \<subseteq> unmade ps s"
proof
  fix n assume n: "n \<in> unmade ps s'"
  have "map_of (i_cache s) n = None"
  proof (cases "map_of (i_cache s) n")
    case (Some e)
    have "n \<in> marked s" if "e = Instantiating" using that Some by (simp add: marked_def)
    then have "n \<in> marked s'" if "e = Instantiating" using assms that by (simp add: inj_ok_def inj_keeps_def)
    with Some n assms(3) show ?thesis by (cases e) (auto simp: unmade_def inj_keeps_def marked_def)
  qed simp
  with n show "n \<in> unmade ps s" by (simp add: unmade_def)
qed

text \<open>An error of a body comes from a token that is not a string, from the body, or from a service.\<close>

definition errors_ok :: "'v getter \<Rightarrow> ('v injector \<Rightarrow> bool) \<Rightarrow> (inject_error \<Rightarrow> bool) \<Rightarrow> bool" where
  "errors_ok get P Q \<longleftrightarrow> good_getter get \<and> (\<forall>n s e s'. inj_ok s \<longrightarrow> P s \<longrightarrow> get n s = (Inl e, s') \<longrightarrow> Q e) \<and>
     (\<forall>s s'. inj_ok s \<longrightarrow> P s \<longrightarrow> inj_ok s' \<longrightarrow> inj_keeps s s' \<longrightarrow> P s') \<and> Q Itkn \<and> (\<forall>k. Q (Threw k))"

lemma errors_okD:
  assumes "errors_ok get P Q"
  shows "good_getter get" "inj_ok s \<Longrightarrow> P s \<Longrightarrow> get n s = (Inl e, s') \<Longrightarrow> Q e" "Q Itkn" "Q (Threw k)"
    and "step_ok s s' \<Longrightarrow> inj_ok s \<Longrightarrow> P s \<Longrightarrow> inj_ok s' \<and> P s'"
  using assms unfolding errors_ok_def step_ok_def by blast+

lemma inject_args_error:
  assumes get: "errors_ok get P Q"
  shows "inj_ok s \<Longrightarrow> P s \<Longrightarrow> inject_args get locals ts s = (Inl e, s') \<Longrightarrow> Q e"
proof (induction ts arbitrary: s s')
  case (Cons t ts)
  show ?case
  proof (cases t)
    case (Token key)
    obtain r s1 where r: "(case map_of locals key of Some v \<Rightarrow> (Inr v, s) | None \<Rightarrow> get key s) = (r, s1)" by force
    have "step_ok s s1" using good_getterD [OF errors_okD(1) [OF get]] r by (cases "map_of locals key") auto
    then have s1: "inj_ok s1" "P s1" using errors_okD(5) [OF get _ Cons.prems(1,2)] by simp_all
    show ?thesis
    proof (cases r)
      case (Inl e')
      then have "get key s = (Inl e', s1)" using r by (cases "map_of locals key") auto
      then have "Q e'" by (rule errors_okD(2) [OF get Cons.prems(1,2)])
      moreover have "e = e'" using Cons.prems(3) r Inl Token by simp
      ultimately show ?thesis by simp
    next
      case (Inr v)
      then have "inject_args get locals ts s1 = (Inl e, s')"
        using Cons.prems(3) r Token by (auto split: prod.splits sum.splits)
      with Cons.IH s1 show ?thesis by blast
    qed
  qed (use Cons.prems(3) errors_okD(3) [OF get] in simp)
qed simp

lemma run_body_error:
  assumes get: "errors_ok get P Q"
  shows "inj_ok s \<Longrightarrow> P s \<Longrightarrow> run_body get b s = (Inl e, s') \<Longrightarrow> Q e"
proof (induction b arbitrary: s e s')
  case (GetService key c)
  obtain r s1 where r: "get key s = (r, s1)" by force
  have "step_ok s s1" by (rule good_getterD [OF errors_okD(1) [OF get] r])
  then have s1: "inj_ok s1" "P s1" using errors_okD(5) [OF get _ GetService.prems(1,2)] by simp_all
  show ?case
  proof (cases r)
    case (Inl e')
    then show ?thesis using errors_okD(2) [OF get GetService.prems(1,2)] r GetService.prems(3) by simp
  next
    case (Inr v)
    then have "run_body get (c v) s1 = (Inl e, s')" using r GetService.prems(3) by simp
    then show ?thesis by (rule GetService.IH [OF rangeI s1])
  qed
next
  case (Invoke ts f locals c)
  obtain r s1 where r: "inject_args get locals ts s = (r, s1)" by force
  have "step_ok s s1" using inject_args_ok [OF errors_okD(1) [OF get], of s locals ts] r by simp
  then have s1: "inj_ok s1" "P s1" using errors_okD(5) [OF get _ Invoke.prems(1,2)] by simp_all
  show ?case
  proof (cases r)
    case (Inl e')
    then have "Q e'" using inject_args_error [OF get Invoke.prems(1,2)] r by blast
    then show ?thesis using Inl r Invoke.prems(3) by simp
  next
    case (Inr vs)
    obtain r2 s2 where r2: "run_body get (f vs) s1 = (r2, s2)" by force
    have "step_ok s1 s2" using run_body_ok [OF errors_okD(1) [OF get], of s1 "f vs"] r2 by simp
    then have s2: "inj_ok s2" "P s2" using errors_okD(5) [OF get _ s1] by simp_all
    show ?thesis
    proof (cases r2)
      case (Inl e')
      then have "run_body get (f vs) s1 = (Inl e, s2)" using r r2 Inr Invoke.prems(3) \<open>r = Inr vs\<close> by simp
      then show ?thesis by (rule Invoke.IH(1) [OF rangeI s1])
    next
      case (Inr v)
      then have "run_body get (c v) s2 = (Inl e, s')" using r r2 \<open>r = Inr vs\<close> Invoke.prems(3) by simp
      then show ?thesis by (rule Invoke.IH(2) [OF rangeI s2])
    qed
  qed
qed (use errors_okD(4) [OF get] in auto)

text \<open>A cycle that is reported is one, a service that is reported as unknown has no provider, and the levels
  suffice.\<close>

definition proper_error :: "'v providers \<Rightarrow> inject_error \<Rightarrow> bool" where
  "proper_error ps e = (case e of
     Cdep p \<Rightarrow> p \<noteq> [] \<and> hd p \<in> set (tl p)
   | Unpr p \<Rightarrow> (\<exists>n. p \<noteq> [] \<and> hd p = n @ ''Provider'' \<and> map_of ps n = None)
   | InjectFuel \<Rightarrow> False
   | _ \<Rightarrow> True)"

lemma cdep_proper: "inj_ok s \<Longrightarrow> map_of (i_cache s) n = Some Instantiating \<Longrightarrow> proper_error ps (Cdep (n # i_path s))"
proof -
  assume "inj_ok s" "map_of (i_cache s) n = Some Instantiating"
  then have "n \<in> set (i_path s)" by (simp add: inj_ok_def set_eq_iff marked_def)
  then show ?thesis by (simp add: proper_error_def)
qed

lemma unmade_mark:
  assumes "map_of (i_cache s) n = None" "n \<in> fst ` set ps"
  shows "card (unmade ps (s\<lparr>i_cache := AList.update n Instantiating (i_cache s), i_path := p\<rparr>)) < card (unmade ps s)"
proof (rule psubset_card_mono)
  show "unmade ps (s\<lparr>i_cache := AList.update n Instantiating (i_cache s), i_path := p\<rparr>) \<subset> unmade ps s"
    using assms by (auto simp: unmade_def update_conv' split: if_splits)
qed simp

lemma inj_ok_mark:
  assumes "inj_ok s" "map_of (i_cache s) n = None"
  shows "inj_ok (s\<lparr>i_cache := AList.update n Instantiating (i_cache s), i_path := n # i_path s\<rparr>)"
proof -
  have "n \<notin> marked s" using assms(2) by (simp add: marked_def)
  then show ?thesis
    using assms marked_update(1) [where s = s and n = n and p = "n # i_path s"] by (simp add: inj_ok_def distinct_update)
qed

lemma getService_error:
  "inj_ok s \<Longrightarrow> card (unmade ps s) < d \<Longrightarrow> getService d ps n s = (Inl e, s') \<Longrightarrow> proper_error ps e"
proof (induction d arbitrary: n s e s')
  case (Suc d)
  show ?case
  proof (cases "map_of (i_cache s) n")
    case None
    define s1 where "s1 = s\<lparr>i_cache := AList.update n Instantiating (i_cache s), i_path := n # i_path s\<rparr>"
    obtain r s2 where m: "make_service ps (getService d ps) n s1 = (r, s2)" by force
    have ok: "inj_ok s1" unfolding s1_def by (rule inj_ok_mark [OF Suc.prems(1) None])
    have st: "step_ok s1 s2" using make_ok [OF getService_ok [of d ps], of s1 ps n] m by simp
    have f: "finish n (r, s2) = (Inl e, s')" using Suc.prems(3) None m by (simp add: s1_def)
    have r: "r = Inl e" using finish_ok [OF Suc.prems(1) None s1_def st f] by simp
    show ?thesis
    proof (cases "map_of ps n")
      case None
      then show ?thesis using m r by (auto simp: make_service_def proper_error_def)
    next
      case (Some f)
      then have "n \<in> fst ` set ps" by (metis domI dom_map_of_conv_image_fst)
      then have "card (unmade ps s1) < card (unmade ps s)" unfolding s1_def by (rule unmade_mark [OF None])
      then have "card (unmade ps s1) < d" using Suc.prems(2) by simp
      moreover have "card (unmade ps t') < d" if "inj_ok t" "card (unmade ps t) < d" "inj_ok t'" "inj_keeps t t'" for t t'
        using that(2) card_mono [OF finite_unmade unmade_keeps [OF that(1,3,4), of ps]] by simp
      then have "errors_ok (getService d ps) (\<lambda>t. card (unmade ps t) < d) (proper_error ps)"
        using Suc.IH getService_ok [of d ps] unfolding errors_ok_def by (simp add: proper_error_def [of _ Itkn] proper_error_def [of _ "Threw _"])
      moreover have "run_body (getService d ps) (Invoke (f_inject f) (f_body f) [] Return) s1 = (Inl e, s2)"
        using m r Some by (simp add: make_service_def invoke_def)
      ultimately show ?thesis using run_body_error ok by blast
    qed
  next
    case (Some en)
    then show ?thesis using Suc.prems cdep_proper by (cases en) auto
  qed
qed simp

section \<open>Histories of an injector\<close>

lemma provide_distinct:
  assumes "provide n r c = Inr c'" "distinct (map fst (c_instances c))" "\<forall>m. map_of (c_instances c) m \<noteq> Some Instantiating"
  shows "distinct (map fst (c_instances c')) \<and> (\<forall>m. map_of (c_instances c') m \<noteq> Some Instantiating)"
  using assms by (auto simp: provide_def provider_def distinct_update update_conv' split: recipe.splits option.splits if_splits)

lemma provide_all_distinct:
  "provide_all rs c = Inr c' \<Longrightarrow> distinct (map fst (c_instances c)) \<Longrightarrow> \<forall>m. map_of (c_instances c) m \<noteq> Some Instantiating \<Longrightarrow>
    distinct (map fst (c_instances c')) \<and> (\<forall>m. map_of (c_instances c') m \<noteq> Some Instantiating)"
proof (induction rs c rule: provide_all.induct)
  case (2 name r rs c)
  then obtain c1 where c1: "provide name r c = Inr c1" "provide_all rs c1 = Inr c'" by (auto split: sum.splits)
  show ?case using 2(1) [OF c1] provide_distinct [OF c1(1) 2(3,4)] by blast
qed simp

lemma clean_start:
  assumes "provide_all rs (new_config self) = Inr c"
  shows "inj_ok (instance_injector c)"
proof -
  have "distinct (map fst (c_instances c)) \<and> (\<forall>m. map_of (c_instances c) m \<noteq> Some Instantiating)"
    by (rule provide_all_distinct [OF assms]) (simp_all add: new_config_def)
  then show ?thesis by (simp only: inj_ok_def instance_injector_def marked_def injector.simps list.set distinct.simps simp_thms) blast
qed

lemma inj_get_ok: "good_getter (inj_get ps)"
  unfolding inj_get_def by (rule getService_ok)

lemma inj_call_ok: "step_ok s (snd (inj_call ps c s))"
  using run_body_ok [OF inj_get_ok] inj_get_ok [of ps]
  by (cases c) (simp_all add: invoke_def good_getter_def del: run_body.simps)

lemma inj_run_ok: "step_ok s (snd (inj_run ps cs s))"
proof (induction cs arbitrary: s)
  case (Cons c cs)
  obtain r s1 where "inj_call ps c s = (r, s1)" by force
  with inj_call_ok [of s ps c] Cons [of s1] show ?case by (auto simp: split_beta intro: step_ok_trans)
qed simp

lemma unmade_levels: "card (unmade ps s) < Suc (length ps)"
proof -
  have "card (unmade ps s) \<le> card (fst ` set ps)" by (rule card_mono) (auto simp: unmade_def)
  also have "\<dots> \<le> length ps" by (metis card_length length_map set_map)
  finally show ?thesis by simp
qed

lemma inj_call_error:
  assumes "inj_ok s" "inj_call ps c s = (Inl e, s')"
  shows "proper_error ps e"
proof (cases c)
  case (Ask n)
  then show ?thesis using getService_error [OF assms(1) unmade_levels] assms(2) by (simp add: inj_get_def)
next
  case (Call f locals)
  have "errors_ok (inj_get ps) (\<lambda>t. True) (proper_error ps)"
    using inj_get_ok getService_error [OF _ unmade_levels] unfolding errors_ok_def inj_get_def
    by (auto simp: proper_error_def [of _ Itkn] proper_error_def [of _ "Threw _"])
  then show ?thesis using run_body_error [OF _ assms(1) TrueI] assms(2) Call by (simp add: invoke_def del: run_body.simps)
qed

lemma inj_run_errors: "inj_ok s \<Longrightarrow> Inl e \<in> set (fst (inj_run ps cs s)) \<Longrightarrow> proper_error ps e"
proof (induction cs arbitrary: s)
  case (Cons c cs)
  obtain r s1 where r: "inj_call ps c s = (r, s1)" by force
  then have "inj_ok s1" using inj_call_ok [of s ps c] Cons.prems(1) by (auto simp: step_ok_def)
  then show ?case using Cons r inj_call_error [OF Cons.prems(1), of ps c e s1] by (auto simp: split_beta)
qed simp

text \<open>The instances are a store whose entries keep their first value.\<close>

definition instance_is :: "'v injector \<Rightarrow> string \<Rightarrow> 'v \<Rightarrow> bool" where
  "instance_is s n v \<longleftrightarrow> inj_ok s \<and> map_of (i_cache s) n = Some (Instance v)"

interpretation services: write_once instance_is "\<lambda>c s. snd (inj_call ps c s)" for ps
proof
  show "instance_is (snd (inj_call ps c s)) n v" if "instance_is s n v" for s n v c
    using that inj_call_ok [of s ps c] by (simp add: instance_is_def step_ok_def inj_keeps_def)
qed (simp add: instance_is_def)

lemma inj_run_state: "snd (inj_run ps cs s) = fold (\<lambda>c s. snd (inj_call ps c s)) cs s"
  by (induction cs arbitrary: s) (simp_all add: split_beta)

lemma inj_get_instance: "map_of (i_cache s) n = Some (Instance v) \<Longrightarrow> inj_get ps n s = (Inr v, s)"
  by (simp add: inj_get_def)

lemma clean_run:
  assumes "provide_all rs (new_config self) = Inr c" "inj_run ps cs (instance_injector c) = (outs, s)"
  shows "inj_ok s" "inj_keeps (instance_injector c) s"
  using inj_run_ok [of "instance_injector c" ps cs] clean_start [OF assms(1)] assms(2) by (simp_all add: step_ok_def)

text \<open>C29: The injector keeps what it makes. Whatever the modules provide and the application does with the
  injector, no service stays in the making; every error is a token that is no string, something that
  a function threw, a service without a provider, or a chain of services in which the first one stands again; the
  depth that the model allows is enough. A service that is once asked for and returned is the same object ever
  after, when it is asked for and when it is injected, and the constants are what the modules gave.\<close>

theorem injector_keeps_services:
  assumes modules: "provide_all rs (new_config self) = Inr c"
    and history: "inj_run (c_providers c) cs (instance_injector c) = (outs, s)"
  shows "i_path s = [] \<and> (\<forall>n. map_of (i_cache s) n \<noteq> Some Instantiating) \<and>
    (\<forall>e. Inl e \<in> set outs \<longrightarrow> proper_error (c_providers c) e) \<and>
    (\<forall>n v. map_of (c_instances c) n = Some (Instance v) \<longrightarrow> inj_get (c_providers c) n s = (Inr v, s)) \<and>
    (\<forall>n v s1 cs' outs' s2. inj_get (c_providers c) n s = (Inr v, s1) \<longrightarrow> inj_run (c_providers c) cs' s1 = (outs', s2) \<longrightarrow>
      inj_get (c_providers c) n s2 = (Inr v, s2) \<and>
      inject_args (inj_get (c_providers c)) [] [Token n] s2 = (Inr [v], s2))"
proof -
  let ?ps = "c_providers c"
  note s = clean_run [OF modules history]
  have path: "i_path s = []" using s(2) by (simp add: inj_keeps_def instance_injector_def)
  then have "marked s = {}" using s(1) by (simp add: inj_ok_def)
  moreover have "proper_error ?ps e" if "Inl e \<in> set outs" for e
    using inj_run_errors [OF clean_start [OF modules], of e ?ps cs] history that by simp
  moreover have "inj_get ?ps n s = (Inr v, s)" if "map_of (c_instances c) n = Some (Instance v)" for n v
    using that s(2) by (auto intro: inj_get_instance simp: inj_keeps_def instance_injector_def)
  moreover have "inj_get ?ps n s2 = (Inr v, s2)" "inject_args (inj_get ?ps) [] [Token n] s2 = (Inr [v], s2)"
    if "inj_get ?ps n s = (Inr v, s1)" "inj_run ?ps cs' s1 = (outs', s2)" for n v s1 cs' outs' s2
  proof -
    have s1: "inj_ok s1" using good_getterD [OF inj_get_ok that(1)] s(1) by (simp add: step_ok_def)
    have "map_of (i_cache s1) n = Some (Instance v)" by (rule getService_instance [OF s(1) that(1) [unfolded inj_get_def]])
    then have "instance_is (snd (inj_run ?ps cs' s1)) n v"
      unfolding inj_run_state by (intro services.run_keeps) (simp add: instance_is_def s1)
    then have "map_of (i_cache s2) n = Some (Instance v)" using that(2) by (simp add: instance_is_def)
    then show get: "inj_get ?ps n s2 = (Inr v, s2)" by (rule inj_get_instance)
    then show "inject_args (inj_get ?ps) [] [Token n] s2 = (Inr [v], s2)" by simp
  qed
  ultimately show ?thesis using path unfolding marked_def by blast
qed

definition demo_recipes :: "(string \<times> int recipe) list" where
  "demo_recipes = [(''base'', RValue 10), (''max'', RConstant 7),
     (''api'', RFactory \<lparr>f_inject = [Token ''base'', Token ''max''], f_body = (\<lambda>vs. Return (sum_list vs))\<rparr>),
     (''room'', RFactory \<lparr>f_inject = [Token ''hub''], f_body = (\<lambda>vs. Return (hd vs))\<rparr>),
     (''hub'', RService \<lparr>f_inject = [Token ''room''], f_body = (\<lambda>vs. Return (hd vs))\<rparr>),
     (''api'', RDecorator \<lparr>f_inject = [Token ''$delegate''], f_body = (\<lambda>vs. Return (2 * hd vs))\<rparr>)]"

definition demo_config :: "int config" where
  "demo_config = (case provide_all demo_recipes (new_config 0) of Inr c \<Rightarrow> c | Inl _ \<Rightarrow> new_config 0)"

lemma demo_provided: "provide_all demo_recipes (new_config 0) = Inr demo_config"
  by (simp add: demo_config_def demo_recipes_def provide_def provider_def new_config_def)

lemma demo_providers:
  "c_providers demo_config = [(''base'', value_fn 10),
     (''api'', decorated \<lparr>f_inject = [Token ''base'', Token ''max''], f_body = (\<lambda>vs. Return (sum_list vs))\<rparr>
        \<lparr>f_inject = [Token ''$delegate''], f_body = (\<lambda>vs. Return (2 * hd vs))\<rparr>),
     (''room'', \<lparr>f_inject = [Token ''hub''], f_body = (\<lambda>vs. Return (hd vs))\<rparr>),
     (''hub'', service_fn \<lparr>f_inject = [Token ''room''], f_body = (\<lambda>vs. Return (hd vs))\<rparr>)]"
  "instance_injector demo_config = \<lparr>i_cache = [(''$injector'', Instance 0), (''max'', Instance 7)], i_path = []\<rparr>"
  by (simp_all add: demo_config_def demo_recipes_def provide_def provider_def new_config_def instance_injector_def)

lemma demo_calls:
  "fst (inj_run (c_providers demo_config) [Ask ''api'', Ask ''room'', Ask ''none''] (instance_injector demo_config)) =
    [Inr 34, Inl (Cdep [''room'', ''hub'', ''room'']), Inl (Unpr [''noneProvider'', ''none''])]"
  by (simp add: demo_providers inj_get_def make_service_def invoke_def finish_def value_fn_def decorated_def service_fn_def)

lemma injector_keeps_services_witness:
  "i_path (snd (inj_run (c_providers demo_config) [Ask ''api'', Ask ''room'', Ask ''none''] (instance_injector demo_config))) = [] \<and>
   proper_error (c_providers demo_config) (Cdep [''room'', ''hub'', ''room'']) \<and>
   proper_error (c_providers demo_config) (Unpr [''noneProvider'', ''none''])"
proof -
  let ?run = "inj_run (c_providers demo_config) [Ask ''api'', Ask ''room'', Ask ''none''] (instance_injector demo_config)"
  note k = injector_keeps_services [OF demo_provided prod.collapse [symmetric, of ?run]]
  then have e: "\<forall>e. Inl e \<in> set (fst ?run) \<longrightarrow> proper_error (c_providers demo_config) e" by (elim conjE)
  have "Inl (Cdep [''room'', ''hub'', ''room'']) \<in> set (fst ?run)" "Inl (Unpr [''noneProvider'', ''none'']) \<in> set (fst ?run)"
    unfolding demo_calls by simp_all
  with e have "proper_error (c_providers demo_config) (Cdep [''room'', ''hub'', ''room''])"
    "proper_error (c_providers demo_config) (Unpr [''noneProvider'', ''none''])" by (blast, blast)
  moreover have "i_path (snd ?run) = []" using k by (rule conjunct1)
  ultimately show ?thesis by (intro conjI)
qed

section \<open>Services whose requirements do not go round\<close>

text \<open>A plan of services: \<open>deps n\<close> are the services that the function of \<open>n\<close> names, \<open>val n\<close> what it makes of their
  values; every service of the plan is provided so, or is already there.\<close>

definition plan_ok :: "'v providers \<Rightarrow> string set \<Rightarrow> (string \<Rightarrow> string list) \<Rightarrow> (string \<Rightarrow> 'v) \<Rightarrow> (string \<Rightarrow> nat) \<Rightarrow> 'v injector \<Rightarrow> bool" where
  "plan_ok ps N deps val rank s \<longleftrightarrow>
     (\<forall>n\<in>N. map_of (i_cache s) n = Some (Instance (val n)) \<or>
        (map_of (i_cache s) n = None \<or> map_of (i_cache s) n = Some Instantiating) \<and>
        (\<exists>f. map_of ps n = Some f \<and> f_inject f = map Token (deps n) \<and> f_body f (map val (deps n)) = Return (val n)) \<and>
        (\<forall>m\<in>set (deps n). m \<in> N \<and> rank m < rank n))"

text \<open>A state in which the services of rank below \<open>r\<close> can be made with \<open>d\<close> levels.\<close>

definition ready :: "'v providers \<Rightarrow> string set \<Rightarrow> (string \<Rightarrow> string list) \<Rightarrow> (string \<Rightarrow> 'v) \<Rightarrow> (string \<Rightarrow> nat) \<Rightarrow> nat \<Rightarrow> nat \<Rightarrow> 'v injector \<Rightarrow> bool" where
  "ready ps N deps val rank d r s \<longleftrightarrow> inj_ok s \<and> plan_ok ps N deps val rank s \<and> card (unmade ps s) < d \<and>
     (\<forall>m\<in>N. rank m < r \<longrightarrow> map_of (i_cache s) m \<noteq> Some Instantiating)"

lemma ready_step:
  assumes "ready ps N deps val rank d r s" "step_ok s s'" "plan_ok ps N deps val rank s'"
  shows "ready ps N deps val rank d r s'"
proof -
  have ok: "inj_ok s" "inj_ok s'" "inj_keeps s s'" using assms(1,2) by (auto simp: ready_def step_ok_def)
  have "marked s' = marked s" using ok by (simp add: inj_ok_def inj_keeps_def)
  then have "map_of (i_cache s') m = Some Instantiating \<longleftrightarrow> map_of (i_cache s) m = Some Instantiating" for m
    by (auto simp: marked_def set_eq_iff)
  moreover have "card (unmade ps s') \<le> card (unmade ps s)" by (rule card_mono [OF finite_unmade unmade_keeps [OF ok]])
  ultimately show ?thesis using assms(1,3) ok by (auto simp: ready_def)
qed

lemma ready_args:
  assumes get: "\<And>m s. m \<in> N \<Longrightarrow> ready ps N deps val rank d (Suc (rank m)) s \<Longrightarrow>
      \<exists>s'. get m s = (Inr (val m), s') \<and> plan_ok ps N deps val rank s'"
    and good: "good_getter get"
  shows "ready ps N deps val rank d r s \<Longrightarrow> \<forall>m\<in>set ms. m \<in> N \<and> rank m < r \<Longrightarrow>
    \<exists>s'. inject_args get [] (map Token ms) s = (Inr (map val ms), s') \<and> plan_ok ps N deps val rank s'"
proof (induction ms arbitrary: s)
  case Nil
  then show ?case by (simp add: ready_def)
next
  case (Cons m ms)
  have "ready ps N deps val rank d (Suc (rank m)) s" using Cons.prems by (auto simp: ready_def)
  moreover have "m \<in> N" using Cons.prems(2) by simp
  ultimately obtain s1 where s1: "get m s = (Inr (val m), s1)" "plan_ok ps N deps val rank s1" by (metis get)
  have "ready ps N deps val rank d r s1" by (rule ready_step [OF Cons.prems(1) good_getterD [OF good s1(1)] s1(2)])
  then obtain s2 where "inject_args get [] (map Token ms) s1 = (Inr (map val ms), s2)" "plan_ok ps N deps val rank s2"
    using Cons.IH Cons.prems(2) by auto
  then show ?case using s1(1) by simp
qed

lemma plan_change:
  assumes "plan_ok ps N deps val rank s" "e = Instance (val n) \<or> e = Instantiating \<and> map_of (i_cache s) n = None"
  shows "plan_ok ps N deps val rank (s\<lparr>i_cache := AList.update n e (i_cache s), i_path := p\<rparr>)"
  using assms unfolding plan_ok_def by (auto simp: update_conv')

lemma acyclic_get:
  "n \<in> N \<Longrightarrow> ready ps N deps val rank d (Suc (rank n)) s \<Longrightarrow>
    \<exists>s'. getService d ps n s = (Inr (val n), s') \<and> plan_ok ps N deps val rank s'"
proof (induction d arbitrary: n s)
  case (Suc d)
  have s: "inj_ok s" "plan_ok ps N deps val rank s" "map_of (i_cache s) n \<noteq> Some Instantiating" "card (unmade ps s) < Suc d"
    using Suc.prems by (auto simp: ready_def)
  show ?case
  proof (cases "map_of (i_cache s) n")
    case None
    then obtain f where f: "map_of ps n = Some f" "f_inject f = map Token (deps n)" "f_body f (map val (deps n)) = Return (val n)"
      and below: "\<forall>m\<in>set (deps n). m \<in> N \<and> rank m < rank n" using s(2) Suc.prems(1) by (auto simp: plan_ok_def)
    define s1 where "s1 = s\<lparr>i_cache := AList.update n Instantiating (i_cache s), i_path := n # i_path s\<rparr>"
    have "n \<in> fst ` set ps" using f(1) by (metis domI dom_map_of_conv_image_fst)
    then have "card (unmade ps s1) < d" using unmade_mark [OF None, of ps "n # i_path s"] s(4) unfolding s1_def by linarith
    moreover have "plan_ok ps N deps val rank s1" unfolding s1_def by (rule plan_change [OF s(2)]) (simp add: None)
    moreover have "map_of (i_cache s1) m \<noteq> Some Instantiating" if "m \<in> N" "rank m < rank n" for m
      using Suc.prems(2) that by (auto simp: ready_def s1_def update_conv')
    ultimately have "ready ps N deps val rank d (rank n) s1"
      using inj_ok_mark [OF s(1) None] by (simp add: ready_def s1_def)
    then obtain s2 where s2: "inject_args (getService d ps) [] (map Token (deps n)) s1 = (Inr (map val (deps n)), s2)"
      "plan_ok ps N deps val rank s2" using ready_args [OF Suc.IH getService_ok _ below] by blast
    let ?s' = "s2\<lparr>i_cache := AList.update n (Instance (val n)) (i_cache s2), i_path := tl (i_path s2)\<rparr>"
    have "make_service ps (getService d ps) n s1 = (Inr (val n), s2)" using f s2(1) by (simp add: make_service_def invoke_def)
    then have "getService (Suc d) ps n s = (Inr (val n), ?s')" using None by (simp add: s1_def finish_def)
    then show ?thesis using plan_change [OF s2(2), of "Instance (val n)" n "tl (i_path s2)"] by blast
  next
    case (Some e)
    then have "e = Instance (val n)" using s(2,3) Suc.prems(1) by (cases e) (auto simp: plan_ok_def)
    then show ?thesis using Some s(2) by simp
  qed
qed (simp add: ready_def)

text \<open>C31: Services whose requirements do not go round are made. When each service of a set is provided with a
  function that names services of a lower rank of the set, or is a constant, the injector of these modules answers
  any sequence of questions for them, in any order, with the values that the functions make of each other.\<close>

theorem acyclic_services_are_made:
  assumes modules: "provide_all rs (new_config self) = Inr c"
    and provided: "\<And>n. n \<in> N \<Longrightarrow> map_of (c_instances c) n = Some (Instance (val n)) \<or>
        map_of (c_instances c) n = None \<and> (\<exists>f. map_of (c_providers c) n = Some f \<and> f_inject f = map Token (deps n) \<and>
          f_body f (map val (deps n)) = Return (val n) \<and> (\<forall>m\<in>set (deps n). m \<in> N \<and> rank m < (rank n :: nat)))"
    and asked: "set ns \<subseteq> N"
  shows "fst (inj_run (c_providers c) (map Ask ns) (instance_injector c)) = map (Inr \<circ> val) ns"
proof -
  let ?ps = "c_providers c"
  have start: "plan_ok ?ps N deps val rank (instance_injector c)" using provided unfolding plan_ok_def instance_injector_def by fastforce
  have run: "fst (inj_run ?ps (map Ask ms) s) = map (Inr \<circ> val) ms"
    if "inj_ok s" "i_path s = []" "plan_ok ?ps N deps val rank s" "set ms \<subseteq> N" for ms s
    using that
  proof (induction ms arbitrary: s)
    case (Cons m ms)
    have "marked s = {}" using Cons.prems by (simp add: inj_ok_def)
    then have "ready ?ps N deps val rank (Suc (length ?ps)) (Suc (rank m)) s"
      using Cons.prems unmade_levels [of ?ps s] by (auto simp: ready_def marked_def)
    then obtain s1 where s1: "inj_get ?ps m s = (Inr (val m), s1)" "plan_ok ?ps N deps val rank s1"
      using acyclic_get Cons.prems(4) unfolding inj_get_def by (metis list.set_intros(1) subsetD)
    have "inj_ok s1" "i_path s1 = []" using good_getterD [OF inj_get_ok s1(1)] Cons.prems(1,2) by (simp_all add: step_ok_def inj_keeps_def)
    then show ?case using Cons.IH [of s1] Cons.prems(4) s1 by (simp add: split_beta)
  qed simp
  show ?thesis by (rule run [OF clean_start [OF modules] _ start asked]) (simp add: instance_injector_def)
qed

definition demo_values :: "(string \<times> int recipe) list" where
  "demo_values = [(''base'', RValue 10), (''max'', RConstant 7),
     (''api'', RFactory \<lparr>f_inject = [Token ''base'', Token ''max''], f_body = (\<lambda>vs. Return (sum_list vs))\<rparr>)]"

lemma acyclic_services_are_made_witness:
  "\<exists>c. provide_all demo_values (new_config 0) = Inr c \<and>
     fst (inj_run (c_providers c) (map Ask [''api'', ''base'', ''api'']) (instance_injector c)) = [Inr 17, Inr 10, Inr 17]"
proof -
  let ?val = "\<lambda>n. if n = ''api'' then 17 else if n = ''max'' then 7 else 10"
  let ?deps = "\<lambda>n. if n = ''api'' then [''base'', ''max''] else []"
  define c where "c = \<lparr>c_providers = [(''base'', value_fn (10::int)), (''api'', \<lparr>f_inject = [Token ''base'', Token ''max''], f_body = (\<lambda>vs. Return (sum_list vs))\<rparr>)],
     c_instances = [(''$injector'', Instance 0), (''max'', Instance 7)]\<rparr>"
  have c: "provide_all demo_values (new_config 0) = Inr c"
    by (simp add: demo_values_def provide_def provider_def new_config_def c_def)
  have "fst (inj_run (c_providers c) (map Ask [''api'', ''base'', ''api'']) (instance_injector c)) = map (Inr \<circ> ?val) [''api'', ''base'', ''api'']"
    by (rule acyclic_services_are_made [OF c, of "{''api'', ''base'', ''max''}" ?val ?deps "\<lambda>n. if n = ''api'' then 1 else 0"])
      (auto simp: c_def value_fn_def)
  then show ?thesis using c by auto
qed

end
