(* ===== verification/Ng_Module_Props.thy ===== *)
theory Ng_Module_Props
  imports Ng_Injector
begin

text \<open>
  The order in which modules are loaded: the modules that are reached by requirements, each once, and
  each after what it requires.
\<close>

section \<open>Requirements\<close>

definition requires :: "('a, 'r) modules \<Rightarrow> (module_ref \<times> module_ref) set" where
  "requires ms = {(m, r). \<exists>n md. m = Named n \<and> map_of ms n = Some md \<and> r \<in> set (m_requires md)}"

lemma requires_Named: "map_of ms n = Some md \<Longrightarrow> (Named n, r) \<in> requires ms \<longleftrightarrow> r \<in> set (m_requires md)"
  and requires_Fn [simp]: "(ModuleFn i, r) \<notin> requires ms"
  by (simp_all add: requires_def)

text \<open>What one module does when its turn comes, and a list of modules in turn.\<close>

definition load_one :: "('a, 'r, 's, 'e) load_env \<Rightarrow> module_ref \<Rightarrow> 's \<Rightarrow> 'e load_error + 'r list \<times> 's" where
  "load_one env m st = (case m of
     Named n \<Rightarrow> (case map_of (l_modules env) n of
        None \<Rightarrow> Inl (NoModule n)
      | Some md \<Rightarrow> (case run_queue (l_call env) (m_invokeQueue md) st of
          Inl e \<Rightarrow> Inl (ModuleThrew e) | Inr st1 \<Rightarrow> Inr (m_runBlocks md, st1)))
   | ModuleFn i \<Rightarrow> (case l_fn env i st of Inl e \<Rightarrow> Inl (ModuleThrew e) | Inr (rb, st1) \<Rightarrow> Inr ([rb], st1)))"

fun load_in_order :: "('a, 'r, 's, 'e) load_env \<Rightarrow> module_ref list \<Rightarrow> 's \<Rightarrow> 'e load_error + 'r list \<times> 's" where
  "load_in_order env [] st = Inr ([], st)"
| "load_in_order env (m # ms) st = (case load_one env m st of Inl e \<Rightarrow> Inl e | Inr (rbs, st1) \<Rightarrow>
     (case load_in_order env ms st1 of Inl e \<Rightarrow> Inl e | Inr (rbs', st2) \<Rightarrow> Inr (rbs @ rbs', st2)))"

lemma load_in_order_append:
  "load_in_order env xs st = Inr (rbs, st1) \<Longrightarrow> load_in_order env ys st1 = Inr (rbs', st2) \<Longrightarrow>
    load_in_order env (xs @ ys) st = Inr (rbs @ rbs', st2)"
  by (induction xs arbitrary: st rbs) (auto split: sum.splits prod.splits)

text \<open>Every requirement comes before, unless it is one that goes round.\<close>

primrec in_order :: "(module_ref \<times> module_ref) set \<Rightarrow> module_ref set \<Rightarrow> module_ref list \<Rightarrow> bool" where
  "in_order R seen [] = True"
| "in_order R seen (m # ms) \<longleftrightarrow> (\<forall>r. (m, r) \<in> R \<longrightarrow> r \<in> seen \<or> (r, m) \<in> R\<^sup>*) \<and> in_order R (insert m seen) ms"

lemma in_order_append: "in_order R seen (xs @ ys) \<longleftrightarrow> in_order R seen xs \<and> in_order R (seen \<union> set xs) ys"
  by (induction xs arbitrary: seen) simp_all

lemma in_order_forget:
  "in_order R (insert m seen) ms \<Longrightarrow> \<forall>x\<in>set ms. (m, x) \<in> R\<^sup>* \<Longrightarrow> in_order R seen ms"
proof (induction ms arbitrary: seen)
  case (Cons x ms)
  then show ?case by (simp add: insert_commute) blast
qed simp

section \<open>One module\<close>

definition load_module :: "nat \<Rightarrow> ('a, 'r, 's, 'e) load_env \<Rightarrow> module_ref \<Rightarrow> module_ref list \<Rightarrow> 's \<Rightarrow>
    'e load_error + 'r list \<times> module_ref list \<times> 's" where
  "load_module d env m ld st = (case m of
     Named name \<Rightarrow> (case map_of (l_modules env) name of
       None \<Rightarrow> Inl (NoModule name)
     | Some md \<Rightarrow> (case d of
         0 \<Rightarrow> Inl LoadFuel
       | Suc d' \<Rightarrow> (case loadModules d' env (m_requires md) (m # ld) st of
           Inl e \<Rightarrow> Inl e
         | Inr (rbs, ld1, st1) \<Rightarrow> (case run_queue (l_call env) (m_invokeQueue md) st1 of
             Inl e \<Rightarrow> Inl (ModuleThrew e)
           | Inr st2 \<Rightarrow> Inr (rbs @ m_runBlocks md, ld1, st2)))))
   | ModuleFn i \<Rightarrow> (case l_fn env i st of
       Inl e \<Rightarrow> Inl (ModuleThrew e) | Inr (rb, st1) \<Rightarrow> Inr ([rb], m # ld, st1)))"

lemma loadModules_Cons:
  "loadModules d env (m # ms) ld st =
     (if m \<in> set ld then loadModules d env ms ld st
      else case load_module d env m ld st of
        Inl e \<Rightarrow> Inl (ModulErr m e)
      | Inr (rbs, ld1, st1) \<Rightarrow> (case loadModules d env ms ld1 st1 of
          Inl e \<Rightarrow> Inl e | Inr (rbs', ld2, st2) \<Rightarrow> Inr (rbs @ rbs', ld2, st2)))"
  by (subst loadModules.simps) (simp only: load_module_def)

declare loadModules.simps(2) [simp del]

section \<open>A successful load\<close>

definition loads :: "('a, 'r, 's, 'e) load_env \<Rightarrow> module_ref list \<Rightarrow> module_ref list \<Rightarrow> 's \<Rightarrow> 'r list \<Rightarrow> module_ref list \<Rightarrow> 's \<Rightarrow> module_ref list \<Rightarrow> bool" where
  "loads env ms ld st rbs ld' st' order \<longleftrightarrow>
     distinct order \<and> set order \<inter> set ld = {} \<and> set ld' = set ld \<union> set order \<and> set ms \<subseteq> set ld' \<and>
     (\<forall>x\<in>set order. \<exists>m\<in>set ms. (m, x) \<in> (requires (l_modules env))\<^sup>*) \<and>
     (\<forall>x\<in>set order. \<forall>r. (x, r) \<in> requires (l_modules env) \<longrightarrow> r \<in> set ld') \<and>
     load_in_order env order st = Inr (rbs, st') \<and> in_order (requires (l_modules env)) (set ld) order"

lemma loads_one:
  assumes inner: "loads env (m_requires md) (Named n # ld) st rbs ld1 st1 order"
    and md: "map_of (l_modules env) n = Some md" and new: "Named n \<notin> set ld"
    and queue: "run_queue (l_call env) (m_invokeQueue md) st1 = Inr st2"
  shows "loads env [Named n] ld st (rbs @ m_runBlocks md) ld1 st2 (order @ [Named n])"
proof -
  let ?R = "requires (l_modules env)"
  note i = inner [unfolded loads_def]
  have reach: "\<forall>x\<in>set order. (Named n, x) \<in> ?R\<^sup>*"
    using i requires_Named [OF md] by (meson converse_rtrancl_into_rtrancl)
  have "load_in_order env (order @ [Named n]) st = Inr (rbs @ m_runBlocks md, st2)"
    by (rule load_in_order_append) (use i md queue in \<open>auto simp: load_one_def\<close>)
  moreover have "in_order ?R (set ld) (order @ [Named n])"
    using in_order_forget [of ?R "Named n" "set ld" order] i reach requires_Named [OF md] by (auto simp: in_order_append)
  moreover have "\<forall>x\<in>set (order @ [Named n]). \<forall>r. (x, r) \<in> ?R \<longrightarrow> r \<in> set ld1" using i requires_Named [OF md] by auto
  ultimately show ?thesis using i new reach unfolding loads_def by auto
qed

lemma loads_seq:
  assumes first: "loads env [m] ld st rbs ld1 st1 o1" and rest: "loads env ms ld1 st1 rbs' ld2 st2 o2"
  shows "loads env (m # ms) ld st (rbs @ rbs') ld2 st2 (o1 @ o2)"
  using assms unfolding loads_def by (auto simp: in_order_append intro: load_in_order_append)

lemma loads_known: "loads env ms ld st rbs ld' st' order \<Longrightarrow> m \<in> set ld \<Longrightarrow> loads env (m # ms) ld st rbs ld' st' order"
  by (auto simp: loads_def)

lemma load_module_loads:
  assumes IH: "\<And>d' ms ld st rbs ld' st'. d = Suc d' \<Longrightarrow> loadModules d' env ms ld st = Inr (rbs, ld', st') \<Longrightarrow>
      \<exists>order. loads env ms ld st rbs ld' st' order"
    and load: "load_module d env m ld st = Inr (rbs, ld', st')" and new: "m \<notin> set ld"
  shows "\<exists>order. loads env [m] ld st rbs ld' st' order"
proof (cases m)
  case (Named n)
  then obtain md d' rbs0 st1 where m: "map_of (l_modules env) n = Some md" "d = Suc d'"
      "loadModules d' env (m_requires md) (Named n # ld) st = Inr (rbs0, ld', st1)"
      "run_queue (l_call env) (m_invokeQueue md) st1 = Inr st'" "rbs = rbs0 @ m_runBlocks md"
    using load by (auto simp: load_module_def split: option.splits nat.splits sum.splits)
  obtain order where "loads env (m_requires md) (Named n # ld) st rbs0 ld' st1 order" using IH [OF m(2,3)] by blast
  from loads_one [OF this m(1) _ m(4)] new Named m(5) show ?thesis by blast
next
  case (ModuleFn i)
  then obtain rb where "l_fn env i st = Inr (rb, st')" "rbs = [rb]" "ld' = m # ld"
    using load by (auto simp: load_module_def split: sum.splits)
  then have "loads env [m] ld st rbs ld' st' [m]" using new ModuleFn by (simp add: loads_def load_one_def)
  then show ?thesis ..
qed

lemma loadModules_loads:
  "loadModules d env ms ld st = Inr (rbs, ld', st') \<Longrightarrow> \<exists>order. loads env ms ld st rbs ld' st' order"
proof (induction d arbitrary: ms ld st rbs ld' st' rule: less_induct)
  case (less d)
  show ?case using less.prems
  proof (induction ms arbitrary: ld st rbs)
    case Nil
    then show ?case by (intro exI [of _ "[]"]) (simp add: loads_def)
  next
    case (Cons m ms)
    show ?case
    proof (cases "m \<in> set ld")
      case True
      then have "loadModules d env ms ld st = Inr (rbs, ld', st')" using Cons.prems by (simp add: loadModules_Cons)
      then obtain order where "loads env ms ld st rbs ld' st' order" using Cons.IH by blast
      from loads_known [OF this True] show ?thesis ..
    next
      case False
      then obtain rbs1 ld1 st1 rbs2 where m: "load_module d env m ld st = Inr (rbs1, ld1, st1)"
          "loadModules d env ms ld1 st1 = Inr (rbs2, ld', st')" "rbs = rbs1 @ rbs2"
        using Cons.prems by (auto simp: loadModules_Cons split: sum.splits)
      have "\<exists>o1. loads env [m] ld st rbs1 ld1 st1 o1"
        by (rule load_module_loads [OF _ m(1) False]) (rule less.IH, auto)
      then obtain o1 where o1: "loads env [m] ld st rbs1 ld1 st1 o1" ..
      obtain o2 where o2: "loads env ms ld1 st1 rbs2 ld' st' o2" using Cons.IH [OF m(2)] ..
      show ?thesis unfolding m(3) by (rule exI, rule loads_seq [OF o1 o2])
    qed
  qed
qed

section \<open>Errors and levels\<close>

fun root_cause :: "'e load_error \<Rightarrow> 'e load_error" where
  "root_cause (ModulErr m e) = root_cause e"
| "root_cause e = e"

definition to_load :: "('a, 'r) modules \<Rightarrow> module_ref list \<Rightarrow> string set" where
  "to_load ms ld = {n \<in> fst ` set ms. Named n \<notin> set ld}"

lemma finite_to_load [simp]: "finite (to_load ms ld)"
  by (simp add: to_load_def)

definition load_error_ok :: "('a, 'r, 's, 'e) load_env \<Rightarrow> module_ref list \<Rightarrow> 'e load_error \<Rightarrow> bool" where
  "load_error_ok env ms e \<longleftrightarrow> (case root_cause e of
     NoModule n \<Rightarrow> map_of (l_modules env) n = None \<and> (\<exists>m\<in>set ms. (m, Named n) \<in> (requires (l_modules env))\<^sup>*)
   | ModuleThrew x \<Rightarrow> True
   | _ \<Rightarrow> False)"

lemma load_module_error:
  assumes IH: "\<And>d' ms ld e. d = Suc d' \<Longrightarrow> card (to_load (l_modules env) ld) \<le> d' \<Longrightarrow> loadModules d' env ms ld st = Inl e \<Longrightarrow>
      load_error_ok env ms e"
    and load: "load_module d env m ld st = Inl e" and new: "m \<notin> set ld" and fuel: "card (to_load (l_modules env) ld) \<le> d"
  shows "load_error_ok env [m] e"
proof (cases m)
  case (Named n)
  show ?thesis
  proof (cases "map_of (l_modules env) n")
    case None
    then show ?thesis using load Named by (auto simp: load_module_def load_error_ok_def)
  next
    case (Some md)
    have "n \<in> to_load (l_modules env) ld" using Some new Named by (auto simp: to_load_def dest: map_of_SomeD intro: rev_image_eqI)
    moreover have "to_load (l_modules env) (Named n # ld) = to_load (l_modules env) ld - {n}" by (auto simp: to_load_def)
    ultimately have c: "card (to_load (l_modules env) (Named n # ld)) < card (to_load (l_modules env) ld)"
      by (simp only: card_Diff1_less finite_to_load)
    with fuel obtain d' where d: "d = Suc d'" "card (to_load (l_modules env) (Named n # ld)) \<le> d'" by (cases d) auto
    show ?thesis
    proof (cases "loadModules d' env (m_requires md) (Named n # ld) st")
      case (Inl e')
      then have "load_error_ok env (m_requires md) e'" by (rule IH [OF d])
      moreover have "e = e'" using load Named Some d Inl by (simp add: load_module_def)
      moreover have "\<exists>r\<in>set (m_requires md). (r, x) \<in> (requires (l_modules env))\<^sup>* \<Longrightarrow> (m, x) \<in> (requires (l_modules env))\<^sup>*" for x
        using requires_Named [OF Some] Named by (meson converse_rtrancl_into_rtrancl)
      ultimately show ?thesis by (auto simp: load_error_ok_def split: load_error.splits)
    next
      case (Inr r)
      obtain rbs ld1 st1 where "r = (rbs, ld1, st1)" by (cases r)
      then show ?thesis using Inr load Named Some d by (auto simp: load_module_def load_error_ok_def split: sum.splits)
    qed
  qed
next
  case (ModuleFn i)
  then show ?thesis using load by (auto simp: load_module_def load_error_ok_def split: sum.splits)
qed

lemma loadModules_error:
  "card (to_load (l_modules env) ld) \<le> d \<Longrightarrow> loadModules d env ms ld st = Inl e \<Longrightarrow> load_error_ok env ms e"
proof (induction d arbitrary: ms ld st e rule: less_induct)
  case (less d)
  show ?case using less.prems
  proof (induction ms arbitrary: ld st)
    case (Cons m ms)
    have more: "load_error_ok env ms e \<Longrightarrow> load_error_ok env (m # ms) e"
      by (auto simp: load_error_ok_def split: load_error.splits)
    show ?case
    proof (cases "m \<in> set ld")
      case True
      then show ?thesis using Cons more by (auto simp: loadModules_Cons)
    next
      case False
      show ?thesis
      proof (cases "load_module d env m ld st")
        case (Inl e')
        have "load_error_ok env [m] e'" by (rule load_module_error [OF _ Inl False Cons.prems(1)]) (use less.IH in blast)
        moreover have "e = ModulErr m e'" using Cons.prems(2) False Inl by (simp add: loadModules_Cons)
        ultimately show ?thesis by (auto simp: load_error_ok_def split: load_error.splits)
      next
        case (Inr x)
        obtain rbs ld1 st1 where x: "x = (rbs, ld1, st1)" by (cases x)
        have "\<exists>order. loads env [m] ld st rbs ld1 st1 order"
          by (rule load_module_loads [OF loadModules_loads Inr [unfolded x] False])
        then obtain order where "loads env [m] ld st rbs ld1 st1 order" ..
        then have "to_load (l_modules env) ld1 \<subseteq> to_load (l_modules env) ld" by (auto simp: loads_def to_load_def)
        then have "card (to_load (l_modules env) ld1) \<le> d" using Cons.prems(1) card_mono [OF finite_to_load] le_trans by blast
        moreover have "loadModules d env ms ld1 st1 = Inl e"
          using Cons.prems(2) False Inr x by (auto simp: loadModules_Cons split: sum.splits)
        ultimately show ?thesis using Cons.IH more by blast
      qed
    qed
  qed simp
qed

section \<open>The modules of an application\<close>

lemma reached_closed:
  assumes "m \<in> A" "(m, x) \<in> R\<^sup>*" "\<forall>y\<in>A. \<forall>r. (y, r) \<in> R \<longrightarrow> r \<in> A"
  shows "x \<in> A"
  using assms(2) by (induction rule: rtrancl_induct) (use assms in auto)

lemma in_orderD: "in_order R seen (xs @ m # ys) \<Longrightarrow> (m, r) \<in> R \<Longrightarrow> r \<in> seen \<or> r \<in> set xs \<or> (r, m) \<in> R\<^sup>*"
  by (auto simp: in_order_append)

text \<open>C30: Loading modules. When it succeeds, the modules that were loaded are exactly those that the list reaches
  through requirements; each was loaded once, and the effect on the injector and the list of run
  blocks are those of loading them one by one in some order in which a module stands after everything
  it requires, unless that requires the module itself. When it fails, the reason is that a module which the list
  reaches was never defined, or that a provider or a function of a module threw; the depth of the model is always enough.\<close>

theorem modules_load_in_order:
  "case load_all env ms st of
     Inr (rbs, ld, st') \<Rightarrow> set ld = (requires (l_modules env))\<^sup>* `` set ms \<and>
       (\<exists>order. distinct order \<and> set order = set ld \<and> load_in_order env order st = Inr (rbs, st') \<and>
          (\<forall>xs m ys r. order = xs @ m # ys \<longrightarrow> (m, r) \<in> requires (l_modules env) \<longrightarrow>
             r \<in> set xs \<or> (r, m) \<in> (requires (l_modules env))\<^sup>*))
   | Inl e \<Rightarrow> (\<exists>x. root_cause e = ModuleThrew x) \<or>
       (\<exists>n. root_cause e = NoModule n \<and> map_of (l_modules env) n = None \<and> Named n \<in> (requires (l_modules env))\<^sup>* `` set ms)"
proof (cases "load_all env ms st")
  case (Inl e)
  have "to_load (l_modules env) [] = fst ` set (l_modules env)" by (auto simp: to_load_def)
  then have "card (to_load (l_modules env) []) \<le> length (l_modules env)" by (metis card_length length_map set_map)
  then have "load_error_ok env ms e" by (rule loadModules_error [OF _ Inl [unfolded load_all_def]])
  then show ?thesis using Inl by (auto simp: load_error_ok_def split: load_error.splits)
next
  case (Inr x)
  obtain rbs ld st' where x: "x = (rbs, ld, st')" by (cases x)
  let ?R = "requires (l_modules env)"
  obtain order where o: "loads env ms [] st rbs ld st' order"
    using loadModules_loads [OF Inr [unfolded x load_all_def]] ..
  then have ld: "set ld = set order" "set ms \<subseteq> set ld" and closed: "\<forall>x\<in>set ld. \<forall>r. (x, r) \<in> ?R \<longrightarrow> r \<in> set ld"
    by (auto simp: loads_def)
  have "set ld = ?R\<^sup>* `` set ms"
  proof
    show "set ld \<subseteq> ?R\<^sup>* `` set ms" using o by (auto simp: loads_def)
    show "?R\<^sup>* `` set ms \<subseteq> set ld" using reached_closed [OF _ _ closed] ld(2) by blast
  qed
  moreover have "r \<in> set xs \<or> (r, m) \<in> ?R\<^sup>*" if "order = xs @ m # ys" "(m, r) \<in> ?R" for xs m ys r
    using in_orderD [of ?R "{}" xs m ys r] o that by (auto simp: loads_def)
  moreover have "distinct order" "load_in_order env order st = Inr (rbs, st')" using o by (simp_all add: loads_def)
  ultimately show ?thesis unfolding Inr x sum.case prod.case using ld(1) by (intro conjI exI [of _ order]) auto
qed

text \<open>Some of the modules of the console, with one call of a provider for each.\<close>

definition provides :: "string \<Rightarrow> string \<Rightarrow> module_ref list \<Rightarrow> nat list \<Rightarrow> string \<Rightarrow> string \<times> (string, nat) module_def" where
  "provides n p rs bs a = (n, \<lparr>m_requires = rs, m_invokeQueue = [\<lparr>q_provider = p, q_method = ''register'', q_args = a\<rparr>], m_runBlocks = bs\<rparr>)"

definition console_env :: "(string, nat, string list, nat) load_env" where
  "console_env = \<lparr>l_modules =
      [provides ''ng'' ''$provide'' [] [] ''$http'',
       provides ''ngResource'' ''$provide'' [Named ''ng''] [] ''$resource'',
       provides ''ui.bootstrap'' ''$provide'' [] [] ''$modal'',
       provides ''skytimeControllers'' ''$controllerProvider'' [Named ''ui.bootstrap'', Named ''ngResource''] [1] ''skytimeOverviewCtl''],
    l_call = (\<lambda>c st. Inr (st @ [q_args c])), l_fn = (\<lambda>_ st. Inr (0, st))\<rparr>"

lemma console_loaded:
  "load_all console_env [Named ''ng'', Named ''skytimeControllers''] [] =
    Inr ([1], [Named ''ngResource'', Named ''ui.bootstrap'', Named ''skytimeControllers'', Named ''ng''],
      [''$http'', ''$modal'', ''$resource'', ''skytimeOverviewCtl''])"
  by code_simp

lemma modules_load_in_order_witness:
  "(requires (l_modules console_env))\<^sup>* `` set [Named ''ng'', Named ''skytimeControllers''] =
    set [Named ''ngResource'', Named ''ui.bootstrap'', Named ''skytimeControllers'', Named ''ng'']"
  using modules_load_in_order [of console_env "[Named ''ng'', Named ''skytimeControllers'']" "[]"]
  unfolding console_loaded sum.case prod.case by (rule sym [OF conjunct1])

end
